(* ===== verification/SRT_Prelude.thy ===== *)
theory SRT_Prelude
  imports Main "HOL-Library.Word"
begin

unbundle bit_operations_syntax

text \<open>
  Shared ground of the development: the machine integer types of the sources, the error
  enumeration of \<^verbatim>\<open>error.hpp\<close>, the two interfaces that several components rely on
  (serial-number arithmetic and ring storage) as locales, and generic lemmas on words,
  bytes and lists.

  Conventions used by every component theory:
  \<^item> \<open>std::uint8_t\<close> \dots \<open>std::uint64_t\<close> are words of that width, so that \<open>+\<close>, \<open>-\<close> and
    \<open>*\<close> wrap exactly where the C++ wraps; \<open>std::int32_t\<close> and \<open>std::int64_t\<close> values whose
    computation cannot leave the type are \<open>int\<close>.
  \<^item> \<open>std::size_t\<close> indices and counters over a preallocated vector are \<open>nat\<close>: they are
    bounded by the vector's length, which the constructors keep below \<open>2^30\<close>.
  \<^item> A \<open>std::span<const std::byte>\<close> is a list of bytes. A writable destination span is a
    list that the operation takes and returns, so that what it leaves untouched is visible.
\<close>

section \<open>Types and collections\<close>

type_synonym u8 = "8 word"
type_synonym u16 = "16 word"
type_synonym u32 = "32 word"
type_synonym u64 = "64 word"
type_synonym bytes = "u8 list"

named_theorems seq_simps \<open>distances and successors of serial numbers\<close>
named_theorems ring_simps \<open>reading and writing ring storage\<close>
named_theorems wire_simps \<open>reading and writing big-endian wire words\<close>

text \<open>\<^verbatim>\<open>enum class Error\<close>: \<^verbatim>\<open>Error::none\<close> is a value of the enumeration, as in the source.\<close>

datatype Error =
    Error_none
  | buffer_too_small
  | packet_too_short
  | invalid_packet_type
  | invalid_control_type
  | invalid_control_payload
  | invalid_handshake_size
  | invalid_handshake_value
  | invalid_extension
  | invalid_state
  | io_error
  | would_block
  | unsupported
  | invalid_key_material
  | cryptographic_failure
  | authentication_failure
  | invalid_payload_size

text \<open>\<^verbatim>\<open>packet.hpp\<close>: the largest body of a data packet.\<close>

abbreviation (input) maximum_data_payload_size :: nat where
  "maximum_data_payload_size \<equiv> 1456"

section \<open>Serial-number arithmetic\<close>

text \<open>
  Sequence numbers and packet timestamps are both residues modulo \<open>2 * half\<close> that the code
  compares through a signed distance. The locale states what the two classes of
  \<^verbatim>\<open>sequence.hpp\<close> have in common; everything the buffers and timers need of wrap-around is
  derived here once.
\<close>

locale serial_arith =
  fixes val :: "'s \<Rightarrow> int"
    and dist :: "'s \<Rightarrow> 's \<Rightarrow> int"
    and adv :: "'s \<Rightarrow> int \<Rightarrow> 's"
    and half :: int
  assumes half_pos: "0 < half"
    and val_range: "0 \<le> val s" "val s < 2 * half"
    and val_inject: "val s = val t \<Longrightarrow> s = t"
    and dist_val: "dist s t = (val s - val t + half) mod (2 * half) - half"
    and val_adv: "val (adv s n) = (val s + n) mod (2 * half)"
begin

lemma dist_lower: "- half \<le> dist s t"
  using half_pos by (simp add: dist_val)

lemma dist_upper: "dist s t < half"
proof -
  have "(val s - val t + half) mod (2 * half) < 2 * half"
    using half_pos by (intro pos_mod_bound) simp
  then show ?thesis by (simp add: dist_val)
qed

lemma dist_mod: "dist s t mod (2 * half) = (val s - val t) mod (2 * half)"
proof -
  have "dist s t mod (2 * half) = ((val s - val t + half) mod (2 * half) - half) mod (2 * half)"
    by (simp add: dist_val)
  also have "\<dots> = (val s - val t + half - half) mod (2 * half)"
    by (rule mod_diff_left_eq)
  finally show ?thesis by simp
qed

lemma dist_unique:
  assumes "- half \<le> d" "d < half" "d mod (2 * half) = (val s - val t) mod (2 * half)"
  shows "dist s t = d"
proof -
  have "(val s - val t + half) mod (2 * half) = ((val s - val t) mod (2 * half) + half) mod (2 * half)"
    by (simp add: mod_add_left_eq)
  also have "\<dots> = (d + half) mod (2 * half)"
    by (simp add: assms(3) [symmetric] mod_add_left_eq)
  also have "\<dots> = d + half"
    using assms(1,2) half_pos by (intro mod_pos_pos_trivial) auto
  finally show ?thesis by (simp add: dist_val)
qed

lemma dist_self [simp]: "dist s s = 0"
  using half_pos by (intro dist_unique) auto

lemma dist_zero_iff: "dist s t = 0 \<longleftrightarrow> s = t"
proof
  assume "dist s t = 0"
  then have "(val s - val t) mod (2 * half) = 0" using dist_mod [of s t] by simp
  then have "val s mod (2 * half) = val t mod (2 * half)"
    by (simp add: mod_eq_dvd_iff dvd_eq_mod_eq_0)
  then show "s = t"
    using val_range [of s] val_range [of t] by (intro val_inject) simp
qed simp

text \<open>Distances measured from a common origin subtract, unless the difference itself wraps.\<close>

lemma dist_rebase:
  assumes "- half \<le> dist s b - dist t b" "dist s b - dist t b < half"
  shows "dist s t = dist s b - dist t b"
proof (rule dist_unique [OF assms])
  have "(dist s b - dist t b) mod (2 * half)
      = (dist s b mod (2 * half) - dist t b mod (2 * half)) mod (2 * half)"
    by (simp add: mod_diff_eq)
  also have "\<dots> = ((val s - val b) - (val t - val b)) mod (2 * half)"
    by (simp only: dist_mod mod_diff_eq)
  finally show "(dist s b - dist t b) mod (2 * half) = (val s - val t) mod (2 * half)"
    by simp
qed

lemma dist_window:
  assumes "0 \<le> dist s b" "0 \<le> dist t b"
  shows "dist s t = dist s b - dist t b"
  using assms dist_upper [of s b] dist_upper [of t b] by (intro dist_rebase) auto

lemma dist_inject: "dist s b = dist t b \<Longrightarrow> s = t"
  using dist_rebase [of s b t] half_pos by (simp add: dist_zero_iff)

lemma dist_adv_gen:
  assumes "- half \<le> dist s b + n" "dist s b + n < half"
  shows "dist (adv s n) b = dist s b + n"
proof (rule dist_unique [OF assms])
  have "(dist s b + n) mod (2 * half) = (dist s b mod (2 * half) + n) mod (2 * half)"
    by (simp add: mod_add_left_eq)
  also have "\<dots> = ((val s - val b) + n) mod (2 * half)"
    by (simp only: dist_mod mod_add_left_eq)
  also have "\<dots> = (val s + n - val b) mod (2 * half)"
    by (simp add: algebra_simps)
  also have "\<dots> = (val (adv s n) - val b) mod (2 * half)"
    by (simp add: val_adv mod_diff_left_eq)
  finally show "(dist s b + n) mod (2 * half) = (val (adv s n) - val b) mod (2 * half)" .
qed

lemma dist_adv: "- half \<le> n \<Longrightarrow> n < half \<Longrightarrow> dist (adv s n) s = n"
  using dist_adv_gen [of s s n] by simp

lemma adv_adv: "adv (adv s m) n = adv s (m + n)"
  by (rule val_inject) (simp add: val_adv mod_add_left_eq add.assoc)

lemma adv_zero [simp]: "adv s 0 = s"
  using val_range [of s] by (intro val_inject) (simp add: val_adv)

lemma adv_dist: "adv b (dist s b) = s"
proof (rule val_inject)
  have "val (adv b (dist s b)) = (val b + dist s b mod (2 * half)) mod (2 * half)"
    by (simp add: val_adv mod_add_right_eq)
  also have "\<dots> = (val b + (val s - val b)) mod (2 * half)"
    by (simp only: dist_mod mod_add_right_eq)
  finally show "val (adv b (dist s b)) = val s"
    using val_range [of s] by simp
qed

lemma adv_eq_iff:
  assumes "- half \<le> m" "m < half" "- half \<le> n" "n < half"
  shows "adv s m = adv s n \<longleftrightarrow> m = n"
proof
  assume "adv s m = adv s n"
  then have "dist (adv s m) s = dist (adv s n) s" by (rule arg_cong)
  then show "m = n" by (simp only: dist_adv [OF assms(1,2)] dist_adv [OF assms(3,4)])
qed simp

lemma dist_antisym: "dist s t \<noteq> - half \<Longrightarrow> dist t s = - dist s t"
  using dist_rebase [of t t s] dist_lower [of s t] dist_upper [of s t] by simp

lemma dist_adv_right:
  assumes "- half \<le> dist s b - n" "dist s b - n < half"
  shows "dist s (adv b n) = dist s b - n"
proof (rule dist_unique [OF assms])
  have "(dist s b - n) mod (2 * half) = (dist s b mod (2 * half) - n) mod (2 * half)"
    by (simp add: mod_diff_left_eq)
  also have "\<dots> = (val s - val b - n) mod (2 * half)"
    by (simp only: dist_mod mod_diff_left_eq)
  also have "\<dots> = (val s - (val b + n)) mod (2 * half)"
    by (simp add: algebra_simps)
  also have "\<dots> = (val s - val (adv b n)) mod (2 * half)"
    by (simp add: val_adv mod_diff_right_eq)
  finally show "(dist s b - n) mod (2 * half) = (val s - val (adv b n)) mod (2 * half)" .
qed

end

section \<open>Ring storage\<close>

text \<open>
  The windows, buffers and queues keep a fixed vector and address it as
  \<^verbatim>\<open>slots_[(head_ + offset) % slots_.size()]\<close>. \<open>ring_view\<close> is the logical content of such
  a ring: the slots at offsets \<open>0, \<dots>, n - 1\<close> from the head.
\<close>

definition ring_at :: "'a list \<Rightarrow> nat \<Rightarrow> nat \<Rightarrow> 'a" where
  "ring_at slots head i = slots ! ((head + i) mod length slots)"

definition ring_put :: "'a list \<Rightarrow> nat \<Rightarrow> nat \<Rightarrow> 'a \<Rightarrow> 'a list" where
  "ring_put slots head i x = slots[(head + i) mod length slots := x]"

definition ring_view :: "'a list \<Rightarrow> nat \<Rightarrow> nat \<Rightarrow> 'a list" where
  "ring_view slots head n = map (ring_at slots head) [0..<n]"

lemma length_ring_view [simp, ring_simps]: "length (ring_view slots head n) = n"
  by (simp add: ring_view_def)

lemma nth_ring_view [simp, ring_simps]: "i < n \<Longrightarrow> ring_view slots head n ! i = ring_at slots head i"
  by (simp add: ring_view_def)

lemma ring_view_0 [simp]: "ring_view slots head 0 = []"
  by (simp add: ring_view_def)

lemma length_ring_put [simp, ring_simps]: "length (ring_put slots head i x) = length slots"
  by (simp add: ring_put_def)

lemma ring_index_inject:
  fixes cap :: nat
  assumes "i < cap" "j < cap"
  shows "(head + i) mod cap = (head + j) mod cap \<longleftrightarrow> i = j"
proof
  assume eq: "(head + i) mod cap = (head + j) mod cap"
  have "i = j" if "i \<le> j" "(head + i) mod cap = (head + j) mod cap" "j < cap" for i j :: nat
  proof -
    from that(1,2) have "cap dvd (head + j) - (head + i)"
      by (metis mod_eq_dvd_iff_nat nat_add_left_cancel_le)
    with that show "i = j" by (auto dest: dvd_imp_le)
  qed
  from this [of i j] this [of j i] eq assms show "i = j"
    by (cases "i \<le> j") auto
qed simp

lemma ring_at_put [ring_simps]:
  assumes "i < length slots" "j < length slots"
  shows "ring_at (ring_put slots head i x) head j = (if i = j then x else ring_at slots head j)"
proof -
  have "(head + i) mod length slots < length slots"
    using assms by (intro mod_less_divisor) auto
  then show ?thesis
    using ring_index_inject [OF assms, of head]
    by (auto simp: ring_at_def ring_put_def nth_list_update)
qed

lemma ring_view_put [ring_simps]:
  assumes "i < length slots" "n \<le> length slots"
  shows "ring_view (ring_put slots head i x) head n = (ring_view slots head n)[i := x]"
  using assms by (auto intro!: nth_equalityI simp: ring_at_put nth_list_update)

lemma ring_view_push:
  assumes "n < length slots"
  shows "ring_view (ring_put slots head n x) head (Suc n) = ring_view slots head n @ [x]"
proof -
  have "ring_view (ring_put slots head n x) head n = ring_view slots head n"
    using assms by (simp add: ring_view_put list_update_beyond)
  with assms show ?thesis
    by (simp add: ring_view_def ring_at_put)
qed

lemma ring_at_advance:
  "ring_at slots ((head + k) mod length slots) i = ring_at slots head (k + i)"
  by (simp add: ring_at_def mod_add_left_eq add.assoc)

lemma ring_view_drop:
  "ring_view slots ((head + k) mod length slots) (n - k) = drop k (ring_view slots head n)"
  by (auto intro!: nth_equalityI simp: ring_at_advance)

lemma ring_view_Suc: "ring_view slots head (Suc n) = ring_view slots head n @ [ring_at slots head n]"
  by (simp add: ring_view_def)

lemma ring_view_Cons:
  "ring_view slots head (Suc n) = ring_at slots head 0 # ring_view slots ((head + 1) mod length slots) n"
proof -
  have "ring_view slots head (Suc n) = ring_at slots head 0 # drop 1 (ring_view slots head (Suc n))"
    by (cases "ring_view slots head (Suc n)")
      (auto simp: ring_view_def upt_conv_Cons simp del: upt_Suc)
  then show ?thesis using ring_view_drop [of slots head 1 "Suc n"] by simp
qed

lemma mod_window_distinct:
  fixes a b c :: nat
  assumes "a < b" "b < a + c"
  shows "a mod c \<noteq> b mod c"
proof
  assume "a mod c = b mod c"
  then have "c dvd b - a" using assms(1) by (metis less_imp_le mod_eq_dvd_iff_nat)
  then show False using assms by (auto dest: dvd_imp_le)
qed

section \<open>Counting\<close>

lemma length_filter_update:
  assumes "i < length xs"
  shows "length (filter P (xs[i := x])) + (if P (xs ! i) then 1 else 0)
    = length (filter P xs) + (if P x then 1 else 0)"
proof -
  have "length (filter P xs) = length (filter P (take i xs)) + length (filter P (drop (Suc i) xs))
      + (if P (xs ! i) then 1 else 0)"
    by (subst id_take_nth_drop [OF assms]) simp
  then show ?thesis by (simp add: upd_conv_take_nth_drop [OF assms])
qed

text \<open>The smallest number outside a set: the length of its gap-free prefix.\<close>

definition mex :: "nat set \<Rightarrow> nat" where
  "mex H = (LEAST n. n \<notin> H)"

lemma mex_eqI: "b \<notin> H \<Longrightarrow> {..<b} \<subseteq> H \<Longrightarrow> mex H = b"
  unfolding mex_def by (rule Least_equality) (auto simp: not_less [symmetric])

lemma mex_not_in: "finite H \<Longrightarrow> mex H \<notin> H"
  unfolding mex_def by (rule LeastI_ex) (meson ex_new_if_finite infinite_UNIV_nat)

lemma below_mex: "n < mex H \<Longrightarrow> n \<in> H"
  unfolding mex_def using not_less_Least by blast

lemma mex_le: "n \<notin> H \<Longrightarrow> mex H \<le> n"
  unfolding mex_def by (rule Least_le)

lemma mex_mono: "H \<subseteq> K \<Longrightarrow> finite K \<Longrightarrow> mex H \<le> mex K"
  by (rule mex_le) (use mex_not_in in blast)

lemma mex_empty [simp]: "mex {} = 0"
  by (rule mex_eqI) auto

lemma mex_insert_other: "finite H \<Longrightarrow> n \<noteq> mex H \<Longrightarrow> mex (insert n H) = mex H"
  by (rule mex_eqI) (auto simp: mex_not_in below_mex)

section \<open>Words\<close>

lemma unat_add_no_wrap:
  fixes a b :: "'a::len word"
  shows "unat a + unat b < 2 ^ LENGTH('a) \<Longrightarrow> unat (a + b) = unat a + unat b"
  by (simp add: unat_word_ariths)

lemma unat_mult_no_wrap:
  fixes a b :: "'a::len word"
  shows "unat a * unat b < 2 ^ LENGTH('a) \<Longrightarrow> unat (a * b) = unat a * unat b"
  by (simp add: unat_word_ariths)

lemma unat_max: "unat (max a b) = max (unat a) (unat b)"
  by (simp add: max_def word_le_nat_alt)

lemma unat_min: "unat (min a b) = min (unat a) (unat b)"
  by (simp add: min_def word_le_nat_alt)

lemma unat_lt64: "unat (x :: u64) < 18446744073709551616"
  using unsigned_less [of x, where ?'a = nat] by simp

lemma unat_lt32: "unat (x :: u32) < 4294967296"
  using unsigned_less [of x, where ?'a = nat] by simp

lemma unat_lt16: "unat (x :: u16) < 65536"
  using unsigned_less [of x, where ?'a = nat] by simp

lemma unat_ucast_u64 [simp]: "unat (ucast (x :: u32) :: u64) = unat x"
proof -
  have "unat x < 2 ^ 64" using unat_lt32 [of x] by simp
  then show ?thesis by (simp add: unsigned_ucast_eq take_bit_nat_eq_self)
qed

lemma unat_ucast_u32: "unat x < 4294967296 \<Longrightarrow> unat (ucast (x :: u64) :: u32) = unat x"
  by (simp add: unsigned_ucast_eq take_bit_nat_eq_self)

text \<open>A guarded addition that saturates at the largest value of the type.\<close>

lemma unat_saturating_add:
  fixes a b :: u64
  shows "unat (if b > 0xffffffffffffffff - a then 0xffffffffffffffff else a + b)
    = min (unat a + unat b) 18446744073709551615"
proof -
  have "unat (0xffffffffffffffff - a) = 18446744073709551615 - unat a"
    using unat_lt64 [of a] by (subst unat_sub) (simp_all add: word_le_nat_alt)
  then show ?thesis
    using unat_lt64 [of a] unat_lt64 [of b] by (auto simp: word_less_nat_alt unat_add_no_wrap)
qed

text \<open>Rounding a 64-bit quotient up.\<close>

lemma ceil_div_bounds:
  fixes x r :: nat
  assumes "0 < r"
  shows "x \<le> (x + r - 1) div r * r" "(x + r - 1) div r * r < x + r"
proof -
  have "(x + r - 1) div r * r + (x + r - 1) mod r = x + r - 1" by simp
  moreover have "(x + r - 1) mod r < r" using assms by simp
  ultimately show "x \<le> (x + r - 1) div r * r" "(x + r - 1) div r * r < x + r"
    using assms by linarith+
qed

end
