(* ===== verification/Sequence.thy ===== *)
theory Sequence
  imports SRT_Prelude
begin

unbundle bit_operations_syntax

text \<open>
  \<^verbatim>\<open>sequence.hpp\<close>: the 31-bit packet sequence number and the 32-bit packet timestamp.
  The class \<^verbatim>\<open>SequenceNumber\<close> has a private \<^verbatim>\<open>uint32_t\<close> member that every constructor masks, so
  the type is the set of masked words; the class invariant is thus a type. Both classes
  interpret the serial arithmetic of the prelude.
\<close>

section \<open>Sequence numbers\<close>

abbreviation (input) seq_mask :: u32 where
  "seq_mask \<equiv> 0x7fffffff"

abbreviation (input) seq_modulus :: u32 where
  "seq_modulus \<equiv> 0x80000000"

abbreviation (input) seq_half_range :: u32 where
  "seq_half_range \<equiv> 0x40000000"

typedef SequenceNumber = "{v :: u32. v AND seq_mask = v}"
  morphisms seq_value Abs_SequenceNumber
  by (rule exI [of _ 0]) simp

declare seq_value_inverse [code abstype]

text \<open>The explicit constructor \<^verbatim>\<open>SequenceNumber(value) : value_(value & mask)\<close>.\<close>

definition SequenceNumber :: "u32 \<Rightarrow> SequenceNumber" where
  "SequenceNumber v = Abs_SequenceNumber (v AND seq_mask)"

lemma seq_value_SequenceNumber [simp, code abstract]:
  "seq_value (SequenceNumber v) = v AND seq_mask"
  by (simp add: SequenceNumber_def Abs_SequenceNumber_inverse and.assoc)

instantiation SequenceNumber :: equal
begin

definition equal_SequenceNumber :: "SequenceNumber \<Rightarrow> SequenceNumber \<Rightarrow> bool" where
  "equal_SequenceNumber a b = (seq_value a = seq_value b)"

instance
  by standard (simp add: equal_SequenceNumber_def seq_value_inject)

end

definition seq_next :: "SequenceNumber \<Rightarrow> SequenceNumber" where
  "seq_next s = SequenceNumber (seq_value s + 1)"

definition seq_advanced :: "SequenceNumber \<Rightarrow> u32 \<Rightarrow> SequenceNumber" where
  "seq_advanced s count = SequenceNumber (seq_value s + count)"

definition seq_distance :: "SequenceNumber \<Rightarrow> SequenceNumber \<Rightarrow> int" where
  "seq_distance s origin =
     (let forward = (seq_value s - seq_value origin) AND seq_mask
      in if forward \<ge> seq_half_range then - sint (seq_modulus - forward) else sint forward)"

definition is_after :: "SequenceNumber \<Rightarrow> SequenceNumber \<Rightarrow> bool" where
  "is_after s other \<longleftrightarrow> seq_distance s other > 0"

subsection \<open>The interpretation of serial arithmetic\<close>

abbreviation seq_int :: "SequenceNumber \<Rightarrow> int" where
  "seq_int s \<equiv> uint (seq_value s)"

abbreviation seq_adv :: "SequenceNumber \<Rightarrow> int \<Rightarrow> SequenceNumber" where
  "seq_adv s n \<equiv> seq_advanced s (word_of_int n)"

lemma and_seq_mask: "v AND seq_mask = (take_bit 31 v :: u32)"
  by (simp add: take_bit_eq_mask mask_eq_exp_minus_1)

lemma uint_and_seq_mask: "uint (v AND seq_mask) = uint v mod 2147483648"
  by (simp only: and_seq_mask unsigned_take_bit_eq) (simp add: take_bit_eq_mod)

lemma uint_sub_seq_mask: "uint ((a - b) AND seq_mask) = (uint a - uint b) mod 2147483648"
  by (simp only: uint_and_seq_mask uint_word_ariths) (simp add: mod_mod_cancel)

lemma seq_int_range: "0 \<le> seq_int s" "seq_int s < 2147483648"
proof -
  have "seq_value s = seq_value s AND seq_mask"
    using seq_value [of s] by simp
  then have "seq_int s = seq_int s mod 2147483648"
    by (metis uint_and_seq_mask)
  then show "seq_int s < 2147483648"
    by (metis pos_mod_bound zero_less_numeral)
qed simp

lemma sint_small: "uint (w :: u32) < 2147483648 \<Longrightarrow> sint w = uint w"
  using signed_take_bit_int_eq_self [of 31 "uint w"] order_trans [OF _ uint_ge_0, of _ w]
  by (simp add: sint_uint)

lemma seq_distance_int:
  "seq_distance s t = (seq_int s - seq_int t + 1073741824) mod 2147483648 - 1073741824"
proof -
  define f where "f = (seq_value s - seq_value t) AND seq_mask"
  have uf: "uint f = (seq_int s - seq_int t) mod 2147483648"
    by (simp add: f_def uint_sub_seq_mask)
  have f_lt: "uint f < 2147483648" by (simp add: uf)
  have le: "f \<ge> seq_half_range \<longleftrightarrow> 1073741824 \<le> uint f"
    by (simp add: word_le_def)
  have "(2147483648 - uint f) mod 4294967296 = 2147483648 - uint f"
    by (rule mod_pos_pos_trivial) (use f_lt uint_ge_0 [of f] in linarith)+
  then have sub: "uint (seq_modulus - f) = 2147483648 - uint f"
    by (simp add: uint_word_ariths)
  have shift: "(seq_int s - seq_int t + 1073741824) mod 2147483648
      = (uint f + 1073741824) mod 2147483648"
    by (simp add: uf mod_add_left_eq)
  show ?thesis
  proof (cases "f \<ge> seq_half_range")
    case True
    then have "seq_distance s t = - (2147483648 - uint f)"
      using f_lt le by (simp add: seq_distance_def f_def [symmetric] sint_small sub)
    moreover have "(uint f - 1073741824 + 2147483648) mod 2147483648 = uint f - 1073741824"
      using True f_lt le by (simp only: mod_add_self2) simp
    ultimately show ?thesis using shift by (simp add: add.commute)
  next
    case False
    then have "seq_distance s t = uint f"
      using f_lt le by (simp add: seq_distance_def f_def [symmetric] sint_small)
    moreover have "(uint f + 1073741824) mod 2147483648 = uint f + 1073741824"
      using False le by (intro mod_pos_pos_trivial) auto
    ultimately show ?thesis using shift by simp
  qed
qed

lemma seq_int_advanced: "seq_int (seq_advanced s n) = (seq_int s + uint n) mod 2147483648"
  by (simp add: seq_advanced_def uint_and_seq_mask uint_word_ariths mod_mod_cancel)

lemma seq_next_adv: "seq_next s = seq_adv s 1"
  by (simp add: seq_next_def seq_advanced_def)

interpretation sn: serial_arith seq_int seq_distance seq_adv 1073741824
proof unfold_locales
  fix s t :: SequenceNumber and n :: int
  show "0 \<le> seq_int s" "seq_int s < 2 * 1073741824"
    using seq_int_range [of s] by simp_all
  show "s = t" if "seq_int s = seq_int t"
    using that by (metis seq_value_inject word_uint_eq_iff)
  show "seq_distance s t = (seq_int s - seq_int t + 1073741824) mod (2 * 1073741824) - 1073741824"
    by (simp add: seq_distance_int)
  show "seq_int (seq_adv s n) = (seq_int s + n) mod (2 * 1073741824)"
    by (simp add: seq_int_advanced unsigned_of_int take_bit_eq_mod mod_mod_cancel
        mod_add_right_eq [of _ "n mod 4294967296", symmetric] mod_add_right_eq)
qed simp

text \<open>
  The sources advance by 32-bit counts, by \<open>next()\<close>, and step back by
  \<open>advanced(SequenceNumber::mask)\<close>; all three are the locale's integer advance.
\<close>

lemma seq_advanced_adv: "seq_advanced s n = seq_adv s (uint n)"
  by simp

lemma seq_advanced_0 [simp]: "seq_advanced s 0 = s"
  using sn.adv_zero [of s] by simp

lemma seq_advanced_mask: "seq_advanced s seq_mask = seq_adv s (- 1)"
proof (rule sn.val_inject)
  have "seq_int (seq_advanced s seq_mask) = (2147483647 + seq_int s) mod 2147483648"
    by (simp add: seq_int_advanced add.commute [of "seq_int s"])
  also have "\<dots> = (seq_int s - 1 + 2147483648) mod 2147483648" by simp
  also have "\<dots> = (seq_int s + - 1) mod (2 * 1073741824)"
    by (simp only: mod_add_self2) simp
  finally show "seq_int (seq_advanced s seq_mask) = seq_int (seq_adv s (- 1))"
    by (simp only: sn.val_adv)
qed

subsection \<open>The order inside a window\<close>

lemma is_after_window:
  "0 \<le> seq_distance s b \<Longrightarrow> 0 \<le> seq_distance t b
   \<Longrightarrow> is_after s t \<longleftrightarrow> seq_distance t b < seq_distance s b"
  using sn.dist_window [of s b t] by (simp add: is_after_def)

lemma is_after_irrefl [simp]: "\<not> is_after s s"
  by (simp add: is_after_def)

text \<open>
  C35. Wrap-around is invisible inside half the range: for any origin, the numbers that lie
  ahead of it are ordered by their distance from it, \<open>is_after\<close> is that order,
  equal distances mean equal numbers, and advancing by a count that stays inside the
  half range adds the count to the distance.
\<close>

theorem sequence_window_order:
  assumes "0 \<le> seq_distance s b" "0 \<le> seq_distance t b"
    and "seq_distance s b + uint n < 1073741824"
  shows "seq_distance s t = seq_distance s b - seq_distance t b
    \<and> (is_after s t \<longleftrightarrow> seq_distance t b < seq_distance s b)
    \<and> (s = t \<longleftrightarrow> seq_distance s b = seq_distance t b)
    \<and> seq_distance (seq_advanced s n) b = seq_distance s b + uint n"
proof -
  have "seq_distance (seq_adv s (uint n)) b = seq_distance s b + uint n"
    using assms(1,3) by (intro sn.dist_adv_gen) (use uint_ge_0 [of n] in linarith)+
  then show ?thesis
    using sn.dist_inject [of s b t] sn.dist_window [OF assms(1,2)] is_after_window [OF assms(1,2)]
    by auto
qed

theorem sequence_window_order_witness:
  "seq_distance (SequenceNumber 3) (SequenceNumber 0x7ffffffe) = 5
   \<and> is_after (SequenceNumber 3) (SequenceNumber 0x7fffffff)
   \<and> seq_distance (seq_advanced (SequenceNumber 3) 4) (SequenceNumber 0x7ffffffe) = 9"
proof -
  have "seq_distance (SequenceNumber 3) (SequenceNumber 0x7ffffffe) = 5"
    "seq_distance (SequenceNumber 0x7fffffff) (SequenceNumber 0x7ffffffe) = 1"
    by code_simp+
  then show ?thesis
    using sequence_window_order [of "SequenceNumber 3" "SequenceNumber 0x7ffffffe" "SequenceNumber 0x7fffffff" 4]
    by simp
qed

section \<open>Sequence numbers at an offset\<close>

lemma seq_advanced_advanced: "seq_advanced (seq_advanced s a) b = seq_advanced s (a + b)"
  using sn.adv_adv [of s "uint a" "uint b"] by simp

lemma seq_advanced_of_nat: "seq_advanced (seq_advanced s (of_nat m)) (of_nat n) = seq_advanced s (of_nat (m + n))"
  by (simp add: seq_advanced_advanced)

lemma seq_distance_advanced: "n < 1073741824 \<Longrightarrow> seq_distance (seq_advanced s (of_nat n)) s = int n"
  using sn.dist_adv [of "int n" s] by simp

lemma seq_advanced_distance: "0 \<le> seq_distance t s \<Longrightarrow> seq_advanced s (of_nat (nat (seq_distance t s))) = t"
  using sn.adv_dist [of s t] by (simp add: word_of_nat_eq_iff)

lemma seq_next_advanced: "seq_next s = seq_advanced s 1"
  by (simp add: seq_next_adv)

text \<open>\<^verbatim>\<open>reliability.hpp\<close>: an inclusive range of sequence numbers.\<close>

record SequenceRange =
  sr_first :: SequenceNumber
  sr_last :: SequenceNumber

section \<open>Packet timestamps\<close>

datatype PacketTimestamp = PacketTimestamp (timestamp_value: u32)

definition timestamp_distance :: "PacketTimestamp \<Rightarrow> PacketTimestamp \<Rightarrow> int" where
  "timestamp_distance t origin =
     (let forward = timestamp_value t - timestamp_value origin
      in if forward \<ge> 0x80000000 then - (0x100000000 - uint forward) else uint forward)"

subsection \<open>The interpretation of serial arithmetic\<close>

abbreviation timestamp_int :: "PacketTimestamp \<Rightarrow> int" where
  "timestamp_int t \<equiv> uint (timestamp_value t)"

abbreviation timestamp_adv :: "PacketTimestamp \<Rightarrow> int \<Rightarrow> PacketTimestamp" where
  "timestamp_adv t n \<equiv> PacketTimestamp (timestamp_value t + word_of_int n)"

lemma timestamp_distance_int:
  "timestamp_distance s t = (timestamp_int s - timestamp_int t + 2147483648) mod 4294967296 - 2147483648"
proof -
  define f where "f = timestamp_value s - timestamp_value t"
  have uf: "uint f = (timestamp_int s - timestamp_int t) mod 4294967296"
    by (simp add: f_def uint_word_ariths)
  have f_lt: "uint f < 4294967296" by (simp add: uf)
  have le: "f \<ge> 0x80000000 \<longleftrightarrow> 2147483648 \<le> uint f"
    by (simp add: word_le_def)
  have shift: "(timestamp_int s - timestamp_int t + 2147483648) mod 4294967296
      = (uint f + 2147483648) mod 4294967296"
    by (simp add: uf mod_add_left_eq)
  show ?thesis
  proof (cases "f \<ge> 0x80000000")
    case True
    then have "(uint f - 2147483648 + 4294967296) mod 4294967296 = uint f - 2147483648"
      using f_lt le by (simp only: mod_add_self2) simp
    with True shift show ?thesis
      by (simp add: timestamp_distance_def f_def [symmetric] add.commute)
  next
    case False
    then have "(uint f + 2147483648) mod 4294967296 = uint f + 2147483648"
      using le by (intro mod_pos_pos_trivial) auto
    with False shift show ?thesis
      by (simp add: timestamp_distance_def f_def [symmetric])
  qed
qed

interpretation ts: serial_arith timestamp_int timestamp_distance timestamp_adv 2147483648
proof unfold_locales
  fix s t :: PacketTimestamp and n :: int
  show "timestamp_int s < 2 * 2147483648"
    using uint_bounded [of "timestamp_value s"] by simp
  show "s = t" if "timestamp_int s = timestamp_int t"
    using that by (metis PacketTimestamp.expand word_uint_eq_iff)
  show "timestamp_int (timestamp_adv s n) = (timestamp_int s + n) mod (2 * 2147483648)"
    by (simp add: uint_word_ariths unsigned_of_int take_bit_eq_mod mod_add_right_eq)
qed (simp_all add: timestamp_distance_int)

end
