(* ===== verification/Wire.thy ===== *)
theory Wire
  imports SRT_Prelude
begin

unbundle bit_operations_syntax

text \<open>
  Big-endian 32-bit words in byte buffers: the \<^verbatim>\<open>read_u32\<close> / \<^verbatim>\<open>write_u32\<close> helpers that
  \<^verbatim>\<open>codec.cpp\<close>, \<^verbatim>\<open>control.cpp\<close> and the handshake codecs each define identically, and
  \<^verbatim>\<open>std::copy\<close> into a destination span.
\<close>

section \<open>Operations\<close>

definition read_u32 :: "bytes \<Rightarrow> nat \<Rightarrow> u32" where
  "read_u32 bs off =
     push_bit 24 (ucast (bs ! off)) OR push_bit 16 (ucast (bs ! (off + 1)))
     OR push_bit 8 (ucast (bs ! (off + 2))) OR ucast (bs ! (off + 3))"

definition write_u32 :: "bytes \<Rightarrow> nat \<Rightarrow> u32 \<Rightarrow> bytes" where
  "write_u32 bs off v =
     bs[off := ucast (drop_bit 24 v AND 0xff),
        off + 1 := ucast (drop_bit 16 v AND 0xff),
        off + 2 := ucast (drop_bit 8 v AND 0xff),
        off + 3 := ucast (v AND 0xff)]"

definition copy_to :: "bytes \<Rightarrow> bytes \<Rightarrow> nat \<Rightarrow> bytes" where
  "copy_to src dst off = take off dst @ src @ drop (off + length src) dst"

section \<open>Laws\<close>

definition u32_bytes :: "u32 \<Rightarrow> bytes" where
  "u32_bytes v = [ucast (drop_bit 24 v), ucast (drop_bit 16 v), ucast (drop_bit 8 v), ucast v]"

lemma length_u32_bytes [simp]: "length (u32_bytes v) = 4"
  by (simp add: u32_bytes_def)

lemma ucast_low_byte: "(ucast (v AND 0xff :: u32) :: u8) = ucast v"
proof -
  have "v AND 0xff = take_bit 8 v"
    by (simp add: take_bit_eq_mask mask_eq_exp_minus_1)
  then show ?thesis by (simp only:) (rule bit_word_eqI, simp add: bit_simps)
qed

lemma bit_u8_beyond [simp]: "8 \<le> n \<Longrightarrow> \<not> bit (b :: u8) n"
  using bit_imp_le_length [of b n] by auto

text \<open>Four bytes and a word determine each other.\<close>

lemma join_split_u32:
  fixes v :: u32
  shows "push_bit 24 (ucast (ucast (drop_bit 24 v) :: u8)) OR push_bit 16 (ucast (ucast (drop_bit 16 v) :: u8))
     OR push_bit 8 (ucast (ucast (drop_bit 8 v) :: u8)) OR ucast (ucast v :: u8) = v"
    (is "?x = v")
proof (rule bit_word_eqI)
  fix n assume "n < LENGTH(32)"
  then consider "n < 8" | "8 \<le> n" "n < 16" | "16 \<le> n" "n < 24" | "24 \<le> n" "n < 32" by force
  then show "bit ?x n = bit v n"
    by cases (auto simp: bit_simps)
qed

lemma split_join_u32:
  fixes a b c d :: u8 and v :: u32
  assumes "v = push_bit 24 (ucast a) OR push_bit 16 (ucast b) OR push_bit 8 (ucast c) OR ucast d"
  shows "ucast (drop_bit 24 v) = a" "ucast (drop_bit 16 v) = b" "ucast (drop_bit 8 v) = c" "ucast v = d"
  using assms by (auto intro!: bit_word_eqI simp: bit_simps)

lemma length_write_u32 [simp, wire_simps]: "length (write_u32 bs off v) = length bs"
  by (simp add: write_u32_def)

lemma length_copy_to [simp, wire_simps]:
  "off + length src \<le> length dst \<Longrightarrow> length (copy_to src dst off) = length dst"
  by (simp add: copy_to_def)

lemma write_u32_eq_copy:
  assumes "off + 4 \<le> length bs"
  shows "write_u32 bs off v = copy_to (u32_bytes v) bs off"
proof (rule nth_equalityI)
  show "length (write_u32 bs off v) = length (copy_to (u32_bytes v) bs off)"
    using assms by simp
next
  fix i assume "i < length (write_u32 bs off v)"
  then have i: "i < length bs" by simp
  consider "i < off" | "i = off" | "i = off + 1" | "i = off + 2" | "i = off + 3" | "off + 4 \<le> i"
    by linarith
  then show "write_u32 bs off v ! i = copy_to (u32_bytes v) bs off ! i"
    using i assms
    by cases (auto simp: write_u32_def copy_to_def u32_bytes_def nth_append nth_Cons'
        ucast_low_byte nth_list_update min_def le_imp_diff_is_add
        Suc_diff_le [symmetric] intro!: arg_cong [of _ _ "nth bs"])
qed

lemma read_u32_at_bytes:
  assumes "off + 4 \<le> length bs" "take 4 (drop off bs) = u32_bytes v"
  shows "read_u32 bs off = v"
proof -
  have "bs ! (off + k) = u32_bytes v ! k" if "k < 4" for k
    using assms that by (metis le_add1 le_trans nth_drop nth_take)
  from this [of 0] this [of 1] this [of 2] this [of 3]
  have "bs ! off = ucast (drop_bit 24 v)" "bs ! (off + 1) = ucast (drop_bit 16 v)"
    "bs ! (off + 2) = ucast (drop_bit 8 v)" "bs ! (off + 3) = ucast v"
    by (simp_all add: u32_bytes_def numeral_2_eq_2 numeral_3_eq_3)
  then show ?thesis
    by (simp only: read_u32_def join_split_u32)
qed

lemma u32_bytes_read_u32:
  assumes "off + 4 \<le> length bs"
  shows "u32_bytes (read_u32 bs off) = take 4 (drop off bs)"
proof (rule nth_equalityI)
  show "length (u32_bytes (read_u32 bs off)) = length (take 4 (drop off bs))"
    using assms by simp
next
  fix i assume "i < length (u32_bytes (read_u32 bs off))"
  then have i: "i < 4" by simp
  then consider "i = 0" | "i = 1" | "i = 2" | "i = 3" by linarith
  then show "u32_bytes (read_u32 bs off) ! i = take 4 (drop off bs) ! i"
    using assms i
    by cases (simp_all add: u32_bytes_def split_join_u32 [OF read_u32_def] numeral_2_eq_2 numeral_3_eq_3)
qed

subsection \<open>Words at offsets\<close>

lemma read_write_u32 [simp, wire_simps]:
  "off + 4 \<le> length bs \<Longrightarrow> read_u32 (write_u32 bs off v) off = v"
  by (rule read_u32_at_bytes) (simp_all add: write_u32_eq_copy copy_to_def)

lemma read_write_u32_other [wire_simps]:
  "i + 4 \<le> off \<or> off + 4 \<le> i \<Longrightarrow> read_u32 (write_u32 bs off v) i = read_u32 bs i"
  by (auto simp: read_u32_def write_u32_def)

lemma read_u32_take [wire_simps]: "off + 4 \<le> n \<Longrightarrow> read_u32 (take n bs) off = read_u32 bs off"
  by (simp add: read_u32_def)

lemma read_u32_drop [wire_simps]: "k \<le> length bs \<Longrightarrow> read_u32 (drop k bs) off = read_u32 bs (k + off)"
  by (simp add: read_u32_def add.assoc)

lemma drop_write_u32 [wire_simps]: "off + 4 \<le> n \<Longrightarrow> drop n (write_u32 bs off v) = drop n bs"
  by (simp add: write_u32_def)

lemma take_write_u32 [wire_simps]: "n \<le> off \<Longrightarrow> take n (write_u32 bs off v) = take n bs"
  by (simp add: write_u32_def)

lemma take_write_u32_end [wire_simps]:
  "off + 4 \<le> length bs \<Longrightarrow> take (off + 4) (write_u32 bs off v) = take off bs @ u32_bytes v"
  by (simp add: write_u32_eq_copy copy_to_def)

lemma read_u32_bytes [simp]: "read_u32 (u32_bytes v @ bs) 0 = v"
  by (rule read_u32_at_bytes) simp_all

end
