(* ===== verification/Packet_Codec.thy ===== *)
theory Packet_Codec
  imports Sequence Wire
begin

unbundle bit_operations_syntax

text \<open>
  The packet types of \<^verbatim>\<open>packet.hpp\<close> and the wire codec of \<^verbatim>\<open>codec.cpp\<close>: decoding one
  datagram into a packet view, encoding a packet view into caller-owned storage, and the
  split of a protected payload into ciphertext and authentication tag. The lemmas show that
  encoding and decoding are inverse to each other, that an encoder writes exactly the bytes
  it reports, and which input fails with which error.
\<close>

section \<open>Packet types\<close>

abbreviation (input) packet_header_size :: nat where
  "packet_header_size \<equiv> 16"

datatype PacketKind = PacketKind_data | PacketKind_control

text \<open>
  The two enumerations below are \<^verbatim>\<open>std::uint8_t\<close> enumerations in the source. Their enumerators are
  all the values of the two-bit wire fields, which is all that the decoder and the library's own
  code produce; a byte cast to the type from outside that range is not represented.
\<close>

datatype MessageBoundary =
    MessageBoundary_subsequent
  | MessageBoundary_last
  | MessageBoundary_first
  | MessageBoundary_solo

datatype EncryptionKey =
    EncryptionKey_none
  | EncryptionKey_even
  | EncryptionKey_odd
  | EncryptionKey_reserved

text \<open>
  \<^verbatim>\<open>enum class ControlType : std::uint16_t\<close>. An enumeration with a fixed underlying type can
  hold every 16-bit value, and the encoder tests for the values without an enumerator; the
  model keeps the underlying word.
\<close>

type_synonym ControlType = u16

abbreviation (input) ControlType_handshake :: ControlType where "ControlType_handshake \<equiv> 0x0000"
abbreviation (input) ControlType_keepalive :: ControlType where "ControlType_keepalive \<equiv> 0x0001"
abbreviation (input) ControlType_acknowledgement :: ControlType where "ControlType_acknowledgement \<equiv> 0x0002"
abbreviation (input) ControlType_negative_acknowledgement :: ControlType where
  "ControlType_negative_acknowledgement \<equiv> 0x0003"
abbreviation (input) ControlType_congestion_warning :: ControlType where "ControlType_congestion_warning \<equiv> 0x0004"
abbreviation (input) ControlType_shutdown :: ControlType where "ControlType_shutdown \<equiv> 0x0005"
abbreviation (input) ControlType_acknowledgement_of_ack :: ControlType where
  "ControlType_acknowledgement_of_ack \<equiv> 0x0006"
abbreviation (input) ControlType_drop_request :: ControlType where "ControlType_drop_request \<equiv> 0x0007"
abbreviation (input) ControlType_peer_error :: ControlType where "ControlType_peer_error \<equiv> 0x0008"
abbreviation (input) ControlType_user_defined :: ControlType where "ControlType_user_defined \<equiv> 0x7fff"

record DataHeader =
  dh_sequence :: SequenceNumber
  dh_message_number :: u32
  dh_boundary :: MessageBoundary
  dh_in_order :: bool
  dh_encryption_key :: EncryptionKey
  dh_retransmitted :: bool
  dh_timestamp :: PacketTimestamp
  dh_destination_socket_id :: u32

record ControlHeader =
  ch_type :: ControlType
  ch_subtype :: u16
  ch_type_specific :: u32
  ch_timestamp :: PacketTimestamp
  ch_destination_socket_id :: u32

record PacketView =
  pv_kind :: PacketKind
  pv_data :: DataHeader
  pv_control :: ControlHeader
  pv_payload :: bytes

text \<open>The default member initialisers: \<^verbatim>\<open>DataHeader{}\<close> and \<^verbatim>\<open>ControlHeader{}\<close>.\<close>

definition default_DataHeader :: DataHeader where
  "default_DataHeader =
     \<lparr>dh_sequence = SequenceNumber 0, dh_message_number = 0, dh_boundary = MessageBoundary_subsequent,
      dh_in_order = False, dh_encryption_key = EncryptionKey_none, dh_retransmitted = False,
      dh_timestamp = PacketTimestamp 0, dh_destination_socket_id = 0\<rparr>"

definition default_ControlHeader :: ControlHeader where
  "default_ControlHeader =
     \<lparr>ch_type = ControlType_handshake, ch_subtype = 0, ch_type_specific = 0,
      ch_timestamp = PacketTimestamp 0, ch_destination_socket_id = 0\<rparr>"

definition has_valid_control_payload_shape :: "bytes \<Rightarrow> bool" where
  "has_valid_control_payload_shape payload \<longleftrightarrow> payload \<noteq> [] \<and> length payload mod 4 = 0"

definition control_uses_zero_word_payload :: "ControlType \<Rightarrow> bool" where
  "control_uses_zero_word_payload type \<longleftrightarrow>
     type \<in> {ControlType_keepalive, ControlType_congestion_warning, ControlType_shutdown,
             ControlType_acknowledgement_of_ack, ControlType_peer_error}"

definition is_zero_word_payload :: "bytes \<Rightarrow> bool" where
  "is_zero_word_payload payload \<longleftrightarrow> length payload = 4 \<and> list_all (\<lambda>b. b = 0) payload"

definition is_known_control_type :: "u16 \<Rightarrow> bool" where
  "is_known_control_type type \<longleftrightarrow> type \<le> ControlType_peer_error \<or> type = ControlType_user_defined"

text \<open>The conversions between an enumerator and its underlying value.\<close>

fun MessageBoundary_value :: "MessageBoundary \<Rightarrow> u32" where
  "MessageBoundary_value MessageBoundary_subsequent = 0"
| "MessageBoundary_value MessageBoundary_last = 1"
| "MessageBoundary_value MessageBoundary_first = 2"
| "MessageBoundary_value MessageBoundary_solo = 3"

definition MessageBoundary_of :: "u32 \<Rightarrow> MessageBoundary" where
  "MessageBoundary_of v =
     (if v = 0 then MessageBoundary_subsequent else if v = 1 then MessageBoundary_last
      else if v = 2 then MessageBoundary_first else MessageBoundary_solo)"

fun EncryptionKey_value :: "EncryptionKey \<Rightarrow> u32" where
  "EncryptionKey_value EncryptionKey_none = 0"
| "EncryptionKey_value EncryptionKey_even = 1"
| "EncryptionKey_value EncryptionKey_odd = 2"
| "EncryptionKey_value EncryptionKey_reserved = 3"

definition EncryptionKey_of :: "u32 \<Rightarrow> EncryptionKey" where
  "EncryptionKey_of v =
     (if v = 0 then EncryptionKey_none else if v = 1 then EncryptionKey_even
      else if v = 2 then EncryptionKey_odd else EncryptionKey_reserved)"

section \<open>The codec\<close>

definition decode_packet :: "bytes \<Rightarrow> Error + PacketView" where
  "decode_packet bs =
     (if length bs < packet_header_size then Inl packet_too_short
      else
        let word0 = read_u32 bs 0;
            word1 = read_u32 bs 4;
            timestamp = read_u32 bs 8;
            socket_id = read_u32 bs 12;
            payload = drop packet_header_size bs
        in if word0 AND 0x80000000 = 0 then
             Inr \<lparr>pv_kind = PacketKind_data,
                  pv_data =
                    \<lparr>dh_sequence = SequenceNumber word0,
                     dh_message_number = word1 AND 0x03ffffff,
                     dh_boundary = MessageBoundary_of (drop_bit 30 word1 AND 0x3),
                     dh_in_order = (drop_bit 29 word1 AND 0x1 \<noteq> 0),
                     dh_encryption_key = EncryptionKey_of (drop_bit 27 word1 AND 0x3),
                     dh_retransmitted = (drop_bit 26 word1 AND 0x1 \<noteq> 0),
                     dh_timestamp = PacketTimestamp timestamp,
                     dh_destination_socket_id = socket_id\<rparr>,
                  pv_control = default_ControlHeader,
                  pv_payload = payload\<rparr>
           else
             let type = (ucast (drop_bit 16 word0 AND 0x7fff) :: u16)
             in if \<not> is_known_control_type type then Inl invalid_control_type
                else if \<not> has_valid_control_payload_shape payload then Inl invalid_control_payload
                else
                  Inr \<lparr>pv_kind = PacketKind_control,
                       pv_data = default_DataHeader,
                       pv_control =
                         \<lparr>ch_type = type, ch_subtype = ucast (word0 AND 0xffff),
                          ch_type_specific = word1, ch_timestamp = PacketTimestamp timestamp,
                          ch_destination_socket_id = socket_id\<rparr>,
                       pv_payload = payload\<rparr>)"

text \<open>
  \<open>encode_packet\<close> takes the destination span and returns it with the result: what the function
  writes, and what it leaves alone, is part of the value. The header words are computed
  first; an unknown control type fails before any byte is written.
\<close>

definition encode_header_words :: "PacketView \<Rightarrow> Error + (u32 \<times> u32 \<times> u32 \<times> u32)" where
  "encode_header_words packet =
     (if pv_kind packet = PacketKind_data then
        let data = pv_data packet
        in Inr (seq_value (dh_sequence data),
                push_bit 30 (MessageBoundary_value (dh_boundary data))
                  OR push_bit 29 (of_bool (dh_in_order data))
                  OR push_bit 27 (EncryptionKey_value (dh_encryption_key data))
                  OR push_bit 26 (of_bool (dh_retransmitted data))
                  OR (dh_message_number data AND 0x03ffffff),
                timestamp_value (dh_timestamp data),
                dh_destination_socket_id data)
      else
        let control = pv_control packet
        in if \<not> is_known_control_type (ch_type control) then Inl invalid_control_type
           else Inr (0x80000000 OR push_bit 16 (ucast (ch_type control)) OR ucast (ch_subtype control),
                     ch_type_specific control,
                     timestamp_value (ch_timestamp control),
                     ch_destination_socket_id control))"

definition encode_packet :: "PacketView \<Rightarrow> bytes \<Rightarrow> (Error + nat) \<times> bytes" where
  "encode_packet packet destination =
     (let add_zero_word = pv_kind packet = PacketKind_control \<and> pv_payload packet = []
            \<and> control_uses_zero_word_payload (ch_type (pv_control packet));
          payload_size = (if add_zero_word then 4 else length (pv_payload packet));
          required = packet_header_size + payload_size
      in if length destination < required then (Inl buffer_too_small, destination)
         else
           case encode_header_words packet of
             Inl e \<Rightarrow> (Inl e, destination)
           | Inr (word0, word1, timestamp, socket_id) \<Rightarrow>
               let d1 = write_u32 destination 0 word0;
                   d2 = write_u32 d1 4 word1;
                   d3 = write_u32 d2 8 timestamp;
                   d4 = write_u32 d3 12 socket_id;
                   d5 = copy_to (pv_payload packet) d4 packet_header_size;
                   d6 = (if add_zero_word then copy_to (replicate 4 0) d5 packet_header_size else d5)
               in (Inr required, d6))"

section \<open>Protected payloads\<close>

record CryptoPayloadBudget =
  cb_maximum_datagram_payload_size :: nat
  cb_packet_filter_overhead_size :: nat
  cb_authentication_tag_size :: nat
  cb_maximum_wire_payload_size :: nat
  cb_maximum_plaintext_payload_size :: nat

datatype CryptoMode = CryptoMode_automatic | CryptoMode_aes_ctr | CryptoMode_aes_gcm

datatype KeyMaterialCipher =
    KeyMaterialCipher_none | KeyMaterialCipher_aes_ctr | KeyMaterialCipher_aes_gcm

datatype KeyMaterialAuthentication =
    KeyMaterialAuthentication_none | KeyMaterialAuthentication_aes_gcm

record CryptoSuite =
  cs_mode :: CryptoMode
  cs_cipher :: KeyMaterialCipher
  cs_authentication :: KeyMaterialAuthentication
  cs_initialization_vector_size :: nat
  cs_authentication_tag_size :: nat

definition aes_ctr_crypto_suite :: CryptoSuite where
  "aes_ctr_crypto_suite =
     \<lparr>cs_mode = CryptoMode_aes_ctr, cs_cipher = KeyMaterialCipher_aes_ctr,
      cs_authentication = KeyMaterialAuthentication_none,
      cs_initialization_vector_size = 16, cs_authentication_tag_size = 0\<rparr>"

definition aes_gcm_crypto_suite :: CryptoSuite where
  "aes_gcm_crypto_suite =
     \<lparr>cs_mode = CryptoMode_aes_gcm, cs_cipher = KeyMaterialCipher_aes_gcm,
      cs_authentication = KeyMaterialAuthentication_aes_gcm,
      cs_initialization_vector_size = 12, cs_authentication_tag_size = 16\<rparr>"

text \<open>A null suite pointer is \<open>None\<close>.\<close>

definition crypto_suite_for_mode :: "CryptoMode \<Rightarrow> CryptoSuite option" where
  "crypto_suite_for_mode mode =
     (if mode = CryptoMode_aes_ctr then Some aes_ctr_crypto_suite
      else if mode = CryptoMode_aes_gcm then Some aes_gcm_crypto_suite
      else None)"

definition make_crypto_payload_budget ::
    "CryptoMode \<Rightarrow> nat \<Rightarrow> nat \<Rightarrow> nat \<Rightarrow> Error + CryptoPayloadBudget" where
  "make_crypto_payload_budget effective_mode maximum_segment_size transport_overhead_size
      packet_filter_overhead_size =
     (case crypto_suite_for_mode effective_mode of
        None \<Rightarrow> Inl unsupported
      | Some suite \<Rightarrow>
          if maximum_segment_size \<le> transport_overhead_size then Inl invalid_state
          else
            let transport_payload_size = maximum_segment_size - transport_overhead_size;
                datagram_payload_size =
                  (if transport_payload_size < maximum_data_payload_size
                   then transport_payload_size else maximum_data_payload_size)
            in if packet_filter_overhead_size \<ge> datagram_payload_size then Inl invalid_state
               else
                 let wire_payload_size = datagram_payload_size - packet_filter_overhead_size
                 in if cs_authentication_tag_size suite \<ge> wire_payload_size then Inl invalid_state
                    else Inr \<lparr>cb_maximum_datagram_payload_size = datagram_payload_size,
                              cb_packet_filter_overhead_size = packet_filter_overhead_size,
                              cb_authentication_tag_size = cs_authentication_tag_size suite,
                              cb_maximum_wire_payload_size = wire_payload_size,
                              cb_maximum_plaintext_payload_size =
                                wire_payload_size - cs_authentication_tag_size suite\<rparr>)"

text \<open>A budget that carries an error makes both operations return that error.\<close>

definition decode_protected_payload ::
    "bytes \<Rightarrow> Error + CryptoPayloadBudget \<Rightarrow> Error + (bytes \<times> bytes)" where
  "decode_protected_payload protected_payload budget =
     (case budget of
        Inl e \<Rightarrow> Inl e
      | Inr b \<Rightarrow>
          if length protected_payload < cb_authentication_tag_size b
             \<or> length protected_payload > cb_maximum_wire_payload_size b
          then Inl invalid_payload_size
          else
            let ciphertext_size = length protected_payload - cb_authentication_tag_size b
            in if ciphertext_size > cb_maximum_plaintext_payload_size b then Inl invalid_payload_size
               else Inr (take ciphertext_size protected_payload, drop ciphertext_size protected_payload))"

text \<open>
  The two output spans alias the destination; they are returned as (offset, length) pairs
  together with \<^verbatim>\<open>bytes_written\<close>.
\<close>

definition prepare_protected_payload ::
    "nat \<Rightarrow> nat \<Rightarrow> Error + CryptoPayloadBudget \<Rightarrow> Error + ((nat \<times> nat) \<times> (nat \<times> nat) \<times> nat)" where
  "prepare_protected_payload destination_size plaintext_size budget =
     (case budget of
        Inl e \<Rightarrow> Inl e
      | Inr b \<Rightarrow>
          if plaintext_size > cb_maximum_plaintext_payload_size b then Inl invalid_payload_size
          else
            let protected_size = plaintext_size + cb_authentication_tag_size b
            in if protected_size > cb_maximum_wire_payload_size b then Inl invalid_payload_size
               else if destination_size < protected_size then Inl buffer_too_small
               else Inr ((0, plaintext_size), (plaintext_size, cb_authentication_tag_size b), protected_size))"

section \<open>The data word\<close>

lemma and_3: "w AND 0x3 = (take_bit 2 w :: u32)"
  and and_1: "w AND 0x1 = (take_bit 1 w :: u32)"
  and and_26: "w AND 0x03ffffff = (take_bit 26 w :: u32)"
  and and_15: "w AND 0x7fff = (take_bit 15 w :: u32)"
  and and_16: "w AND 0xffff = (take_bit 16 w :: u32)"
  by (simp_all add: take_bit_eq_mask mask_eq_exp_minus_1)

lemmas and_masks = and_3 and_1 and_26 and_15 and_16

lemma MessageBoundary_of_value [simp]: "MessageBoundary_of (MessageBoundary_value b) = b"
  by (cases b) (simp_all add: MessageBoundary_of_def)

lemma EncryptionKey_of_value [simp]: "EncryptionKey_of (EncryptionKey_value k) = k"
  by (cases k) (simp_all add: EncryptionKey_of_def)

lemma take_bit_2_cases: "take_bit 2 (v :: u32) \<in> {0, 1, 2, 3}"
proof -
  have "unat (take_bit 2 v) < 4"
    using take_bit_nat_less_exp [of 2 "unat v"] by (simp only: unsigned_take_bit_eq) simp
  then have "unat (take_bit 2 v) \<in> {unat (0::u32), unat (1::u32), unat (2::u32), unat (3::u32)}"
    by auto
  then show ?thesis unfolding insert_iff empty_iff word_unat_eq_iff by simp
qed

lemma MessageBoundary_value_of: "MessageBoundary_value (MessageBoundary_of (take_bit 2 v)) = take_bit 2 v"
  using take_bit_2_cases [of v] by (auto simp: MessageBoundary_of_def)

lemma EncryptionKey_value_of: "EncryptionKey_value (EncryptionKey_of (take_bit 2 v)) = take_bit 2 v"
  using take_bit_2_cases [of v] by (auto simp: EncryptionKey_of_def)

lemma take_bit_2_value [simp]:
  "take_bit 2 (MessageBoundary_value b) = MessageBoundary_value b"
  "take_bit 2 (EncryptionKey_value k) = EncryptionKey_value k"
  by (cases b; simp) (cases k; simp)

lemma of_bool_take_bit_1: "of_bool (take_bit 1 (v :: u32) \<noteq> 0) = take_bit 1 v"
  by (simp add: take_bit_Suc mod_2_eq_odd)

definition pack_data_word :: "u32 \<Rightarrow> bool \<Rightarrow> u32 \<Rightarrow> bool \<Rightarrow> u32 \<Rightarrow> u32" where
  "pack_data_word b o' k r m =
     push_bit 30 b OR push_bit 29 (of_bool o') OR push_bit 27 k OR push_bit 26 (of_bool r) OR (m AND 0x03ffffff)"

lemma bit_pack_data_word:
  assumes "take_bit 2 b = b" "take_bit 2 k = k" "n < 32"
  shows "bit (pack_data_word b o' k r m) n =
     (if n < 26 then bit m n else if n = 26 then r else if n < 29 then bit k (n - 27)
      else if n = 29 then o' else bit b (n - 30))"
proof -
  have b: "bit b i \<Longrightarrow> i < 2" for i using assms(1) by (metis bit_take_bit_iff)
  have k: "bit k i \<Longrightarrow> i < 2" for i using assms(2) by (metis bit_take_bit_iff)
  consider "n < 26" | "n = 26" | "n = 27" | "n = 28" | "n = 29" | "n = 30" | "n = 31"
    using assms(3) by linarith
  then show ?thesis
    by cases (auto simp: pack_data_word_def and_26 bit_simps dest: b k)
qed

lemma pack_data_word_fields:
  assumes "take_bit 2 b = b" "take_bit 2 k = k" "w = pack_data_word b o' k r m"
  shows "drop_bit 30 w AND 0x3 = b" "drop_bit 27 w AND 0x3 = k"
    and "(drop_bit 29 w AND 0x1 \<noteq> 0) = o'" "(drop_bit 26 w AND 0x1 \<noteq> 0) = r"
    and "w AND 0x03ffffff = m AND 0x03ffffff"
proof -
  note bits = bit_pack_data_word [where o' = o' and r = r and m = m, OF assms(1,2), folded assms(3)]
  have b: "bit b i \<Longrightarrow> i < 2" for i using assms(1) by (metis bit_take_bit_iff)
  have k: "bit k i \<Longrightarrow> i < 2" for i using assms(2) by (metis bit_take_bit_iff)
  have w30: "bit w (30 + i) = bit b i" if "i < 2" for i
    using that by (subst bits) auto
  have w27: "bit w (27 + i) = bit k i" if "i < 2" for i
    using that by (subst bits) auto
  show "drop_bit 30 w AND 0x3 = b"
    using b w30 by (intro bit_word_eqI) (auto simp only: and_3 bit_take_bit_iff bit_drop_bit_eq o_def)
  show "drop_bit 27 w AND 0x3 = k"
    using k w27 by (intro bit_word_eqI) (auto simp only: and_3 bit_take_bit_iff bit_drop_bit_eq o_def)
  have low: "(v AND 0x1 \<noteq> 0) = bit v 0" for v :: u32
    by (simp add: and_1 take_bit_Suc mod_2_eq_odd bit_0)
  show "(drop_bit 29 w AND 0x1 \<noteq> 0) = o'" "(drop_bit 26 w AND 0x1 \<noteq> 0) = r"
    by (simp_all only: low) (simp_all add: bit_simps bits)
  show "w AND 0x03ffffff = m AND 0x03ffffff"
    by (rule bit_word_eqI) (auto simp: and_26 bit_simps bits)
qed

lemma pack_unpack_data_word:
  "pack_data_word (drop_bit 30 w AND 0x3) (drop_bit 29 w AND 0x1 \<noteq> 0) (drop_bit 27 w AND 0x3)
     (drop_bit 26 w AND 0x1 \<noteq> 0) (w AND 0x03ffffff) = w"
proof (rule bit_word_eqI)
  fix n assume n: "n < LENGTH(32)"
  have low: "(v AND 0x1 \<noteq> 0) = bit v 0" for v :: u32
    by (simp add: and_1 take_bit_Suc mod_2_eq_odd bit_0)
  have idem: "take_bit 2 (v AND 0x3) = v AND 0x3" for v :: u32
    by (simp add: and_3)
  have "bit (pack_data_word (drop_bit 30 w AND 0x3) (drop_bit 29 w AND 0x1 \<noteq> 0) (drop_bit 27 w AND 0x3)
     (drop_bit 26 w AND 0x1 \<noteq> 0) (w AND 0x03ffffff)) n
     = (if n < 26 then bit (w AND 0x03ffffff) n else if n = 26 then bit w 26
        else if n < 29 then bit (drop_bit 27 w AND 0x3) (n - 27)
        else if n = 29 then bit w 29 else bit (drop_bit 30 w AND 0x3) (n - 30))"
    using n by (subst bit_pack_data_word) (simp_all only: idem low, simp_all add: bit_drop_bit_eq)
  also have "\<dots> = bit w n"
    using n by (auto simp: and_3 and_26 bit_simps)
  finally show "bit (pack_data_word (drop_bit 30 w AND 0x3) (drop_bit 29 w AND 0x1 \<noteq> 0)
     (drop_bit 27 w AND 0x3) (drop_bit 26 w AND 0x1 \<noteq> 0) (w AND 0x03ffffff)) n = bit w n" .
qed

text \<open>The control word: type and subtype share the first word with the control flag.\<close>

lemma known_control_type_bit15: "is_known_control_type t \<Longrightarrow> \<not> bit t 15"
proof -
  assume "is_known_control_type t"
  then have "unat t < 2 ^ 15"
    by (auto simp: is_known_control_type_def word_le_nat_alt)
  then have "unat t div 2 ^ 15 = 0" by simp
  then have "\<not> bit (unat t) 15" by (simp add: bit_iff_odd)
  then show ?thesis by (simp add: bit_unsigned_iff)
qed

lemma control_word_fields:
  assumes "is_known_control_type t" "w = 0x80000000 OR push_bit 16 (ucast t) OR (ucast (s :: u16) :: u32)"
  shows "w AND 0x80000000 \<noteq> 0" "(ucast (drop_bit 16 w AND 0x7fff) :: u16) = t"
    and "(ucast (w AND 0xffff) :: u16) = s"
proof -
  have top: "(0x80000000 :: u32) = push_bit 31 1" by simp
  have t: "bit t i \<Longrightarrow> i < 15" for i
    using known_control_type_bit15 [OF assms(1)] bit_imp_le_length [of t i]
    by (cases "i = 15") auto
  have s: "bit s i \<Longrightarrow> i < 16" for i
    using bit_imp_le_length [of s i] by auto
  have "bit (w AND 0x80000000) 31"
    by (simp add: assms(2) top bit_simps del: push_bit_of_1)
  then show "w AND 0x80000000 \<noteq> 0" by auto
  show "(ucast (drop_bit 16 w AND 0x7fff) :: u16) = t"
    unfolding assms(2) top
    by (rule bit_word_eqI) (auto simp: and_15 bit_simps dest: t s simp del: push_bit_of_1)
  show "(ucast (w AND 0xffff) :: u16) = s"
    unfolding assms(2) top
    by (rule bit_word_eqI) (auto simp: and_16 bit_simps dest: t s simp del: push_bit_of_1)
qed

lemma control_word_unpack:
  assumes "w AND 0x80000000 \<noteq> (0 :: u32)"
  shows "0x80000000 OR push_bit 16 (ucast (ucast (drop_bit 16 w AND 0x7fff) :: u16))
     OR ucast (ucast (w AND 0xffff) :: u16) = w" (is "?x = w")
proof (rule bit_word_eqI)
  have top: "(0x80000000 :: u32) = push_bit 31 1" by simp
  have w31: "bit w 31"
  proof (rule ccontr)
    assume "\<not> bit w 31"
    then have "\<not> bit (w AND push_bit 31 1) n" if "n < 32" for n
      using that by (cases "n = 31") (auto simp: bit_simps simp del: push_bit_of_1)
    then have "w AND push_bit 31 1 = 0"
      by (intro bit_word_eqI) (simp del: push_bit_of_1)
    with assms show False by simp
  qed
  fix n assume "n < LENGTH(32)"
  then consider "n < 16" | "16 \<le> n" "n < 31" | "n = 31" by force
  then show "bit ?x n = bit w n"
    unfolding top
    by cases (auto simp: and_15 and_16 bit_simps w31 simp del: push_bit_of_1)
qed

section \<open>What the encoder writes\<close>

definition packet_wire_payload :: "PacketView \<Rightarrow> bytes" where
  "packet_wire_payload p =
     (if pv_kind p = PacketKind_control \<and> pv_payload p = []
         \<and> control_uses_zero_word_payload (ch_type (pv_control p))
      then replicate 4 0 else pv_payload p)"

definition packet_image :: "u32 \<times> u32 \<times> u32 \<times> u32 \<Rightarrow> bytes \<Rightarrow> bytes" where
  "packet_image ws payload =
     (case ws of (w0, w1, t, i) \<Rightarrow> u32_bytes w0 @ u32_bytes w1 @ u32_bytes t @ u32_bytes i @ payload)"

lemma length_packet_image [simp]: "length (packet_image ws payload) = 16 + length payload"
  by (simp add: packet_image_def split: prod.splits)

lemma copy_to_append:
  "length pre = off \<Longrightarrow> copy_to src (pre @ rest) off = pre @ src @ drop (length src) rest"
  by (simp add: copy_to_def)

lemma write_header_words:
  assumes "16 \<le> length dst"
  shows "write_u32 (write_u32 (write_u32 (write_u32 dst 0 w0) 4 w1) 8 t) 12 i
    = u32_bytes w0 @ u32_bytes w1 @ u32_bytes t @ u32_bytes i @ drop 16 dst"
proof -
  have "write_u32 dst 0 w0 = u32_bytes w0 @ drop 4 dst"
    using assms by (simp add: write_u32_eq_copy copy_to_def)
  moreover have "write_u32 (u32_bytes w0 @ drop 4 dst) 4 w1 = (u32_bytes w0 @ u32_bytes w1) @ drop 8 dst"
    using assms by (simp add: write_u32_eq_copy copy_to_append)
  moreover have "write_u32 ((u32_bytes w0 @ u32_bytes w1) @ drop 8 dst) 8 t
      = (u32_bytes w0 @ u32_bytes w1 @ u32_bytes t) @ drop 12 dst"
    using assms by (subst write_u32_eq_copy) (simp_all add: copy_to_append del: append_assoc)
  moreover have "write_u32 ((u32_bytes w0 @ u32_bytes w1 @ u32_bytes t) @ drop 12 dst) 12 i
      = (u32_bytes w0 @ u32_bytes w1 @ u32_bytes t @ u32_bytes i) @ drop 16 dst"
    using assms by (subst write_u32_eq_copy) (simp_all add: copy_to_append del: append_assoc)
  ultimately show ?thesis by simp
qed

lemma encode_packet_image:
  "encode_packet p dst =
     (let payload = packet_wire_payload p; n = 16 + length payload
      in if length dst < n then (Inl buffer_too_small, dst)
         else case encode_header_words p of
                Inl e \<Rightarrow> (Inl e, dst)
              | Inr ws \<Rightarrow> (Inr n, packet_image ws payload @ drop n dst))"
proof (cases "length dst < 16 + length (packet_wire_payload p)")
  case True
  then show ?thesis
    by (auto simp: encode_packet_def packet_wire_payload_def Let_def)
next
  case False
  let ?payload = "packet_wire_payload p"
  show ?thesis
  proof (cases "encode_header_words p")
    case (Inl e)
    with False show ?thesis
      by (auto simp: encode_packet_def packet_wire_payload_def Let_def)
  next
    case (Inr ws)
    obtain w0 w1 t i where ws: "ws = (w0, w1, t, i)" by (cases ws) auto
    have writes: "write_u32 (write_u32 (write_u32 (write_u32 dst 0 w0) 4 w1) 8 t) 12 i
      = u32_bytes w0 @ u32_bytes w1 @ u32_bytes t @ u32_bytes i @ drop 16 dst"
      using False by (intro write_header_words) simp
    have pre: "copy_to src (u32_bytes w0 @ u32_bytes w1 @ u32_bytes t @ u32_bytes i @ rest) 16
      = u32_bytes w0 @ u32_bytes w1 @ u32_bytes t @ u32_bytes i @ src @ drop (length src) rest" for src rest
      using copy_to_append [of "u32_bytes w0 @ u32_bytes w1 @ u32_bytes t @ u32_bytes i" 16 src rest] by simp
    from False Inr ws show ?thesis
      by (auto simp: encode_packet_def packet_wire_payload_def Let_def writes pre packet_image_def add.commute)
  qed
qed

lemma read_packet_image:
  assumes "ws = (w0, w1, t, i)"
  shows "read_u32 (packet_image ws payload) 0 = w0" "read_u32 (packet_image ws payload) 4 = w1"
    and "read_u32 (packet_image ws payload) 8 = t" "read_u32 (packet_image ws payload) 12 = i"
    and "drop 16 (packet_image ws payload) = payload"
  by (auto intro!: read_u32_at_bytes simp: assms packet_image_def)

section \<open>Round trips\<close>

definition wire_form :: "PacketView \<Rightarrow> PacketView" where
  "wire_form p =
     (if pv_kind p = PacketKind_data
      then p\<lparr>pv_data := (pv_data p)\<lparr>dh_message_number := dh_message_number (pv_data p) AND 0x03ffffff\<rparr>,
             pv_control := default_ControlHeader\<rparr>
      else p\<lparr>pv_data := default_DataHeader, pv_payload := packet_wire_payload p\<rparr>)"

lemma SequenceNumber_seq_value [simp]: "SequenceNumber (seq_value s) = s"
  using seq_value [of s] by (simp add: SequenceNumber_def seq_value_inverse)

lemma seq_value_no_flag: "seq_value s AND 0x80000000 = 0"
proof -
  have "seq_value s AND 0x80000000 = (seq_value s AND seq_mask) AND 0x80000000"
    using seq_value [of s] by simp
  then show ?thesis by (simp add: and.assoc)
qed

lemma decode_packet_image:
  assumes "encode_header_words p = Inr ws"
  shows "decode_packet (packet_image ws (packet_wire_payload p)) =
     (if pv_kind p = PacketKind_control \<and> \<not> has_valid_control_payload_shape (packet_wire_payload p)
      then Inl invalid_control_payload else Inr (wire_form p))"
proof (cases "pv_kind p")
  case PacketKind_data
  let ?d = "pv_data p"
  obtain w0 w1 t i where ws: "ws = (w0, w1, t, i)" by (cases ws) auto
  from assms PacketKind_data ws have w: "w0 = seq_value (dh_sequence ?d)"
    "w1 = pack_data_word (MessageBoundary_value (dh_boundary ?d)) (dh_in_order ?d)
       (EncryptionKey_value (dh_encryption_key ?d)) (dh_retransmitted ?d) (dh_message_number ?d)"
    "t = timestamp_value (dh_timestamp ?d)" "i = dh_destination_socket_id ?d"
    by (simp_all add: encode_header_words_def pack_data_word_def Let_def)
  note f = pack_data_word_fields [OF _ _ w(2), simplified take_bit_2_value]
  show ?thesis
    using PacketKind_data
    by (simp add: decode_packet_def read_packet_image [OF ws] f w(1,3,4) seq_value_no_flag wire_form_def
        packet_wire_payload_def Let_def)
next
  case PacketKind_control
  let ?c = "pv_control p"
  obtain w0 w1 t i where ws: "ws = (w0, w1, t, i)" by (cases ws) auto
  from assms PacketKind_control ws have known: "is_known_control_type (ch_type ?c)"
    and w: "w0 = 0x80000000 OR push_bit 16 (ucast (ch_type ?c)) OR ucast (ch_subtype ?c)"
    "w1 = ch_type_specific ?c" "t = timestamp_value (ch_timestamp ?c)" "i = ch_destination_socket_id ?c"
    by (auto simp: encode_header_words_def Let_def split: if_splits)
  note f = control_word_fields [OF known w(1)]
  show ?thesis
    using PacketKind_control known
    by (simp add: decode_packet_def read_packet_image [OF ws] f w(2,3,4) wire_form_def Let_def)
qed

lemma packet_image_of_bytes:
  assumes "16 \<le> length bs"
  shows "packet_image (read_u32 bs 0, read_u32 bs 4, read_u32 bs 8, read_u32 bs 12) (drop 16 bs) = bs"
proof -
  have split: "take 4 (drop n bs) @ drop (n + 4) bs = drop n bs" for n
    by (metis append_take_drop_id drop_drop add.commute)
  from split [of 0] split [of 4] split [of 8] split [of 12] assms show ?thesis
    by (simp add: packet_image_def u32_bytes_read_u32)
qed

lemma flag_clear_iff: "w AND 0x80000000 = (0 :: u32) \<longleftrightarrow> \<not> bit w 31"
  using and_exp_eq_0_iff_not_bit [of w 31] by simp

lemma flag_clear_mask: "w AND 0x80000000 = (0 :: u32) \<Longrightarrow> w AND seq_mask = w"
proof -
  assume "w AND 0x80000000 = 0"
  then have "bit w n \<Longrightarrow> n < 31" for n
    using bit_imp_le_length [of w n] by (cases "n = 31") (auto simp: flag_clear_iff)
  then show ?thesis
    by (intro bit_word_eqI) (auto simp: and_seq_mask bit_take_bit_iff)
qed

lemma decode_packet_words:
  assumes "decode_packet bs = Inr p"
  shows "16 \<le> length bs \<and> packet_wire_payload p = drop 16 bs
    \<and> encode_header_words p = Inr (read_u32 bs 0, read_u32 bs 4, read_u32 bs 8, read_u32 bs 12)"
proof (cases "read_u32 bs 0 AND 0x80000000 = 0")
  case True
  let ?w = "read_u32 bs 4"
  from assms have len: "16 \<le> length bs" by (simp add: decode_packet_def split: if_splits)
  have mb: "MessageBoundary_value (MessageBoundary_of (w AND 3)) = w AND 3"
    "EncryptionKey_value (EncryptionKey_of (w AND 3)) = w AND 3" for w
    by (simp_all only: and_3 MessageBoundary_value_of EncryptionKey_value_of)
  from assms True len have "pv_kind p = PacketKind_data" "pv_payload p = drop 16 bs"
    "dh_sequence (pv_data p) = SequenceNumber (read_u32 bs 0)"
    "dh_message_number (pv_data p) = ?w AND 0x03ffffff"
    "dh_boundary (pv_data p) = MessageBoundary_of (drop_bit 30 ?w AND 0x3)"
    "dh_in_order (pv_data p) = (drop_bit 29 ?w AND 0x1 \<noteq> 0)"
    "dh_encryption_key (pv_data p) = EncryptionKey_of (drop_bit 27 ?w AND 0x3)"
    "dh_retransmitted (pv_data p) = (drop_bit 26 ?w AND 0x1 \<noteq> 0)"
    "dh_timestamp (pv_data p) = PacketTimestamp (read_u32 bs 8)"
    "dh_destination_socket_id (pv_data p) = read_u32 bs 12"
    by (simp_all only: decode_packet_def Let_def if_True if_False not_less [symmetric] sum.inject
        PacketView.simps DataHeader.simps)
      auto
  then show ?thesis
    using len pack_unpack_data_word [of ?w, unfolded pack_data_word_def] flag_clear_mask [OF True]
    by (simp only: encode_header_words_def Let_def packet_wire_payload_def mb seq_value_SequenceNumber
        PacketTimestamp.sel if_True PacketKind.distinct if_False simp_thms)
next
  case False
  let ?v = "read_u32 bs 0"
  let ?t = "ucast (drop_bit 16 ?v AND 0x7fff) :: u16"
  from assms have len: "16 \<le> length bs" by (simp add: decode_packet_def split: if_splits)
  with assms False have ok: "is_known_control_type ?t" "has_valid_control_payload_shape (drop 16 bs)"
    by (simp_all only: decode_packet_def Let_def if_False not_less [symmetric] split: if_splits) simp_all
  with assms False len have p: "pv_kind p = PacketKind_control" "pv_payload p = drop 16 bs"
    "ch_type (pv_control p) = ?t" "ch_subtype (pv_control p) = ucast (?v AND 0xffff)"
    "ch_type_specific (pv_control p) = read_u32 bs 4"
    "ch_timestamp (pv_control p) = PacketTimestamp (read_u32 bs 8)"
    "ch_destination_socket_id (pv_control p) = read_u32 bs 12"
    by (simp_all only: decode_packet_def Let_def if_True if_False not_less [symmetric] sum.inject
        PacketView.simps ControlHeader.simps)
      auto
  have "packet_wire_payload p = drop 16 bs"
    using ok(2) p(2) by (auto simp: packet_wire_payload_def has_valid_control_payload_shape_def)
  then show ?thesis
    using len ok(1) p control_word_unpack [OF False]
    by (simp only: encode_header_words_def Let_def PacketTimestamp.sel if_True PacketKind.distinct
        if_False simp_thms)
qed

text \<open>
  C14. What the decoder makes of the encoder's output, on every packet the encoder accepts. A
  control packet whose payload on the wire is empty or not a multiple of four bytes is written by
  the encoder and refused by the decoder with an invalid control payload. Every other packet
  comes back in wire form: the message number cut to 26 bits, the unused header reset, and the
  zero word that payload-free controls carry. The bytes behind the reported length are the
  destination's own.
\<close>

theorem decode_encode_packet:
  assumes "encode_packet p dst = (Inr n, dst')"
  shows "decode_packet (take n dst') =
     (if pv_kind p = PacketKind_control \<and> \<not> has_valid_control_payload_shape (packet_wire_payload p)
      then Inl invalid_control_payload else Inr (wire_form p))
    \<and> length dst' = length dst \<and> drop n dst' = drop n dst"
proof -
  from assms obtain ws where ws: "encode_header_words p = Inr ws"
    and n: "n = 16 + length (packet_wire_payload p)" "n \<le> length dst"
    and dst': "dst' = packet_image ws (packet_wire_payload p) @ drop n dst"
    by (auto simp: encode_packet_image Let_def split: if_splits sum.splits)
  then show ?thesis by (simp add: decode_packet_image)
qed

definition sample_packet :: PacketView where
  "sample_packet =
     \<lparr>pv_kind = PacketKind_data,
      pv_data =
        \<lparr>dh_sequence = SequenceNumber 0x7fffffff, dh_message_number = 5,
         dh_boundary = MessageBoundary_first, dh_in_order = True, dh_encryption_key = EncryptionKey_even,
         dh_retransmitted = True, dh_timestamp = PacketTimestamp 77, dh_destination_socket_id = 9\<rparr>,
      pv_control = default_ControlHeader, pv_payload = [1, 2, 3]\<rparr>"

definition sample_datagram :: bytes where
  "sample_datagram = [0x7f, 0xff, 0xff, 0xff, 0xac, 0, 0, 5, 0, 0, 0, 77, 0, 0, 0, 9, 1, 2, 3]"

lemma encode_sample_packet:
  "encode_packet sample_packet (replicate 20 0xaa) = (Inr 19, sample_datagram @ [0xaa])"
  by code_simp

theorem decode_encode_packet_witness:
  "encode_packet sample_packet (replicate 20 0xaa) = (Inr 19, sample_datagram @ [0xaa])
   \<and> decode_packet sample_datagram = Inr (wire_form sample_packet)"
  using decode_encode_packet [OF encode_sample_packet] encode_sample_packet
  by (simp add: sample_packet_def sample_datagram_def)

text \<open>
  C15. Every datagram the decoder accepts is the encoding of the packet it returns: encoding
  that packet again reproduces the datagram byte for byte.
\<close>

theorem encode_decode_packet:
  assumes "decode_packet bs = Inr p" and "length bs \<le> length dst"
  shows "encode_packet p dst = (Inr (length bs), bs @ drop (length bs) dst)"
  using decode_packet_words [OF assms(1)] packet_image_of_bytes [of bs] assms(2)
  by (auto simp: encode_packet_image Let_def)

theorem encode_decode_packet_witness:
  "decode_packet sample_datagram = Inr sample_packet
   \<and> encode_packet sample_packet (replicate 21 0) = (Inr 19, sample_datagram @ [0, 0])"
proof -
  have "decode_packet sample_datagram = Inr sample_packet" by code_simp
  from this encode_decode_packet [OF this, of "replicate 21 0"] show ?thesis
    by (simp add: sample_datagram_def eval_nat_numeral)
qed

section \<open>Properties of protected payloads\<close>

definition sealed_by :: "(nat \<times> nat) \<times> (nat \<times> nat) \<times> nat \<Rightarrow> bytes \<Rightarrow> bytes \<Rightarrow> bytes \<Rightarrow> bytes" where
  "sealed_by r ciphertext tag destination =
     (case r of ((c, _), (t, _), n) \<Rightarrow> take n (copy_to tag (copy_to ciphertext destination c) t))"

lemma make_crypto_payload_budget_Inr:
  assumes "make_crypto_payload_budget mode mss overhead reserve = Inr b"
  shows "cb_maximum_wire_payload_size b = cb_maximum_plaintext_payload_size b + cb_authentication_tag_size b"
    and "cb_maximum_wire_payload_size b + reserve \<le> mss - overhead"
    and "cb_maximum_wire_payload_size b + reserve \<le> 1456"
    and "0 < cb_maximum_plaintext_payload_size b"
proof -
  obtain suite where suite: "crypto_suite_for_mode mode = Some suite"
    using assms by (cases "crypto_suite_for_mode mode") (simp_all add: make_crypto_payload_budget_def)
  note budget = assms [unfolded make_crypto_payload_budget_def suite option.case Let_def]
  show "cb_maximum_wire_payload_size b = cb_maximum_plaintext_payload_size b + cb_authentication_tag_size b"
    "cb_maximum_wire_payload_size b + reserve \<le> mss - overhead"
    "cb_maximum_wire_payload_size b + reserve \<le> 1456"
    "0 < cb_maximum_plaintext_payload_size b"
    using budget by (simp_all split: if_split_asm) (fastforce+)
qed

text \<open>
  C40. Payload budgets and the protected layout agree end to end. Under any budget the
  calculation grants, a plaintext within the plaintext limit whose protected form fits the
  destination is given room, a payload sealed into the prepared spans is decoded back into the
  same ciphertext and tag, and together with the filter reservation it stays within the segment
  and the datagram limit.
\<close>

theorem protected_payload_roundtrip:
  assumes "make_crypto_payload_budget mode mss overhead reserve = Inr b"
    and "length ciphertext \<le> cb_maximum_plaintext_payload_size b"
    and "length tag = cb_authentication_tag_size b"
    and "length ciphertext + length tag \<le> length dst"
  shows "\<exists>r. prepare_protected_payload (length dst) (length ciphertext) (Inr b) = Inr r
    \<and> decode_protected_payload (sealed_by r ciphertext tag dst) (Inr b) = Inr (ciphertext, tag)
    \<and> length (sealed_by r ciphertext tag dst) + reserve \<le> min (mss - overhead) 1456"
proof -
  note b = make_crypto_payload_budget_Inr [OF assms(1)]
  define r where "r = ((0::nat, length ciphertext), (length ciphertext, length tag), length ciphertext + length tag)"
  have "prepare_protected_payload (length dst) (length ciphertext) (Inr b) = Inr r"
    using assms(2-4) b(1) by (simp add: r_def prepare_protected_payload_def Let_def)
  moreover have "sealed_by r ciphertext tag dst = ciphertext @ tag"
    using assms(4) by (simp add: sealed_by_def r_def copy_to_def)
  ultimately show ?thesis
    using assms(2,3) b by (simp add: decode_protected_payload_def Let_def)
qed

theorem protected_payload_roundtrip_witness:
  "\<exists>r. prepare_protected_payload 20 3 (make_crypto_payload_budget CryptoMode_aes_gcm 1500 44 8) = Inr r
     \<and> decode_protected_payload (sealed_by r [1, 2, 3] (replicate 16 7) (replicate 20 0))
         (make_crypto_payload_budget CryptoMode_aes_gcm 1500 44 8) = Inr ([1, 2, 3], replicate 16 7)"
proof -
  let ?b = "\<lparr>cb_maximum_datagram_payload_size = 1456, cb_packet_filter_overhead_size = 8,
      cb_authentication_tag_size = 16, cb_maximum_wire_payload_size = 1448,
      cb_maximum_plaintext_payload_size = 1432\<rparr>"
  have b: "make_crypto_payload_budget CryptoMode_aes_gcm 1500 44 8 = Inr ?b" by code_simp
  show ?thesis
    using protected_payload_roundtrip [OF b, of "[1, 2, 3]" "replicate 16 7" "replicate 20 0"]
    unfolding b by (simp add: numeral_3_eq_3) blast
qed

end
