(* ===== verification/Control_Codec.thy ===== *)
theory Control_Codec
  imports Packet_Codec
begin

unbundle bit_operations_syntax

text \<open>
  \<^verbatim>\<open>control.cpp\<close>: the payloads of acknowledgements, drop requests and loss reports. The
  encoders write into a destination span that is passed in and returned, also on errors,
  because the loss-range encoder reports an error after it has written earlier ranges.
  The loop that walks a loss report is the one of \<^verbatim>\<open>session.cpp\<close>.
\<close>

section \<open>Acknowledgements\<close>

datatype AcknowledgementKind =
    AcknowledgementKind_lite | AcknowledgementKind_small | AcknowledgementKind_full

record Acknowledgement =
  ak_kind :: AcknowledgementKind
  ak_acknowledgement_number :: u32
  ak_next_sequence :: SequenceNumber
  ak_round_trip_time_microseconds :: u32
  ak_round_trip_time_variance_microseconds :: u32
  ak_available_receive_buffer_packets :: u32
  ak_receive_rate_packets_per_second :: u32
  ak_estimated_link_capacity_packets_per_second :: u32
  ak_receive_rate_bytes_per_second :: u32
  ak_has_rate_metrics :: bool

definition default_Acknowledgement :: Acknowledgement where
  "default_Acknowledgement =
     \<lparr>ak_kind = AcknowledgementKind_full, ak_acknowledgement_number = 0,
      ak_next_sequence = SequenceNumber 0, ak_round_trip_time_microseconds = 100000,
      ak_round_trip_time_variance_microseconds = 50000, ak_available_receive_buffer_packets = 0,
      ak_receive_rate_packets_per_second = 0, ak_estimated_link_capacity_packets_per_second = 0,
      ak_receive_rate_bytes_per_second = 0, ak_has_rate_metrics = False\<rparr>"

definition valid_sequence_word :: "u32 \<Rightarrow> bool" where
  "valid_sequence_word v \<longleftrightarrow> v AND NOT seq_mask = 0"

definition decode_acknowledgement :: "PacketView \<Rightarrow> Error + Acknowledgement" where
  "decode_acknowledgement packet =
     (if pv_kind packet \<noteq> PacketKind_control
         \<or> ch_type (pv_control packet) \<noteq> ControlType_acknowledgement
      then Inl invalid_control_type
      else
        let payload = pv_payload packet
        in if length payload = 4 then
             if ch_type_specific (pv_control packet) \<noteq> 0 then Inl invalid_control_payload
             else
               let next_sequence = read_u32 payload 0
               in if \<not> valid_sequence_word next_sequence then Inl invalid_control_payload
                  else Inr (default_Acknowledgement
                         \<lparr>ak_kind := AcknowledgementKind_lite,
                          ak_acknowledgement_number := ch_type_specific (pv_control packet),
                          ak_next_sequence := SequenceNumber next_sequence\<rparr>)
           else if (length payload \<noteq> 16 \<and> length payload \<noteq> 24
                    \<and> length payload \<noteq> 28 \<and> length payload \<noteq> 32)
                   \<or> length payload mod 4 \<noteq> 0 then Inl invalid_control_payload
           else
             let next_sequence = read_u32 payload 0
             in if \<not> valid_sequence_word next_sequence then Inl invalid_control_payload
                else
                  let a1 = default_Acknowledgement
                        \<lparr>ak_kind := (if length payload = 16 then AcknowledgementKind_small
                                     else AcknowledgementKind_full),
                         ak_acknowledgement_number := ch_type_specific (pv_control packet),
                         ak_next_sequence := SequenceNumber next_sequence,
                         ak_round_trip_time_microseconds := read_u32 payload 4,
                         ak_round_trip_time_variance_microseconds := read_u32 payload 8,
                         ak_available_receive_buffer_packets := read_u32 payload 12\<rparr>;
                      a2 = (if length payload \<ge> 24 then
                              a1 \<lparr>ak_receive_rate_packets_per_second := read_u32 payload 16,
                                  ak_estimated_link_capacity_packets_per_second := read_u32 payload 20,
                                  ak_has_rate_metrics := True\<rparr>
                            else a1);
                      a3 = (if length payload \<ge> 28 then
                              a2 \<lparr>ak_receive_rate_bytes_per_second := read_u32 payload 24\<rparr>
                            else a2)
                  in Inr a3)"

definition encode_acknowledgement_payload ::
    "Acknowledgement \<Rightarrow> bytes \<Rightarrow> (Error + nat) \<times> bytes" where
  "encode_acknowledgement_payload a destination =
     (let required =
            (if ak_kind a = AcknowledgementKind_lite then 4
             else if ak_kind a = AcknowledgementKind_small then 16 else 28)
      in if length destination < required then (Inl buffer_too_small, destination)
         else
           let d1 = write_u32 destination 0 (seq_value (ak_next_sequence a))
           in if ak_kind a = AcknowledgementKind_lite then (Inr required, d1)
              else
                let d2 = write_u32 d1 4 (ak_round_trip_time_microseconds a);
                    d3 = write_u32 d2 8 (ak_round_trip_time_variance_microseconds a);
                    d4 = write_u32 d3 12 (ak_available_receive_buffer_packets a);
                    d5 = (if ak_kind a = AcknowledgementKind_full then
                            write_u32
                              (write_u32
                                (write_u32 d4 16 (ak_receive_rate_packets_per_second a))
                                20 (ak_estimated_link_capacity_packets_per_second a))
                              24 (ak_receive_rate_bytes_per_second a)
                          else d4)
                in (Inr required, d5))"

definition decode_ackack_number :: "PacketView \<Rightarrow> u32" where
  "decode_ackack_number packet = ch_type_specific (pv_control packet)"

section \<open>Drop requests\<close>

record DropRequest =
  dr_message_number :: u32
  dr_sequences :: SequenceRange

definition decode_drop_request :: "PacketView \<Rightarrow> Error + DropRequest" where
  "decode_drop_request packet =
     (if pv_kind packet \<noteq> PacketKind_control
         \<or> ch_type (pv_control packet) \<noteq> ControlType_drop_request
      then Inl invalid_control_type
      else if length (pv_payload packet) \<noteq> 8 then Inl invalid_control_payload
      else
        let first_word = read_u32 (pv_payload packet) 0;
            last_word = read_u32 (pv_payload packet) 4
        in if \<not> valid_sequence_word first_word \<or> \<not> valid_sequence_word last_word
           then Inl invalid_control_payload
           else
             let first = SequenceNumber first_word;
                 last = SequenceNumber last_word
             in if seq_distance last first < 0 then Inl invalid_control_payload
                else Inr \<lparr>dr_message_number = ch_type_specific (pv_control packet) AND 0x03ffffff,
                          dr_sequences = \<lparr>sr_first = first, sr_last = last\<rparr>\<rparr>)"

definition encode_drop_request_payload :: "DropRequest \<Rightarrow> bytes \<Rightarrow> (Error + nat) \<times> bytes" where
  "encode_drop_request_payload request destination =
     (if seq_distance (sr_last (dr_sequences request)) (sr_first (dr_sequences request)) < 0
      then (Inl invalid_control_payload, destination)
      else if length destination < 8 then (Inl buffer_too_small, destination)
      else
        let d1 = write_u32 destination 0 (seq_value (sr_first (dr_sequences request)));
            d2 = write_u32 d1 4 (seq_value (sr_last (dr_sequences request)))
        in (Inr 8, d2))"

section \<open>Loss reports\<close>

definition decode_loss_range :: "bytes \<Rightarrow> Error + (SequenceRange \<times> nat)" where
  "decode_loss_range payload =
     (if length payload < 4 then Inl invalid_control_payload
      else
        let first_word = read_u32 payload 0;
            is_range = first_word AND 0x80000000 \<noteq> 0;
            first = SequenceNumber first_word
        in if \<not> is_range then Inr (\<lparr>sr_first = first, sr_last = first\<rparr>, 4)
           else if length payload < 8 then Inl invalid_control_payload
           else
             let last_word = read_u32 payload 4
             in if last_word AND 0x80000000 \<noteq> 0 then Inl invalid_control_payload
                else
                  let last = SequenceNumber last_word
                  in if seq_distance last first < 0 then Inl invalid_control_payload
                     else Inr (\<lparr>sr_first = first, sr_last = last\<rparr>, 8))"

fun encode_loss_ranges_loop ::
    "SequenceRange list \<Rightarrow> nat \<Rightarrow> bytes \<Rightarrow> (Error + nat) \<times> bytes" where
  "encode_loss_ranges_loop [] written destination = (Inr written, destination)"
| "encode_loss_ranges_loop (rg # ranges) written destination =
     (if seq_distance (sr_last rg) (sr_first rg) < 0
      then (Inl invalid_control_payload, destination)
      else
        let single = sr_first rg = sr_last rg;
            required = (if single then 4 else 8)
        in if length destination - written < required then (Inl buffer_too_small, destination)
           else
             let d1 = write_u32 destination written
                   (seq_value (sr_first rg) OR (if single then 0 else 0x80000000))
             in if single then encode_loss_ranges_loop ranges (written + 4) d1
                else encode_loss_ranges_loop ranges (written + 8)
                       (write_u32 d1 (written + 4) (seq_value (sr_last rg))))"

definition encode_loss_ranges :: "SequenceRange list \<Rightarrow> bytes \<Rightarrow> (Error + nat) \<times> bytes" where
  "encode_loss_ranges ranges destination = encode_loss_ranges_loop ranges 0 destination"

text \<open>
  The walk over a loss report: ranges are decoded off the front until the payload is empty or
  a range is malformed. Each decoded range consumes at least four bytes.
\<close>

lemma decode_loss_range_consumed:
  "decode_loss_range payload = Inr (rg, n) \<Longrightarrow> (n = 4 \<or> n = 8) \<and> n \<le> length payload"
  by (auto simp: decode_loss_range_def Let_def split: if_splits)

function decode_loss_ranges :: "bytes \<Rightarrow> Error + SequenceRange list" where
  "decode_loss_ranges payload =
     (if payload = [] then Inr []
      else case decode_loss_range payload of
             Inl e \<Rightarrow> Inl e
           | Inr (rg, bytes_consumed) \<Rightarrow>
               (case decode_loss_ranges (drop bytes_consumed payload) of
                  Inl e \<Rightarrow> Inl e
                | Inr ranges \<Rightarrow> Inr (rg # ranges)))"
  by auto
termination
  by (relation "measure length") (auto dest: decode_loss_range_consumed)

declare decode_loss_ranges.simps [simp del]

section \<open>Round trip of loss reports\<close>

definition ordered_range :: "SequenceRange \<Rightarrow> bool" where
  "ordered_range r \<longleftrightarrow> 0 \<le> seq_distance (sr_last r) (sr_first r)"

definition range_bytes :: "SequenceRange \<Rightarrow> bytes" where
  "range_bytes r =
     (if sr_first r = sr_last r then u32_bytes (seq_value (sr_first r))
      else u32_bytes (seq_value (sr_first r) OR 0x80000000) @ u32_bytes (seq_value (sr_last r)))"

definition report_bytes :: "SequenceRange list \<Rightarrow> bytes" where
  "report_bytes rs = concat (map range_bytes rs)"

lemma length_range_bytes: "length (range_bytes r) = (if sr_first r = sr_last r then 4 else 8)"
  by (simp add: range_bytes_def)

lemma write_range_bytes:
  assumes "written + length (range_bytes r) \<le> length dst"
  shows "(let d1 = write_u32 dst written
              (seq_value (sr_first r) OR (if sr_first r = sr_last r then 0 else 0x80000000))
          in if sr_first r = sr_last r then d1
             else write_u32 d1 (written + 4) (seq_value (sr_last r)))
       = take written dst @ range_bytes r @ drop (written + length (range_bytes r)) dst"
  using assms
  by (auto simp: range_bytes_def Let_def write_u32_eq_copy copy_to_def add.commute)

lemma encode_loss_ranges_loop_image:
  assumes "written \<le> length dst"
  shows "encode_loss_ranges_loop rs written dst = (Inr n, dst') \<longleftrightarrow>
     list_all ordered_range rs \<and> n = written + length (report_bytes rs) \<and> n \<le> length dst
     \<and> dst' = take written dst @ report_bytes rs @ drop n dst"
  using assms
proof (induction rs arbitrary: written dst)
  case Nil
  then show ?case by (auto simp: report_bytes_def)
next
  case (Cons r rs)
  let ?l = "length (range_bytes r)"
  let ?d = "take written dst @ range_bytes r @ drop (written + ?l) dst"
  show ?case
  proof (cases "ordered_range r \<and> written + ?l \<le> length dst")
    case True
    then have step: "encode_loss_ranges_loop (r # rs) written dst = encode_loss_ranges_loop rs (written + ?l) ?d"
      using write_range_bytes [of written r dst]
      by (auto simp: ordered_range_def length_range_bytes Let_def not_less)
    from True Cons.IH [of "written + ?l" ?d] show ?thesis
      unfolding step by (auto simp: report_bytes_def ac_simps)
  next
    case False
    then show ?thesis
      using Cons.prems by (auto simp: ordered_range_def length_range_bytes Let_def report_bytes_def split: if_splits)
  qed
qed

lemma flag_word_fields:
  "(seq_value s OR 0x80000000) AND 0x80000000 \<noteq> 0" "SequenceNumber (seq_value s OR 0x80000000) = s"
proof -
  have top: "(0x80000000 :: u32) = push_bit 31 1" by simp
  have "bit (seq_value s OR 0x80000000) 31"
    unfolding top by (simp add: bit_simps del: push_bit_of_1)
  then show "(seq_value s OR 0x80000000) AND 0x80000000 \<noteq> 0"
    by (simp only: flag_clear_iff simp_thms)
  have "(seq_value s OR 0x80000000) AND seq_mask = seq_value s"
    using seq_value [of s] by (simp add: and_seq_mask take_bit_or)
  then have "seq_value (SequenceNumber (seq_value s OR 0x80000000)) = seq_value s"
    by (simp only: seq_value_SequenceNumber)
  then show "SequenceNumber (seq_value s OR 0x80000000) = s"
    by (simp only: seq_value_inject)
qed

lemma decode_loss_range_bytes:
  assumes "ordered_range r"
  shows "decode_loss_range (range_bytes r @ bs) = Inr (r, length (range_bytes r))"
proof (cases "sr_first r = sr_last r")
  case True
  then have "r = \<lparr>sr_first = sr_first r, sr_last = sr_first r\<rparr>" by simp
  with True show ?thesis
    by (simp add: range_bytes_def decode_loss_range_def Let_def seq_value_no_flag SequenceNumber_seq_value)
next
  case False
  let ?f = "seq_value (sr_first r) OR 0x80000000"
  have words: "read_u32 (u32_bytes ?f @ u32_bytes (seq_value (sr_last r)) @ bs) 0 = ?f"
    "read_u32 (u32_bytes ?f @ u32_bytes (seq_value (sr_last r)) @ bs) 4 = seq_value (sr_last r)"
    by (rule read_u32_at_bytes; simp)+
  show ?thesis
    using False assms
    by (simp add: range_bytes_def decode_loss_range_def words flag_word_fields seq_value_no_flag
        SequenceNumber_seq_value Let_def ordered_range_def)
qed

lemma decode_report_bytes:
  "list_all ordered_range rs \<Longrightarrow> decode_loss_ranges (report_bytes rs) = Inr rs"
proof (induction rs)
  case Nil
  then show ?case by (simp add: report_bytes_def decode_loss_ranges.simps)
next
  case (Cons r rs)
  have "report_bytes (r # rs) \<noteq> []"
    using length_range_bytes [of r] by (auto simp: report_bytes_def split: if_splits)
  moreover have "report_bytes (r # rs) = range_bytes r @ report_bytes rs"
    by (simp add: report_bytes_def)
  ultimately show ?case
    using Cons by (subst decode_loss_ranges.simps) (simp add: decode_loss_range_bytes)
qed

text \<open>Where and why the encoder stops: at the first range that is not ordered or does not fit.\<close>

lemma encode_loss_ranges_loop_error:
  "encode_loss_ranges_loop rs written dst = (Inl e, dst') \<Longrightarrow> written \<le> length dst \<Longrightarrow>
   length dst' = length dst \<and>
   (\<exists>k < length rs. list_all ordered_range (take k rs) \<and> written + length (report_bytes (take k rs)) \<le> length dst
      \<and> (if ordered_range (rs ! k)
         then e = buffer_too_small \<and> length dst < written + length (report_bytes (take (Suc k) rs))
         else e = invalid_control_payload))"
proof (induction rs arbitrary: written dst)
  case (Cons r rs)
  let ?l = "length (range_bytes r)"
  let ?d = "take written dst @ range_bytes r @ drop (written + ?l) dst"
  have more: "report_bytes (r # xs) = range_bytes r @ report_bytes xs" for xs by (simp add: report_bytes_def)
  show ?case
  proof (cases "ordered_range r \<and> written + ?l \<le> length dst")
    case True
    then have step: "encode_loss_ranges_loop (r # rs) written dst = encode_loss_ranges_loop rs (written + ?l) ?d"
      using write_range_bytes [of written r dst]
      by (auto simp: ordered_range_def length_range_bytes Let_def not_less)
    have len: "length ?d = length dst" using True by simp
    from Cons.IH [of "written + ?l" ?d] Cons.prems(1) True obtain k where k: "length dst' = length dst" "k < length rs"
      "list_all ordered_range (take k rs)" "written + ?l + length (report_bytes (take k rs)) \<le> length dst"
      "if ordered_range (rs ! k) then e = buffer_too_small \<and> length dst < written + ?l + length (report_bytes (take (Suc k) rs))
       else e = invalid_control_payload"
      unfolding step len by auto
    then show ?thesis using True by (intro conjI exI [of _ "Suc k"]) (auto simp: more split: if_splits)
  next
    case False
    then have "dst' = dst \<and> (if ordered_range r then e = buffer_too_small \<and> length dst < written + ?l else e = invalid_control_payload)"
      using Cons.prems by (auto simp: ordered_range_def length_range_bytes Let_def split: if_splits)
    then show ?thesis using Cons.prems(2) by (intro conjI exI [of _ 0]) (auto simp: more report_bytes_def split: if_splits)
  qed
qed simp

definition report_size :: "SequenceRange list \<Rightarrow> nat" where
  "report_size rs = (\<Sum>r \<leftarrow> rs. if sr_first r = sr_last r then 4 else 8)"

lemma length_report_bytes: "length (report_bytes rs) = report_size rs"
  by (simp add: report_bytes_def report_size_def length_concat comp_def length_range_bytes)

text \<open>
  C16. A loss report survives the wire, and every other input is refused. When the encoder
  succeeds, all ranges are ordered, it wrote four bytes for a single number and eight for a
  longer range, nothing behind them changed, and the walk over the written bytes returns the
  same ranges in the same order. When it fails, the ranges before some position are ordered and
  fit the destination, and the range at this position either is not ordered, which is reported
  as an invalid payload, or does not fit any more, which is reported as a buffer that is too
  small.
\<close>

theorem loss_report_roundtrip:
  "case encode_loss_ranges rs dst of
     (Inr n, dst') \<Rightarrow>
       (\<forall>r \<in> set rs. 0 \<le> seq_distance (sr_last r) (sr_first r)) \<and> n = report_size rs \<and> n \<le> length dst
       \<and> length dst' = length dst \<and> drop n dst' = drop n dst \<and> decode_loss_ranges (take n dst') = Inr rs
   | (Inl e, dst') \<Rightarrow>
       length dst' = length dst \<and>
       (\<exists>k < length rs. (\<forall>r \<in> set (take k rs). 0 \<le> seq_distance (sr_last r) (sr_first r))
          \<and> report_size (take k rs) \<le> length dst
          \<and> (if 0 \<le> seq_distance (sr_last (rs ! k)) (sr_first (rs ! k))
             then e = buffer_too_small \<and> length dst < report_size (take (Suc k) rs)
             else e = invalid_control_payload))"
proof -
  have ord: "list_all ordered_range xs \<longleftrightarrow> (\<forall>r \<in> set xs. 0 \<le> seq_distance (sr_last r) (sr_first r))" for xs
    by (simp add: list_all_iff ordered_range_def)
  obtain res dst' where r: "encode_loss_ranges_loop rs 0 dst = (res, dst')" by fastforce
  show ?thesis
  proof (cases res)
    case (Inl e)
    with r have "encode_loss_ranges_loop rs 0 dst = (Inl e, dst')" by simp
    from encode_loss_ranges_loop_error [OF this le0] show ?thesis
      unfolding encode_loss_ranges_def ord length_report_bytes r Inl prod.case sum.case add_0 ordered_range_def .
  next
    case (Inr n)
    then show ?thesis
      using encode_loss_ranges_loop_image [of 0 dst rs n dst'] r
      unfolding encode_loss_ranges_def ord [symmetric] length_report_bytes [symmetric] by (auto simp: decode_report_bytes)
  qed
qed

theorem loss_report_roundtrip_witness:
  "(\<exists>n dst'. encode_loss_ranges
       [\<lparr>sr_first = SequenceNumber 0x7ffffffe, sr_last = SequenceNumber 3\<rparr>,
        \<lparr>sr_first = SequenceNumber 9, sr_last = SequenceNumber 9\<rparr>] (replicate 13 1) = (Inr n, dst')
     \<and> n = 12 \<and> decode_loss_ranges (take n dst') = Inr
       [\<lparr>sr_first = SequenceNumber 0x7ffffffe, sr_last = SequenceNumber 3\<rparr>,
        \<lparr>sr_first = SequenceNumber 9, sr_last = SequenceNumber 9\<rparr>])"
proof -
  let ?rs = "[\<lparr>sr_first = SequenceNumber 0x7ffffffe, sr_last = SequenceNumber 3\<rparr>,
        \<lparr>sr_first = SequenceNumber 9, sr_last = SequenceNumber 9\<rparr>]"
  have "isl (fst (encode_loss_ranges ?rs (replicate 13 1))) = False" by code_simp
  then obtain n dst' where e: "encode_loss_ranges ?rs (replicate 13 1) = (Inr n, dst')"
    by (cases "encode_loss_ranges ?rs (replicate 13 1)"; cases "fst (encode_loss_ranges ?rs (replicate 13 1))") auto
  have "report_size ?rs = 12" by code_simp
  with loss_report_roundtrip [where rs = ?rs and dst = "replicate 13 1"] e show ?thesis by auto
qed

text \<open>A report that was accepted never grows when it is encoded again.\<close>

lemma decode_loss_range_ordered:
  assumes "decode_loss_range bs = Inr (r, n)"
  shows "ordered_range r \<and> length (range_bytes r) \<le> n \<and> n \<le> length bs"
  using assms
  by (auto simp: decode_loss_range_def Let_def ordered_range_def length_range_bytes split: if_splits)

lemma decode_loss_ranges_ordered:
  "decode_loss_ranges bs = Inr rs \<Longrightarrow> list_all ordered_range rs \<and> length (report_bytes rs) \<le> length bs"
proof (induction bs arbitrary: rs rule: decode_loss_ranges.induct)
  case (1 bs)
  show ?case
  proof (cases "bs = []")
    case True
    with "1.prems" show ?thesis by (simp add: decode_loss_ranges.simps report_bytes_def)
  next
    case False
    with "1.prems" obtain r n rs' where d: "decode_loss_range bs = Inr (r, n)"
      and rest: "decode_loss_ranges (drop n bs) = Inr rs'" and rs: "rs = r # rs'"
      by (subst (asm) decode_loss_ranges.simps) (auto split: sum.splits prod.splits)
    have "list_all ordered_range rs' \<and> length (report_bytes rs') \<le> length (drop n bs)"
      by (rule "1.IH" [OF False d refl rest])
    with decode_loss_range_ordered [OF d] show ?thesis
      by (auto simp: rs report_bytes_def)
  qed
qed

text \<open>
  C38. Every accepted loss report consists of ordered ranges, and encoding them again into a
  buffer of the report's size succeeds and yields a report that decodes to the same ranges.
\<close>

theorem loss_report_normalise:
  assumes "decode_loss_ranges payload = Inr rs" and "length payload \<le> length dst"
  shows "\<exists>n dst'. encode_loss_ranges rs dst = (Inr n, dst') \<and> n \<le> length payload
    \<and> decode_loss_ranges (take n dst') = Inr rs"
proof -
  note rs = decode_loss_ranges_ordered [OF assms(1)]
  have "encode_loss_ranges rs dst
      = (Inr (length (report_bytes rs)), report_bytes rs @ drop (length (report_bytes rs)) dst)"
    unfolding encode_loss_ranges_def using rs assms(2)
    by (subst encode_loss_ranges_loop_image) auto
  then show ?thesis using rs by (auto simp: decode_report_bytes)
qed

theorem loss_report_normalise_witness:
  "\<exists>n dst'. encode_loss_ranges [\<lparr>sr_first = SequenceNumber 7, sr_last = SequenceNumber 7\<rparr>] (replicate 9 1) = (Inr n, dst')
     \<and> n \<le> 8 \<and> decode_loss_ranges (take n dst') = Inr [\<lparr>sr_first = SequenceNumber 7, sr_last = SequenceNumber 7\<rparr>]"
proof -
  have "decode_loss_ranges [0x80, 0, 0, 7, 0, 0, 0, 7] = Inr [\<lparr>sr_first = SequenceNumber 7, sr_last = SequenceNumber 7\<rparr>]"
    by code_simp
  from loss_report_normalise [OF this, of "replicate 9 1"] show ?thesis
    by (simp add: eval_nat_numeral)
qed

section \<open>Round trips of acknowledgements and drop requests\<close>

lemma valid_sequence_word_value [simp]: "valid_sequence_word (seq_value s)"
proof -
  have "seq_value s AND NOT seq_mask = (seq_value s AND seq_mask) AND NOT seq_mask"
    using seq_value [of s] by simp
  also have "\<dots> = 0" by (simp only: and.assoc bit.conj_cancel_right) simp
  finally show ?thesis by (simp add: valid_sequence_word_def)
qed

fun acknowledgement_wire_form :: "Acknowledgement \<Rightarrow> Acknowledgement" where
  "acknowledgement_wire_form a =
     (case ak_kind a of
        AcknowledgementKind_lite \<Rightarrow>
          default_Acknowledgement \<lparr>ak_kind := AcknowledgementKind_lite,
            ak_acknowledgement_number := ak_acknowledgement_number a,
            ak_next_sequence := ak_next_sequence a\<rparr>
      | AcknowledgementKind_small \<Rightarrow>
          a \<lparr>ak_receive_rate_packets_per_second := 0, ak_estimated_link_capacity_packets_per_second := 0,
             ak_receive_rate_bytes_per_second := 0, ak_has_rate_metrics := False\<rparr>
      | AcknowledgementKind_full \<Rightarrow> a \<lparr>ak_has_rate_metrics := True\<rparr>)"

definition ack_packet :: "u32 \<Rightarrow> bytes \<Rightarrow> PacketView" where
  "ack_packet number payload =
     \<lparr>pv_kind = PacketKind_control, pv_data = default_DataHeader,
      pv_control = default_ControlHeader \<lparr>ch_type := ControlType_acknowledgement, ch_type_specific := number\<rparr>,
      pv_payload = payload\<rparr>"

text \<open>
  C29. An acknowledgement of each kind decodes to itself, up to the fields its kind does not
  carry, from a control packet that holds its number and the bytes the encoder wrote.
  Light acknowledgements carry the number zero.
\<close>

theorem acknowledgement_roundtrip:
  assumes "encode_acknowledgement_payload a dst = (Inr n, dst')"
    and "ak_kind a = AcknowledgementKind_lite \<longrightarrow> ak_acknowledgement_number a = 0"
  shows "decode_acknowledgement (ack_packet (ak_acknowledgement_number a) (take n dst'))
      = Inr (acknowledgement_wire_form a)
    \<and> length dst' = length dst \<and> drop n dst' = drop n dst"
proof (cases "ak_kind a")
  case AcknowledgementKind_lite
  let ?d = "write_u32 dst 0 (seq_value (ak_next_sequence a))"
  from assms(1) AcknowledgementKind_lite have n: "n = 4" "4 \<le> length dst" "dst' = ?d"
    by (simp_all only: encode_acknowledgement_payload_def Let_def) (auto split: if_split_asm)
  then have "read_u32 (take 4 ?d) 0 = seq_value (ak_next_sequence a)"
    by (simp add: wire_simps)
  with n AcknowledgementKind_lite assms(2) show ?thesis
    by (simp add: decode_acknowledgement_def ack_packet_def SequenceNumber_seq_value drop_write_u32)
next
  case AcknowledgementKind_small
  let ?d = "write_u32 (write_u32 (write_u32 (write_u32 dst 0 (seq_value (ak_next_sequence a)))
    4 (ak_round_trip_time_microseconds a)) 8 (ak_round_trip_time_variance_microseconds a))
    12 (ak_available_receive_buffer_packets a)"
  from assms(1) AcknowledgementKind_small have n: "n = 16" "16 \<le> length dst" "dst' = ?d"
    by (simp_all only: encode_acknowledgement_payload_def Let_def) (auto split: if_split_asm)
  then have "read_u32 (take 16 ?d) 0 = seq_value (ak_next_sequence a)"
    "read_u32 (take 16 ?d) 4 = ak_round_trip_time_microseconds a"
    "read_u32 (take 16 ?d) 8 = ak_round_trip_time_variance_microseconds a"
    "read_u32 (take 16 ?d) 12 = ak_available_receive_buffer_packets a"
    by (simp_all add: wire_simps)
  with n AcknowledgementKind_small show ?thesis
    by (simp add: decode_acknowledgement_def ack_packet_def SequenceNumber_seq_value drop_write_u32
        default_Acknowledgement_def)
next
  case AcknowledgementKind_full
  let ?d = "write_u32 (write_u32 (write_u32 (write_u32 (write_u32 (write_u32 (write_u32 dst
    0 (seq_value (ak_next_sequence a)))
    4 (ak_round_trip_time_microseconds a)) 8 (ak_round_trip_time_variance_microseconds a))
    12 (ak_available_receive_buffer_packets a)) 16 (ak_receive_rate_packets_per_second a))
    20 (ak_estimated_link_capacity_packets_per_second a)) 24 (ak_receive_rate_bytes_per_second a)"
  from assms(1) AcknowledgementKind_full have n: "n = 28" "28 \<le> length dst" "dst' = ?d"
    by (simp_all only: encode_acknowledgement_payload_def Let_def) (auto split: if_split_asm)
  then have "read_u32 (take 28 ?d) 0 = seq_value (ak_next_sequence a)"
    "read_u32 (take 28 ?d) 4 = ak_round_trip_time_microseconds a"
    "read_u32 (take 28 ?d) 8 = ak_round_trip_time_variance_microseconds a"
    "read_u32 (take 28 ?d) 12 = ak_available_receive_buffer_packets a"
    "read_u32 (take 28 ?d) 16 = ak_receive_rate_packets_per_second a"
    "read_u32 (take 28 ?d) 20 = ak_estimated_link_capacity_packets_per_second a"
    "read_u32 (take 28 ?d) 24 = ak_receive_rate_bytes_per_second a"
    by (simp_all add: wire_simps)
  with n AcknowledgementKind_full show ?thesis
    by (simp add: decode_acknowledgement_def ack_packet_def SequenceNumber_seq_value drop_write_u32
        default_Acknowledgement_def)
qed

theorem acknowledgement_roundtrip_witness:
  "decode_acknowledgement (ack_packet 0 [0, 0, 0, 9])
     = Inr (default_Acknowledgement \<lparr>ak_kind := AcknowledgementKind_lite, ak_next_sequence := SequenceNumber 9\<rparr>)"
proof -
  let ?a = "default_Acknowledgement \<lparr>ak_kind := AcknowledgementKind_lite, ak_next_sequence := SequenceNumber 9\<rparr>"
  have "encode_acknowledgement_payload ?a [1, 2, 3, 4, 5] = (Inr 4, [0, 0, 0, 9, 5])"
    by code_simp
  from acknowledgement_roundtrip [OF this] show ?thesis
    by (simp add: default_Acknowledgement_def)
qed

definition drop_packet :: "u32 \<Rightarrow> bytes \<Rightarrow> PacketView" where
  "drop_packet number payload =
     \<lparr>pv_kind = PacketKind_control, pv_data = default_DataHeader,
      pv_control = default_ControlHeader \<lparr>ch_type := ControlType_drop_request, ch_type_specific := number\<rparr>,
      pv_payload = payload\<rparr>"

lemma drop_request_roundtrip:
  assumes "encode_drop_request_payload r dst = (Inr n, dst')"
  shows "decode_drop_request (drop_packet (dr_message_number r) (take n dst'))
      = Inr (r \<lparr>dr_message_number := dr_message_number r AND 0x03ffffff\<rparr>)"
proof -
  let ?d = "write_u32 (write_u32 dst 0 (seq_value (sr_first (dr_sequences r)))) 4
    (seq_value (sr_last (dr_sequences r)))"
  from assms have n: "n = 8" "8 \<le> length dst" "dst' = ?d"
    "0 \<le> seq_distance (sr_last (dr_sequences r)) (sr_first (dr_sequences r))"
    by (auto simp: encode_drop_request_payload_def Let_def split: if_split_asm)
  then have "read_u32 (take 8 ?d) 0 = seq_value (sr_first (dr_sequences r))"
    "read_u32 (take 8 ?d) 4 = seq_value (sr_last (dr_sequences r))"
    by (simp_all add: wire_simps)
  with n show ?thesis
    by (simp add: decode_drop_request_def drop_packet_def SequenceNumber_seq_value Let_def)
qed

end
