(* ===== verification/Receive_Window.thy ===== *)
theory Receive_Window
  imports Sequence
begin

text \<open>
  \<^verbatim>\<open>ReceiveWindow\<close> of \<^verbatim>\<open>reliability.cpp\<close>: a ring of received flags ahead of the first expected
  sequence number. The refinement relates it to the set of packets accepted so far, counted
  from the initial sequence number without wrap-around.
\<close>

section \<open>State and operations\<close>

datatype ReceiveStatus =
    ReceiveStatus_accepted_in_order
  | ReceiveStatus_accepted_out_of_order
  | ReceiveStatus_duplicate
  | ReceiveStatus_older_than_window
  | ReceiveStatus_beyond_window

record ReceiveDecision =
  rd_status :: ReceiveStatus
  rd_gap_before_packet :: "SequenceRange option"
  rd_contiguous_advance :: u32

record ReceiveWindow =
  rw_first_expected :: SequenceNumber
  rw_slots :: "u8 list"
  rw_head :: nat

definition make_ReceiveWindow :: "SequenceNumber \<Rightarrow> nat \<Rightarrow> ReceiveWindow option" where
  "make_ReceiveWindow first_expected capacity =
     (if capacity = 0 \<or> capacity \<ge> unat seq_half_range then None
      else Some \<lparr>rw_first_expected = first_expected, rw_slots = replicate capacity 0, rw_head = 0\<rparr>)"

definition decision_of :: "ReceiveStatus \<Rightarrow> ReceiveDecision" where
  "decision_of status =
     \<lparr>rd_status = status, rd_gap_before_packet = None, rd_contiguous_advance = 0\<rparr>"

text \<open>
  The loop \<^verbatim>\<open>while (slots_[head_] != 0U)\<close>. Each round clears a flag, so the number of set
  flags decreases; the head is always a valid index (see \<open>window_history\<close>).
\<close>

function rw_drain :: "ReceiveWindow \<Rightarrow> u32 \<Rightarrow> ReceiveWindow \<times> u32" where
  "rw_drain w advance =
     (if rw_head w < length (rw_slots w) \<and> rw_slots w ! rw_head w \<noteq> 0 then
        rw_drain
          (w \<lparr>rw_slots := (rw_slots w)[rw_head w := 0],
              rw_head := (rw_head w + 1) mod length (rw_slots w),
              rw_first_expected := seq_next (rw_first_expected w)\<rparr>)
          (advance + 1)
      else (w, advance))"
  by auto
termination
proof (relation "measure (\<lambda>(w, _). length (filter (\<lambda>x. x \<noteq> 0) (rw_slots w)))", goal_cases)
  case (2 w advance)
  then show ?case
    using length_filter_update [of "rw_head w" "rw_slots w" "\<lambda>x. x \<noteq> 0" 0] by simp
qed simp

declare rw_drain.simps [simp del]

definition rw_observe :: "ReceiveWindow \<Rightarrow> SequenceNumber \<Rightarrow> ReceiveDecision \<times> ReceiveWindow" where
  "rw_observe w sequence =
     (let signed_offset = seq_distance sequence (rw_first_expected w)
      in if signed_offset < 0 then (decision_of ReceiveStatus_older_than_window, w)
         else
           let offset = nat signed_offset
           in if offset \<ge> length (rw_slots w) then (decision_of ReceiveStatus_beyond_window, w)
              else
                let slot = (rw_head w + offset) mod length (rw_slots w)
                in if rw_slots w ! slot \<noteq> 0 then (decision_of ReceiveStatus_duplicate, w)
                   else
                     let w1 = w \<lparr>rw_slots := (rw_slots w)[slot := 1]\<rparr>
                     in if offset > 0 then
                          ((decision_of ReceiveStatus_accepted_out_of_order)
                             \<lparr>rd_gap_before_packet :=
                                Some \<lparr>sr_first = rw_first_expected w, sr_last = seq_advanced sequence seq_mask\<rparr>\<rparr>,
                           w1)
                        else
                          let (w2, advance) = rw_drain w1 0
                          in ((decision_of ReceiveStatus_accepted_in_order)
                                \<lparr>rd_contiguous_advance := advance\<rparr>, w2))"

section \<open>Refinement to the set of accepted packets\<close>

text \<open>
  \<open>holds_from b H w\<close>: the window starts at packet \<open>b\<close>, everything before \<open>b\<close> was accepted, and
  flag \<open>i\<close> says whether packet \<open>b + i\<close> was.
\<close>

definition holds_from :: "SequenceNumber \<Rightarrow> nat \<Rightarrow> nat set \<Rightarrow> ReceiveWindow \<Rightarrow> bool" where
  "holds_from init b H w \<longleftrightarrow>
     0 < length (rw_slots w) \<and> length (rw_slots w) < 1073741824 \<and> rw_head w < length (rw_slots w)
     \<and> rw_first_expected w = seq_adv init (int b)
     \<and> {..<b} \<subseteq> H \<and> H \<subseteq> {..<b + length (rw_slots w)}
     \<and> (\<forall>i < length (rw_slots w). ring_at (rw_slots w) (rw_head w) i \<noteq> 0 \<longleftrightarrow> b + i \<in> H)"

definition window_history :: "SequenceNumber \<Rightarrow> nat set \<Rightarrow> ReceiveWindow \<Rightarrow> bool" where
  "window_history init H w \<longleftrightarrow> holds_from init (mex H) H w"

lemma ring_at_0: "head < length slots \<Longrightarrow> ring_at slots head 0 = slots ! head"
  by (simp add: ring_at_def)

lemma holds_from_finite: "holds_from init b H w \<Longrightarrow> finite H"
  unfolding holds_from_def using finite_subset finite_lessThan by blast

lemma holds_from_step:
  assumes "holds_from init b H w" "rw_slots w ! rw_head w \<noteq> 0"
  shows "holds_from init (Suc b) H
    (w \<lparr>rw_slots := (rw_slots w)[rw_head w := 0],
        rw_head := (rw_head w + 1) mod length (rw_slots w),
        rw_first_expected := seq_next (rw_first_expected w)\<rparr>)"
proof -
  let ?n = "length (rw_slots w)" and ?s = "rw_slots w" and ?h = "rw_head w"
  note inv = assms(1) [unfolded holds_from_def]
  have put: "?s[?h := 0] = ring_put ?s ?h 0 0" using inv by (simp add: ring_put_def)
  have b: "b \<in> H" using inv assms(2) ring_at_0 [of ?h ?s] by force
  have flags: "ring_at (ring_put ?s ?h 0 0) ((?h + 1) mod ?n) i \<noteq> 0 \<longleftrightarrow> Suc b + i \<in> H" if "i < ?n" for i
  proof (cases "Suc i < ?n")
    case True
    then have "ring_at (ring_put ?s ?h 0 0) ((?h + 1) mod ?n) i = ring_at ?s ?h (Suc i)"
      using ring_at_advance [of "ring_put ?s ?h 0 0" ?h 1 i] ring_at_put [of 0 ?s "Suc i" ?h 0] by fastforce
    then show ?thesis using inv True by auto
  next
    case False
    with that have i: "?h + 1 + i = ?h + ?n" by simp
    have "ring_at (ring_put ?s ?h 0 0) ((?h + 1) mod ?n) i = ring_at (ring_put ?s ?h 0 0) ?h 0"
      unfolding ring_at_def by (simp only: length_ring_put mod_add_left_eq i) simp
    then have "ring_at (ring_put ?s ?h 0 0) ((?h + 1) mod ?n) i = 0"
      using inv ring_at_put [of 0 ?s 0 ?h 0] by fastforce
    then show ?thesis using inv i by auto
  qed
  have "seq_next (seq_adv init (int b)) = seq_adv init (int (Suc b))"
    by (simp only: seq_next_adv sn.adv_adv) (simp add: add.commute)
  with inv b flags show ?thesis
    unfolding holds_from_def put by (auto simp: less_Suc_eq)
qed

lemma rw_drain_holds:
  assumes "holds_from init b H w"
  shows "holds_from init (mex H) H (fst (rw_drain w k))
    \<and> snd (rw_drain w k) = k + of_nat (mex H - b)
    \<and> length (rw_slots (fst (rw_drain w k))) = length (rw_slots w)"
  using assms
proof (induction w k arbitrary: b rule: rw_drain.induct)
  case (1 w k)
  note inv = "1.prems" [unfolded holds_from_def]
  show ?case
  proof (cases "rw_slots w ! rw_head w = 0")
    case True
    then have "b \<notin> H" using inv ring_at_0 [of "rw_head w" "rw_slots w"] by force
    with inv have "mex H = b" by (intro mex_eqI) auto
    with True "1.prems" show ?thesis by (subst (1 2 3) rw_drain.simps) simp
  next
    case False
    let ?w = "w \<lparr>rw_slots := (rw_slots w)[rw_head w := 0],
        rw_head := (rw_head w + 1) mod length (rw_slots w),
        rw_first_expected := seq_next (rw_first_expected w)\<rparr>"
    have step: "rw_drain w k = rw_drain ?w (k + 1)"
      using False inv by (subst rw_drain.simps) simp
    have "b \<in> H" using False inv ring_at_0 [of "rw_head w" "rw_slots w"] by force
    with inv have "b < mex H"
      using mex_not_in [OF holds_from_finite [OF "1.prems"]]
      by (metis lessThan_iff linorder_neqE_nat mex_le mex_eqI not_less subsetD)
    moreover have "holds_from init (Suc b) H ?w"
      by (rule holds_from_step [OF "1.prems" False])
    moreover have "rw_head w < length (rw_slots w) \<and> rw_slots w ! rw_head w \<noteq> 0"
      using inv False by simp
    ultimately show ?thesis
      using "1.IH" [of "Suc b"] unfolding step by (simp add: Suc_diff_Suc [symmetric] add.assoc)
  qed
qed

lemma rw_observe_step:
  assumes "window_history init H w"
    and "0 \<le> seq_distance s (rw_first_expected w)"
    and "seq_distance s (rw_first_expected w) < int (length (rw_slots w))"
  defines "n \<equiv> mex H + nat (seq_distance s (rw_first_expected w))"
  shows "n \<in> H \<Longrightarrow> rw_observe w s = (decision_of ReceiveStatus_duplicate, w)"
    and "n \<notin> H \<Longrightarrow> n \<noteq> mex H \<Longrightarrow> \<exists>w'. rw_observe w s =
        ((decision_of ReceiveStatus_accepted_out_of_order)
          \<lparr>rd_gap_before_packet := Some \<lparr>sr_first = rw_first_expected w, sr_last = seq_adv s (- 1)\<rparr>\<rparr>, w')
        \<and> window_history init (insert n H) w' \<and> length (rw_slots w') = length (rw_slots w)"
    and "n \<notin> H \<Longrightarrow> n = mex H \<Longrightarrow> \<exists>w'. rw_observe w s =
        ((decision_of ReceiveStatus_accepted_in_order)
          \<lparr>rd_contiguous_advance := of_nat (mex (insert n H) - mex H)\<rparr>, w')
        \<and> window_history init (insert n H) w' \<and> length (rw_slots w') = length (rw_slots w)"
proof -
  let ?d = "nat (seq_distance s (rw_first_expected w))" and ?s = "rw_slots w" and ?h = "rw_head w"
  let ?w = "w \<lparr>rw_slots := ring_put ?s ?h ?d 1\<rparr>"
  note inv = assms(1) [unfolded window_history_def holds_from_def]
  have d: "?d < length ?s" using assms(2,3) by simp
  have flag: "?s ! ((?h + ?d) mod length ?s) \<noteq> 0 \<longleftrightarrow> n \<in> H"
    using inv d by (simp add: n_def ring_at_def)
  have fin: "finite H" using assms(1) holds_from_finite by (auto simp: window_history_def)
  have n: "mex H \<le> n" by (simp add: n_def)
  have put: "?s[(?h + ?d) mod length ?s := 1] = ring_put ?s ?h ?d 1" by (simp add: ring_put_def)
  have put0: "?s[?h mod length ?s := 1] = ring_put ?s ?h 0 1" by (simp add: ring_put_def)
  have ins: "holds_from init (mex H) (insert n H) ?w"
    using inv d by (auto simp: holds_from_def ring_at_put n_def)
  show "rw_observe w s = (decision_of ReceiveStatus_duplicate, w)" if "n \<in> H"
    using that flag d assms(2) by (simp add: rw_observe_def Let_def)
  show "\<exists>w'. rw_observe w s =
        ((decision_of ReceiveStatus_accepted_out_of_order)
          \<lparr>rd_gap_before_packet := Some \<lparr>sr_first = rw_first_expected w, sr_last = seq_adv s (- 1)\<rparr>\<rparr>, w')
        \<and> window_history init (insert n H) w' \<and> length (rw_slots w') = length (rw_slots w)"
    if "n \<notin> H" "n \<noteq> mex H"
  proof (intro exI [of _ ?w] conjI)
    show "window_history init (insert n H) ?w"
      using ins that(2) by (simp add: window_history_def mex_insert_other [OF fin])
  qed (use that flag d assms(2) in \<open>simp_all add: rw_observe_def Let_def n_def put seq_advanced_mask\<close>)
  show "\<exists>w'. rw_observe w s =
        ((decision_of ReceiveStatus_accepted_in_order)
          \<lparr>rd_contiguous_advance := of_nat (mex (insert n H) - mex H)\<rparr>, w')
        \<and> window_history init (insert n H) w' \<and> length (rw_slots w') = length (rw_slots w)"
    if "n \<notin> H" "n = mex H"
  proof (intro exI [of _ "fst (rw_drain ?w 0)"] conjI)
    show "window_history init (insert n H) (fst (rw_drain ?w 0))"
      "length (rw_slots (fst (rw_drain ?w 0))) = length (rw_slots w)"
      using rw_drain_holds [OF ins, of 0] by (simp_all add: window_history_def)
  qed (use that flag d assms(2) rw_drain_holds [OF ins, of 0] in
      \<open>simp add: rw_observe_def Let_def n_def put put0 case_prod_unfold\<close>)
qed

lemma rw_observe_outside:
  "seq_distance s (rw_first_expected w) < 0
     \<Longrightarrow> rw_observe w s = (decision_of ReceiveStatus_older_than_window, w)"
  "int (length (rw_slots w)) \<le> seq_distance s (rw_first_expected w)
     \<Longrightarrow> rw_observe w s = (decision_of ReceiveStatus_beyond_window, w)"
  by (auto simp: rw_observe_def Let_def nat_le_iff not_less)

lemma make_ReceiveWindow_history:
  "make_ReceiveWindow init capacity = Some w \<Longrightarrow> window_history init {} w \<and> length (rw_slots w) = capacity"
  by (auto simp: make_ReceiveWindow_def window_history_def holds_from_def ring_at_def split: if_splits)

text \<open>The window driven by a sequence of arrivals; the decisions are collected in order.\<close>

fun observe_all :: "ReceiveWindow \<Rightarrow> SequenceNumber list \<Rightarrow> ReceiveDecision list \<times> ReceiveWindow" where
  "observe_all w [] = ([], w)"
| "observe_all w (s # ss) =
     (let (d, w1) = rw_observe w s; (ds, w2) = observe_all w1 ss in (d # ds, w2))"

definition accepted :: "ReceiveDecision \<Rightarrow> bool" where
  "accepted d \<longleftrightarrow> rd_status d \<in> {ReceiveStatus_accepted_in_order, ReceiveStatus_accepted_out_of_order}"

text \<open>
  What an arrival adds to the packets accepted so far, counted from the first expected one
  without wrap-around: the packet that carries this sequence number among the next \<open>capacity\<close>
  ones from the first missing packet on.
\<close>

definition arrive :: "SequenceNumber \<Rightarrow> nat \<Rightarrow> SequenceNumber \<Rightarrow> nat set \<Rightarrow> nat set" where
  "arrive init capacity s H = H \<union> {n. mex H \<le> n \<and> n < mex H + capacity \<and> s = seq_adv init (int n)}"

lemma arrive_offset:
  fixes s init :: SequenceNumber and H :: "nat set"
  assumes "capacity < 1073741824"
  defines "d \<equiv> seq_distance s (seq_adv init (int (mex H)))"
  shows "arrive init capacity s H = (if 0 \<le> d \<and> d < int capacity then insert (mex H + nat d) H else H)"
proof -
  let ?t = "seq_adv init (int (mex H))"
  have key: "s = seq_adv init (int n) \<longleftrightarrow> 0 \<le> d \<and> n = mex H + nat d" if n: "mex H \<le> n" "n < mex H + capacity" for n
  proof -
    have t: "seq_adv init (int n) = seq_adv ?t (int n - int (mex H))"
      unfolding sn.adv_adv by (simp only: add_diff_eq add_diff_cancel_left')
    have "seq_distance (seq_adv ?t (int n - int (mex H))) ?t = int n - int (mex H)"
      using n assms(1) by (intro sn.dist_adv) auto
    moreover have "seq_adv ?t d = s" unfolding d_def by (rule sn.adv_dist)
    ultimately show ?thesis unfolding t using n by (auto simp: d_def)
  qed
  have "mex H \<le> n \<and> n < mex H + capacity \<longleftrightarrow> d < int capacity" if "0 \<le> d" "n = mex H + nat d" for n
    using that by (simp add: nat_less_iff)
  then have "(mex H \<le> n \<and> n < mex H + capacity \<and> s = seq_adv init (int n)) \<longleftrightarrow> 0 \<le> d \<and> d < int capacity \<and> n = mex H + nat d" for n
    using key by blast
  then show ?thesis unfolding arrive_def by auto
qed

lemma rw_observe_history:
  fixes s init :: SequenceNumber and H :: "nat set" and w :: ReceiveWindow
  assumes "window_history init H w" "rw_observe w s = (d, w')"
  defines "H' \<equiv> arrive init (length (rw_slots w)) s H"
  shows "window_history init H' w' \<and> card H' = card H + (if accepted d then 1 else 0)
    \<and> mex H' = mex H + unat (rd_contiguous_advance d) \<and> length (rw_slots w') = length (rw_slots w)"
proof -
  let ?d = "seq_distance s (rw_first_expected w)"
  let ?n = "mex H + nat ?d"
  have fin: "finite H" using assms(1) holds_from_finite by (auto simp: window_history_def)
  have cap: "length (rw_slots w) < 1073741824"
    and first: "rw_first_expected w = seq_adv init (int (mex H))"
    using assms(1) by (simp_all add: window_history_def holds_from_def)
  have H': "H' = (if 0 \<le> ?d \<and> ?d < int (length (rw_slots w)) then insert ?n H else H)"
    unfolding H'_def arrive_offset [OF cap] first ..
  consider "?d < 0" | "int (length (rw_slots w)) \<le> ?d"
    | (dup) "0 \<le> ?d" "?d < int (length (rw_slots w))" "?n \<in> H"
    | (ooo) "0 \<le> ?d" "?d < int (length (rw_slots w))" "?n \<notin> H" "?n \<noteq> mex H"
    | (ord) "0 \<le> ?d" "?d < int (length (rw_slots w))" "?n \<notin> H" "?n = mex H"
    by linarith
  then show ?thesis
  proof cases
    case dup
    then have "H' = H" using H' by auto
    then show ?thesis using assms rw_observe_step(1) [OF assms(1) dup] by (auto simp: decision_of_def accepted_def)
  next
    case ooo
    have eq: "H' = insert ?n H" using H' ooo by simp
    from rw_observe_step(2) [OF assms(1) ooo] assms(2) fin ooo(3,4) show ?thesis
      unfolding eq by (auto simp: decision_of_def accepted_def mex_insert_other)
  next
    case ord
    have eq: "H' = insert ?n H" using H' ord by simp
    note step = rw_observe_step(3) [OF assms(1) ord]
    have le: "mex H \<le> mex (insert ?n H)" using fin by (intro mex_mono) auto
    have "mex (insert ?n H) \<le> mex H + length (rw_slots w)"
      using assms(1) ord(1,2) by (intro mex_le) (auto simp: window_history_def holds_from_def)
    then have "mex (insert ?n H) - mex H < 2 ^ 32"
      using cap by simp
    then have "unat (of_nat (mex (insert ?n H) - mex H) :: u32) = mex (insert ?n H) - mex H"
      by (simp add: unat_of_nat del: of_nat_diff)
    with step assms(2) fin ord(3) le show ?thesis
      unfolding eq by (auto simp: decision_of_def accepted_def simp del: of_nat_diff)
  qed (use assms(1,2) rw_observe_outside H' in \<open>auto simp: decision_of_def accepted_def\<close>)
qed

lemma observe_all_history:
  fixes init :: SequenceNumber and ss :: "SequenceNumber list" and H :: "nat set" and w :: ReceiveWindow
  assumes "window_history init H w" "observe_all w ss = (ds, w')"
  defines "H' \<equiv> fold (arrive init (length (rw_slots w))) ss H"
  shows "window_history init H' w' \<and> card H' = card H + length (filter accepted ds)
    \<and> mex H' = mex H + (\<Sum>d \<leftarrow> ds. unat (rd_contiguous_advance d))
    \<and> length (rw_slots w') = length (rw_slots w)"
  using assms(1,2) unfolding H'_def
proof (induction ss arbitrary: H w ds)
  case (Cons s ss)
  obtain d w1 where d: "rw_observe w s = (d, w1)" by (cases "rw_observe w s")
  obtain ds' w2 where ds: "observe_all w1 ss = (ds', w2)" by (cases "observe_all w1 ss")
  from Cons.prems(2) d ds have eq: "ds = d # ds'" "w2 = w'" by simp_all
  note step = rw_observe_history [OF Cons.prems(1) d]
  from Cons.IH [OF conjunct1 [OF step]] ds eq step show ?case by simp
qed auto

section \<open>Properties\<close>

text \<open>
  C5. The receive window is the set of packets accepted so far. The set is computed from the
  arrivals alone: starting with no packet, each arrival adds the packet that carries its
  sequence number among the next \<open>capacity\<close> ones from the first missing packet on, and nothing
  when there is none (packets are counted from the first expected one, without wrap-around).
  After any arrivals at a fresh window, the flags show exactly this set from its gap-free prefix
  on, the window starts right behind this prefix, the number of accepting decisions is the size
  of the set, and the reported advances add up to the length of the prefix.
\<close>

theorem receive_window_exact:
  fixes init :: SequenceNumber and capacity :: nat and ss :: "SequenceNumber list"
  assumes "make_ReceiveWindow init capacity = Some w0" "observe_all w0 ss = (ds, w)"
  defines "H \<equiv> fold (arrive init capacity) ss {}"
  shows "card H = length (filter accepted ds)
    \<and> mex H = (\<Sum>d \<leftarrow> ds. unat (rd_contiguous_advance d))
    \<and> rw_first_expected w = seq_adv init (int (mex H))
    \<and> (\<forall>i < capacity. ring_at (rw_slots w) (rw_head w) i \<noteq> 0 \<longleftrightarrow> mex H + i \<in> H)
    \<and> {..<mex H} \<subseteq> H \<and> H \<subseteq> {..<mex H + capacity}"
proof -
  note init = make_ReceiveWindow_history [OF assms(1)]
  note run = observe_all_history [OF conjunct1 [OF init] assms(2), unfolded conjunct2 [OF init], folded H_def]
  then have window: "holds_from init (mex H) H w" and cap: "length (rw_slots w) = capacity"
    unfolding window_history_def by blast+
  show ?thesis using run window unfolding holds_from_def cap card.empty mex_empty add_0 by blast
qed

theorem receive_window_exact_witness:
  "\<exists>w0 ds w. make_ReceiveWindow (SequenceNumber 0x7ffffffe) 4 = Some w0
     \<and> observe_all w0 [SequenceNumber 0, SequenceNumber 0x7fffffff, SequenceNumber 0, SequenceNumber 0x7ffffffe] = (ds, w)
     \<and> card (fold (arrive (SequenceNumber 0x7ffffffe) 4)
         [SequenceNumber 0, SequenceNumber 0x7fffffff, SequenceNumber 0, SequenceNumber 0x7ffffffe] {}) = 3
     \<and> rw_first_expected w = seq_adv (SequenceNumber 0x7ffffffe) 3"
proof -
  let ?s = SequenceNumber
  let ?w = "\<lparr>rw_first_expected = ?s 0x7ffffffe, rw_slots = [0, 0, 0, 0], rw_head = 0\<rparr>"
  let ?ss = "[?s 0, ?s 0x7fffffff, ?s 0, ?s 0x7ffffffe]"
  have four: "replicate 4 (0 :: u8) = [0, 0, 0, 0]" by code_simp
  have make: "make_ReceiveWindow (?s 0x7ffffffe) 4 = Some ?w"
    by (simp add: make_ReceiveWindow_def four)
  let ?r = "observe_all ?w ?ss"
  have ds: "?r = (fst ?r, snd ?r)" by (rule prod.collapse [symmetric])
  have counts: "length (filter accepted (fst ?r)) = 3"
    "(\<Sum>d \<leftarrow> fst ?r. unat (rd_contiguous_advance d)) = 3"
    by code_simp+
  have "card (fold (arrive (?s 0x7ffffffe) 4) ?ss {}) = 3" "rw_first_expected (snd ?r) = seq_adv (?s 0x7ffffffe) (int 3)"
    using receive_window_exact [OF make ds] unfolding counts by metis+
  with make ds show ?thesis
    by (intro exI [of _ ?w] exI [of _ "fst ?r"] exI [of _ "snd ?r"]) (simp del: observe_all.simps fold_simps)
qed

text \<open>
  C6. What one arrival does to a window that shows the set \<open>H\<close>: packets before the gap-free
  prefix are old, packets past the capacity are beyond, packets of \<open>H\<close> are duplicates, and each
  of these leaves the window as it is. Any other packet joins the set; it is in order exactly
  when it is the first missing one, and otherwise the reported gap runs from the first missing
  packet up to the one just before it.
\<close>

theorem receive_window_decision:
  fixes s :: SequenceNumber
  assumes "window_history init H w"
  defines "d \<equiv> seq_distance s (rw_first_expected w)"
  defines "n \<equiv> mex H + nat d"
  shows "case rw_observe w s of (decision, w') \<Rightarrow>
    (if d < 0 then decision = decision_of ReceiveStatus_older_than_window \<and> w' = w
     else if int (length (rw_slots w)) \<le> d then decision = decision_of ReceiveStatus_beyond_window \<and> w' = w
     else if n \<in> H then decision = decision_of ReceiveStatus_duplicate \<and> w' = w
     else window_history init (insert n H) w' \<and>
       (if d = 0 then decision = (decision_of ReceiveStatus_accepted_in_order)
            \<lparr>rd_contiguous_advance := of_nat (mex (insert n H) - mex H)\<rparr>
        else decision = (decision_of ReceiveStatus_accepted_out_of_order)
            \<lparr>rd_gap_before_packet := Some \<lparr>sr_first = rw_first_expected w, sr_last = seq_adv s (- 1)\<rparr>\<rparr>))"
proof -
  note step = rw_observe_step [OF assms(1), of s, folded d_def, folded n_def]
  consider (old) "d < 0" | (beyond) "int (length (rw_slots w)) \<le> d" "0 \<le> d"
    | (dup) "0 \<le> d" "d < int (length (rw_slots w))" "n \<in> H"
    | (ooo) "0 \<le> d" "d < int (length (rw_slots w))" "n \<notin> H" "d \<noteq> 0"
    | (ord) "0 \<le> d" "d < int (length (rw_slots w))" "n \<notin> H" "d = 0"
    by linarith
  then show ?thesis
  proof cases
    case old
    then show ?thesis using rw_observe_outside(1) [of s w] by (simp add: d_def)
  next
    case beyond
    then show ?thesis using rw_observe_outside(2) [of w s] by (simp add: d_def)
  next
    case dup
    then show ?thesis using step(1) by simp
  next
    case ooo
    then obtain w' where "rw_observe w s =
        ((decision_of ReceiveStatus_accepted_out_of_order)
          \<lparr>rd_gap_before_packet := Some \<lparr>sr_first = rw_first_expected w, sr_last = seq_adv s (- 1)\<rparr>\<rparr>, w')"
      "window_history init (insert n H) w'"
      using step(2) by (auto simp: n_def)
    with ooo show ?thesis by simp
  next
    case ord
    then obtain w' where "rw_observe w s =
        ((decision_of ReceiveStatus_accepted_in_order)
          \<lparr>rd_contiguous_advance := of_nat (mex (insert n H) - mex H)\<rparr>, w')"
      "window_history init (insert n H) w'"
      using step(3) by (auto simp: n_def)
    with ord show ?thesis by simp
  qed
qed

theorem receive_window_decision_witness:
  "rw_observe \<lparr>rw_first_expected = SequenceNumber 5, rw_slots = [0, 0, 0], rw_head = 1\<rparr> (SequenceNumber 7)
     = ((decision_of ReceiveStatus_accepted_out_of_order)
          \<lparr>rd_gap_before_packet := Some \<lparr>sr_first = SequenceNumber 5, sr_last = SequenceNumber 6\<rparr>\<rparr>,
        \<lparr>rw_first_expected = SequenceNumber 5, rw_slots = [1, 0, 0], rw_head = 1\<rparr>)
   \<and> window_history (SequenceNumber 5) {2} \<lparr>rw_first_expected = SequenceNumber 5, rw_slots = [1, 0, 0], rw_head = 1\<rparr>"
proof -
  let ?w = "\<lparr>rw_first_expected = SequenceNumber 5, rw_slots = [0, 0, 0], rw_head = 1\<rparr>"
  have all: "ring_at [0, 0, 0] 1 i = (0 :: u8)" if "i < Suc (Suc (Suc 0))" for i
  proof -
    have "ring_at [0, 0, 0] 1 0 = (0 :: u8)" "ring_at [0, 0, 0] 1 (Suc 0) = (0 :: u8)"
      "ring_at [0, 0, 0] 1 (Suc (Suc 0)) = (0 :: u8)" by code_simp+
    with that show ?thesis by (auto simp: less_Suc_eq)
  qed
  have h: "window_history (SequenceNumber 5) {} ?w"
    unfolding window_history_def holds_from_def using all by simp
  have o: "rw_observe ?w (SequenceNumber 7) = ((decision_of ReceiveStatus_accepted_out_of_order)
          \<lparr>rd_gap_before_packet := Some \<lparr>sr_first = SequenceNumber 5, sr_last = SequenceNumber 6\<rparr>\<rparr>,
        \<lparr>rw_first_expected = SequenceNumber 5, rw_slots = [1, 0, 0], rw_head = 1\<rparr>)" by code_simp
  have "seq_distance (SequenceNumber 7) (SequenceNumber 5) = 2" by code_simp
  with receive_window_decision [OF h, of "SequenceNumber 7"] o show ?thesis
    by (simp add: numeral_2_eq_2)
qed

end
