(* ===== verification/Array_Loops.thy ===== *)
theory Array_Loops
  imports SRT_Prelude
begin

text \<open>
  The element-moving loops of the fixed-capacity vectors, as recursions over the index that the
  source counts, with the list each of them computes.
\<close>

section \<open>Copying towards the front\<close>

text \<open>\<^verbatim>\<open>for (index = i; index < n; ++index) v[index] = v[index + k];\<close>\<close>

function copy_down :: "'a list \<Rightarrow> nat \<Rightarrow> nat \<Rightarrow> nat \<Rightarrow> 'a list" where
  "copy_down v k i n = (if i < n then copy_down (v[i := v ! (i + k)]) k (Suc i) n else v)"
  by auto
termination by (relation "measure (\<lambda>(v, k, i, n). n - i)") auto

declare copy_down.simps [simp del]

lemma length_copy_down [simp]: "length (copy_down v k i n) = length v"
  by (induction v k i n rule: copy_down.induct) (subst copy_down.simps, simp)

lemma copy_down_eq:
  "i \<le> n \<Longrightarrow> n + k \<le> length v
   \<Longrightarrow> copy_down v k i n = take i v @ take (n - i) (drop (i + k) v) @ drop n v"
proof (induction v k i n rule: copy_down.induct)
  case (1 v k i n)
  show ?case
  proof (cases "i < n")
    case True
    have "copy_down v k i n = copy_down (v[i := v ! (i + k)]) k (Suc i) n"
      using True by (subst copy_down.simps) simp
    also have "\<dots> = take (Suc i) (v[i := v ! (i + k)]) @ take (n - Suc i) (drop (Suc i + k) v) @ drop n v"
      using 1 True by simp
    finally have eq: "copy_down v k i n
        = take (Suc i) (v[i := v ! (i + k)]) @ take (n - Suc i) (drop (Suc i + k) v) @ drop n v" .
    have "take (Suc i) (v[i := v ! (i + k)]) = take i v @ [v ! (i + k)]"
      using True "1.prems" by (simp add: take_Suc_conv_app_nth)
    moreover have "[v ! (i + k)] @ take (n - Suc i) (drop (Suc i + k) v) = take (n - i) (drop (i + k) v)"
      using True "1.prems" Cons_nth_drop_Suc [of "i + k" v, symmetric]
      by (simp add: Suc_diff_Suc [symmetric])
    ultimately show ?thesis unfolding eq by simp
  next
    case False
    then show ?thesis using "1.prems" by (subst copy_down.simps) simp
  qed
qed

section \<open>Copying towards the back\<close>

text \<open>\<^verbatim>\<open>for (source = src; source > pos; --source) v[source] = v[source - 1];\<close>\<close>

fun shift_up :: "'a list \<Rightarrow> nat \<Rightarrow> nat \<Rightarrow> 'a list" where
  "shift_up v pos 0 = v"
| "shift_up v pos (Suc src) =
     (if Suc src > pos then shift_up (v[Suc src := v ! src]) pos src else v)"

lemma length_shift_up [simp]: "length (shift_up v pos src) = length v"
  by (induction v pos src rule: shift_up.induct) auto

lemma shift_up_eq:
  "pos \<le> src \<Longrightarrow> src < length v
   \<Longrightarrow> shift_up v pos src = take (Suc pos) v @ take (src - pos) (drop pos v) @ drop (Suc src) v"
proof (induction v pos src rule: shift_up.induct)
  case (2 v pos src)
  show ?case
  proof (cases "Suc src > pos")
    case True
    have "shift_up v pos (Suc src)
        = take (Suc pos) v @ take (src - pos) (drop pos (v[Suc src := v ! src])) @ drop (Suc src) (v[Suc src := v ! src])"
      using True 2 by simp
    also have "drop (Suc src) (v[Suc src := v ! src]) = v ! src # drop (Suc (Suc src)) v"
      using "2.prems" Cons_nth_drop_Suc [of "Suc src" "v[Suc src := v ! src]"] by simp
    also have "take (src - pos) (drop pos (v[Suc src := v ! src])) = take (src - pos) (drop pos v)"
      using True by (simp add: take_drop)
    also have "take (src - pos) (drop pos v) @ v ! src # drop (Suc (Suc src)) v
        = take (Suc src - pos) (drop pos v) @ drop (Suc (Suc src)) v"
      using True "2.prems" by (simp add: Suc_diff_le take_Suc_conv_app_nth)
    finally show ?thesis by simp
  next
    case False
    with "2.prems" have "pos = Suc src" by simp
    then show ?thesis by simp
  qed
qed simp

declare shift_up.simps [simp del]

text \<open>Opening a gap and filling it is an insertion into the live prefix.\<close>

lemma shift_up_insert:
  assumes "pos \<le> n" "n < length v"
  shows "take (Suc n) ((shift_up v pos n)[pos := x]) = take pos v @ x # drop pos (take n v)"
proof -
  have "(shift_up v pos n)[pos := x] = take pos v @ x # take (n - pos) (drop pos v) @ drop (Suc n) v"
    using assms by (simp add: shift_up_eq list_update_append take_Suc_conv_app_nth)
  then show ?thesis using assms by (auto simp: drop_take min_def Suc_diff_le)
qed

section \<open>Clearing a suffix\<close>

text \<open>\<^verbatim>\<open>for (index = i; index < n; ++index) v[index] = {};\<close>\<close>

function clear_from :: "'a list \<Rightarrow> 'a \<Rightarrow> nat \<Rightarrow> nat \<Rightarrow> 'a list" where
  "clear_from v x i n = (if i < n then clear_from (v[i := x]) x (Suc i) n else v)"
  by auto
termination by (relation "measure (\<lambda>(v, x, i, n). n - i)") auto

declare clear_from.simps [simp del]

lemma length_clear_from [simp]: "length (clear_from v x i n) = length v"
  by (induction v x i n rule: clear_from.induct) (subst clear_from.simps, simp)

lemma take_clear_from: "k \<le> i \<Longrightarrow> take k (clear_from v x i n) = take k v"
proof (induction v x i n rule: clear_from.induct)
  case (1 v x i n)
  then show ?case by (subst clear_from.simps) simp
qed

end
