(* ===== verification/Loss_List.thy ===== *)
theory Loss_List
  imports Sequence Array_Loops
begin

text \<open>
  \<^verbatim>\<open>ReceiveLossList\<close> of \<^verbatim>\<open>reliability.cpp\<close>: missing ranges in a vector of twice the admission
  capacity, of which the first \<^verbatim>\<open>size_\<close> entries are live. The counters \<^verbatim>\<open>fresh_count_\<close> and
  \<^verbatim>\<open>pending_count_\<close> are maintained incrementally, as in the code.
\<close>

section \<open>State\<close>

record LossEntry =
  le_range :: SequenceRange
  le_ttl :: u32
  le_fresh :: bool
  le_initial_report_pending :: bool
  le_periodic_report_pending :: bool
  le_reported :: bool
  le_last_report_microseconds :: u64

abbreviation le_first :: "LossEntry \<Rightarrow> SequenceNumber" where
  "le_first e \<equiv> sr_first (le_range e)"

abbreviation le_last :: "LossEntry \<Rightarrow> SequenceNumber" where
  "le_last e \<equiv> sr_last (le_range e)"

definition default_LossEntry :: LossEntry where
  "default_LossEntry =
     \<lparr>le_range = \<lparr>sr_first = SequenceNumber 0, sr_last = SequenceNumber 0\<rparr>, le_ttl = 0,
      le_fresh = False, le_initial_report_pending = False, le_periodic_report_pending = False,
      le_reported = False, le_last_report_microseconds = 0\<rparr>"

record ReceiveLossList =
  ll_entries :: "LossEntry list"
  ll_admission_capacity :: nat
  ll_size :: nat
  ll_fresh_count :: nat
  ll_pending_count :: nat

record ReceiveLossRemoval =
  lr_removed :: bool
  lr_remaining_ttl :: u32
  lr_capacity_exhausted :: bool

definition default_ReceiveLossRemoval :: ReceiveLossRemoval where
  "default_ReceiveLossRemoval = \<lparr>lr_removed = False, lr_remaining_ttl = 0, lr_capacity_exhausted = False\<rparr>"

definition make_ReceiveLossList :: "nat \<Rightarrow> ReceiveLossList option" where
  "make_ReceiveLossList capacity =
     (if capacity = 0 \<or> capacity \<ge> unat seq_half_range then None
      else Some \<lparr>ll_entries = replicate (capacity * 2) default_LossEntry,
                 ll_admission_capacity = capacity, ll_size = 0, ll_fresh_count = 0, ll_pending_count = 0\<rparr>)"

section \<open>Searching\<close>

function ll_lower_bound_loop :: "ReceiveLossList \<Rightarrow> SequenceNumber \<Rightarrow> nat \<Rightarrow> nat \<Rightarrow> nat" where
  "ll_lower_bound_loop l sequence low high =
     (if low < high then
        let middle = low + (high - low) div 2
        in if seq_distance sequence (le_last (ll_entries l ! middle)) > 0
           then ll_lower_bound_loop l sequence (middle + 1) high
           else ll_lower_bound_loop l sequence low middle
      else low)"
  by auto
termination by (relation "measure (\<lambda>(l, s, low, high). high - low)") auto

declare ll_lower_bound_loop.simps [simp del]

definition ll_lower_bound :: "ReceiveLossList \<Rightarrow> SequenceNumber \<Rightarrow> nat" where
  "ll_lower_bound l sequence = ll_lower_bound_loop l sequence 0 (ll_size l)"

definition ll_contains :: "ReceiveLossList \<Rightarrow> SequenceNumber \<Rightarrow> bool" where
  "ll_contains l sequence =
     (let index = ll_lower_bound l sequence
      in index < ll_size l \<and> seq_distance sequence (le_first (ll_entries l ! index)) \<ge> 0)"

section \<open>Counters\<close>

definition le_pending :: "LossEntry \<Rightarrow> bool" where
  "le_pending e \<longleftrightarrow> le_initial_report_pending e \<or> le_periodic_report_pending e"

definition ll_note_added :: "ReceiveLossList \<Rightarrow> LossEntry \<Rightarrow> ReceiveLossList" where
  "ll_note_added l e =
     l \<lparr>ll_fresh_count := (if le_fresh e then ll_fresh_count l + 1 else ll_fresh_count l),
        ll_pending_count := (if le_pending e then ll_pending_count l + 1 else ll_pending_count l)\<rparr>"

definition ll_note_removed :: "ReceiveLossList \<Rightarrow> LossEntry \<Rightarrow> ReceiveLossList" where
  "ll_note_removed l e =
     l \<lparr>ll_fresh_count := (if le_fresh e then ll_fresh_count l - 1 else ll_fresh_count l),
        ll_pending_count := (if le_pending e then ll_pending_count l - 1 else ll_pending_count l)\<rparr>"

section \<open>Adding\<close>

fun can_append_loop :: "SequenceRange list \<Rightarrow> bool \<Rightarrow> SequenceNumber \<Rightarrow> bool" where
  "can_append_loop [] has_previous previous_last = True"
| "can_append_loop (r # rs) has_previous previous_last =
     (if seq_distance (sr_last r) (sr_first r) < 0
         \<or> (has_previous \<and> seq_distance (sr_first r) previous_last \<le> 0)
      then False
      else can_append_loop rs True (sr_last r))"

definition ll_can_append :: "ReceiveLossList \<Rightarrow> SequenceRange list \<Rightarrow> bool" where
  "ll_can_append l ranges =
     (if ll_size l > ll_admission_capacity l
         \<or> length ranges > ll_admission_capacity l - ll_size l
      then False
      else
        let has_previous = ll_size l \<noteq> 0;
            previous_last = (if has_previous then le_last (ll_entries l ! (ll_size l - 1)) else SequenceNumber 0)
        in can_append_loop ranges has_previous previous_last)"

definition new_LossEntry :: "SequenceRange \<Rightarrow> u32 \<Rightarrow> LossEntry" where
  "new_LossEntry r initial_ttl =
     default_LossEntry \<lparr>le_range := r, le_ttl := initial_ttl, le_fresh := (initial_ttl \<noteq> 0),
       le_initial_report_pending := (initial_ttl = 0)\<rparr>"

fun add_all_loop :: "SequenceRange list \<Rightarrow> u32 \<Rightarrow> ReceiveLossList \<Rightarrow> ReceiveLossList" where
  "add_all_loop [] initial_ttl l = l"
| "add_all_loop (r # rs) initial_ttl l =
     (let e = new_LossEntry r initial_ttl;
          l1 = ll_note_added (l \<lparr>ll_entries := (ll_entries l)[ll_size l := e]\<rparr>) e
      in add_all_loop rs initial_ttl (l1 \<lparr>ll_size := ll_size l1 + 1\<rparr>))"

definition ll_add_all :: "ReceiveLossList \<Rightarrow> SequenceRange list \<Rightarrow> u32 \<Rightarrow> bool \<times> ReceiveLossList" where
  "ll_add_all l ranges initial_ttl =
     (if \<not> ll_can_append l ranges then (False, l) else (True, add_all_loop ranges initial_ttl l))"

definition ll_add :: "ReceiveLossList \<Rightarrow> SequenceRange \<Rightarrow> u32 \<Rightarrow> bool \<times> ReceiveLossList" where
  "ll_add l r initial_ttl = ll_add_all l [r] initial_ttl"

fun insert_position :: "LossEntry list \<Rightarrow> SequenceRange \<Rightarrow> nat \<Rightarrow> nat" where
  "insert_position [] r position = position"
| "insert_position (e # es) r position =
     (if seq_distance (le_first e) (sr_first r) \<ge> 0 then position else insert_position es r (position + 1))"

definition ll_insert_at :: "ReceiveLossList \<Rightarrow> nat \<Rightarrow> LossEntry \<Rightarrow> ReceiveLossList" where
  "ll_insert_at l position e =
     (let shifted = shift_up (ll_entries l) position (ll_size l);
          l1 = ll_note_added (l \<lparr>ll_entries := shifted[position := e]\<rparr>) e
      in l1 \<lparr>ll_size := ll_size l1 + 1\<rparr>)"

definition ll_insert_sorted :: "ReceiveLossList \<Rightarrow> SequenceRange \<Rightarrow> u32 \<Rightarrow> bool \<times> ReceiveLossList" where
  "ll_insert_sorted l r initial_ttl =
     (if seq_distance (sr_last r) (sr_first r) < 0 then (False, l)
      else
        let position = insert_position (take (ll_size l) (ll_entries l)) r 0;
            previous = ll_entries l ! (position - 1);
            following = ll_entries l ! position
        in if position > 0 \<and> seq_distance (sr_first r) (le_last previous) \<le> 0
           then (seq_distance (sr_last r) (le_last previous) \<le> 0, l)
           else if position < ll_size l \<and> seq_distance (le_first following) (sr_last r) \<le> 0
           then (sr_first r = le_first following \<and> seq_distance (sr_last r) (le_last following) \<le> 0, l)
           else if ll_size l \<ge> ll_admission_capacity l then (False, l)
           else (True, ll_insert_at l position (new_LossEntry r initial_ttl)))"

definition ranges_overlap :: "SequenceRange \<Rightarrow> SequenceRange \<Rightarrow> bool" where
  "ranges_overlap left right \<longleftrightarrow>
     seq_distance (sr_first left) (sr_last right) \<le> 0 \<and> seq_distance (sr_first right) (sr_last left) \<le> 0"

fun can_insert_loop :: "ReceiveLossList \<Rightarrow> SequenceRange list \<Rightarrow> SequenceRange list \<Rightarrow> bool" where
  "can_insert_loop l earlier [] = True"
| "can_insert_loop l earlier (r # rs) =
     (if seq_distance (sr_last r) (sr_first r) < 0 then False
      else if list_ex (\<lambda>e. ranges_overlap r (le_range e)) (take (ll_size l) (ll_entries l)) then False
      else if list_ex (ranges_overlap r) earlier then False
      else can_insert_loop l (earlier @ [r]) rs)"

definition ll_can_insert_all_sorted :: "ReceiveLossList \<Rightarrow> SequenceRange list \<Rightarrow> bool" where
  "ll_can_insert_all_sorted l ranges =
     (if ranges = [] then True
      else if ll_size l > ll_admission_capacity l
              \<or> length ranges > ll_admission_capacity l - ll_size l then False
      else can_insert_loop l [] ranges)"

section \<open>Removing\<close>

definition ll_erase :: "ReceiveLossList \<Rightarrow> nat \<Rightarrow> ReceiveLossList" where
  "ll_erase l index =
     (let l1 = ll_note_removed l (ll_entries l ! index);
          size = ll_size l - 1;
          entries = copy_down (ll_entries l) 1 index size
      in l1 \<lparr>ll_entries := entries[size := default_LossEntry], ll_size := size\<rparr>)"

text \<open>The split both removals share: the upper part becomes an entry of its own.\<close>

definition ll_split :: "ReceiveLossList \<Rightarrow> nat \<Rightarrow> SequenceNumber \<Rightarrow> SequenceNumber \<Rightarrow> ReceiveLossList" where
  "ll_split l index lower_last upper_first =
     (let upper = ll_entries l ! index;
          shifted = shift_up (ll_entries l) (index + 1) (ll_size l);
          low = (shifted ! index) \<lparr>le_range := (le_range (shifted ! index)) \<lparr>sr_last := lower_last\<rparr>\<rparr>;
          high = upper \<lparr>le_range := (le_range upper) \<lparr>sr_first := upper_first\<rparr>\<rparr>;
          l1 = ll_note_added (l \<lparr>ll_entries := shifted[index := low, index + 1 := high]\<rparr>) high
      in l1 \<lparr>ll_size := ll_size l1 + 1\<rparr>)"

definition ll_set_first :: "ReceiveLossList \<Rightarrow> nat \<Rightarrow> SequenceNumber \<Rightarrow> ReceiveLossList" where
  "ll_set_first l index s =
     l \<lparr>ll_entries := (ll_entries l)[index :=
          (ll_entries l ! index) \<lparr>le_range := (le_range (ll_entries l ! index)) \<lparr>sr_first := s\<rparr>\<rparr>]\<rparr>"

definition ll_set_last :: "ReceiveLossList \<Rightarrow> nat \<Rightarrow> SequenceNumber \<Rightarrow> ReceiveLossList" where
  "ll_set_last l index s =
     l \<lparr>ll_entries := (ll_entries l)[index :=
          (ll_entries l ! index) \<lparr>le_range := (le_range (ll_entries l ! index)) \<lparr>sr_last := s\<rparr>\<rparr>]\<rparr>"

definition ll_remove :: "ReceiveLossList \<Rightarrow> SequenceNumber \<Rightarrow> ReceiveLossRemoval \<times> ReceiveLossList" where
  "ll_remove l sequence =
     (let index = ll_lower_bound l sequence
      in if index < ll_size l then
           let entry = ll_entries l ! index;
               from_first = seq_distance sequence (le_first entry);
               from_last = seq_distance sequence (le_last entry)
           in if from_first < 0 \<or> from_last > 0 then (default_ReceiveLossRemoval, l)
              else
                let result = default_ReceiveLossRemoval
                      \<lparr>lr_removed := True, lr_remaining_ttl := (if le_fresh entry then le_ttl entry else 0)\<rparr>
                in if from_first = 0 \<and> from_last = 0 then (result, ll_erase l index)
                   else if from_first = 0 then (result, ll_set_first l index (seq_next sequence))
                   else if from_last = 0 then (result, ll_set_last l index (seq_advanced sequence seq_mask))
                   else if ll_size l = length (ll_entries l)
                   then (default_ReceiveLossRemoval \<lparr>lr_capacity_exhausted := True\<rparr>, l)
                   else (result, ll_split l index (seq_advanced sequence seq_mask) (seq_next sequence))
         else (default_ReceiveLossRemoval, l))"

function remove_through_scan :: "ReceiveLossList \<Rightarrow> SequenceNumber \<Rightarrow> nat \<Rightarrow> nat \<times> ReceiveLossList" where
  "remove_through_scan l through removed =
     (if removed < ll_size l then
        let entry = ll_entries l ! removed
        in if seq_distance through (le_first entry) < 0 then (removed, l)
           else if seq_distance through (le_last entry) < 0
           then (removed, ll_set_first l removed (seq_next through))
           else remove_through_scan l through (removed + 1)
      else (removed, l))"
  by auto
termination by (relation "measure (\<lambda>(l, s, removed). ll_size l - removed)") auto

declare remove_through_scan.simps [simp del]

definition ll_remove_through :: "ReceiveLossList \<Rightarrow> SequenceNumber \<Rightarrow> ReceiveLossList" where
  "ll_remove_through l through =
     (let (removed, l1) = remove_through_scan l through 0
      in if removed = 0 then l1
         else
           let l2 = foldl ll_note_removed l1 (take removed (ll_entries l1));
               previous_size = ll_size l2;
               size = previous_size - removed;
               moved = copy_down (ll_entries l2) removed 0 size
           in l2 \<lparr>ll_size := size, ll_entries := clear_from moved default_LossEntry size previous_size\<rparr>)"

function remove_range_loop :: "ReceiveLossList \<Rightarrow> SequenceRange \<Rightarrow> nat \<Rightarrow> bool \<times> ReceiveLossList" where
  "remove_range_loop l r index =
     (if index < ll_size l then
        let entry = ll_entries l ! index
        in if seq_distance (sr_last r) (le_first entry) < 0 then (True, l)
           else if seq_distance (sr_first r) (le_last entry) > 0 then remove_range_loop l r (index + 1)
           else
             let covers_head = seq_distance (sr_first r) (le_first entry) \<le> 0;
                 covers_tail = seq_distance (sr_last r) (le_last entry) \<ge> 0
             in if covers_head \<and> covers_tail then remove_range_loop (ll_erase l index) r index
                else if covers_head
                then remove_range_loop (ll_set_first l index (seq_next (sr_last r))) r (index + 1)
                else if covers_tail
                then remove_range_loop (ll_set_last l index (seq_advanced (sr_first r) seq_mask)) r (index + 1)
                else if ll_size l = length (ll_entries l) then (False, l)
                else (True, ll_split l index (seq_advanced (sr_first r) seq_mask) (seq_next (sr_last r)))
      else (True, l))"
  by auto
termination
  by (relation "measure (\<lambda>(l, r, index). ll_size l - index)")
    (auto simp: ll_erase_def ll_set_first_def ll_set_last_def ll_note_removed_def Let_def)

declare remove_range_loop.simps [simp del]

definition ll_remove_range :: "ReceiveLossList \<Rightarrow> SequenceRange \<Rightarrow> bool \<times> ReceiveLossList" where
  "ll_remove_range l r =
     (if seq_distance (sr_last r) (sr_first r) < 0 then (False, l) else remove_range_loop l r 0)"

section \<open>Reports\<close>

text \<open>
  The report loops visit the live entries in order and update each in place together with the
  counters; each is a recursion over the remaining entries.
\<close>

fun rearm_loop :: "LossEntry list \<Rightarrow> SequenceRange \<Rightarrow> nat \<Rightarrow> LossEntry list \<times> nat" where
  "rearm_loop [] r pending = ([], pending)"
| "rearm_loop (e # es) r pending =
     (if seq_distance (le_first e) (sr_last r) > 0 then (e # es, pending)
      else if le_fresh e then
        let (es', pending') = rearm_loop es r pending in (e # es', pending')
      else
        let (es', pending') = rearm_loop es r (if \<not> le_pending e then pending + 1 else pending)
        in (e \<lparr>le_initial_report_pending := True, le_reported := False\<rparr> # es', pending'))"

definition ll_rearm_report :: "ReceiveLossList \<Rightarrow> SequenceRange \<Rightarrow> ReceiveLossList" where
  "ll_rearm_report l r =
     (let index = ll_lower_bound l (sr_first r);
          (es, pending) = rearm_loop (drop index (take (ll_size l) (ll_entries l))) r (ll_pending_count l)
      in l \<lparr>ll_entries := take index (ll_entries l) @ es @ drop (ll_size l) (ll_entries l),
            ll_pending_count := pending\<rparr>)"

fun age_loop :: "LossEntry list \<Rightarrow> nat \<Rightarrow> nat \<Rightarrow> LossEntry list \<times> nat \<times> nat" where
  "age_loop [] fresh pending = ([], fresh, pending)"
| "age_loop (e # es) fresh pending =
     (if \<not> le_fresh e then
        let (es', fresh', pending') = age_loop es fresh pending in (e # es', fresh', pending')
      else if le_ttl e = 0 then
        let (es', fresh', pending') =
              age_loop es (fresh - 1) (if \<not> le_pending e then pending + 1 else pending)
        in (e \<lparr>le_fresh := False, le_initial_report_pending := True\<rparr> # es', fresh', pending')
      else
        let (es', fresh', pending') = age_loop es fresh pending
        in (e \<lparr>le_ttl := le_ttl e - 1\<rparr> # es', fresh', pending'))"

definition ll_age_fresh :: "ReceiveLossList \<Rightarrow> ReceiveLossList" where
  "ll_age_fresh l =
     (if ll_fresh_count l = 0 then l
      else
        let (es, fresh, pending) =
              age_loop (take (ll_size l) (ll_entries l)) (ll_fresh_count l) (ll_pending_count l)
        in l \<lparr>ll_entries := es @ drop (ll_size l) (ll_entries l),
              ll_fresh_count := fresh, ll_pending_count := pending\<rparr>)"

fun mark_loop :: "LossEntry list \<Rightarrow> u64 \<Rightarrow> u64 \<Rightarrow> nat \<Rightarrow> LossEntry list \<times> nat" where
  "mark_loop [] now retry_interval pending = ([], pending)"
| "mark_loop (e # es) now retry_interval pending =
     (if le_fresh e
         \<or> (le_reported e
            \<and> (now < le_last_report_microseconds e
               \<or> now - le_last_report_microseconds e < retry_interval))
      then let (es', pending') = mark_loop es now retry_interval pending in (e # es', pending')
      else
        let (es', pending') =
              mark_loop es now retry_interval (if \<not> le_pending e then pending + 1 else pending)
        in (e \<lparr>le_periodic_report_pending := True\<rparr> # es', pending'))"

definition ll_mark_periodic_reports :: "ReceiveLossList \<Rightarrow> u64 \<Rightarrow> u64 \<Rightarrow> ReceiveLossList" where
  "ll_mark_periodic_reports l now retry_interval =
     (let (es, pending) =
            mark_loop (take (ll_size l) (ll_entries l)) now retry_interval (ll_pending_count l)
      in l \<lparr>ll_entries := es @ drop (ll_size l) (ll_entries l), ll_pending_count := pending\<rparr>)"

text \<open>\<^verbatim>\<open>room\<close> is the number of destination slots left; the reports are returned in writing order.\<close>

fun take_loop :: "LossEntry list \<Rightarrow> u64 \<Rightarrow> nat \<Rightarrow> nat \<Rightarrow> SequenceRange list \<times> LossEntry list \<times> nat" where
  "take_loop [] now room pending = ([], [], pending)"
| "take_loop (e # es) now room pending =
     (if pending = 0 \<or> room = 0 then ([], e # es, pending)
      else if \<not> le_pending e then
        let (reports, es', pending') = take_loop es now room pending in (reports, e # es', pending')
      else
        let (reports, es', pending') = take_loop es now (room - 1) (pending - 1)
        in (le_range e # reports,
            e \<lparr>le_reported := True, le_last_report_microseconds := now,
               le_initial_report_pending := False, le_periodic_report_pending := False\<rparr> # es',
            pending'))"

definition ll_take_pending_reports ::
    "ReceiveLossList \<Rightarrow> nat \<Rightarrow> u64 \<Rightarrow> SequenceRange list \<times> ReceiveLossList" where
  "ll_take_pending_reports l room now =
     (let (reports, es, pending) =
            take_loop (take (ll_size l) (ll_entries l)) now room (ll_pending_count l)
      in (reports, l \<lparr>ll_entries := es @ drop (ll_size l) (ll_entries l), ll_pending_count := pending\<rparr>))"

definition ll_take_pending_report :: "ReceiveLossList \<Rightarrow> u64 \<Rightarrow> SequenceRange option \<times> ReceiveLossList" where
  "ll_take_pending_report l now =
     (case ll_take_pending_reports l 1 now of
        ([report], l') \<Rightarrow> (Some report, l')
      | (_, l') \<Rightarrow> (None, l'))"

definition ll_has_pending_report :: "ReceiveLossList \<Rightarrow> bool" where
  "ll_has_pending_report l \<longleftrightarrow> ll_pending_count l \<noteq> 0"

end
