(* ===== verification/Loss_List_Correct.thy ===== *)
theory Loss_List_Correct
  imports Loss_List
begin

text \<open>
  Correctness of the receive loss list. Inside a window of half the sequence range above some
  base number the list stands for a set of offsets; every operation is refined to the operation
  on that set, and the incremental counters are the counts they stand for.
\<close>

section \<open>Abstraction\<close>

definition live :: "ReceiveLossList \<Rightarrow> LossEntry list" where
  "live l = take (ll_size l) (ll_entries l)"

abbreviation off :: "SequenceNumber \<Rightarrow> SequenceNumber \<Rightarrow> int" where
  "off b s \<equiv> seq_distance s b"

definition span :: "SequenceNumber \<Rightarrow> SequenceRange \<Rightarrow> int set" where
  "span b r = {off b (sr_first r) .. off b (sr_last r)}"

definition in_window :: "SequenceNumber \<Rightarrow> SequenceRange \<Rightarrow> bool" where
  "in_window b r \<longleftrightarrow> 0 \<le> off b (sr_first r) \<and> 0 \<le> off b (sr_last r)"

definition range_ok :: "SequenceNumber \<Rightarrow> SequenceRange \<Rightarrow> bool" where
  "range_ok b r \<longleftrightarrow> 0 \<le> off b (sr_first r) \<and> off b (sr_first r) \<le> off b (sr_last r)"

definition before :: "SequenceNumber \<Rightarrow> SequenceRange \<Rightarrow> SequenceRange \<Rightarrow> bool" where
  "before b r q \<longleftrightarrow> off b (sr_last r) < off b (sr_first q)"

definition sorted_gaps :: "SequenceNumber \<Rightarrow> LossEntry list \<Rightarrow> bool" where
  "sorted_gaps b es \<longleftrightarrow> list_all (\<lambda>e. range_ok b (le_range e)) es
     \<and> sorted_wrt (\<lambda>e f. before b (le_range e) (le_range f)) es"

definition gaps :: "SequenceNumber \<Rightarrow> LossEntry list \<Rightarrow> int set" where
  "gaps b es = (\<Union>e \<in> set es. span b (le_range e))"

definition counters_ok :: "ReceiveLossList \<Rightarrow> bool" where
  "counters_ok l \<longleftrightarrow> ll_fresh_count l = length (filter le_fresh (live l))
     \<and> ll_pending_count l = length (filter le_pending (live l))"

definition loss_inv :: "SequenceNumber \<Rightarrow> ReceiveLossList \<Rightarrow> bool" where
  "loss_inv b l \<longleftrightarrow> ll_size l \<le> length (ll_entries l)
     \<and> length (ll_entries l) = 2 * ll_admission_capacity l
     \<and> sorted_gaps b (live l) \<and> counters_ok l"

text \<open>The set of missing offsets the list stands for.\<close>

definition missing :: "SequenceNumber \<Rightarrow> ReceiveLossList \<Rightarrow> int set" where
  "missing b l = gaps b (live l)"

lemma dist_off: "0 \<le> off b s \<Longrightarrow> 0 \<le> off b t \<Longrightarrow> seq_distance s t = off b s - off b t"
  by (rule sn.dist_window)

lemma off_eq_iff: "off b s = off b t \<longleftrightarrow> s = t"
  using sn.dist_inject by blast

lemma off_upper: "off b s < 1073741824"
  by (rule sn.dist_upper)

lemma off_next: "0 \<le> off b s \<Longrightarrow> off b s < off b t \<Longrightarrow> off b (seq_next s) = off b s + 1"
  unfolding seq_next_adv using off_upper [of t b] by (intro sn.dist_adv_gen) auto

lemma off_prev: "0 \<le> off b t \<Longrightarrow> off b t < off b s \<Longrightarrow> off b (seq_advanced s seq_mask) = off b s - 1"
  unfolding seq_advanced_mask using off_upper [of s b] sn.dist_adv_gen [of s b "- 1"] by simp

text \<open>The bound may also be the number just before the base of the window.\<close>

lemma dist_off_before:
  assumes "- 1 \<le> off b t" "0 \<le> off b s"
  shows "seq_distance t s = off b t - off b s"
  using assms off_upper [of s b] off_upper [of t b] by (intro sn.dist_rebase) auto

lemma off_next_before:
  assumes "- 1 \<le> off b t" "off b t < off b s"
  shows "off b (seq_next t) = off b t + 1"
  unfolding seq_next_adv using assms off_upper [of s b] by (intro sn.dist_adv_gen) auto

lemma gaps_Nil [simp]: "gaps b [] = {}"
  and gaps_Cons [simp]: "gaps b (e # es) = span b (le_range e) \<union> gaps b es"
  and gaps_append [simp]: "gaps b (xs @ ys) = gaps b xs \<union> gaps b ys"
  by (auto simp: gaps_def)

lemma sorted_gaps_Nil [simp]: "sorted_gaps b []"
  and sorted_gaps_Cons [simp]: "sorted_gaps b (e # es) \<longleftrightarrow>
    range_ok b (le_range e) \<and> (\<forall>f \<in> set es. before b (le_range e) (le_range f)) \<and> sorted_gaps b es"
  and sorted_gaps_append [simp]: "sorted_gaps b (xs @ ys) \<longleftrightarrow> sorted_gaps b xs \<and> sorted_gaps b ys
    \<and> (\<forall>e \<in> set xs. \<forall>f \<in> set ys. before b (le_range e) (le_range f))"
  by (auto simp: sorted_gaps_def list_all_iff sorted_wrt_append)

lemma sorted_gaps_ok: "sorted_gaps b es \<Longrightarrow> e \<in> set es \<Longrightarrow> range_ok b (le_range e)"
  by (auto simp: sorted_gaps_def list_all_iff)

lemma length_live: "ll_size l \<le> length (ll_entries l) \<Longrightarrow> length (live l) = ll_size l"
  by (simp add: live_def)

lemma nth_live: "i < ll_size l \<Longrightarrow> live l ! i = ll_entries l ! i"
  by (simp add: live_def)

section \<open>Binary search\<close>

lemma sorted_gaps_nth_mono:
  assumes "sorted_gaps b es" "i \<le> j" "j < length es"
  shows "off b (le_last (es ! i)) \<le> off b (le_last (es ! j))"
proof (cases "i = j")
  case False
  with assms have "before b (le_range (es ! i)) (le_range (es ! j))"
    by (auto simp: sorted_gaps_def sorted_wrt_iff_nth_less)
  moreover have "range_ok b (le_range (es ! j))"
    using assms by (auto intro: sorted_gaps_ok)
  ultimately show ?thesis by (simp add: before_def range_ok_def)
qed simp

lemma lower_bound_loop_spec:
  assumes "sorted_gaps b (live l)" "ll_size l \<le> length (ll_entries l)" "0 \<le> off b s"
    and "low \<le> high" "high \<le> ll_size l"
    and "\<forall>i < low. off b (le_last (live l ! i)) < off b s"
    and "\<forall>i. high \<le> i \<and> i < ll_size l \<longrightarrow> off b s \<le> off b (le_last (live l ! i))"
  shows "ll_lower_bound_loop l s low high \<le> ll_size l
    \<and> (\<forall>i < ll_lower_bound_loop l s low high. off b (le_last (live l ! i)) < off b s)
    \<and> (\<forall>i. ll_lower_bound_loop l s low high \<le> i \<and> i < ll_size l \<longrightarrow> off b s \<le> off b (le_last (live l ! i)))"
  using assms
proof (induction l s low high rule: ll_lower_bound_loop.induct)
  case (1 l s low high)
  show ?case
  proof (cases "low < high")
    case False
    with "1.prems" have "ll_lower_bound_loop l s low high = low" "low = high"
      by (simp_all add: ll_lower_bound_loop.simps)
    with "1.prems" show ?thesis by simp
  next
    case True
    let ?m = "low + (high - low) div 2"
    have m: "low \<le> ?m" "?m < high" "?m < ll_size l" using True "1.prems"(5) by auto
    note len = length_live [OF "1.prems"(2)]
    note mono = sorted_gaps_nth_mono [OF "1.prems"(1)]
    have "range_ok b (le_range (live l ! ?m))"
      using "1.prems"(1) m len by (auto intro: sorted_gaps_ok)
    then have cmp: "seq_distance s (le_last (ll_entries l ! ?m)) = off b s - off b (le_last (live l ! ?m))"
      using dist_off [OF "1.prems"(3), of "le_last (live l ! ?m)"] m by (simp add: nth_live range_ok_def)
    show ?thesis
    proof (cases "seq_distance s (le_last (ll_entries l ! ?m)) > 0")
      case up: True
      have eq: "ll_lower_bound_loop l s low high = ll_lower_bound_loop l s (?m + 1) high"
        using True up by (subst ll_lower_bound_loop.simps) (simp add: Let_def)
      have "\<forall>i < ?m + 1. off b (le_last (live l ! i)) < off b s"
        using up cmp mono [of _ ?m] m len by (fastforce simp: less_Suc_eq_le)
      with "1.IH"(1) [OF True refl up] "1.prems" m show ?thesis
        unfolding eq by (metis Suc_eq_plus1 Suc_leI)
    next
      case down: False
      have eq: "ll_lower_bound_loop l s low high = ll_lower_bound_loop l s low ?m"
        using True down by (subst ll_lower_bound_loop.simps) (simp add: Let_def)
      have "\<forall>i. ?m \<le> i \<and> i < ll_size l \<longrightarrow> off b s \<le> off b (le_last (live l ! i))"
        using down cmp mono [of ?m] m len by fastforce
      with "1.IH"(2) [OF True refl down] "1.prems" m show ?thesis
        unfolding eq by (metis less_imp_le)
    qed
  qed
qed

lemma lower_bound_split:
  assumes "loss_inv b l" "0 \<le> off b s"
  obtains xs ys where "live l = xs @ ys" "ll_lower_bound l s = length xs"
    "\<forall>e \<in> set xs. off b (le_last e) < off b s" "\<forall>e \<in> set ys. off b s \<le> off b (le_last e)"
proof
  let ?k = "ll_lower_bound l s"
  have inv: "sorted_gaps b (live l)" "ll_size l \<le> length (ll_entries l)"
    using assms(1) by (simp_all add: loss_inv_def)
  note spec = lower_bound_loop_spec [OF inv assms(2), of 0 "ll_size l", folded ll_lower_bound_def, simplified]
  show "live l = take ?k (live l) @ drop ?k (live l)" by simp
  show "?k = length (take ?k (live l))" using spec length_live [OF inv(2)] by simp
  show "\<forall>e \<in> set (take ?k (live l)). off b (le_last e) < off b s"
    using spec length_live [OF inv(2)] by (auto simp: in_set_conv_nth)
  show "\<forall>e \<in> set (drop ?k (live l)). off b s \<le> off b (le_last e)"
    using spec length_live [OF inv(2)] by (auto simp: in_set_conv_nth)
qed

lemma gaps_below: "\<forall>e \<in> set es. off b (le_last e) < n \<Longrightarrow> n \<notin> gaps b es"
  by (force simp: gaps_def span_def)

text \<open>The first entry that does not end before a number is the only one that can hold it.\<close>

lemma gaps_head:
  assumes "sorted_gaps b (e # es)" "n \<le> off b (le_last e)"
  shows "n \<in> gaps b (e # es) \<longleftrightarrow> off b (le_first e) \<le> n"
  using assms by (force simp: gaps_def span_def before_def)

lemma ll_contains_iff:
  assumes "loss_inv b l" "0 \<le> off b s"
  shows "ll_contains l s \<longleftrightarrow> off b s \<in> missing b l"
proof -
  obtain xs ys where split: "live l = xs @ ys" "ll_lower_bound l s = length xs"
    "\<forall>e \<in> set xs. off b (le_last e) < off b s" "\<forall>e \<in> set ys. off b s \<le> off b (le_last e)"
    using lower_bound_split [OF assms] by blast
  have inv: "sorted_gaps b (xs @ ys)" "ll_size l = length xs + length ys"
    using assms(1) split(1) length_live [of l] by (simp_all add: loss_inv_def)
  show ?thesis
  proof (cases ys)
    case Nil
    then show ?thesis
      using split inv(2) gaps_below [OF split(3)] by (simp add: ll_contains_def missing_def Let_def)
  next
    case (Cons e es)
    have "ll_entries l ! length xs = e"
      using nth_live [of "length xs" l] inv(2) split(1) Cons by simp
    moreover have "seq_distance s (le_first e) = off b s - off b (le_first e)"
      using inv(1) Cons assms(2) by (intro dist_off) (auto simp: range_ok_def)
    ultimately show ?thesis
      using split inv Cons gaps_below [OF split(3)] gaps_head [of b e es "off b s"]
      by (simp add: ll_contains_def missing_def Let_def)
  qed
qed

section \<open>Array operations on the live prefix\<close>

text \<open>The vector keeps its size and its admission limit under every update.\<close>

definition vector_ok :: "ReceiveLossList \<Rightarrow> bool" where
  "vector_ok l \<longleftrightarrow> ll_size l \<le> length (ll_entries l)
     \<and> length (ll_entries l) = 2 * ll_admission_capacity l \<and> counters_ok l"

lemma loss_inv_vector: "loss_inv b l \<longleftrightarrow> vector_ok l \<and> sorted_gaps b (live l)"
  by (auto simp: loss_inv_def vector_ok_def)

lemma live_at:
  assumes "live l = xs @ e # ys" "ll_size l \<le> length (ll_entries l)"
  shows "length xs < ll_size l" "ll_entries l ! length xs = e"
    "ll_size l = Suc (length xs + length ys)"
proof -
  show sz: "ll_size l = Suc (length xs + length ys)"
    using length_live [OF assms(2)] assms(1) by simp
  then show lt: "length xs < ll_size l" by simp
  show "ll_entries l ! length xs = e" using nth_live [OF lt] assms(1) by simp
qed

lemma live_update:
  assumes "live l = xs @ e # ys" "ll_size l \<le> length (ll_entries l)"
  shows "take (ll_size l) ((ll_entries l)[length xs := x]) = xs @ x # ys"
  using assms by (simp add: live_def take_update_swap)

lemma vector_ok_update:
  assumes "vector_ok l" "live l = xs @ e # ys" "le_fresh x = le_fresh e" "le_pending x = le_pending e"
  shows "vector_ok (l \<lparr>ll_entries := (ll_entries l)[length xs := x]\<rparr>)"
  using assms live_update [OF assms(2), of x] by (simp add: vector_ok_def counters_ok_def live_def)

lemma admission_capacity_update [simp]:
  "ll_admission_capacity (ll_set_first l n s) = ll_admission_capacity l"
  "ll_admission_capacity (ll_set_last l n s) = ll_admission_capacity l"
  "ll_admission_capacity (ll_erase l n) = ll_admission_capacity l"
  "ll_admission_capacity (ll_split l n a c) = ll_admission_capacity l"
  by (simp_all add: ll_set_first_def ll_set_last_def ll_erase_def ll_split_def ll_note_removed_def
      ll_note_added_def Let_def)

lemma le_pending_range [simp]: "le_pending (e \<lparr>le_range := r\<rparr>) = le_pending e"
  by (simp add: le_pending_def)

lemma ll_set_first_live:
  assumes "vector_ok l" "live l = xs @ e # ys"
  shows "vector_ok (ll_set_first l (length xs) s)"
    "live (ll_set_first l (length xs) s) = xs @ e \<lparr>le_range := (le_range e) \<lparr>sr_first := s\<rparr>\<rparr> # ys"
  using vector_ok_update [OF assms] live_update [OF assms(2)] live_at [OF assms(2)] assms(1)
  by (simp_all add: ll_set_first_def live_def vector_ok_def)

lemma ll_set_last_live:
  assumes "vector_ok l" "live l = xs @ e # ys"
  shows "vector_ok (ll_set_last l (length xs) s)"
    "live (ll_set_last l (length xs) s) = xs @ e \<lparr>le_range := (le_range e) \<lparr>sr_last := s\<rparr>\<rparr> # ys"
  using vector_ok_update [OF assms] live_update [OF assms(2)] live_at [OF assms(2)] assms(1)
  by (simp_all add: ll_set_last_def live_def vector_ok_def)

lemma ll_erase_live:
  assumes "vector_ok l" "live l = xs @ e # ys"
  shows "vector_ok (ll_erase l (length xs))" "live (ll_erase l (length xs)) = xs @ ys"
proof -
  note sz = live_at [OF assms(2)]
  have le: "ll_size l \<le> length (ll_entries l)" using assms(1) by (simp add: vector_ok_def)
  have "take (ll_size l - 1) (copy_down (ll_entries l) 1 (length xs) (ll_size l - 1))
      = take (length xs) (live l) @ drop (Suc (length xs)) (live l)"
    using sz [OF le] le by (simp add: copy_down_eq live_def drop_take)
  then have "take (ll_size l - 1) (copy_down (ll_entries l) 1 (length xs) (ll_size l - 1)) = xs @ ys"
    using assms(2) by simp
  then show live: "live (ll_erase l (length xs)) = xs @ ys"
    by (simp add: ll_erase_def live_def Let_def ll_note_removed_def)
  then have "counters_ok (ll_erase l (length xs))"
    using assms sz [OF le]
    by (auto simp: counters_ok_def ll_erase_def ll_note_removed_def vector_ok_def Let_def)
  then show "vector_ok (ll_erase l (length xs))"
    using assms(1) by (auto simp: vector_ok_def ll_erase_def ll_note_removed_def Let_def)
qed

lemma ll_split_live:
  assumes "vector_ok l" "live l = xs @ e # ys" "ll_size l < length (ll_entries l)"
  shows "vector_ok (ll_split l (length xs) a c)"
    "live (ll_split l (length xs) a c) = xs @ e \<lparr>le_range := (le_range e) \<lparr>sr_last := a\<rparr>\<rparr>
       # e \<lparr>le_range := (le_range e) \<lparr>sr_first := c\<rparr>\<rparr> # ys"
proof -
  note sz = live_at [OF assms(2) less_imp_le [OF assms(3)]]
  let ?n = "length xs" and ?v = "shift_up (ll_entries l) (Suc (length xs)) (ll_size l)"
  let ?low = "e \<lparr>le_range := (le_range e) \<lparr>sr_last := a\<rparr>\<rparr>"
  let ?high = "e \<lparr>le_range := (le_range e) \<lparr>sr_first := c\<rparr>\<rparr>"
  have at: "?v ! ?n = e"
    using sz assms(3) by (simp add: shift_up_eq nth_append)
  have "take (Suc (ll_size l)) (?v[Suc ?n := ?high])
      = take (Suc ?n) (ll_entries l) @ ?high # drop (Suc ?n) (live l)"
    using sz(1) assms(3) by (simp add: shift_up_insert live_def)
  also have "take (Suc ?n) (ll_entries l) = xs @ [e]"
    using arg_cong [OF assms(2), of "take (Suc ?n)"] sz(1) by (simp add: live_def min_def)
  finally have "take (Suc (ll_size l)) (?v[?n := ?low, Suc ?n := ?high]) = xs @ ?low # ?high # ys"
    using assms(2) by (simp add: list_update_swap [of ?n "Suc ?n"] take_update_swap)
  then show live: "live (ll_split l ?n a c) = xs @ ?low # ?high # ys"
    using sz(2) at by (simp add: ll_split_def live_def Let_def ll_note_added_def)
  have "counters_ok (ll_split l ?n a c)"
    unfolding counters_ok_def live using assms(1,2) sz(2)
    by (simp add: ll_split_def ll_note_added_def vector_ok_def counters_ok_def Let_def)
  then show "vector_ok (ll_split l ?n a c)"
    using assms(1,3) by (simp add: vector_ok_def ll_split_def ll_note_added_def Let_def)
qed

section \<open>Cutting one entry\<close>

lemma gaps_before:
  "\<forall>x \<in> set xs. before b (le_range x) r \<Longrightarrow> n \<in> gaps b xs \<Longrightarrow> n < off b (sr_first r)"
  by (force simp: gaps_def span_def before_def)

lemma gaps_after:
  "\<forall>y \<in> set ys. before b r (le_range y) \<Longrightarrow> n \<in> gaps b ys \<Longrightarrow> off b (sr_last r) < n"
  by (force simp: gaps_def span_def before_def)

lemma entry_parts:
  assumes "sorted_gaps b (xs @ e # ys)"
  shows "range_ok b (le_range e)" "sorted_gaps b xs" "sorted_gaps b ys"
    "\<forall>x \<in> set xs. before b (le_range x) (le_range e)"
    "\<forall>y \<in> set ys. before b (le_range e) (le_range y)"
    "\<forall>x \<in> set xs. \<forall>y \<in> set ys. before b (le_range x) (le_range y)"
  using assms by auto

lemma entry_disjoint:
  assumes "sorted_gaps b (xs @ e # ys)"
  shows "n \<in> gaps b xs \<Longrightarrow> n < off b (le_first e)" "n \<in> gaps b ys \<Longrightarrow> off b (le_last e) < n"
  using gaps_before [OF entry_parts(4) [OF assms]] gaps_after [OF entry_parts(5) [OF assms]] by blast+

lemma cut_whole:
  assumes "sorted_gaps b (xs @ e # ys)"
  shows "sorted_gaps b (xs @ ys)" "gaps b (xs @ ys) = gaps b (xs @ e # ys) - span b (le_range e)"
  using entry_parts [OF assms] entry_disjoint [OF assms] by (fastforce simp: span_def)+

lemma cut_head:
  assumes "sorted_gaps b (xs @ e # ys)" "off b (le_first e) \<le> off b c" "off b c \<le> off b (le_last e)"
  defines "f \<equiv> e \<lparr>le_range := (le_range e) \<lparr>sr_first := c\<rparr>\<rparr>"
  shows "sorted_gaps b (xs @ f # ys)"
    "gaps b (xs @ f # ys) = gaps b (xs @ e # ys) - {off b (le_first e) ..< off b c}"
  using entry_parts [OF assms(1)] entry_disjoint [OF assms(1)] assms(2,3)
  by (fastforce simp: f_def span_def before_def range_ok_def)+

lemma cut_tail:
  assumes "sorted_gaps b (xs @ e # ys)" "off b (le_first e) \<le> off b c" "off b c \<le> off b (le_last e)"
  defines "f \<equiv> e \<lparr>le_range := (le_range e) \<lparr>sr_last := c\<rparr>\<rparr>"
  shows "sorted_gaps b (xs @ f # ys)"
    "gaps b (xs @ f # ys) = gaps b (xs @ e # ys) - {off b c <.. off b (le_last e)}"
  using entry_parts [OF assms(1)] entry_disjoint [OF assms(1)] assms(2,3)
  by (fastforce simp: f_def span_def before_def range_ok_def)+

lemma cut_middle:
  assumes "sorted_gaps b (xs @ e # ys)"
    and "off b (le_first e) \<le> off b a" "off b a < off b c" "off b c \<le> off b (le_last e)"
  defines "f \<equiv> e \<lparr>le_range := (le_range e) \<lparr>sr_last := a\<rparr>\<rparr>"
    and "g \<equiv> e \<lparr>le_range := (le_range e) \<lparr>sr_first := c\<rparr>\<rparr>"
  shows "sorted_gaps b (xs @ f # g # ys)"
    "gaps b (xs @ f # g # ys) = gaps b (xs @ e # ys) - {off b a <..< off b c}"
  using entry_parts [OF assms(1)] entry_disjoint [OF assms(1)] assms(2-4)
  by (fastforce simp: f_def g_def span_def before_def range_ok_def)+

text \<open>The four updates of an entry, as operations on the missing set.\<close>

lemma drop_entry:
  assumes "loss_inv b l" "live l = xs @ e # ys"
  defines "l' \<equiv> ll_erase l (length xs)"
  shows "loss_inv b l'" "live l' = xs @ ys" "missing b l' = missing b l - span b (le_range e)"
proof -
  have vec: "vector_ok l" and sorted: "sorted_gaps b (xs @ e # ys)"
    using assms(1,2) by (simp_all add: loss_inv_vector)
  note erase = ll_erase_live [OF vec assms(2)] and cut = cut_whole [OF sorted]
  show "live l' = xs @ ys" "loss_inv b l'" "missing b l' = missing b l - span b (le_range e)"
    unfolding l'_def loss_inv_vector missing_def erase(2) assms(2)
    using erase cut by simp_all
qed

lemma trim_head:
  assumes "loss_inv b l" "live l = xs @ e # ys" "- 1 \<le> off b t"
    and "off b (le_first e) \<le> off b t" "off b t < off b (le_last e)"
  defines "l' \<equiv> ll_set_first l (length xs) (seq_next t)"
    and "f \<equiv> e \<lparr>le_range := (le_range e) \<lparr>sr_first := seq_next t\<rparr>\<rparr>"
  shows "loss_inv b l'" "live l' = xs @ f # ys" "off b (le_first f) = off b t + 1"
    "missing b l' = missing b l - {off b (le_first e) .. off b t}"
proof -
  have vec: "vector_ok l" and sorted: "sorted_gaps b (xs @ e # ys)"
    using assms(1,2) by (simp_all add: loss_inv_vector)
  have n: "off b (seq_next t) = off b t + 1" using assms(3,5) by (rule off_next_before)
  note upd = ll_set_first_live [OF vec assms(2), of "seq_next t"]
    and cut = cut_head [OF sorted, of "seq_next t"]
  have set: "{off b (le_first e) ..< off b (seq_next t)} = {off b (le_first e) .. off b t}"
    using n by auto
  show "off b (le_first f) = off b t + 1" using n by (simp add: f_def)
  show "live l' = xs @ f # ys" "loss_inv b l'"
    "missing b l' = missing b l - {off b (le_first e) .. off b t}"
    unfolding l'_def f_def loss_inv_vector missing_def upd(2) assms(2)
    using upd cut n assms(4,5) set by simp_all
qed

lemma trim_tail:
  assumes "loss_inv b l" "live l = xs @ e # ys"
    and "off b (le_first e) < off b t" "off b t \<le> off b (le_last e)"
  defines "l' \<equiv> ll_set_last l (length xs) (seq_advanced t seq_mask)"
    and "f \<equiv> e \<lparr>le_range := (le_range e) \<lparr>sr_last := seq_advanced t seq_mask\<rparr>\<rparr>"
  shows "loss_inv b l'" "live l' = xs @ f # ys" "off b (le_last f) = off b t - 1"
    "missing b l' = missing b l - {off b t .. off b (le_last e)}"
proof -
  have vec: "vector_ok l" and sorted: "sorted_gaps b (xs @ e # ys)"
    using assms(1,2) by (simp_all add: loss_inv_vector)
  have n: "off b (seq_advanced t seq_mask) = off b t - 1"
    using sorted assms(3) by (intro off_prev) (auto simp: range_ok_def)
  note upd = ll_set_last_live [OF vec assms(2), of "seq_advanced t seq_mask"]
    and cut = cut_tail [OF sorted, of "seq_advanced t seq_mask"]
  have set: "{off b (seq_advanced t seq_mask) <.. off b (le_last e)} = {off b t .. off b (le_last e)}"
    using n by auto
  show "off b (le_last f) = off b t - 1" using n by (simp add: f_def)
  show "live l' = xs @ f # ys" "loss_inv b l'"
    "missing b l' = missing b l - {off b t .. off b (le_last e)}"
    unfolding l'_def f_def loss_inv_vector missing_def upd(2) assms(2)
    using upd cut n assms(3,4) set by simp_all
qed

lemma split_entry:
  assumes "loss_inv b l" "live l = xs @ e # ys" "ll_size l < length (ll_entries l)"
    and "off b (le_first e) < off b s" "off b s \<le> off b t" "off b t < off b (le_last e)"
  defines "l' \<equiv> ll_split l (length xs) (seq_advanced s seq_mask) (seq_next t)"
  shows "loss_inv b l'" "missing b l' = missing b l - {off b s .. off b t}"
proof -
  have vec: "vector_ok l" and sorted: "sorted_gaps b (xs @ e # ys)"
    using assms(1,2) by (simp_all add: loss_inv_vector)
  have n: "off b (seq_advanced s seq_mask) = off b s - 1" "off b (seq_next t) = off b t + 1"
    using sorted assms(4-6) by (auto intro!: off_prev off_next simp: range_ok_def)
  note upd = ll_split_live [OF vec assms(2,3), of "seq_advanced s seq_mask" "seq_next t"]
    and cut = cut_middle [OF sorted, of "seq_advanced s seq_mask" "seq_next t"]
  have set: "{off b (seq_advanced s seq_mask) <..< off b (seq_next t)} = {off b s .. off b t}"
    using n by auto
  show "loss_inv b l'" "missing b l' = missing b l - {off b s .. off b t}"
    unfolding l'_def loss_inv_vector missing_def upd(2) assms(2)
    using upd cut n assms(4-6) set by simp_all
qed

section \<open>Removal of one number\<close>

text \<open>
  The search for a number ends in front of an entry that contains it, or no entry does.
\<close>

lemma find_entry:
  assumes "loss_inv b l" "0 \<le> off b s"
  obtains (absent) "off b s \<notin> missing b l"
      "ll_lower_bound l s < ll_size l \<longrightarrow>
         seq_distance s (le_first (ll_entries l ! ll_lower_bound l s)) < 0"
  | (found) xs e ys where "live l = xs @ e # ys" "ll_lower_bound l s = length xs"
      "off b (le_first e) \<le> off b s" "off b s \<le> off b (le_last e)"
proof -
  obtain xs ys where split: "live l = xs @ ys" "ll_lower_bound l s = length xs"
    "\<forall>e \<in> set xs. off b (le_last e) < off b s" "\<forall>e \<in> set ys. off b s \<le> off b (le_last e)"
    using lower_bound_split [OF assms] by blast
  have inv: "sorted_gaps b (xs @ ys)" "ll_size l \<le> length (ll_entries l)"
    using assms(1) split(1) by (simp_all add: loss_inv_def)
  show thesis
  proof (cases ys)
    case Nil
    then show thesis
      using split gaps_below [OF split(3)] length_live [OF inv(2)]
      by (intro absent) (simp_all add: missing_def)
  next
    case (Cons e es)
    have e: "ll_entries l ! length xs = e" "length xs < ll_size l"
      using live_at [of l xs e es] split(1) Cons inv(2) by auto
    have d: "seq_distance s (le_first e) = off b s - off b (le_first e)"
      using inv(1) Cons assms(2) by (intro dist_off) (auto simp: range_ok_def)
    show thesis
    proof (cases "off b (le_first e) \<le> off b s")
      case True
      then show thesis using found split Cons by simp
    next
      case False
      then have "off b s \<notin> missing b l"
        using split inv(1) Cons gaps_below [OF split(3)] gaps_head [of b e es "off b s"]
        by (simp add: missing_def)
      then show thesis using absent False e split(2) d by simp
    qed
  qed
qed

text \<open>The outcome of a removal, as the callers read it.\<close>

definition removal_spec ::
    "SequenceNumber \<Rightarrow> ReceiveLossList \<Rightarrow> SequenceNumber \<Rightarrow> ReceiveLossRemoval \<Rightarrow> ReceiveLossList \<Rightarrow> bool" where
  "removal_spec b l s res l' \<longleftrightarrow>
     (if off b s \<notin> missing b l then res = default_ReceiveLossRemoval \<and> l' = l
      else if lr_capacity_exhausted res
      then \<not> lr_removed res \<and> l' = l \<and> ll_size l = 2 * ll_admission_capacity l
      else lr_removed res \<and> missing b l' = missing b l - {off b s})"

lemma ll_remove_found:
  assumes "loss_inv b l" "0 \<le> off b s" "live l = xs @ e # ys" "ll_lower_bound l s = length xs"
    and "off b (le_first e) \<le> off b s" "off b s \<le> off b (le_last e)"
  defines "r \<equiv> default_ReceiveLossRemoval
    \<lparr>lr_removed := True, lr_remaining_ttl := (if le_fresh e then le_ttl e else 0)\<rparr>"
  shows "ll_remove l s =
     (if off b s = off b (le_first e) \<and> off b s = off b (le_last e) then (r, ll_erase l (length xs))
      else if off b s = off b (le_first e) then (r, ll_set_first l (length xs) (seq_next s))
      else if off b s = off b (le_last e) then (r, ll_set_last l (length xs) (seq_advanced s seq_mask))
      else if ll_size l = length (ll_entries l)
      then (default_ReceiveLossRemoval \<lparr>lr_capacity_exhausted := True\<rparr>, l)
      else (r, ll_split l (length xs) (seq_advanced s seq_mask) (seq_next s)))"
proof -
  have "range_ok b (le_range e)" using assms(1,3) by (simp add: loss_inv_def)
  then have d: "seq_distance s (le_first e) = off b s - off b (le_first e)"
    "seq_distance s (le_last e) = off b s - off b (le_last e)"
    using assms(2) by (auto intro!: dist_off simp: range_ok_def)
  show ?thesis
    using assms(5,6) live_at [OF assms(3)] assms(1)
    by (simp add: ll_remove_def Let_def assms(4) d r_def loss_inv_def)
qed

lemma ll_remove_correct:
  assumes "loss_inv b l" "0 \<le> off b s" "ll_remove l s = (res, l')"
  shows "loss_inv b l' \<and> ll_admission_capacity l' = ll_admission_capacity l \<and> removal_spec b l s res l'"
  using assms(1,2)
proof (cases rule: find_entry)
  case absent
  with assms show ?thesis
    by (auto simp: ll_remove_def removal_spec_def Let_def split: if_splits)
next
  case (found xs e ys)
  have sz: "ll_size l \<le> length (ll_entries l)" using assms(1) by (simp add: loss_inv_def)
  have mem: "off b s \<in> missing b l" using found by (simp add: missing_def span_def)
  note eq = ll_remove_found [OF assms(1,2) found]
  consider (whole) "off b s = off b (le_first e)" "off b s = off b (le_last e)"
    | (head) "off b s = off b (le_first e)" "off b s < off b (le_last e)"
    | (tail) "off b (le_first e) < off b s" "off b s = off b (le_last e)"
    | (full) "off b (le_first e) < off b s" "off b s < off b (le_last e)" "ll_size l = length (ll_entries l)"
    | (mid) "off b (le_first e) < off b s" "off b s < off b (le_last e)" "ll_size l < length (ll_entries l)"
    using found(3,4) sz by linarith
  then show ?thesis
  proof cases
    case whole
    then show ?thesis
      using eq assms(3) mem drop_entry [OF assms(1) found(1)]
      by (auto simp: removal_spec_def span_def default_ReceiveLossRemoval_def)
  next
    case head
    then show ?thesis
      using eq assms(2,3) mem trim_head [OF assms(1) found(1), of s]
      by (auto simp: removal_spec_def default_ReceiveLossRemoval_def)
  next
    case tail
    then show ?thesis
      using eq assms(3) mem trim_tail [OF assms(1) found(1), of s]
      by (auto simp: removal_spec_def default_ReceiveLossRemoval_def)
  next
    case full
    then show ?thesis
      using eq assms(1,3) mem by (auto simp: removal_spec_def loss_inv_def default_ReceiveLossRemoval_def)
  next
    case mid
    then show ?thesis
      using eq assms(3) mem split_entry [OF assms(1) found(1), of s s]
      by (auto simp: removal_spec_def default_ReceiveLossRemoval_def)
  qed
qed

section \<open>Removal of a prefix\<close>

lemma remove_through_scan_spec:
  assumes "vector_ok l" "sorted_gaps b (live l)" "- 1 \<le> off b t" "live l = xs @ ys"
    and "\<forall>x \<in> set xs. off b (le_last x) \<le> off b t" "remove_through_scan l t (length xs) = (k, l')"
  shows "\<exists>us vs. live l' = us @ vs \<and> k = length us \<and> vector_ok l' \<and> sorted_gaps b vs
    \<and> gaps b vs = gaps b (live l) \<inter> {off b t <..} \<and> ll_admission_capacity l' = ll_admission_capacity l"
  using assms(4-6)
proof (induction ys arbitrary: xs)
  case Nil
  have "ll_size l = length xs" using assms(1) Nil(1) length_live [of l] by (simp add: vector_ok_def)
  with Nil(3) have "k = length xs" "l' = l" by (subst (asm) remove_through_scan.simps; simp)+
  moreover have "gaps b xs \<inter> {off b t <..} = {}" using Nil(2) by (force simp: gaps_def span_def)
  ultimately show ?case using Nil(1) assms(1) by (intro exI [of _ xs] exI [of _ "[]"]) simp
next
  case (Cons e ys)
  have sz: "ll_size l \<le> length (ll_entries l)" using assms(1) by (simp add: vector_ok_def)
  note at = live_at [OF Cons.prems(1) sz]
  have sorted: "sorted_gaps b (xs @ e # ys)" using assms(2) Cons.prems(1) by simp
  then have ok: "range_ok b (le_range e)" by simp
  then have d: "seq_distance t (le_first e) = off b t - off b (le_first e)"
    "seq_distance t (le_last e) = off b t - off b (le_last e)"
    using assms(3) by (auto intro!: dist_off_before simp: range_ok_def)
  have below: "gaps b xs \<inter> {off b t <..} = {}" using Cons.prems(2) by (force simp: gaps_def span_def)
  consider (stop) "off b t < off b (le_first e)"
    | (trim) "off b (le_first e) \<le> off b t" "off b t < off b (le_last e)"
    | (go) "off b (le_last e) \<le> off b t"
    by linarith
  then show ?case
  proof cases
    case stop
    then have "k = length xs" "l' = l"
      using Cons.prems(3) at d by (subst (asm) remove_through_scan.simps; simp add: Let_def)+
    moreover have "gaps b (e # ys) \<subseteq> {off b t <..}"
      using stop gaps_after [OF entry_parts(5) [OF sorted]] ok by (force simp: span_def range_ok_def)
    ultimately show ?thesis
      using Cons.prems(1) assms(1) sorted below by (intro exI [of _ xs] exI [of _ "e # ys"]) auto
  next
    case trim
    let ?f = "e \<lparr>le_range := (le_range e) \<lparr>sr_first := seq_next t\<rparr>\<rparr>"
    have eq: "k = length xs" "l' = ll_set_first l (length xs) (seq_next t)"
      using Cons.prems(3) at d trim by (subst (asm) remove_through_scan.simps; simp add: Let_def)+
    have "loss_inv b l" using assms(1,2) by (simp add: loss_inv_vector)
    note upd = trim_head [OF this Cons.prems(1) assms(3) trim]
    have "gaps b (?f # ys) = gaps b (e # ys) \<inter> {off b t <..}"
      using trim upd(3) gaps_after [OF entry_parts(5) [OF sorted]] by (force simp: span_def)
    then show ?thesis
      using eq upd(1,2) below Cons.prems(1)
      by (intro exI [of _ xs] exI [of _ "?f # ys"]) (auto simp: loss_inv_vector)
  next
    case go
    have eq: "remove_through_scan l t (length xs) = remove_through_scan l t (length (xs @ [e]))"
      using at d go ok by (subst remove_through_scan.simps) (simp add: Let_def range_ok_def)
    show ?thesis
      using Cons.IH [of "xs @ [e]"] Cons.prems go eq by simp
  qed
qed

lemma foldl_note_removed:
  "ll_fresh_count (foldl ll_note_removed l es) = ll_fresh_count l - length (filter le_fresh es)"
  "ll_pending_count (foldl ll_note_removed l es) = ll_pending_count l - length (filter le_pending es)"
  "ll_entries (foldl ll_note_removed l es) = ll_entries l"
  "ll_size (foldl ll_note_removed l es) = ll_size l"
  "ll_admission_capacity (foldl ll_note_removed l es) = ll_admission_capacity l"
  by (induction es arbitrary: l) (auto simp: ll_note_removed_def)

lemma ll_remove_through_correct:
  assumes "loss_inv b l" "- 1 \<le> off b t"
  shows "loss_inv b (ll_remove_through l t)
    \<and> ll_admission_capacity (ll_remove_through l t) = ll_admission_capacity l
    \<and> missing b (ll_remove_through l t) = missing b l \<inter> {off b t <..}"
proof -
  obtain k l1 where scan: "remove_through_scan l t 0 = (k, l1)" by force
  obtain us vs where l1: "live l1 = us @ vs" "k = length us" "vector_ok l1" "sorted_gaps b vs"
    "gaps b vs = gaps b (live l) \<inter> {off b t <..}" "ll_admission_capacity l1 = ll_admission_capacity l"
    using remove_through_scan_spec [of l b t "[]" "live l" k l1] assms scan by (auto simp: loss_inv_vector)
  show ?thesis
  proof (cases "k = 0")
    case True
    then have "ll_remove_through l t = l1" using scan by (simp add: ll_remove_through_def)
    then show ?thesis using True l1 by (simp add: loss_inv_vector missing_def)
  next
    case False
    have sz: "ll_size l1 \<le> length (ll_entries l1)" using l1(3) by (simp add: vector_ok_def)
    have len: "ll_size l1 = length us + length vs" using length_live [OF sz] l1(1) by simp
    have tk: "take k (ll_entries l1) = us"
      using arg_cong [OF l1(1), of "take k"] len l1(2) by (simp add: live_def)
    have "drop k (live l1) = vs" using l1(1,2) by simp
    then have "take (ll_size l1 - k) (copy_down (ll_entries l1) k 0 (ll_size l1 - k)) = vs"
      using sz len l1(2) by (simp add: copy_down_eq live_def drop_take)
    then have live: "live (ll_remove_through l t) = vs"
      using False scan by (simp add: ll_remove_through_def foldl_note_removed live_def take_clear_from Let_def)
    have "counters_ok (ll_remove_through l t)"
      unfolding counters_ok_def live using False scan l1(1,3) tk
      by (simp add: ll_remove_through_def foldl_note_removed vector_ok_def counters_ok_def Let_def)
    moreover have "ll_size (ll_remove_through l t) \<le> ll_size l1"
      "length (ll_entries (ll_remove_through l t)) = length (ll_entries l1)"
      "ll_admission_capacity (ll_remove_through l t) = ll_admission_capacity l1"
      using False scan by (simp_all add: ll_remove_through_def foldl_note_removed Let_def)
    ultimately show ?thesis
      using l1(3-6) unfolding loss_inv_def missing_def live vector_ok_def by simp
  qed
qed

section \<open>Removal of a range\<close>

lemma remove_range_step:
  assumes "loss_inv b l" "range_ok b r" "live l = xs @ e # ys"
  defines "n \<equiv> length xs"
  shows "remove_range_loop l r n =
     (if off b (sr_last r) < off b (le_first e) then (True, l)
      else if off b (le_last e) < off b (sr_first r) then remove_range_loop l r (n + 1)
      else if off b (sr_first r) \<le> off b (le_first e) \<and> off b (le_last e) \<le> off b (sr_last r)
      then remove_range_loop (ll_erase l n) r n
      else if off b (sr_first r) \<le> off b (le_first e)
      then remove_range_loop (ll_set_first l n (seq_next (sr_last r))) r (n + 1)
      else if off b (le_last e) \<le> off b (sr_last r)
      then remove_range_loop (ll_set_last l n (seq_advanced (sr_first r) seq_mask)) r (n + 1)
      else if ll_size l = length (ll_entries l) then (False, l)
      else (True, ll_split l n (seq_advanced (sr_first r) seq_mask) (seq_next (sr_last r))))"
proof -
  have ok: "range_ok b (le_range e)" and sz: "ll_size l \<le> length (ll_entries l)"
    using assms(1,3) by (simp_all add: loss_inv_def)
  have d: "seq_distance (sr_last r) (le_first e) = off b (sr_last r) - off b (le_first e)"
    "seq_distance (sr_first r) (le_last e) = off b (sr_first r) - off b (le_last e)"
    "seq_distance (sr_first r) (le_first e) = off b (sr_first r) - off b (le_first e)"
    "seq_distance (sr_last r) (le_last e) = off b (sr_last r) - off b (le_last e)"
    using ok assms(2) by (auto intro!: dist_off simp: range_ok_def)
  note at = live_at(1,2) [OF assms(3) sz]
  show ?thesis
    unfolding n_def
    by (subst remove_range_loop.simps) (simp only: at if_True Let_def d diff_less_0_iff_less
        diff_gt_0_iff_gt diff_le_0_iff_le diff_ge_0_iff_ge)
qed

definition range_removed ::
    "SequenceNumber \<Rightarrow> ReceiveLossList \<Rightarrow> SequenceRange \<Rightarrow> bool \<Rightarrow> ReceiveLossList \<Rightarrow> bool" where
  "range_removed b l r ok l' \<longleftrightarrow>
     loss_inv b l' \<and> ll_admission_capacity l' = ll_admission_capacity l
     \<and> (ok \<longrightarrow> missing b l' = missing b l - span b r)
     \<and> (\<not> ok \<longrightarrow> l' = l \<and> ll_size l = 2 * ll_admission_capacity l)"

lemma remove_range_loop_correct:
  assumes "loss_inv b l" "range_ok b r" "live l = xs @ ys" "gaps b xs \<inter> span b r = {}"
    and "remove_range_loop l r (length xs) = (ok, l')"
  shows "range_removed b l r ok l'
    \<and> ((\<forall>y \<in> set ys. off b (sr_first r) \<le> off b (le_first y)) \<longrightarrow> ok)"
  using assms
proof (induction ys arbitrary: xs l)
  case Nil
  have "ll_size l = length xs" using Nil(1,3) length_live [of l] by (simp add: loss_inv_def)
  with Nil(5) have "ok" "l' = l" by (subst (asm) remove_range_loop.simps; simp)+
  then show ?case using Nil(1,3,4) by (auto simp: missing_def range_removed_def)
next
  case (Cons e ys)
  have vec: "vector_ok l" and sorted: "sorted_gaps b (xs @ e # ys)"
    using Cons.prems(1,3) by (simp_all add: loss_inv_vector)
  note step = remove_range_step [OF Cons.prems(1,2,3)] and live = Cons.prems(3)
  have after: "off b (le_last e) < off b (le_first y)" if "y \<in> set ys" for y
    using entry_parts(5) [OF sorted] that by (auto simp: before_def)
  have ok: "range_ok b (le_range e)" using sorted by simp
  have r: "0 \<le> off b (sr_first r)" "off b (sr_first r) \<le> off b (sr_last r)"
    using Cons.prems(2) by (simp_all add: range_ok_def)
  consider (stop) "off b (sr_last r) < off b (le_first e)"
    | (skip) "off b (le_last e) < off b (sr_first r)" "off b (le_first e) \<le> off b (sr_last r)"
    | (whole) "off b (sr_first r) \<le> off b (le_first e)" "off b (le_last e) \<le> off b (sr_last r)"
    | (head) "off b (sr_first r) \<le> off b (le_first e)" "off b (sr_last r) < off b (le_last e)"
        "off b (le_first e) \<le> off b (sr_last r)"
    | (tail) "off b (le_first e) < off b (sr_first r)" "off b (le_last e) \<le> off b (sr_last r)"
        "off b (sr_first r) \<le> off b (le_last e)"
    | (inside) "off b (le_first e) < off b (sr_first r)" "off b (sr_last r) < off b (le_last e)"
    using r ok unfolding range_ok_def by linarith
  then show ?case
  proof cases
    case stop
    have "gaps b (e # ys) \<inter> span b r = {}"
      using stop gaps_after [OF entry_parts(5) [OF sorted]] ok by (force simp: span_def range_ok_def)
    then show ?thesis
      using stop step Cons.prems by (auto simp: range_removed_def missing_def)
  next
    case skip
    have "span b (le_range e) \<inter> span b r = {}" using skip by (auto simp: span_def)
    then have "gaps b (xs @ [e]) \<inter> span b r = {}" using Cons.prems(4) by auto
    with Cons.IH [of l "xs @ [e]"] Cons.prems skip step show ?thesis by simp
  next
    case whole
    note upd = drop_entry [OF Cons.prems(1) live]
    have "remove_range_loop (ll_erase l (length xs)) r (length xs) = (ok, l')"
      using whole step Cons.prems(5) r ok by (auto simp: range_ok_def)
    from Cons.IH [OF upd(1) Cons.prems(2) upd(2) Cons.prems(4) this]
    have rec: "range_removed b (ll_erase l (length xs)) r ok l'" "ok"
      using whole after ok by (force simp: range_ok_def)+
    have "span b (le_range e) \<subseteq> span b r" using whole by (auto simp: span_def)
    then show ?thesis using rec upd(3) unfolding range_removed_def by auto
  next
    case head
    let ?f = "e \<lparr>le_range := (le_range e) \<lparr>sr_first := seq_next (sr_last r)\<rparr>\<rparr>"
    let ?l = "ll_set_first l (length xs) (seq_next (sr_last r))"
    note upd = trim_head [OF Cons.prems(1) live _ head(3,2)]
    have gap: "gaps b (xs @ [?f]) \<inter> span b r = {}" using Cons.prems(4) upd(3) r by (auto simp: span_def)
    have "remove_range_loop ?l r (length (xs @ [?f])) = (ok, l')" using head step Cons.prems(5) r by simp
    from Cons.IH [OF upd(1) Cons.prems(2) _ gap this] upd(2)
    have rec: "range_removed b ?l r ok l'" "ok" using head after r by force+
    have "{off b (le_first e) .. off b (sr_last r)} \<subseteq> span b r" using head by (auto simp: span_def)
    then show ?thesis using rec upd(4) r unfolding range_removed_def by auto
  next
    case tail
    let ?f = "e \<lparr>le_range := (le_range e) \<lparr>sr_last := seq_advanced (sr_first r) seq_mask\<rparr>\<rparr>"
    let ?l = "ll_set_last l (length xs) (seq_advanced (sr_first r) seq_mask)"
    note upd = trim_tail [OF Cons.prems(1) live tail(1,3)]
    have gap: "gaps b (xs @ [?f]) \<inter> span b r = {}" using Cons.prems(4) upd(3) by (auto simp: span_def)
    have "remove_range_loop ?l r (length (xs @ [?f])) = (ok, l')" using tail step Cons.prems(5) r by simp
    from Cons.IH [OF upd(1) Cons.prems(2) _ gap this] upd(2)
    have rec: "range_removed b ?l r ok l'" "ok" using tail after by force+
    have "{off b (sr_first r) .. off b (le_last e)} \<subseteq> span b r" using tail by (auto simp: span_def)
    then show ?thesis using rec upd(4) tail unfolding range_removed_def by auto
  next
    case inside
    then show ?thesis
      using step Cons.prems(1,5) r split_entry [OF Cons.prems(1) live _ inside(1) r(2) inside(2)]
      by (cases "ll_size l = length (ll_entries l)")
        (auto simp: range_removed_def loss_inv_def span_def le_less)
  qed
qed

lemma ll_remove_range_correct:
  assumes "loss_inv b l" "in_window b r" "ll_remove_range l r = (ok, l')"
  shows "if off b (sr_last r) < off b (sr_first r) then \<not> ok \<and> l' = l else range_removed b l r ok l'"
proof (cases "off b (sr_last r) < off b (sr_first r)")
  case True
  then show ?thesis
    using assms(2,3) dist_off [of "sr_last r" b "sr_first r"]
    by (auto simp: ll_remove_range_def in_window_def)
next
  case False
  then have "range_ok b r" using assms(2) by (simp add: range_ok_def in_window_def)
  moreover have "remove_range_loop l r (length ([] :: LossEntry list)) = (ok, l')"
    using False assms(2,3) dist_off [of "sr_last r" b "sr_first r"]
    by (simp add: ll_remove_range_def in_window_def)
  ultimately show ?thesis
    using False remove_range_loop_correct [OF assms(1), of r "[]" "live l"] by simp
qed

section \<open>Adding ranges\<close>

lemma new_LossEntry_simps [simp]:
  "le_range (new_LossEntry r ttl) = r" "le_fresh (new_LossEntry r ttl) \<longleftrightarrow> ttl \<noteq> 0"
  "le_pending (new_LossEntry r ttl) \<longleftrightarrow> ttl = 0"
  by (simp_all add: new_LossEntry_def le_pending_def default_LossEntry_def)

lemma add_all_loop_live:
  assumes "vector_ok l" "ll_size l + length rs \<le> length (ll_entries l)"
  shows "vector_ok (add_all_loop rs ttl l)
    \<and> live (add_all_loop rs ttl l) = live l @ map (\<lambda>r. new_LossEntry r ttl) rs
    \<and> ll_admission_capacity (add_all_loop rs ttl l) = ll_admission_capacity l
    \<and> ll_size (add_all_loop rs ttl l) = ll_size l + length rs"
  using assms
proof (induction rs arbitrary: l)
  case (Cons r rs)
  let ?e = "new_LossEntry r ttl"
  let ?l = "ll_note_added (l \<lparr>ll_entries := (ll_entries l)[ll_size l := ?e]\<rparr>) ?e
    \<lparr>ll_size := Suc (ll_size l)\<rparr>"
  have step: "add_all_loop (r # rs) ttl l = add_all_loop rs ttl ?l"
    by (simp add: Let_def ll_note_added_def)
  have live: "live ?l = live l @ [?e]"
    using Cons.prems(2) by (simp add: live_def ll_note_added_def take_Suc_conv_app_nth)
  have "counters_ok ?l"
    unfolding counters_ok_def live using Cons.prems(1)
    by (simp add: vector_ok_def counters_ok_def ll_note_added_def)
  then have "vector_ok ?l" using Cons.prems by (simp add: vector_ok_def ll_note_added_def)
  then have "vector_ok (add_all_loop rs ttl ?l)
    \<and> live (add_all_loop rs ttl ?l) = live ?l @ map (\<lambda>r. new_LossEntry r ttl) rs
    \<and> ll_admission_capacity (add_all_loop rs ttl ?l) = ll_admission_capacity ?l
    \<and> ll_size (add_all_loop rs ttl ?l) = ll_size ?l + length rs"
    using Cons.prems(2) by (intro Cons.IH) (simp_all add: ll_note_added_def)
  then show ?case unfolding step live by (simp add: ll_note_added_def)
qed simp

definition increasing :: "SequenceNumber \<Rightarrow> SequenceRange list \<Rightarrow> bool" where
  "increasing b rs \<longleftrightarrow> list_all (range_ok b) rs \<and> sorted_wrt (before b) rs"

lemma increasing_Cons [simp]:
  "increasing b (r # rs) \<longleftrightarrow> range_ok b r \<and> (\<forall>q \<in> set rs. before b r q) \<and> increasing b rs"
  by (auto simp: increasing_def)

lemma can_append_loop_iff:
  assumes "\<forall>r \<in> set rs. in_window b r" "has \<longrightarrow> 0 \<le> off b p"
  shows "can_append_loop rs has p \<longleftrightarrow> increasing b rs \<and> (has \<longrightarrow> (\<forall>r \<in> set rs. off b p < off b (sr_first r)))"
  using assms
proof (induction rs arbitrary: has p)
  case (Cons r rs)
  have w: "0 \<le> off b (sr_first r)" "0 \<le> off b (sr_last r)"
    using Cons.prems(1) by (simp_all add: in_window_def)
  have d: "seq_distance (sr_last r) (sr_first r) = off b (sr_last r) - off b (sr_first r)"
    using w by (intro dist_off)
  have p: "has \<Longrightarrow> seq_distance (sr_first r) p = off b (sr_first r) - off b p"
    using w Cons.prems(2) by (intro dist_off) auto
  have "can_append_loop rs True (sr_last r) \<longleftrightarrow>
      increasing b rs \<and> (\<forall>q \<in> set rs. off b (sr_last r) < off b (sr_first q))"
    using Cons.prems(1) w by (subst Cons.IH) auto
  then have iff: "can_append_loop (r # rs) has p \<longleftrightarrow>
      range_ok b r \<and> (has \<longrightarrow> off b p < off b (sr_first r)) \<and> increasing b rs
      \<and> (\<forall>q \<in> set rs. off b (sr_last r) < off b (sr_first q))"
    using d p w by (cases has) (auto simp: range_ok_def)
  have "off b p < off b (sr_first q)"
    if "range_ok b r" "off b p < off b (sr_first r)" "off b (sr_last r) < off b (sr_first q)" for q
    using that by (simp add: range_ok_def)
  then show ?case unfolding iff by (auto simp: before_def)
qed (simp add: increasing_def)

lemma sorted_gaps_new:
  assumes "sorted_gaps b es"
  shows "sorted_gaps b (es @ map (\<lambda>r. new_LossEntry r ttl) rs) \<longleftrightarrow>
    increasing b rs \<and> (es \<noteq> [] \<longrightarrow> (\<forall>r \<in> set rs. off b (le_last (last es)) < off b (sr_first r)))"
proof -
  have new: "sorted_gaps b (map (\<lambda>r. new_LossEntry r ttl) rs) \<longleftrightarrow> increasing b rs"
    by (simp add: sorted_gaps_def increasing_def list_all_iff sorted_wrt_map)
  show ?thesis
  proof (cases es rule: rev_cases)
    case (snoc xs e)
    then have "\<forall>x \<in> set xs. before b (le_range x) (le_range e)" "range_ok b (le_range e)"
      using assms by auto
    then have "\<forall>x \<in> set xs. off b (le_last x) < off b (le_last e)"
      by (auto simp: before_def range_ok_def)
    then show ?thesis using assms new snoc by (fastforce simp: before_def)
  qed (simp add: new)
qed

lemma ll_add_all_correct:
  assumes "loss_inv b l" "\<forall>r \<in> set rs. in_window b r" "ll_add_all l rs ttl = (ok, l')"
  shows "loss_inv b l' \<and> ll_admission_capacity l' = ll_admission_capacity l
    \<and> (ok \<longleftrightarrow> ll_size l + length rs \<le> ll_admission_capacity l \<and> increasing b rs
          \<and> (live l \<noteq> [] \<longrightarrow> (\<forall>r \<in> set rs. off b (le_last (last (live l))) < off b (sr_first r))))
    \<and> (if ok then live l' = live l @ map (\<lambda>r. new_LossEntry r ttl) rs else l' = l)"
proof -
  have inv: "vector_ok l" "sorted_gaps b (live l)" using assms(1) by (simp_all add: loss_inv_vector)
  have sz: "length (live l) = ll_size l" using inv(1) by (intro length_live) (simp add: vector_ok_def)
  have lst: "le_last (ll_entries l ! (ll_size l - 1)) = le_last (last (live l))" if "ll_size l \<noteq> 0"
    using that nth_live [of "ll_size l - 1" l] sz last_conv_nth [of "live l"] by fastforce
  have pos: "0 \<le> off b (le_last (last (live l)))" if "live l \<noteq> []"
    using sorted_gaps_ok [OF inv(2) last_in_set [OF that]] by (simp add: range_ok_def)
  have can: "ll_can_append l rs \<longleftrightarrow> ll_size l + length rs \<le> ll_admission_capacity l \<and> increasing b rs
      \<and> (live l \<noteq> [] \<longrightarrow> (\<forall>r \<in> set rs. off b (le_last (last (live l))) < off b (sr_first r)))"
  proof (cases "live l = []")
    case True
    with sz show ?thesis
      using can_append_loop_iff [OF assms(2), of False "SequenceNumber 0"]
      by (auto simp: ll_can_append_def Let_def)
  next
    case False
    with sz show ?thesis
      using can_append_loop_iff [OF assms(2), of True "le_last (last (live l))"] lst pos
      by (auto simp: ll_can_append_def Let_def)
  qed
  show ?thesis
  proof (cases "ll_can_append l rs")
    case True
    then have "vector_ok l'" "live l' = live l @ map (\<lambda>r. new_LossEntry r ttl) rs" ok
      "ll_admission_capacity l' = ll_admission_capacity l"
      using add_all_loop_live [OF inv(1), of rs ttl] can assms(3) inv(1)
      by (auto simp: ll_add_all_def vector_ok_def)
    then show ?thesis
      using True can sorted_gaps_new [OF inv(2), of ttl rs] by (auto simp: loss_inv_vector)
  next
    case False
    then show ?thesis using assms(1,3) can by (auto simp: ll_add_all_def)
  qed
qed

section \<open>Inserting at the sorted position\<close>

lemma insert_position_eq:
  "insert_position es r p = p + length (takeWhile (\<lambda>e. seq_distance (le_first e) (sr_first r) < 0) es)"
  by (induction es arbitrary: p) auto

lemma insert_position_split:
  assumes "sorted_gaps b es" "range_ok b r"
  obtains xs ys where "es = xs @ ys" "insert_position es r 0 = length xs"
    "\<forall>x \<in> set xs. off b (le_first x) < off b (sr_first r)"
    "\<forall>y \<in> set ys. off b (sr_first r) \<le> off b (le_first y)"
proof
  let ?P = "\<lambda>e. seq_distance (le_first e) (sr_first r) < 0"
  have P: "?P e \<longleftrightarrow> off b (le_first e) < off b (sr_first r)" if "e \<in> set es" for e
    using dist_off [of "le_first e" b "sr_first r"] sorted_gaps_ok [OF assms(1) that] assms(2)
    by (simp add: range_ok_def)
  show "es = takeWhile ?P es @ dropWhile ?P es" by simp
  show "insert_position es r 0 = length (takeWhile ?P es)" by (simp add: insert_position_eq)
  show "\<forall>x \<in> set (takeWhile ?P es). off b (le_first x) < off b (sr_first r)"
    using P by (auto dest: set_takeWhileD)
  show "\<forall>y \<in> set (dropWhile ?P es). off b (sr_first r) \<le> off b (le_first y)"
  proof (cases "dropWhile ?P es")
    case (Cons y ys)
    have "y \<in> set es" using Cons set_dropWhileD [of y ?P es] by simp
    then have y: "off b (sr_first r) \<le> off b (le_first y)"
      using P [of y] hd_dropWhile [of ?P es] Cons by auto
    have "sorted_gaps b (y # ys)"
      using assms(1) takeWhile_dropWhile_id [of ?P es] Cons by (metis sorted_gaps_append)
    then show ?thesis using y unfolding Cons by (auto simp: before_def range_ok_def)
  next
    case Nil
    show ?thesis unfolding Nil by simp
  qed
qed

lemma ll_insert_live:
  assumes "vector_ok l" "live l = xs @ ys" "ll_size l < length (ll_entries l)"
  shows "vector_ok (ll_insert_at l (length xs) e)" "live (ll_insert_at l (length xs) e) = xs @ e # ys"
    "ll_admission_capacity (ll_insert_at l (length xs) e) = ll_admission_capacity l"
proof -
  have len: "ll_size l = length xs + length ys" using length_live [of l] assms(2,3) by simp
  have "take (length xs) (ll_entries l) = xs"
    using arg_cong [OF assms(2), of "take (length xs)"] len by (simp add: live_def)
  then show live: "live (ll_insert_at l (length xs) e) = xs @ e # ys"
    using shift_up_insert [of "length xs" "ll_size l" "ll_entries l" e] assms(2,3) len
    by (simp add: ll_insert_at_def live_def ll_note_added_def Let_def)
  have "counters_ok (ll_insert_at l (length xs) e)"
    unfolding counters_ok_def live using assms(1,2)
    by (simp add: ll_insert_at_def vector_ok_def counters_ok_def ll_note_added_def Let_def)
  then show "vector_ok (ll_insert_at l (length xs) e)"
    using assms(1,3) by (simp add: ll_insert_at_def vector_ok_def ll_note_added_def Let_def)
  show "ll_admission_capacity (ll_insert_at l (length xs) e) = ll_admission_capacity l"
    by (simp add: ll_insert_at_def ll_note_added_def Let_def)
qed

lemma ll_insert_sorted_eq:
  assumes "loss_inv b l" "range_ok b r" "live l = xs @ ys" "insert_position (live l) r 0 = length xs"
  shows "ll_insert_sorted l r ttl =
     (if xs \<noteq> [] \<and> off b (sr_first r) \<le> off b (le_last (last xs))
      then (off b (sr_last r) \<le> off b (le_last (last xs)), l)
      else if ys \<noteq> [] \<and> off b (le_first (hd ys)) \<le> off b (sr_last r)
      then (sr_first r = le_first (hd ys) \<and> off b (sr_last r) \<le> off b (le_last (hd ys)), l)
      else if ll_size l \<ge> ll_admission_capacity l then (False, l)
      else (True, ll_insert_at l (length xs) (new_LossEntry r ttl)))"
proof -
  have sz: "ll_size l \<le> length (ll_entries l)" and sorted: "sorted_gaps b (xs @ ys)"
    using assms(1,3) by (simp_all add: loss_inv_def)
  have len: "ll_size l = length xs + length ys" using length_live [OF sz] assms(3) by simp
  have r: "0 \<le> off b (sr_first r)" "0 \<le> off b (sr_last r)" "off b (sr_first r) \<le> off b (sr_last r)"
    using assms(2) by (simp_all add: range_ok_def)
  have prev: "ll_entries l ! (length xs - 1) = last xs" if "xs \<noteq> []"
  proof -
    have "length xs - 1 < ll_size l" using that len by (cases xs) auto
    with nth_live [OF this] that show ?thesis by (simp add: assms(3) nth_append last_conv_nth)
  qed
  have follow: "ll_entries l ! length xs = hd ys" if "ys \<noteq> []"
    using that nth_live [of "length xs" l] len assms(3) by (simp add: nth_append hd_conv_nth)
  have ok: "range_ok b (le_range (last xs))" if "xs \<noteq> []"
    using that sorted by (auto intro: sorted_gaps_ok)
  have ok': "range_ok b (le_range (hd ys))" if "ys \<noteq> []"
    using that sorted by (auto intro: sorted_gaps_ok)
  have d: "seq_distance (sr_last r) (sr_first r) = off b (sr_last r) - off b (sr_first r)"
    using r by (intro dist_off)
  have dp: "seq_distance (sr_first r) (le_last (last xs)) = off b (sr_first r) - off b (le_last (last xs))"
    "seq_distance (sr_last r) (le_last (last xs)) = off b (sr_last r) - off b (le_last (last xs))" if "xs \<noteq> []"
    using r ok [OF that] by (auto intro!: dist_off simp: range_ok_def)
  have df: "seq_distance (le_first (hd ys)) (sr_last r) = off b (le_first (hd ys)) - off b (sr_last r)"
    "seq_distance (sr_last r) (le_last (hd ys)) = off b (sr_last r) - off b (le_last (hd ys))" if "ys \<noteq> []"
    using r ok' [OF that] by (auto intro!: dist_off simp: range_ok_def)
  show ?thesis
    unfolding ll_insert_sorted_def live_def [symmetric] Let_def assms(4)
    using d r len prev follow dp df
    by (cases "xs = []"; cases "ys = []") simp_all
qed

lemma sorted_gaps_insert:
  assumes "sorted_gaps b (xs @ ys)" "range_ok b (le_range e)"
    and "xs = [] \<or> off b (le_last (last xs)) < off b (le_first e)"
    and "ys = [] \<or> off b (le_last e) < off b (le_first (hd ys))"
  shows "sorted_gaps b (xs @ e # ys)"
proof -
  have "before b (le_range x) (le_range e)" if "x \<in> set xs" for x
    using that assms(1,3) by (cases xs rule: rev_cases) (auto simp: before_def range_ok_def)
  moreover have "before b (le_range e) (le_range y)" if "y \<in> set ys" for y
    using that assms(1,4) by (cases ys) (auto simp: before_def range_ok_def)
  ultimately show ?thesis using assms(1,2) by auto
qed

lemma ll_insert_sorted_correct:
  assumes "loss_inv b l" "range_ok b r" "ll_insert_sorted l r ttl = (ok, l')"
  shows "loss_inv b l' \<and> ll_admission_capacity l' = ll_admission_capacity l
    \<and> (ok \<longrightarrow> missing b l' = missing b l \<union> span b r) \<and> (\<not> ok \<longrightarrow> l' = l)
    \<and> (missing b l \<inter> span b r = {} \<longrightarrow>
         (ok \<longleftrightarrow> ll_size l < ll_admission_capacity l) \<and> (ok \<longrightarrow> ll_size l' = ll_size l + 1))"
proof -
  have vec: "vector_ok l" and srt: "sorted_gaps b (live l)"
    using assms(1) by (simp_all add: loss_inv_vector)
  obtain xs ys where split: "live l = xs @ ys" "insert_position (live l) r 0 = length xs"
    "\<forall>x \<in> set xs. off b (le_first x) < off b (sr_first r)"
    "\<forall>y \<in> set ys. off b (sr_first r) \<le> off b (le_first y)"
    using insert_position_split [OF srt assms(2)] by blast
  note eq = ll_insert_sorted_eq [OF assms(1,2) split(1,2), of ttl]
  have r: "off b (sr_first r) \<le> off b (sr_last r)" using assms(2) by (simp add: range_ok_def)
  have sub: "span b (le_range e) \<subseteq> missing b l" if "e \<in> set xs \<union> set ys" for e
    using that split(1) by (auto simp: missing_def gaps_def)
  consider (prev) "xs \<noteq> []" "off b (sr_first r) \<le> off b (le_last (last xs))"
    | (follow) "xs = [] \<or> off b (le_last (last xs)) < off b (sr_first r)"
        "ys \<noteq> []" "off b (le_first (hd ys)) \<le> off b (sr_last r)"
    | (free) "xs = [] \<or> off b (le_last (last xs)) < off b (sr_first r)"
        "ys = [] \<or> off b (sr_last r) < off b (le_first (hd ys))"
    by linarith
  then show ?thesis
  proof cases
    case prev
    have e: "span b (le_range (last xs)) \<subseteq> missing b l" using prev(1) by (intro sub) simp
    have lt: "off b (le_first (last xs)) < off b (sr_first r)" using split(3) prev(1) by simp
    have "off b (sr_first r) \<in> missing b l \<inter> span b r" using e lt prev(2) r by (auto simp: span_def)
    moreover have "span b r \<subseteq> missing b l" if "off b (sr_last r) \<le> off b (le_last (last xs))"
      using that e lt by (auto simp: span_def)
    ultimately show ?thesis using eq prev assms(1,3) by auto
  next
    case follow
    have e: "span b (le_range (hd ys)) \<subseteq> missing b l" using follow(2) by (intro sub) simp
    have "range_ok b (le_range (hd ys))" "off b (sr_first r) \<le> off b (le_first (hd ys))"
      using srt split(1,4) follow(2) by (auto intro: sorted_gaps_ok)
    then have "off b (le_first (hd ys)) \<in> missing b l \<inter> span b r"
      using e follow(3) by (auto simp: span_def range_ok_def)
    moreover have "span b r \<subseteq> missing b l"
      if "sr_first r = le_first (hd ys)" "off b (sr_last r) \<le> off b (le_last (hd ys))"
      using that e by (auto simp: span_def)
    ultimately show ?thesis using eq follow assms(1,3) by auto
  next
    case free
    show ?thesis
    proof (cases "ll_size l \<ge> ll_admission_capacity l")
      case True
      then show ?thesis using eq free assms(1,3) by auto
    next
      case False
      have res: "ok" "l' = ll_insert_at l (length xs) (new_LossEntry r ttl)"
        using False eq free assms(3) by auto
      have room: "ll_size l < length (ll_entries l)" using False vec by (auto simp: vector_ok_def)
      note ins = ll_insert_live [OF vec split(1) room, of "new_LossEntry r ttl"]
      have sz: "ll_size l' = ll_size l + 1" by (simp add: res ll_insert_at_def ll_note_added_def Let_def)
      have "sorted_gaps b (live l')"
        unfolding res(2) ins(2) using srt split(1) assms(2) free by (intro sorted_gaps_insert) simp_all
      moreover have "missing b l' = missing b l \<union> span b r"
        unfolding missing_def res(2) ins(2) split(1) by auto
      ultimately show ?thesis using res ins False sz by (simp add: loss_inv_vector)
    qed
  qed
qed

section \<open>Batches\<close>

definition apart :: "SequenceNumber \<Rightarrow> SequenceRange \<Rightarrow> SequenceRange \<Rightarrow> bool" where
  "apart b r q \<longleftrightarrow> span b r \<inter> span b q = {}"

lemma apart_sym: "apart b r q \<longleftrightarrow> apart b q r"
  by (auto simp: apart_def)

lemma ranges_overlap_iff:
  assumes "range_ok b r" "range_ok b q"
  shows "ranges_overlap r q \<longleftrightarrow> \<not> apart b r q"
proof -
  have "seq_distance (sr_first r) (sr_last q) = off b (sr_first r) - off b (sr_last q)"
    "seq_distance (sr_first q) (sr_last r) = off b (sr_first q) - off b (sr_last r)"
    using assms by (auto intro!: dist_off simp: range_ok_def)
  then show ?thesis
    using assms by (auto simp: ranges_overlap_def apart_def span_def range_ok_def)
qed

text \<open>Inserting the ranges one after the other, as the session does with a checked batch.\<close>

fun insert_all :: "ReceiveLossList \<Rightarrow> SequenceRange list \<Rightarrow> u32 \<Rightarrow> bool \<times> ReceiveLossList" where
  "insert_all l [] ttl = (True, l)"
| "insert_all l (r # rs) ttl =
     (case ll_insert_sorted l r ttl of
        (False, l') \<Rightarrow> (False, l')
      | (True, l') \<Rightarrow> insert_all l' rs ttl)"

lemma can_insert_loop_iff:
  assumes "loss_inv b l" "\<forall>r \<in> set rs. in_window b r" "\<forall>q \<in> set qs. range_ok b q"
  shows "can_insert_loop l qs rs \<longleftrightarrow> list_all (range_ok b) rs
    \<and> (\<forall>r \<in> set rs. missing b l \<inter> span b r = {}) \<and> (\<forall>r \<in> set rs. \<forall>q \<in> set qs. apart b r q)
    \<and> sorted_wrt (apart b) rs"
  using assms(2,3)
proof (induction rs arbitrary: qs)
  case (Cons r rs)
  have d: "seq_distance (sr_last r) (sr_first r) = off b (sr_last r) - off b (sr_first r)"
    using Cons.prems(1) by (intro dist_off) (auto simp: in_window_def)
  show ?case
  proof (cases "range_ok b r")
    case True
    then have pos: "\<not> seq_distance (sr_last r) (sr_first r) < 0" using d by (simp add: range_ok_def)
    have "list_ex (\<lambda>e. ranges_overlap r (le_range e)) (live l) \<longleftrightarrow> missing b l \<inter> span b r \<noteq> {}"
    proof -
      have "ranges_overlap r (le_range e) \<longleftrightarrow> span b (le_range e) \<inter> span b r \<noteq> {}" if "e \<in> set (live l)" for e
        using ranges_overlap_iff [OF True] assms(1) that sorted_gaps_ok [of b "live l" e]
        by (auto simp: apart_def loss_inv_def)
      then show ?thesis by (auto simp: list_ex_iff missing_def gaps_def)
    qed
    moreover have "list_ex (ranges_overlap r) qs \<longleftrightarrow> (\<exists>q \<in> set qs. \<not> apart b r q)"
      using ranges_overlap_iff [OF True] Cons.prems(2) by (auto simp: list_ex_iff)
    moreover have "can_insert_loop l (qs @ [r]) rs \<longleftrightarrow> list_all (range_ok b) rs
      \<and> (\<forall>r \<in> set rs. missing b l \<inter> span b r = {})
      \<and> (\<forall>r' \<in> set rs. \<forall>q \<in> set (qs @ [r]). apart b r' q)
      \<and> sorted_wrt (apart b) rs"
      using Cons.prems True by (intro Cons.IH) auto
    ultimately show ?thesis
      using True pos apart_sym [of b r] by (auto simp: live_def [symmetric])
  next
    case False
    then show ?thesis using d Cons.prems(1) by (auto simp: range_ok_def in_window_def)
  qed
qed simp

lemma insert_all_correct:
  assumes "loss_inv b l" "list_all (range_ok b) rs" "\<forall>r \<in> set rs. missing b l \<inter> span b r = {}"
    and "sorted_wrt (apart b) rs"
    and "ll_size l + length rs \<le> ll_admission_capacity l"
  shows "\<exists>l'. insert_all l rs ttl = (True, l') \<and> loss_inv b l'
    \<and> missing b l' = missing b l \<union> (\<Union>r \<in> set rs. span b r)"
  using assms
proof (induction rs arbitrary: l)
  case (Cons r rs)
  obtain ok l1 where ins: "ll_insert_sorted l r ttl = (ok, l1)" by force
  have "range_ok b r" using Cons.prems(2) by simp
  note c = ll_insert_sorted_correct [OF Cons.prems(1) this ins]
  have l1: "ok" "loss_inv b l1" "missing b l1 = missing b l \<union> span b r"
    "ll_size l1 = ll_size l + 1" "ll_admission_capacity l1 = ll_admission_capacity l"
    using c Cons.prems(3,5) by auto
  have "\<exists>l'. insert_all l1 rs ttl = (True, l') \<and> loss_inv b l'
    \<and> missing b l' = missing b l1 \<union> (\<Union>r \<in> set rs. span b r)"
  proof (intro Cons.IH)
    show "\<forall>q \<in> set rs. missing b l1 \<inter> span b q = {}"
      using Cons.prems(3,4) unfolding l1(3) by (auto simp: apart_def)
  qed (use Cons.prems l1 in simp_all)
  then show ?case using ins l1 by auto
qed simp

end
