(* ===== verification/Loss_List_Reports.thy ===== *)
theory Loss_List_Reports
  imports Loss_List_Correct
begin

text \<open>
  The report scheduling of the receive loss list, the interface the session relies on, and the
  properties of the component over all reachable lists.
\<close>

section \<open>Report loops on the live entries\<close>

abbreviation count_pending :: "LossEntry list \<Rightarrow> nat" where
  "count_pending es \<equiv> length (filter le_pending es)"

abbreviation count_fresh :: "LossEntry list \<Rightarrow> nat" where
  "count_fresh es \<equiv> length (filter le_fresh es)"

definition rearm_entry :: "LossEntry \<Rightarrow> LossEntry" where
  "rearm_entry e = (if le_fresh e then e else e \<lparr>le_initial_report_pending := True, le_reported := False\<rparr>)"

definition age_entry :: "LossEntry \<Rightarrow> LossEntry" where
  "age_entry e =
     (if \<not> le_fresh e then e
      else if le_ttl e = 0 then e \<lparr>le_fresh := False, le_initial_report_pending := True\<rparr>
      else e \<lparr>le_ttl := le_ttl e - 1\<rparr>)"

definition mark_entry :: "u64 \<Rightarrow> u64 \<Rightarrow> LossEntry \<Rightarrow> LossEntry" where
  "mark_entry now retry e =
     (if le_fresh e \<or> (le_reported e
          \<and> (now < le_last_report_microseconds e \<or> now - le_last_report_microseconds e < retry))
      then e else e \<lparr>le_periodic_report_pending := True\<rparr>)"

definition report_entry :: "u64 \<Rightarrow> LossEntry \<Rightarrow> LossEntry" where
  "report_entry now e =
     (if le_pending e
      then e \<lparr>le_reported := True, le_last_report_microseconds := now,
              le_initial_report_pending := False, le_periodic_report_pending := False\<rparr>
      else e)"

lemma entry_updates_keep [simp]:
  "le_range (rearm_entry e) = le_range e" "le_fresh (rearm_entry e) = le_fresh e"
  "le_range (age_entry e) = le_range e"
  "le_range (mark_entry now retry e) = le_range e" "le_fresh (mark_entry now retry e) = le_fresh e"
  "le_range (report_entry now e) = le_range e" "le_fresh (report_entry now e) = le_fresh e"
  by (simp_all add: rearm_entry_def age_entry_def mark_entry_def report_entry_def)

lemma rearm_loop_eq:
  "rearm_loop es r p = (es', p') \<Longrightarrow>
     (\<exists>us vs. es = us @ vs \<and> es' = map rearm_entry us @ vs
        \<and> (\<forall>u \<in> set us. \<not> seq_distance (le_first u) (sr_last r) > 0)
        \<and> (vs = [] \<or> seq_distance (le_first (hd vs)) (sr_last r) > 0))
     \<and> p' + count_pending es = p + count_pending es'"
proof (induction es arbitrary: p es' p')
  case (Cons e es)
  show ?case
  proof (cases "seq_distance (le_first e) (sr_last r) > 0")
    case True
    then show ?thesis using Cons.prems by (intro conjI exI [of _ "[]"] exI [of _ "e # es"]) auto
  next
    case False
    let ?p = "if le_fresh e then p else if \<not> le_pending e then p + 1 else p"
    obtain fs q where rec: "rearm_loop es r ?p = (fs, q)" by force
    have out: "es' = rearm_entry e # fs" "p' = q"
      using Cons.prems False rec by (auto simp: rearm_entry_def split: if_splits)
    from Cons.IH [OF rec] obtain us vs where "es = us @ vs" "fs = map rearm_entry us @ vs"
      "\<forall>u \<in> set us. \<not> seq_distance (le_first u) (sr_last r) > 0"
      "vs = [] \<or> seq_distance (le_first (hd vs)) (sr_last r) > 0"
      and q: "q + count_pending es = ?p + count_pending fs" by blast
    then have "\<exists>us vs. e # es = us @ vs \<and> es' = map rearm_entry us @ vs
        \<and> (\<forall>u \<in> set us. \<not> seq_distance (le_first u) (sr_last r) > 0)
        \<and> (vs = [] \<or> seq_distance (le_first (hd vs)) (sr_last r) > 0)"
      using False out by (intro exI [of _ "e # us"] exI [of _ vs]) auto
    moreover have "p' + count_pending (e # es) = p + count_pending es'"
      using q out by (auto simp: rearm_entry_def le_pending_def)
    ultimately show ?thesis ..
  qed
qed (auto intro: exI [of _ "[]"])

lemma age_loop_eq:
  "count_fresh es \<le> f \<Longrightarrow> age_loop es f p =
     (map age_entry es, f + count_fresh (map age_entry es) - count_fresh es,
      p + count_pending (map age_entry es) - count_pending es)"
  by (induction es arbitrary: f p) (auto simp: age_entry_def le_pending_def Let_def)

lemma mark_loop_eq:
  "mark_loop es now retry p =
     (map (mark_entry now retry) es, p + count_pending (map (mark_entry now retry) es) - count_pending es)"
  and count_pending_mark: "count_pending es \<le> count_pending (map (mark_entry now retry) es)"
  by (induction es arbitrary: p) (auto simp: mark_entry_def le_pending_def Let_def)

text \<open>The taken reports are the first pending ranges; the entries behind them keep waiting.\<close>

lemma take_loop_eq:
  assumes "take_loop es now room p = (reports, es', p')" "count_pending es = p"
  shows "reports = map le_range (take room (filter le_pending es))
    \<and> p' = p - length reports
    \<and> map le_range es' = map le_range es \<and> map le_fresh es' = map le_fresh es
    \<and> filter le_pending es' = drop room (filter le_pending es)"
  using assms
proof (induction es arbitrary: room p reports es' p')
  case (Cons e es)
  consider (stop) "p = 0 \<or> room = 0" | (skip) "p \<noteq> 0" "room \<noteq> 0" "\<not> le_pending e"
    | (report) "p \<noteq> 0" "room \<noteq> 0" "le_pending e" by blast
  then show ?case
  proof cases
    case stop
    then show ?thesis using Cons.prems by auto
  next
    case skip
    obtain rs fs q where rec: "take_loop es now room p = (rs, fs, q)" by (metis prod_cases3)
    with Cons.prems skip Cons.IH [OF rec] show ?thesis by (auto simp: Let_def)
  next
    case report
    obtain rs fs q where rec: "take_loop es now (room - 1) (p - 1) = (rs, fs, q)" by (metis prod_cases3)
    have out: "reports = le_range e # rs" "p' = q"
      "es' = e \<lparr>le_reported := True, le_last_report_microseconds := now,
        le_initial_report_pending := False, le_periodic_report_pending := False\<rparr> # fs"
      using Cons.prems(1) report rec by simp_all
    have cnt: "count_pending es = p - 1" using Cons.prems(2) report(3) by simp
    note ih = Cons.IH [OF rec cnt]
    have room: "take room (x # xs) = x # take (room - 1) xs" "drop room (x # xs) = drop (room - 1) xs"
      for x :: LossEntry and xs using report(2) by (cases room; simp)+
    show ?thesis
      unfolding out using ih report(3) room by (simp add: le_pending_def)
  qed
qed auto

section \<open>Report operations keep the set\<close>

lemma sorted_gaps_map: "map le_range es = map le_range fs \<Longrightarrow> sorted_gaps b es \<longleftrightarrow> sorted_gaps b fs"
proof -
  have "sorted_gaps b es \<longleftrightarrow> list_all (range_ok b) (map le_range es) \<and> sorted_wrt (before b) (map le_range es)" for es
    by (simp add: sorted_gaps_def list_all_iff sorted_wrt_map)
  then show "map le_range es = map le_range fs \<Longrightarrow> sorted_gaps b es \<longleftrightarrow> sorted_gaps b fs" by simp
qed

lemma gaps_map: "map le_range es = map le_range fs \<Longrightarrow> gaps b es = gaps b fs"
proof -
  have "gaps b es = (\<Union>r \<in> set (map le_range es). span b r)" for es by (auto simp: gaps_def)
  then show "map le_range es = map le_range fs \<Longrightarrow> gaps b es = gaps b fs" by presburger
qed

text \<open>Replacing the live entries by others with the same ranges and the matching counts.\<close>

definition same_ranges :: "SequenceNumber \<Rightarrow> ReceiveLossList \<Rightarrow> ReceiveLossList \<Rightarrow> bool" where
  "same_ranges b l l' \<longleftrightarrow> loss_inv b l' \<and> missing b l' = missing b l
     \<and> map le_range (live l') = map le_range (live l)
     \<and> ll_size l' = ll_size l \<and> ll_admission_capacity l' = ll_admission_capacity l"

lemma same_ranges_replace:
  assumes "loss_inv b l" "ll_entries l' = es @ drop (ll_size l) (ll_entries l)"
    and "map le_range es = map le_range (live l)"
    and "ll_size l' = ll_size l" "ll_admission_capacity l' = ll_admission_capacity l"
    and "ll_fresh_count l' = count_fresh es" "ll_pending_count l' = count_pending es"
  shows "live l' = es" "same_ranges b l l'"
proof -
  have sz: "ll_size l \<le> length (ll_entries l)" using assms(1) by (simp add: loss_inv_def)
  have len: "length es = ll_size l"
    using arg_cong [OF assms(3), of length] length_live [OF sz] by simp
  show live: "live l' = es" unfolding live_def assms(2,4) using len by simp
  have "length (ll_entries l') = length (ll_entries l)" using assms(2) len sz by simp
  then show "same_ranges b l l'"
    unfolding same_ranges_def loss_inv_def counters_ok_def missing_def live
    using assms sz gaps_map [OF assms(3)] sorted_gaps_map [OF assms(3)] by (simp add: loss_inv_def)
qed

lemma ll_age_fresh_correct:
  assumes "loss_inv b l"
  shows "live (ll_age_fresh l) = map age_entry (live l)" "same_ranges b l (ll_age_fresh l)"
proof -
  have cnt: "ll_fresh_count l = count_fresh (live l)" "ll_pending_count l = count_pending (live l)"
    using assms by (simp_all add: loss_inv_def counters_ok_def)
  show "live (ll_age_fresh l) = map age_entry (live l)" "same_ranges b l (ll_age_fresh l)"
  proof (atomize (full), cases "ll_fresh_count l = 0")
    case True
    then have "map age_entry (live l) = live l"
      using cnt by (auto intro!: map_idI simp: age_entry_def filter_empty_conv)
    then show "live (ll_age_fresh l) = map age_entry (live l) \<and> same_ranges b l (ll_age_fresh l)"
      using True assms by (simp add: ll_age_fresh_def same_ranges_def)
  next
    case False
    have eq: "ll_age_fresh l = l \<lparr>ll_entries := map age_entry (live l) @ drop (ll_size l) (ll_entries l),
        ll_fresh_count := count_fresh (map age_entry (live l)),
        ll_pending_count := count_pending (map age_entry (live l))\<rparr>"
      using False age_loop_eq [of "live l" "ll_fresh_count l" "ll_pending_count l"] cnt
      by (simp add: ll_age_fresh_def live_def [symmetric])
    show "live (ll_age_fresh l) = map age_entry (live l) \<and> same_ranges b l (ll_age_fresh l)"
      using same_ranges_replace [OF assms, of "ll_age_fresh l" "map age_entry (live l)"]
      by (simp add: eq)
  qed
qed

lemma ll_mark_periodic_reports_correct:
  assumes "loss_inv b l"
  shows "live (ll_mark_periodic_reports l now retry) = map (mark_entry now retry) (live l)"
    "same_ranges b l (ll_mark_periodic_reports l now retry)"
proof -
  have cnt: "ll_fresh_count l = count_fresh (live l)" "ll_pending_count l = count_pending (live l)"
    using assms by (simp_all add: loss_inv_def counters_ok_def)
  have fresh: "count_fresh (map (mark_entry now retry) (live l)) = count_fresh (live l)"
    by (simp add: filter_map comp_def)
  have eq: "ll_mark_periodic_reports l now retry =
      l \<lparr>ll_entries := map (mark_entry now retry) (live l) @ drop (ll_size l) (ll_entries l),
         ll_pending_count := count_pending (map (mark_entry now retry) (live l))\<rparr>"
    by (simp add: ll_mark_periodic_reports_def live_def [symmetric] mark_loop_eq cnt)
  show "live (ll_mark_periodic_reports l now retry) = map (mark_entry now retry) (live l)"
    "same_ranges b l (ll_mark_periodic_reports l now retry)"
    using same_ranges_replace [OF assms, of "ll_mark_periodic_reports l now retry"
        "map (mark_entry now retry) (live l)"] cnt fresh
    by (simp_all add: eq)
qed

lemma ll_take_pending_reports_correct:
  assumes "loss_inv b l" "ll_take_pending_reports l room now = (reports, l')"
  shows "same_ranges b l l'"
    "reports = map le_range (take room (filter le_pending (live l)))"
    "filter le_pending (live l') = drop room (filter le_pending (live l))"
proof -
  have cnt: "ll_fresh_count l = count_fresh (live l)" "ll_pending_count l = count_pending (live l)"
    using assms(1) by (simp_all add: loss_inv_def counters_ok_def)
  obtain rs es p where t: "take_loop (live l) now room (ll_pending_count l) = (rs, es, p)"
    by (metis prod_cases3)
  from take_loop_eq [OF t] cnt have loop: "rs = map le_range (take room (filter le_pending (live l)))"
    "p = ll_pending_count l - length rs" "map le_range es = map le_range (live l)"
    "map le_fresh es = map le_fresh (live l)" "filter le_pending es = drop room (filter le_pending (live l))"
    by auto
  have fresh: "count_fresh es = count_fresh (live l)"
  proof -
    have "count_fresh xs = length (filter id (map le_fresh xs))" for xs by (simp add: filter_map comp_def)
    then show ?thesis using loop(4) by presburger
  qed
  have out: "reports = rs" "l' = l \<lparr>ll_entries := es @ drop (ll_size l) (ll_entries l), ll_pending_count := p\<rparr>"
    using assms(2) t by (simp_all add: ll_take_pending_reports_def live_def [symmetric])
  have p: "p = count_pending es" using loop(1,2,5) cnt(2) by simp
  have rep: "live l' = es" "same_ranges b l l'"
    using same_ranges_replace [OF assms(1) _ loop(3), of l'] out(2) cnt fresh p by simp_all
  then show "same_ranges b l l'" "reports = map le_range (take room (filter le_pending (live l)))"
    "filter le_pending (live l') = drop room (filter le_pending (live l))"
    using out(1) loop by simp_all
qed

lemma ll_rearm_report_correct:
  assumes "loss_inv b l" "in_window b r"
  shows "same_ranges b l (ll_rearm_report l r)"
    "live (ll_rearm_report l r) =
       map (\<lambda>e. if off b (sr_first r) \<le> off b (le_last e) \<and> off b (le_first e) \<le> off b (sr_last r)
                then rearm_entry e else e) (live l)"
proof -
  have r: "0 \<le> off b (sr_first r)" "0 \<le> off b (sr_last r)" using assms(2) by (simp_all add: in_window_def)
  have sorted: "sorted_gaps b (live l)" using assms(1) by (simp add: loss_inv_def)
  have cnt: "ll_fresh_count l = count_fresh (live l)" "ll_pending_count l = count_pending (live l)"
    using assms(1) by (simp_all add: loss_inv_def counters_ok_def)
  obtain xs ys where split: "live l = xs @ ys" "ll_lower_bound l (sr_first r) = length xs"
    "\<forall>e \<in> set xs. off b (le_last e) < off b (sr_first r)" "\<forall>e \<in> set ys. off b (sr_first r) \<le> off b (le_last e)"
    using lower_bound_split [OF assms(1) r(1)] by blast
  obtain fs p where loop: "rearm_loop ys r (ll_pending_count l) = (fs, p)" by force
  obtain us vs where ys: "ys = us @ vs" "fs = map rearm_entry us @ vs"
    "\<forall>u \<in> set us. \<not> seq_distance (le_first u) (sr_last r) > 0"
    "vs = [] \<or> seq_distance (le_first (hd vs)) (sr_last r) > 0"
    and p: "p + count_pending ys = ll_pending_count l + count_pending fs"
    using rearm_loop_eq [OF loop] by (elim conjE exE) assumption
  have d: "seq_distance (le_first e) (sr_last r) = off b (le_first e) - off b (sr_last r)" if "e \<in> set (live l)" for e
    using sorted_gaps_ok [OF sorted that] r by (intro dist_off) (simp_all add: range_ok_def)
  have us: "off b (le_first u) \<le> off b (sr_last r)" if "u \<in> set us" for u
    using ys(3) d [of u] that split(1) ys(1) by auto
  have vs: "off b (sr_last r) < off b (le_first v)" if "v \<in> set vs" for v
  proof (cases vs)
    case (Cons w ws)
    have "sorted_gaps b (w # ws)" using sorted split(1) ys(1) Cons by simp
    then have "off b (le_first w) \<le> off b (le_first v)"
      using that Cons by (auto simp: before_def range_ok_def)
    moreover have "off b (sr_last r) < off b (le_first w)" using ys(4) d [of w] split(1) ys(1) Cons by simp
    ultimately show ?thesis by simp
  qed (use that in simp)
  let ?es = "xs @ map rearm_entry us @ vs"
  let ?f = "\<lambda>e. if off b (sr_first r) \<le> off b (le_last e) \<and> off b (le_first e) \<le> off b (sr_last r)
                then rearm_entry e else e"
  have "map ?f xs = xs" using split(3) by (intro map_idI) auto
  moreover have "map ?f us = map rearm_entry us" using split(4) ys(1) us by (intro map_cong) auto
  moreover have "map ?f vs = vs" using vs by (intro map_idI) force
  ultimately have es: "?es = map ?f (live l)" using split(1) ys(1) by simp
  have len: "length xs \<le> ll_size l" using split(1) length_live [of l] assms(1) by (simp add: loss_inv_def)
  then have pre: "take (length xs) (ll_entries l) = xs"
    using arg_cong [OF split(1), of "take (length xs)"] by (simp add: live_def)
  have eq: "ll_rearm_report l r = l \<lparr>ll_entries := ?es @ drop (ll_size l) (ll_entries l), ll_pending_count := p\<rparr>"
    using split loop ys(1,2) pre by (simp add: ll_rearm_report_def live_def [symmetric])
  have counts: "count_fresh ?es = count_fresh (live l)" "count_pending ?es = p"
    using p cnt(2) split(1) ys(1,2) by (simp_all add: filter_map comp_def)
  show "same_ranges b l (ll_rearm_report l r)" "live (ll_rearm_report l r) = map ?f (live l)"
    using same_ranges_replace [OF assms(1), of "ll_rearm_report l r" ?es] counts cnt(1) eq split(1) ys(1) es
    by (simp_all add: comp_def)
qed

end
