(* ===== verification/Loss_List_Properties.thy ===== *)
theory Loss_List_Properties
  imports Loss_List_Reports
begin

text \<open>
  The receive loss list over all histories of operations: the states a session can reach while
  its window slides, the interface they offer, and the properties of the component.
\<close>

section \<open>Sliding the window\<close>

lemma off_rebase: "0 \<le> off b c \<Longrightarrow> 0 \<le> off b s \<Longrightarrow> off c s = off b s - off b c"
  by (rule dist_off)

lemma loss_inv_rebase:
  assumes "loss_inv b l" "0 \<le> off b c" "\<forall>e \<in> set (live l). off b c \<le> off b (le_first e)"
  shows "loss_inv c l" "missing c l = (\<lambda>n. n - off b c) ` missing b l"
proof -
  have ok: "0 \<le> off b (le_first e)" "0 \<le> off b (le_last e)" "off b (le_first e) \<le> off b (le_last e)"
    if "e \<in> set (live l)" for e
    using sorted_gaps_ok [of b "live l" e] assms(1) that by (auto simp: loss_inv_def range_ok_def)
  have reb: "off c (le_first e) = off b (le_first e) - off b c"
    "off c (le_last e) = off b (le_last e) - off b c" if "e \<in> set (live l)" for e
    using off_rebase [OF assms(2)] ok [OF that] by auto
  have span: "span c (le_range e) = (\<lambda>n. n - off b c) ` span b (le_range e)" if "e \<in> set (live l)" for e
    using reb [OF that] by (simp add: span_def image_diff_atLeastAtMost [symmetric])
  then show "missing c l = (\<lambda>n. n - off b c) ` missing b l"
    by (auto simp: missing_def gaps_def)
  have "sorted_gaps b (live l)" using assms(1) by (simp add: loss_inv_def)
  then have "sorted_gaps c (live l)"
    unfolding sorted_gaps_def list_all_iff sorted_wrt_iff_nth_less
    using reb assms(3) by (auto simp: range_ok_def before_def)
  then show "loss_inv c l" using assms(1) by (simp add: loss_inv_def)
qed

lemma off_before_base:
  assumes "0 \<le> off b c"
  shows "off b (seq_advanced c seq_mask) = off b c - 1"
  unfolding seq_advanced_mask using assms off_upper [of c b] sn.dist_adv_gen [of c b "- 1"] by simp

lemma slide_inv:
  assumes "loss_inv b l" "0 \<le> off b c"
  defines "l' \<equiv> ll_remove_through l (seq_advanced c seq_mask)"
  shows "loss_inv c l'" "ll_admission_capacity l' = ll_admission_capacity l"
    "missing c l' = {n. 0 \<le> n \<and> n + off b c \<in> missing b l}"
proof -
  have t: "- 1 \<le> off b (seq_advanced c seq_mask)" using off_before_base [OF assms(2)] assms(2) by simp
  note rem = ll_remove_through_correct [OF assms(1) t, folded l'_def]
  have inv: "loss_inv b l'" and mis: "missing b l' = missing b l \<inter> {off b c - 1 <..}"
    using rem off_before_base [OF assms(2)] by simp_all
  have "off b c \<le> off b (le_first e)" if "e \<in> set (live l')" for e
  proof -
    have "range_ok b (le_range e)" using inv that sorted_gaps_ok by (auto simp: loss_inv_def)
    then have "off b (le_first e) \<in> missing b l'"
      using that by (auto simp: missing_def gaps_def span_def range_ok_def)
    then show ?thesis using mis by simp
  qed
  then have "\<forall>e \<in> set (live l'). off b c \<le> off b (le_first e)" by blast
  note reb = loss_inv_rebase [OF inv assms(2) this]
  show "loss_inv c l'" by (rule reb)
  show "ll_admission_capacity l' = ll_admission_capacity l" using rem by simp
  show "missing c l' = {n. 0 \<le> n \<and> n + off b c \<in> missing b l}"
    unfolding reb(2) mis by (force simp: image_iff)
qed

section \<open>Reachable lists\<close>

text \<open>
  The operations of the class in any order. The base of the window moves only together with the
  removal of everything before it, the way the session retires old losses.
\<close>

inductive loss_reachable :: "nat \<Rightarrow> SequenceNumber \<Rightarrow> ReceiveLossList \<Rightarrow> bool" for capacity :: nat where
  reach_init: "make_ReceiveLossList capacity = Some l \<Longrightarrow> loss_reachable capacity b l"
| reach_add_all: "loss_reachable capacity b l \<Longrightarrow> \<forall>r \<in> set rs. in_window b r
    \<Longrightarrow> loss_reachable capacity b (snd (ll_add_all l rs ttl))"
| reach_insert: "loss_reachable capacity b l \<Longrightarrow> in_window b r
    \<Longrightarrow> loss_reachable capacity b (snd (ll_insert_sorted l r ttl))"
| reach_remove: "loss_reachable capacity b l \<Longrightarrow> 0 \<le> off b s
    \<Longrightarrow> loss_reachable capacity b (snd (ll_remove l s))"
| reach_remove_range: "loss_reachable capacity b l \<Longrightarrow> in_window b r
    \<Longrightarrow> loss_reachable capacity b (snd (ll_remove_range l r))"
| reach_slide: "loss_reachable capacity b l \<Longrightarrow> 0 \<le> off b c
    \<Longrightarrow> loss_reachable capacity c (ll_remove_through l (seq_advanced c seq_mask))"
| reach_rearm: "loss_reachable capacity b l \<Longrightarrow> in_window b r
    \<Longrightarrow> loss_reachable capacity b (ll_rearm_report l r)"
| reach_age: "loss_reachable capacity b l \<Longrightarrow> loss_reachable capacity b (ll_age_fresh l)"
| reach_mark: "loss_reachable capacity b l
    \<Longrightarrow> loss_reachable capacity b (ll_mark_periodic_reports l now retry)"
| reach_take: "loss_reachable capacity b l
    \<Longrightarrow> loss_reachable capacity b (snd (ll_take_pending_reports l room now))"

lemma make_ReceiveLossList_inv:
  assumes "make_ReceiveLossList capacity = Some l"
  shows "loss_inv b l \<and> ll_admission_capacity l = capacity \<and> missing b l = {}"
  using assms by (auto simp: make_ReceiveLossList_def loss_inv_def live_def counters_ok_def missing_def split: if_splits)

lemma ll_insert_sorted_invalid:
  assumes "in_window b r" "\<not> range_ok b r"
  shows "ll_insert_sorted l r ttl = (False, l)"
  using assms dist_off [of "sr_last r" b "sr_first r"]
  by (auto simp: ll_insert_sorted_def in_window_def range_ok_def)

lemma loss_reachable_inv:
  "loss_reachable capacity b l \<Longrightarrow> loss_inv b l \<and> ll_admission_capacity l = capacity"
proof (induction rule: loss_reachable.induct)
  case (reach_init l b)
  then show ?case using make_ReceiveLossList_inv by blast
next
  case (reach_add_all b l rs ttl)
  then show ?case using ll_add_all_correct [of b l rs ttl "fst (ll_add_all l rs ttl)"] by simp
next
  case (reach_insert b l r ttl)
  then show ?case
    using ll_insert_sorted_correct [of b l r ttl "fst (ll_insert_sorted l r ttl)"]
      ll_insert_sorted_invalid [of b r l ttl] by (cases "range_ok b r") simp_all
next
  case (reach_remove b l s)
  then show ?case using ll_remove_correct [of b l s "fst (ll_remove l s)"] by simp
next
  case (reach_remove_range b l r)
  then show ?case
    using ll_remove_range_correct [of b l r "fst (ll_remove_range l r)" "snd (ll_remove_range l r)"]
    by (auto simp: range_removed_def split: if_splits)
next
  case (reach_slide b l c)
  then show ?case using slide_inv(1,2) [of b l c] by simp
next
  case (reach_rearm b l r)
  then show ?case using ll_rearm_report_correct(1) [of b l r] by (simp add: same_ranges_def)
next
  case (reach_age b l)
  then show ?case using ll_age_fresh_correct(2) [of b l] by (simp add: same_ranges_def)
next
  case (reach_mark b l now retry)
  then show ?case using ll_mark_periodic_reports_correct(2) [of b l now retry] by (simp add: same_ranges_def)
next
  case (reach_take b l room now)
  then show ?case
    using ll_take_pending_reports_correct(1) [of b l room now, OF _ prod.collapse [symmetric]]
    by (simp add: same_ranges_def)
qed

section \<open>The ledger interface\<close>

text \<open>
  What the session relies on when packets arrive: a set of missing positions that is queried
  exactly, and removals that take out one position or, when no slot is left for a split, report
  the failure and change nothing.
\<close>

locale loss_ledger =
  fixes inv :: "'l \<Rightarrow> bool"
    and holes :: "'l \<Rightarrow> int set"
    and pos :: "'s \<Rightarrow> int"
    and contains :: "'l \<Rightarrow> 's \<Rightarrow> bool"
    and remove :: "'l \<Rightarrow> 's \<Rightarrow> 'r \<times> 'l"
    and failed :: "'r \<Rightarrow> bool"
  assumes contains_law: "inv l \<Longrightarrow> 0 \<le> pos s \<Longrightarrow> contains l s \<longleftrightarrow> pos s \<in> holes l"
    and remove_inv: "inv l \<Longrightarrow> 0 \<le> pos s \<Longrightarrow> inv (snd (remove l s))"
    and remove_law: "inv l \<Longrightarrow> 0 \<le> pos s \<Longrightarrow>
      holes (snd (remove l s)) = (if failed (fst (remove l s)) then holes l else holes l - {pos s})"
begin

lemma contains_after_remove:
  assumes "inv l" "0 \<le> pos s" "0 \<le> pos t" "\<not> failed (fst (remove l s))"
  shows "contains (snd (remove l s)) t \<longleftrightarrow> contains l t \<and> pos t \<noteq> pos s"
  using assms remove_inv remove_law by (simp add: contains_law)

lemma arrivals_inv:
  "inv l \<Longrightarrow> \<forall>s \<in> set ss. 0 \<le> pos s \<Longrightarrow> inv (foldl (\<lambda>l s. snd (remove l s)) l ss)"
  by (induction ss arbitrary: l) (auto simp: remove_inv)

lemma arrivals_holes:
  "inv l \<Longrightarrow> \<forall>s \<in> set ss. 0 \<le> pos s \<Longrightarrow>
    holes (foldl (\<lambda>l s. snd (remove l s)) l ss) \<subseteq> holes l
    \<and> holes l - pos ` set ss \<subseteq> holes (foldl (\<lambda>l s. snd (remove l s)) l ss)"
proof (induction ss arbitrary: l)
  case (Cons s ss)
  have step: "inv (snd (remove l s))"
    "holes (snd (remove l s)) \<subseteq> holes l" "holes l - {pos s} \<subseteq> holes (snd (remove l s))"
    using Cons.prems remove_inv remove_law [of l s] by auto
  have "holes (foldl (\<lambda>l s. snd (remove l s)) (snd (remove l s)) ss) \<subseteq> holes (snd (remove l s))
    \<and> holes (snd (remove l s)) - pos ` set ss \<subseteq> holes (foldl (\<lambda>l s. snd (remove l s)) (snd (remove l s)) ss)"
    using Cons.prems step(1) by (intro Cons.IH) auto
  then show ?case using step(2,3) by (simp only: foldl_Cons list.set image_insert) blast
qed simp

lemma arrivals_contains:
  assumes "inv l" "\<forall>s \<in> set ss. 0 \<le> pos s" "0 \<le> pos t"
  defines "l' \<equiv> foldl (\<lambda>l s. snd (remove l s)) l ss"
  shows "contains l' t \<Longrightarrow> contains l t"
    and "contains l t \<Longrightarrow> pos t \<notin> pos ` set ss \<Longrightarrow> contains l' t"
  using arrivals_holes [OF assms(1,2)] arrivals_inv [OF assms(1,2)] contains_law assms(1,3)
  by (auto simp: l'_def)

end

interpretation ledger: loss_ledger "loss_inv b" "missing b" "off b" ll_contains ll_remove lr_capacity_exhausted
  for b
proof
  fix l s
  assume inv: "loss_inv b l" "0 \<le> off b s"
  note rem = ll_remove_correct [OF inv, of "fst (ll_remove l s)" "snd (ll_remove l s)"]
  show "ll_contains l s \<longleftrightarrow> off b s \<in> missing b l" by (rule ll_contains_iff [OF inv])
  show "loss_inv b (snd (ll_remove l s))" using rem by simp
  show "missing b (snd (ll_remove l s))
      = (if lr_capacity_exhausted (fst (ll_remove l s)) then missing b l else missing b l - {off b s})"
    using rem by (auto simp: removal_spec_def default_ReceiveLossRemoval_def split: if_splits)
qed

section \<open>A sample list\<close>

text \<open>Two missing ranges above a window base, the first across the wrap of the sequence space.\<close>

definition sample_window :: SequenceNumber where
  "sample_window = SequenceNumber 0x7ffffffe"

definition sample_ranges :: "SequenceRange list" where
  "sample_ranges =
     [\<lparr>sr_first = SequenceNumber 0x7fffffff, sr_last = SequenceNumber 1\<rparr>,
      \<lparr>sr_first = SequenceNumber 5, sr_last = SequenceNumber 5\<rparr>]"

definition sample_losses :: ReceiveLossList where
  "sample_losses =
     \<lparr>ll_entries = [new_LossEntry (sample_ranges ! 0) 0, new_LossEntry (sample_ranges ! 1) 0,
        default_LossEntry, default_LossEntry, default_LossEntry, default_LossEntry],
      ll_admission_capacity = 3, ll_size = 2, ll_fresh_count = 0, ll_pending_count = 2\<rparr>"

lemma sample_reachable: "loss_reachable 3 sample_window sample_losses"
proof -
  let ?l = "\<lparr>ll_entries = replicate 6 default_LossEntry, ll_admission_capacity = 3, ll_size = 0,
    ll_fresh_count = 0, ll_pending_count = 0\<rparr>"
  have "make_ReceiveLossList 3 = Some ?l" by (simp add: make_ReceiveLossList_def)
  then have init: "loss_reachable 3 sample_window ?l" by (rule reach_init)
  have "list_all (\<lambda>r. 0 \<le> seq_distance (sr_first r) sample_window \<and> 0 \<le> seq_distance (sr_last r) sample_window)
      sample_ranges" by code_simp
  then have "\<forall>r \<in> set sample_ranges. in_window sample_window r"
    by (simp add: list_all_iff in_window_def)
  from reach_add_all [OF init this, of 0] show ?thesis
  proof -
    assume "loss_reachable 3 sample_window (snd (ll_add_all ?l sample_ranges 0))"
    moreover have "snd (ll_add_all ?l sample_ranges 0) = sample_losses" by code_simp
    ultimately show ?thesis by simp
  qed
qed

section \<open>Properties\<close>

text \<open>
  C1. In every reachable list the entries are ordered, nonempty and disjoint, the binary search
  of \<open>contains\<close> answers membership in their union exactly, the two incremental counters are the
  true counts, and \<open>has_pending_report\<close> holds exactly when some entry awaits a report.
\<close>

theorem loss_list_reachable:
  assumes "loss_reachable capacity b l"
  shows "sorted_gaps b (live l) \<and> length (live l) = ll_size l \<and> ll_size l \<le> 2 * capacity
    \<and> (0 \<le> off b s \<longrightarrow> (ll_contains l s \<longleftrightarrow> off b s \<in> missing b l))
    \<and> ll_fresh_count l = length (filter le_fresh (live l))
    \<and> ll_pending_count l = length (filter le_pending (live l))
    \<and> (ll_has_pending_report l \<longleftrightarrow> (\<exists>e \<in> set (live l). le_pending e))"
proof -
  have inv: "loss_inv b l" "ll_admission_capacity l = capacity"
    using loss_reachable_inv [OF assms] by auto
  then have "ll_size l \<le> length (ll_entries l)" by (simp add: loss_inv_def)
  note len = length_live [OF this]
  show ?thesis
    using inv len ll_contains_iff [OF inv(1), of s]
    by (auto simp: loss_inv_def counters_ok_def ll_has_pending_report_def filter_empty_conv)
qed

theorem loss_list_reachable_witness:
  "loss_reachable 3 sample_window sample_losses \<and> ll_has_pending_report sample_losses
   \<and> off sample_window (SequenceNumber 0) \<in> missing sample_window sample_losses"
proof -
  have "ll_contains sample_losses (SequenceNumber 0)" "0 \<le> off sample_window (SequenceNumber 0)"
    "list_ex le_pending (live sample_losses)" by code_simp+
  with loss_list_reachable [OF sample_reachable, of "SequenceNumber 0"] sample_reachable show ?thesis
    by (auto simp: list_ex_iff)
qed

text \<open>
  C7. Arrivals settle losses and nothing else: after any packets of the window have been removed
  one by one from a reachable list, every number still reported missing was missing before, and
  every missing number that did not arrive is still reported.
\<close>

theorem loss_list_arrivals:
  assumes "loss_reachable capacity b l" "\<forall>s \<in> set ss. 0 \<le> off b s" "0 \<le> off b t"
  defines "l' \<equiv> foldl (\<lambda>l s. snd (ll_remove l s)) l ss"
  shows "(ll_contains l' t \<longrightarrow> ll_contains l t)
    \<and> (ll_contains l t \<and> t \<notin> set ss \<longrightarrow> ll_contains l' t)"
proof -
  have inv: "loss_inv b l" using loss_reachable_inv [OF assms(1)] by simp
  have "off b t \<notin> off b ` set ss" if "t \<notin> set ss" using that by (auto simp: off_eq_iff)
  then show ?thesis
    using ledger.arrivals_contains [OF inv assms(2,3)] by (auto simp: l'_def)
qed

theorem loss_list_arrivals_witness:
  "ll_contains (foldl (\<lambda>l s. snd (ll_remove l s)) sample_losses [SequenceNumber 0, SequenceNumber 3]) (SequenceNumber 5)"
proof -
  have "\<forall>s \<in> set [SequenceNumber 0, SequenceNumber 3]. 0 \<le> off sample_window s"
    "0 \<le> off sample_window (SequenceNumber 5)" "ll_contains sample_losses (SequenceNumber 5)"
    "SequenceNumber 5 \<notin> set [SequenceNumber 0, SequenceNumber 3]"
    by code_simp+
  then show ?thesis using loss_list_arrivals [OF sample_reachable] by blast
qed

text \<open>
  C8. One removal: a number that is not missing leaves the list as it is; a missing number is
  taken out of the set, whether it ends, shortens or splits an entry; only a split without a free
  slot fails, and then the list is unchanged and says so.
\<close>

theorem loss_list_remove:
  assumes "loss_reachable capacity b l" "0 \<le> off b s" "ll_remove l s = (res, l')"
  shows "(if off b s \<notin> missing b l then res = default_ReceiveLossRemoval \<and> l' = l
     else if lr_capacity_exhausted res then \<not> lr_removed res \<and> l' = l \<and> ll_size l = 2 * capacity
     else lr_removed res \<and> missing b l' = missing b l - {off b s})"
  using ll_remove_correct [OF _ assms(2,3)] loss_reachable_inv [OF assms(1)] by (simp add: removal_spec_def)

theorem loss_list_remove_witness:
  "lr_removed (fst (ll_remove sample_losses (SequenceNumber 0)))
   \<and> missing sample_window (snd (ll_remove sample_losses (SequenceNumber 0)))
     = missing sample_window sample_losses - {off sample_window (SequenceNumber 0)}"
proof -
  have c: "0 \<le> off sample_window (SequenceNumber 0)"
    "lr_removed (fst (ll_remove sample_losses (SequenceNumber 0)))"
    "fst (ll_remove sample_losses (SequenceNumber 0)) \<noteq> default_ReceiveLossRemoval" by code_simp+
  from loss_list_remove [OF sample_reachable c(1) prod.collapse [symmetric]] c(2,3) show ?thesis
    by (auto split: if_splits)
qed

text \<open>
  C9. Removing a range takes exactly its numbers out of the set; it fails only for a reversed
  range or when a split finds no free slot, and then nothing was changed.
\<close>

theorem loss_list_remove_range:
  assumes "loss_reachable capacity b l" "in_window b r" "ll_remove_range l r = (ok, l')"
  shows "if ok then missing b l' = missing b l - span b r
     else l' = l \<and> (off b (sr_last r) < off b (sr_first r) \<or> ll_size l = 2 * capacity)"
  using ll_remove_range_correct [OF _ assms(2,3)] loss_reachable_inv [OF assms(1)]
  by (auto simp: range_removed_def split: if_splits)

theorem loss_list_remove_range_witness:
  "fst (ll_remove_range sample_losses \<lparr>sr_first = SequenceNumber 0, sr_last = SequenceNumber 0\<rparr>)
   \<and> missing sample_window (snd (ll_remove_range sample_losses \<lparr>sr_first = SequenceNumber 0, sr_last = SequenceNumber 0\<rparr>))
     = missing sample_window sample_losses - span sample_window \<lparr>sr_first = SequenceNumber 0, sr_last = SequenceNumber 0\<rparr>"
proof -
  let ?r = "\<lparr>sr_first = SequenceNumber 0, sr_last = SequenceNumber 0\<rparr>"
  have c: "in_window sample_window ?r" "fst (ll_remove_range sample_losses ?r)" by code_simp+
  from loss_list_remove_range [OF sample_reachable c(1) prod.collapse [symmetric]] c(2) show ?thesis by simp
qed

text \<open>
  C23. The feasibility check of a batch is exact where it matters: when it accepts a batch,
  inserting the ranges one after the other succeeds for all of them and adds exactly their
  numbers to the set.
\<close>

theorem loss_list_batch:
  assumes "loss_reachable capacity b l" "\<forall>r \<in> set rs. in_window b r" "ll_can_insert_all_sorted l rs"
  shows "\<exists>l'. insert_all l rs ttl = (True, l') \<and> missing b l' = missing b l \<union> (\<Union>r \<in> set rs. span b r)"
proof (cases "rs = []")
  case False
  have inv: "loss_inv b l" using loss_reachable_inv [OF assms(1)] by simp
  have can: "can_insert_loop l [] rs" "ll_size l + length rs \<le> ll_admission_capacity l"
    using assms(3) False by (auto simp: ll_can_insert_all_sorted_def split: if_splits)
  then show ?thesis
    using insert_all_correct [OF inv, of rs ttl] can_insert_loop_iff [OF inv assms(2), of "[]"] by auto
qed simp

theorem loss_list_batch_witness:
  "\<exists>l'. insert_all sample_losses [\<lparr>sr_first = SequenceNumber 2, sr_last = SequenceNumber 4\<rparr>] 7 = (True, l')
     \<and> missing sample_window l' = missing sample_window sample_losses
       \<union> span sample_window \<lparr>sr_first = SequenceNumber 2, sr_last = SequenceNumber 4\<rparr>"
proof -
  let ?r = "\<lparr>sr_first = SequenceNumber 2, sr_last = SequenceNumber 4\<rparr>"
  have c: "\<forall>r \<in> set [?r]. in_window sample_window r" "ll_can_insert_all_sorted sample_losses [?r]"
    by code_simp+
  from loss_list_batch [OF sample_reachable c, of 7] show ?thesis
    by (simp only: list.set UN_insert UN_empty Un_empty_right)
qed

text \<open>
  C25. Taking reports hands out the first pending ranges in sequence order, at most as many as
  asked for; exactly these stop being pending, the others wait, and the missing set is untouched.
\<close>

theorem loss_list_reports:
  assumes "loss_reachable capacity b l" "ll_take_pending_reports l room now = (reports, l')"
  shows "reports = map le_range (take room (filter le_pending (live l)))
    \<and> filter le_pending (live l') = drop room (filter le_pending (live l))
    \<and> missing b l' = missing b l \<and> increasing b reports"
proof -
  have inv: "loss_inv b l" using loss_reachable_inv [OF assms(1)] by simp
  note t = ll_take_pending_reports_correct [OF inv assms(2)]
  have "sorted_gaps b (live l)" using inv by (simp add: loss_inv_def)
  then have "increasing b (map le_range (filter le_pending (live l)))"
    by (auto simp: sorted_gaps_def increasing_def list_all_iff sorted_wrt_map sorted_wrt_filter)
  then have "increasing b (take room (map le_range (filter le_pending (live l))))"
    unfolding increasing_def list_all_iff by (auto intro: sorted_wrt_take dest!: in_set_takeD)
  then show ?thesis using t by (simp add: same_ranges_def take_map)
qed

theorem loss_list_reports_witness:
  "fst (ll_take_pending_reports sample_losses 1 77) = [sample_ranges ! 0]
   \<and> missing sample_window (snd (ll_take_pending_reports sample_losses 1 77)) = missing sample_window sample_losses"
proof -
  have "fst (ll_take_pending_reports sample_losses 1 77) = [sample_ranges ! 0]" by code_simp
  with loss_list_reports [OF sample_reachable prod.collapse [symmetric], of 1 77] show ?thesis by simp
qed

end
