(* ===== verification/Rtt.thy ===== *)
theory Rtt
  imports SRT_Prelude
begin

text \<open>
  \<^verbatim>\<open>rtt.hpp\<close> and \<^verbatim>\<open>rtt.cpp\<close>: acknowledgement numbers, the table of sent acknowledgements that
  turns an answer into a round-trip sample, and the smoothed estimate. Times and counters keep
  their machine widths; the products of the smoothing are 64-bit as in the code.
\<close>

section \<open>Acknowledgement numbers\<close>

record AcknowledgementNumberGenerator =
  ag_next :: u32

definition make_AcknowledgementNumberGenerator :: "u32 \<Rightarrow> AcknowledgementNumberGenerator" where
  "make_AcknowledgementNumberGenerator first = \<lparr>ag_next = (if first = 0 then 1 else first)\<rparr>"

definition ag_take :: "AcknowledgementNumberGenerator \<Rightarrow> u32 \<times> AcknowledgementNumberGenerator" where
  "ag_take g =
     (let current = ag_next g
      in (current, \<lparr>ag_next = (if current = 0xffffffff then 1 else current + 1)\<rparr>))"

section \<open>Sent acknowledgements\<close>

record AckEntry =
  ae_acknowledgement_number :: u32
  ae_sent_at_microseconds :: u64
  ae_active :: bool

definition default_AckEntry :: AckEntry where
  "default_AckEntry = \<lparr>ae_acknowledgement_number = 0, ae_sent_at_microseconds = 0, ae_active = False\<rparr>"

record AcknowledgementTracker =
  at_entries :: "AckEntry list"

definition make_AcknowledgementTracker :: "nat \<Rightarrow> AcknowledgementTracker option" where
  "make_AcknowledgementTracker capacity =
     (if capacity = 0 then None else Some \<lparr>at_entries = replicate capacity default_AckEntry\<rparr>)"

definition at_record :: "AcknowledgementTracker \<Rightarrow> u32 \<Rightarrow> u64 \<Rightarrow> AcknowledgementTracker" where
  "at_record tracker number sent_at =
     (if number = 0 then tracker
      else tracker \<lparr>at_entries := (at_entries tracker)
             [unat number mod length (at_entries tracker) :=
                \<lparr>ae_acknowledgement_number = number, ae_sent_at_microseconds = sent_at, ae_active = True\<rparr>]\<rparr>)"

definition at_acknowledge ::
    "AcknowledgementTracker \<Rightarrow> u32 \<Rightarrow> u64 \<Rightarrow> u32 option \<times> AcknowledgementTracker" where
  "at_acknowledge tracker number received_at =
     (if number = 0 then (None, tracker)
      else
        let index = unat number mod length (at_entries tracker);
            entry = at_entries tracker ! index
        in if \<not> ae_active entry \<or> ae_acknowledgement_number entry \<noteq> number
              \<or> received_at \<le> ae_sent_at_microseconds entry
           then (None, tracker)
           else
             let elapsed = received_at - ae_sent_at_microseconds entry
             in (Some (ucast (min elapsed 0xffffffff)),
                 tracker \<lparr>at_entries := (at_entries tracker)[index := entry \<lparr>ae_active := False\<rparr>]\<rparr>))"

section \<open>The estimate\<close>








section \<open>Smoothing without wrap-around\<close>





section \<open>Bounds of the estimate\<close>













section \<open>The table of sent acknowledgements\<close>

definition tracker_ok :: "AcknowledgementTracker \<Rightarrow> bool" where
  "tracker_ok t \<longleftrightarrow> at_entries t \<noteq> []"

text \<open>The send time the table would use for an answer to this number.\<close>

definition sent_time :: "AcknowledgementTracker \<Rightarrow> u32 \<Rightarrow> u64 option" where
  "sent_time t number =
     (let entry = at_entries t ! (unat number mod length (at_entries t))
      in if number \<noteq> 0 \<and> ae_active entry \<and> ae_acknowledgement_number entry = number
         then Some (ae_sent_at_microseconds entry) else None)"

definition collide :: "AcknowledgementTracker \<Rightarrow> u32 \<Rightarrow> u32 \<Rightarrow> bool" where
  "collide t m n \<longleftrightarrow> unat m mod length (at_entries t) = unat n mod length (at_entries t)"

text \<open>
  The lookup interface of the session's round-trip measurement: a record replaces whatever
  collides with it, an answer is measured against the record once, and records that do not
  collide do not disturb each other.
\<close>

locale sent_table =
  fixes ok :: "'t \<Rightarrow> bool"
    and lookup :: "'t \<Rightarrow> 'n \<Rightarrow> u64 option"
    and clash :: "'t \<Rightarrow> 'n \<Rightarrow> 'n \<Rightarrow> bool"
    and record_sent :: "'t \<Rightarrow> 'n \<Rightarrow> u64 \<Rightarrow> 't"
    and answer :: "'t \<Rightarrow> 'n \<Rightarrow> u64 \<Rightarrow> 'r option \<times> 't"
    and valid :: "'n \<Rightarrow> bool"
  assumes record_ok: "ok t \<Longrightarrow> ok (record_sent t n x)"
    and record_clash: "ok t \<Longrightarrow> clash (record_sent t n x) m k \<longleftrightarrow> clash t m k"
    and lookup_record: "ok t \<Longrightarrow> valid n \<Longrightarrow>
      lookup (record_sent t n x) m = (if m = n then Some x else if clash t m n then None else lookup t m)"
    and answer_some: "ok t \<Longrightarrow> (fst (answer t n y) \<noteq> None) \<longleftrightarrow> (\<exists>x. lookup t n = Some x \<and> x < y)"
    and answer_lookup: "ok t \<Longrightarrow>
      lookup (snd (answer t n y)) m = (if m = n \<and> fst (answer t n y) \<noteq> None then None else lookup t m)"
    and answer_ok: "ok t \<Longrightarrow> ok (snd (answer t n y))"
begin

lemma lookup_after_records:
  assumes "ok t" "lookup t n = Some x" "\<forall>(m, _) \<in> set ms. valid m \<and> m \<noteq> n \<and> \<not> clash t n m"
  shows "ok (foldl (\<lambda>t (m, y). record_sent t m y) t ms)
    \<and> lookup (foldl (\<lambda>t (m, y). record_sent t m y) t ms) n = Some x"
  using assms
proof (induction ms arbitrary: t)
  case (Cons p ms)
  obtain m y where p: "p = (m, y)" by force
  have "ok (record_sent t m y)" "lookup (record_sent t m y) n = Some x"
    using Cons.prems p by (auto simp: record_ok lookup_record)
  with Cons.IH [of "record_sent t m y"] Cons.prems p show ?case by (auto simp: record_clash)
qed simp

lemma answered_once:
  assumes "ok t" "fst (answer t n y) \<noteq> None"
  shows "fst (answer (snd (answer t n y)) n z) = None"
  using assms answer_some [OF answer_ok [OF assms(1)], of n y n z] by (auto simp: answer_lookup)

end

lemma at_index: "at_entries t \<noteq> [] \<Longrightarrow> n mod length (at_entries t) < length (at_entries t)"
  by simp

lemma at_acknowledge_eq:
  "at_acknowledge t n y =
     (case sent_time t n of
        None \<Rightarrow> (None, t)
      | Some x \<Rightarrow>
          if x < y then
            (Some (ucast (min (y - x) 0xffffffff)),
             t \<lparr>at_entries := (at_entries t)[unat n mod length (at_entries t) :=
                  (at_entries t ! (unat n mod length (at_entries t))) \<lparr>ae_active := False\<rparr>]\<rparr>)
          else (None, t))"
  by (simp add: at_acknowledge_def sent_time_def Let_def not_le [symmetric])

lemma sent_time_deactivate:
  assumes "at_entries t \<noteq> []" "sent_time t n = Some x"
  shows "sent_time (t \<lparr>at_entries := (at_entries t)[unat n mod length (at_entries t) :=
      (at_entries t ! (unat n mod length (at_entries t))) \<lparr>ae_active := False\<rparr>]\<rparr>) m
    = (if m = n then None else sent_time t m)"
  using assms at_index [OF assms(1)]
  by (cases "unat m mod length (at_entries t) = unat n mod length (at_entries t)")
    (simp_all add: sent_time_def Let_def split: if_splits, auto)

interpretation sent: sent_table tracker_ok sent_time collide at_record at_acknowledge "\<lambda>n. n \<noteq> 0"
proof
  fix t :: AcknowledgementTracker and n m k :: u32 and x y :: u64
  assume ok: "tracker_ok t"
  then have ne: "at_entries t \<noteq> []" by (simp add: tracker_ok_def)
  show "tracker_ok (at_record t n x)" using ne by (simp add: tracker_ok_def at_record_def)
  show "collide (at_record t n x) m k \<longleftrightarrow> collide t m k" by (simp add: collide_def at_record_def)
  show "sent_time (at_record t n x) m = (if m = n then Some x else if collide t m n then None else sent_time t m)"
    if "n \<noteq> 0"
    using that ne at_index [OF ne] by (auto simp: sent_time_def at_record_def collide_def Let_def nth_list_update)
  show "(fst (at_acknowledge t n y) \<noteq> None) \<longleftrightarrow> (\<exists>x. sent_time t n = Some x \<and> x < y)"
    by (simp add: at_acknowledge_eq split: option.split)
  show "sent_time (snd (at_acknowledge t n y)) m =
      (if m = n \<and> fst (at_acknowledge t n y) \<noteq> None then None else sent_time t m)"
    by (cases "sent_time t n") (simp_all add: at_acknowledge_eq sent_time_deactivate [OF ne])
  show "tracker_ok (snd (at_acknowledge t n y))"
    using ne by (simp add: tracker_ok_def at_acknowledge_eq split: option.split)
qed

text \<open>
  C27. A round trip is measured exactly once and exactly: after an acknowledgement is recorded and
  fewer later numbers than the table has slots are recorded behind it, its answer yields the
  elapsed time, saturated to 32 bits, and answering the same number again yields nothing.
\<close>

theorem rtt_sample_exact:
  assumes "tracker_ok t" "n \<noteq> 0" "sent_at < received_at"
    and "\<forall>(m, _) \<in> set later. unat n < unat m \<and> unat m < unat n + length (at_entries t)"
  defines "t' \<equiv> foldl (\<lambda>t (m, y). at_record t m y) (at_record t n sent_at) later"
  shows "fst (at_acknowledge t' n received_at) = Some (ucast (min (received_at - sent_at) 0xffffffff))
    \<and> fst (at_acknowledge (snd (at_acknowledge t' n received_at)) n again) = None"
proof -
  let ?t = "at_record t n sent_at"
  have ok: "tracker_ok ?t" "sent_time ?t n = Some sent_at"
    using assms(1,2) sent.record_ok sent.lookup_record by auto
  have len: "length (at_entries ?t) = length (at_entries t)" by (simp add: at_record_def)
  have "m \<noteq> 0 \<and> m \<noteq> n \<and> \<not> collide ?t n m" if "(m, y) \<in> set later" for m y
    using assms(4) that mod_window_distinct [of "unat n" "unat m" "length (at_entries t)"]
    by (fastforce simp: collide_def len)
  then have "\<forall>(m, _) \<in> set later. m \<noteq> 0 \<and> m \<noteq> n \<and> \<not> collide ?t n m" by blast
  note fin = sent.lookup_after_records [OF ok this, folded t'_def]
  have some: "fst (at_acknowledge t' n received_at) \<noteq> None"
    using fin assms(3) sent.answer_some [of t' n received_at] by blast
  then have "fst (at_acknowledge t' n received_at) = Some (ucast (min (received_at - sent_at) 0xffffffff))"
    using fin assms(3) by (simp add: at_acknowledge_eq)
  with sent.answered_once [OF conjunct1 [OF fin] some] show ?thesis by blast
qed

theorem rtt_sample_exact_witness:
  "let t = foldl (\<lambda>t (m, y). at_record t m y) (at_record \<lparr>at_entries = replicate 4 default_AckEntry\<rparr> 9 1000) [(10, 1500), (12, 1600)]
   in fst (at_acknowledge t 9 31000) = Some 30000
      \<and> fst (at_acknowledge (snd (at_acknowledge t 9 31000)) 9 32000) = None"
  unfolding Let_def
  using rtt_sample_exact [of "\<lparr>at_entries = replicate 4 default_AckEntry\<rparr>" 9 1000 31000 "[(10, 1500), (12, 1600)]" 32000]
  by (simp add: tracker_ok_def min_def)

end
