(* ===== verification/Live_Rate.thy ===== *)
theory Live_Rate
  imports SRT_Prelude "HOL-Library.Signed_Division" "HOL-Library.Multiset"
begin

text \<open>
  \<^verbatim>\<open>live.hpp\<close> and \<^verbatim>\<open>live.cpp\<close>: the arrival-rate estimator behind the rate fields of a full
  acknowledgement, the live rate controller that turns bandwidth options into a pacing rate,
  and the sampler of the clock drift. Byte counts and rates are 64-bit words as in the code;
  ring indices are \<open>nat\<close>; the drifts are \<open>std::int64_t\<close> values, modelled as \<open>int\<close> with the
  truncating division of C++ (\<open>sdiv\<close>).
\<close>

section \<open>Arrival rates\<close>

definition saturating_u32 :: "u64 \<Rightarrow> u32" where
  "saturating_u32 value = ucast (min value 0xffffffff)"

record ArrivalRates =
  ar_packets_per_second :: u32
  ar_bytes_per_second :: u32
  ar_link_capacity_packets_per_second :: u32
  ar_valid :: bool

definition default_ArrivalRates :: ArrivalRates where
  "default_ArrivalRates =
     \<lparr>ar_packets_per_second = 0, ar_bytes_per_second = 0,
      ar_link_capacity_packets_per_second = 0, ar_valid = False\<rparr>"

abbreviation (input) sample_count :: nat where
  "sample_count \<equiv> 16"

record ArrivalRateEstimator =
  av_intervals :: "u32 list"
  av_payload_sizes :: "u32 list"
  av_probe_intervals :: "u32 list"
  av_sample_index :: nat
  av_samples :: nat
  av_probe_index :: nat
  av_probes :: nat
  av_previous_arrival_microseconds :: u64
  av_has_previous_arrival :: bool
  av_packet_header_size :: u64

definition make_ArrivalRateEstimator :: "u64 \<Rightarrow> ArrivalRateEstimator" where
  "make_ArrivalRateEstimator header_bytes =
     \<lparr>av_intervals = replicate sample_count 0, av_payload_sizes = replicate sample_count 0,
      av_probe_intervals = replicate sample_count 0, av_sample_index = 0, av_samples = 0,
      av_probe_index = 0, av_probes = 0, av_previous_arrival_microseconds = 0,
      av_has_previous_arrival = False, av_packet_header_size = header_bytes\<rparr>"

definition av_observe :: "ArrivalRateEstimator \<Rightarrow> u64 \<Rightarrow> u64 \<Rightarrow> ArrivalRateEstimator" where
  "av_observe e payload_bytes arrival =
     (let e1 =
        (if av_has_previous_arrival e \<and> arrival > av_previous_arrival_microseconds e then
           let interval = arrival - av_previous_arrival_microseconds e
           in e \<lparr>av_intervals := (av_intervals e)[av_sample_index e := saturating_u32 interval],
                 av_payload_sizes := (av_payload_sizes e)[av_sample_index e := saturating_u32 payload_bytes],
                 av_sample_index := (av_sample_index e + 1) mod sample_count,
                 av_samples := min (av_samples e + 1) sample_count\<rparr>
         else e)
      in e1 \<lparr>av_previous_arrival_microseconds := arrival, av_has_previous_arrival := True\<rparr>)"

definition av_observe_probe_pair :: "ArrivalRateEstimator \<Rightarrow> u64 \<Rightarrow> u64 \<Rightarrow> ArrivalRateEstimator" where
  "av_observe_probe_pair e first_arrival second_arrival =
     (if second_arrival \<le> first_arrival then e
      else e \<lparr>av_probe_intervals :=
                (av_probe_intervals e)[av_probe_index e := saturating_u32 (second_arrival - first_arrival)],
              av_probe_index := (av_probe_index e + 1) mod sample_count,
              av_probes := min (av_probes e + 1) sample_count\<rparr>)"

text \<open>The summation loops of \<open>rates\<close>, in 64-bit arithmetic.\<close>

fun sum_u64 :: "u64 list \<Rightarrow> u64 \<Rightarrow> u64" where
  "sum_u64 [] acc = acc"
| "sum_u64 (x # xs) acc = sum_u64 xs (acc + x)"

definition av_rates :: "ArrivalRateEstimator \<Rightarrow> ArrivalRates" where
  "av_rates e =
     (if av_samples e = 0 then default_ArrivalRates
      else
        let interval_sum = sum_u64 (map ucast (take (av_samples e) (av_intervals e))) 0;
            byte_sum = sum_u64 (map (\<lambda>size. ucast size + av_packet_header_size e)
                                  (take (av_samples e) (av_payload_sizes e))) 0;
            result = default_ArrivalRates \<lparr>ar_valid := (interval_sum \<noteq> 0)\<rparr>
        in if \<not> ar_valid result then result
           else
             let result = result
                   \<lparr>ar_packets_per_second := saturating_u32 (of_nat (av_samples e) * 1000000 div interval_sum),
                    ar_bytes_per_second := saturating_u32 (byte_sum * 1000000 div interval_sum)\<rparr>;
                 probe_sum = sum_u64 (map ucast (take (av_probes e) (av_probe_intervals e))) 0
             in if probe_sum \<noteq> 0 then
                  result \<lparr>ar_link_capacity_packets_per_second :=
                            saturating_u32 (of_nat (av_probes e) * 1000000 div probe_sum)\<rparr>
                else result)"

section \<open>Live rate control\<close>

record LiveRateConfiguration =
  lc_input_bandwidth_bytes_per_second :: u64
  lc_minimum_input_bandwidth_bytes_per_second :: u64
  lc_maximum_bandwidth_bytes_per_second :: int
  lc_overhead_percent :: u32
  lc_maximum_payload_size :: u64
  lc_packet_header_size :: u64

record LiveRateController =
  lr_configuration :: LiveRateConfiguration
  lr_average_payload_size :: u64
  lr_estimated_input_bandwidth :: u64
  lr_input_window_start_microseconds :: u64
  lr_input_window_bytes :: u64
  lr_input_window_started :: bool

definition default_LiveRateConfiguration :: LiveRateConfiguration where
  "default_LiveRateConfiguration =
     \<lparr>lc_input_bandwidth_bytes_per_second = 0, lc_minimum_input_bandwidth_bytes_per_second = 0,
      lc_maximum_bandwidth_bytes_per_second = 0, lc_overhead_percent = 25,
      lc_maximum_payload_size = 1316, lc_packet_header_size = 44\<rparr>"

definition make_LiveRateController :: "LiveRateConfiguration \<Rightarrow> LiveRateController" where
  "make_LiveRateController configuration =
     \<lparr>lr_configuration = configuration,
      lr_average_payload_size = max (lc_maximum_payload_size configuration) 1,
      lr_estimated_input_bandwidth = 0, lr_input_window_start_microseconds = 0,
      lr_input_window_bytes = 0, lr_input_window_started = False\<rparr>"

definition lr_observe_input :: "LiveRateController \<Rightarrow> u64 \<Rightarrow> u64 \<Rightarrow> LiveRateController" where
  "lr_observe_input c payload_bytes enqueue =
     (let c1 = (if \<not> lr_input_window_started c then
                  c \<lparr>lr_input_window_start_microseconds := enqueue, lr_input_window_started := True\<rparr>
                else c);
          room = 0xffffffffffffffff - lr_input_window_bytes c1;
          c2 = c1 \<lparr>lr_input_window_bytes := lr_input_window_bytes c1 + min payload_bytes room\<rparr>
      in if enqueue \<le> lr_input_window_start_microseconds c2
            \<or> enqueue - lr_input_window_start_microseconds c2 < 100000
         then c2
         else
           let elapsed = enqueue - lr_input_window_start_microseconds c2;
               measured = (if lr_input_window_bytes c2 > 0xffffffffffffffff div 1000000
                           then 0xffffffffffffffff
                           else lr_input_window_bytes c2 * 1000000 div elapsed);
               estimate = lr_estimated_input_bandwidth c2
           in c2 \<lparr>lr_estimated_input_bandwidth :=
                    (if estimate = 0 then measured else estimate - estimate div 8 + measured div 8),
                  lr_input_window_start_microseconds := enqueue,
                  lr_input_window_bytes := 0\<rparr>)"

definition lr_observe_payload :: "LiveRateController \<Rightarrow> u64 \<Rightarrow> LiveRateController" where
  "lr_observe_payload c payload_bytes =
     c \<lparr>lr_average_payload_size := max ((lr_average_payload_size c * 127 + payload_bytes) div 128) 1\<rparr>"

definition lr_set_input_bandwidth :: "LiveRateController \<Rightarrow> u64 \<Rightarrow> LiveRateController" where
  "lr_set_input_bandwidth c rate =
     c \<lparr>lr_configuration := (lr_configuration c) \<lparr>lc_input_bandwidth_bytes_per_second := rate\<rparr>\<rparr>"

definition lr_set_minimum_input_bandwidth :: "LiveRateController \<Rightarrow> u64 \<Rightarrow> LiveRateController" where
  "lr_set_minimum_input_bandwidth c rate =
     c \<lparr>lr_configuration := (lr_configuration c) \<lparr>lc_minimum_input_bandwidth_bytes_per_second := rate\<rparr>\<rparr>"

definition lr_set_maximum_bandwidth :: "LiveRateController \<Rightarrow> int \<Rightarrow> LiveRateController" where
  "lr_set_maximum_bandwidth c rate =
     c \<lparr>lr_configuration := (lr_configuration c) \<lparr>lc_maximum_bandwidth_bytes_per_second := rate\<rparr>\<rparr>"

definition lr_set_overhead_percent :: "LiveRateController \<Rightarrow> u32 \<Rightarrow> LiveRateController" where
  "lr_set_overhead_percent c percent =
     c \<lparr>lr_configuration := (lr_configuration c) \<lparr>lc_overhead_percent := min percent 100\<rparr>\<rparr>"

definition pacing_rate_bytes_per_second :: "LiveRateController \<Rightarrow> u64" where
  "pacing_rate_bytes_per_second c =
     (let conf = lr_configuration c
      in if lc_maximum_bandwidth_bytes_per_second conf < 0 then 125000000
         else if lc_maximum_bandwidth_bytes_per_second conf > 0 then
           word_of_int (lc_maximum_bandwidth_bytes_per_second conf)
         else
           let rate = lc_input_bandwidth_bytes_per_second conf;
               rate = (if rate = 0 then max (lr_estimated_input_bandwidth c)
                                          (lc_minimum_input_bandwidth_bytes_per_second conf)
                       else rate);
               rate = (if rate \<noteq> 0 then
                         let multiplier = ucast (100 + lc_overhead_percent conf) :: u64
                         in if rate > 0xffffffffffffffff div multiplier then 0xffffffffffffffff
                            else rate * multiplier div 100
                       else rate)
           in if rate = 0 then 125000000 else rate)"

definition packet_interval_microseconds :: "LiveRateController \<Rightarrow> u64" where
  "packet_interval_microseconds c =
     (let packet_size = lr_average_payload_size c + lc_packet_header_size (lr_configuration c);
          rate = pacing_rate_bytes_per_second c
      in max 1 ((packet_size * 1000000 + rate - 1) div rate))"

section \<open>Clock drift\<close>

record DriftUpdate =
  du_window_complete :: bool
  du_correction_microseconds :: int
  du_residual_drift_microseconds :: int

record DriftSampler =
  ds_samples_per_window :: nat
  ds_maximum_correction_microseconds :: int
  ds_samples :: nat
  ds_sum_microseconds :: int
  ds_estimated_drift_microseconds :: int
  ds_residual_drift_microseconds :: int

text \<open>
  The sampler's \<^verbatim>\<open>std::int64_t\<close> fields are integers in the range of that type: every sum and
  difference is reduced to 64 bits in two's complement. The theorems below say under which bounds
  on the observations no reduction ever takes place, that is, no signed overflow happens.
\<close>

definition i64 :: "int \<Rightarrow> int" where
  "i64 x = (x + 2 ^ 63) mod 2 ^ 64 - 2 ^ 63"

definition make_DriftSampler :: "nat \<Rightarrow> int \<Rightarrow> DriftSampler" where
  "make_DriftSampler samples_per_window maximum_correction =
     \<lparr>ds_samples_per_window = max samples_per_window 1,
      ds_maximum_correction_microseconds = max (i64 maximum_correction) 1,
      ds_samples = 0, ds_sum_microseconds = 0, ds_estimated_drift_microseconds = 0,
      ds_residual_drift_microseconds = 0\<rparr>"

definition clamp :: "int \<Rightarrow> int \<Rightarrow> int \<Rightarrow> int" where
  "clamp x lo hi = (if x < lo then lo else if hi < x then hi else x)"

definition ds_observe :: "DriftSampler \<Rightarrow> int \<Rightarrow> DriftUpdate \<times> DriftSampler" where
  "ds_observe s drift =
     (let s1 = s \<lparr>ds_sum_microseconds := i64 (ds_sum_microseconds s + drift), ds_samples := ds_samples s + 1\<rparr>
      in if ds_samples s1 < ds_samples_per_window s1 then
           (\<lparr>du_window_complete = False, du_correction_microseconds = 0,
             du_residual_drift_microseconds = ds_residual_drift_microseconds s1\<rparr>, s1)
         else
           let observed_drift = ds_sum_microseconds s1 sdiv int (ds_samples s1);
               estimation_error = i64 (observed_drift - ds_estimated_drift_microseconds s1);
               correction = clamp estimation_error (- ds_maximum_correction_microseconds s1)
                                                   (ds_maximum_correction_microseconds s1);
               estimated = i64 (ds_estimated_drift_microseconds s1 + correction);
               residual = i64 (observed_drift - estimated)
           in (\<lparr>du_window_complete = True, du_correction_microseconds = correction,
                du_residual_drift_microseconds = residual\<rparr>,
               s1 \<lparr>ds_samples := 0, ds_sum_microseconds := 0,
                   ds_estimated_drift_microseconds := estimated,
                   ds_residual_drift_microseconds := residual\<rparr>))"

section \<open>The sample rings\<close>

text \<open>The last \<open>n\<close> elements of a history.\<close>

definition lastn :: "nat \<Rightarrow> 'a list \<Rightarrow> 'a list" where
  "lastn n xs = drop (length xs - n) xs"

lemma lastn_snoc_short: "length h < n \<Longrightarrow> lastn n (h @ [x]) = lastn n h @ [x]"
  by (simp add: lastn_def)

lemma lastn_snoc_full:
  "0 < n \<Longrightarrow> n \<le> length h \<Longrightarrow> lastn n h = h ! (length h - n) # tl (lastn n h)
    \<and> lastn n (h @ [x]) = tl (lastn n h) @ [x]"
  by (simp add: lastn_def Cons_nth_drop_Suc [symmetric] Suc_diff_le)

lemma length_lastn [simp]: "length (lastn n h) = min n (length h)"
  by (simp add: lastn_def)

text \<open>
  A ring of \<open>n\<close> slots that has been written once per element of a history: every element of the
  last \<open>n\<close> is at its index modulo \<open>n\<close>, and the used slots hold exactly those elements.
\<close>

definition sampled :: "nat \<Rightarrow> 'a list \<Rightarrow> 'a list \<Rightarrow> bool" where
  "sampled n h slots \<longleftrightarrow>
     length slots = n \<and> 0 < n
     \<and> (\<forall>i < length h. length h \<le> i + n \<longrightarrow> slots ! (i mod n) = h ! i)
     \<and> mset (take (min n (length h)) slots) = mset (lastn n h)"

lemma sampled_empty: "0 < n \<Longrightarrow> sampled n [] (replicate n x)"
  by (simp add: sampled_def lastn_def)

lemma mset_update_take:
  assumes "i < length xs"
  shows "add_mset (xs ! i) (mset (xs[i := x])) = add_mset x (mset xs)"
  using assms by (simp add: mset_update insert_DiffM)

lemma sampled_positions:
  assumes "sampled n h slots" "i < Suc (length h)" "Suc (length h) \<le> i + n"
  shows "slots[length h mod n := x] ! (i mod n) = (h @ [x]) ! i"
proof (cases "i = length h")
  case True
  with assms show ?thesis by (simp add: sampled_def nth_append)
next
  case False
  with assms have "i < length h" "i mod n \<noteq> length h mod n"
    using mod_window_distinct [of i "length h" n] by auto
  with assms show ?thesis by (simp add: sampled_def nth_append)
qed

lemma sampled_write:
  assumes "sampled n h slots"
  shows "sampled n (h @ [x]) (slots[length h mod n := x])"
proof -
  from assms have n: "length slots = n" "0 < n" by (simp_all add: sampled_def)
  have "mset (take (min n (Suc (length h))) (slots[length h mod n := x])) = mset (lastn n (h @ [x]))"
  proof (cases "length h < n")
    case True
    then have "take (Suc (length h)) (slots[length h := x]) = take (length h) slots @ [x]"
      using n by (simp add: take_Suc_conv_app_nth)
    with True assms show ?thesis by (simp add: sampled_def lastn_snoc_short)
  next
    case False
    then have full: "n \<le> length h" by simp
    have pos: "slots ! (length h mod n) = h ! (length h - n)"
    proof -
      have "(length h - n) mod n = length h mod n" using full by (simp add: le_mod_geq)
      then show ?thesis using assms full n unfolding sampled_def
        by (metis diff_less le_add_diff_inverse2 length_0_conv less_le_trans linorder_not_less order_refl)
    qed
    have "add_mset (h ! (length h - n)) (mset (slots[length h mod n := x])) = add_mset x (mset slots)"
      using mset_update_take [of "length h mod n" slots x] n by (simp add: pos)
    moreover have "mset slots = mset (lastn n h)" using assms full by (auto simp: sampled_def)
    ultimately show ?thesis
      using lastn_snoc_full [OF n(2) full, of x] n full
      by (simp add: min_absorb1 le_Suc_eq) (metis add_mset_add_mset_same_iff add_mset_commute mset.simps(2))
  qed
  then show ?thesis using sampled_positions [OF assms] n by (simp add: sampled_def)
qed

section \<open>Sums without wrap-around\<close>

lemma sum_u64_eq: "sum_u64 xs acc = acc + sum_list xs"
  by (induction xs arbitrary: acc) (simp_all add: add.assoc)

lemma unat_sum_u64:
  assumes "\<forall>x \<in> set xs. unat x \<le> b" "length xs \<le> 16" "b \<le> 0x100000000000000"
  shows "unat (sum_u64 xs 0) = sum_list (map unat xs) \<and> sum_list (map unat xs) \<le> length xs * b"
  using assms(1,2)
proof (induction xs)
  case (Cons x xs)
  then have IH: "unat (sum_list xs) = sum_list (map unat xs)" "sum_list (map unat xs) \<le> length xs * b"
    and x: "unat x \<le> b" "length xs \<le> 15"
    by (simp_all add: sum_u64_eq)
  have "length xs * b \<le> 15 * 0x100000000000000" using x(2) assms(3) by (intro mult_le_mono) auto
  then have "unat (x + sum_list xs) = unat x + sum_list (map unat xs)"
    using IH x(1) assms(3) by (subst unat_add_no_wrap) simp_all
  then show ?case using IH x by (simp add: sum_u64_eq)
qed (simp add: sum_u64_eq)

lemma unat_saturating_u32 [simp]: "unat (saturating_u32 x) = min (unat x) 4294967295"
  unfolding saturating_u32_def by (subst unat_ucast_u32) (simp_all add: unat_min)

lemma sum_list_mset_eq:
  fixes f :: "'a \<Rightarrow> nat"
  shows "mset xs = mset ys \<Longrightarrow> sum_list (map f xs) = sum_list (map f ys)"
  by (metis mset_map sum_mset_sum_list)

section \<open>The estimator refines the window of the last sixteen samples\<close>

datatype ArrivalEvent =
    Arrival u64 u64
  | ProbePair u64 u64

fun av_step :: "ArrivalRateEstimator \<Rightarrow> ArrivalEvent \<Rightarrow> ArrivalRateEstimator" where
  "av_step e (Arrival bytes time) = av_observe e bytes time"
| "av_step e (ProbePair t1 t2) = av_observe_probe_pair e t1 t2"

text \<open>
  The specification keeps the whole history: the packets that arrived strictly after their
  predecessor as pairs of interval and size, and the intervals of the probe pairs.
\<close>

record ArrivalHistory =
  ah_previous :: "u64 option"
  ah_intervals :: "u32 list"
  ah_sizes :: "u32 list"
  ah_probes :: "u32 list"

fun ah_step :: "ArrivalHistory \<Rightarrow> ArrivalEvent \<Rightarrow> ArrivalHistory" where
  "ah_step h (Arrival bytes time) =
     (case ah_previous h of
        Some t \<Rightarrow> if t < time then
            h \<lparr>ah_intervals := ah_intervals h @ [saturating_u32 (time - t)],
               ah_sizes := ah_sizes h @ [saturating_u32 bytes], ah_previous := Some time\<rparr>
          else h \<lparr>ah_previous := Some time\<rparr>
      | None \<Rightarrow> h \<lparr>ah_previous := Some time\<rparr>)"
| "ah_step h (ProbePair t1 t2) =
     (if t1 < t2 then h \<lparr>ah_probes := ah_probes h @ [saturating_u32 (t2 - t1)]\<rparr> else h)"

definition empty_history :: ArrivalHistory where
  "empty_history = \<lparr>ah_previous = None, ah_intervals = [], ah_sizes = [], ah_probes = []\<rparr>"

text \<open>Events per second over a total time, saturated to 32 bits.\<close>

definition per_second :: "nat \<Rightarrow> nat \<Rightarrow> nat" where
  "per_second amount microseconds = min (amount * 1000000 div microseconds) 4294967295"

definition sum_of :: "u32 list \<Rightarrow> nat" where
  "sum_of xs = sum_list (map unat xs)"

definition history_of :: "ArrivalRateEstimator \<Rightarrow> ArrivalHistory \<Rightarrow> bool" where
  "history_of e h \<longleftrightarrow>
     sampled 16 (ah_intervals h) (av_intervals e) \<and> sampled 16 (ah_sizes h) (av_payload_sizes e)
     \<and> sampled 16 (ah_probes h) (av_probe_intervals e)
     \<and> length (ah_sizes h) = length (ah_intervals h)
     \<and> av_sample_index e = length (ah_intervals h) mod 16 \<and> av_samples e = min 16 (length (ah_intervals h))
     \<and> av_probe_index e = length (ah_probes h) mod 16 \<and> av_probes e = min 16 (length (ah_probes h))
     \<and> ah_previous h = (if av_has_previous_arrival e then Some (av_previous_arrival_microseconds e) else None)"

lemma history_of_make: "history_of (make_ArrivalRateEstimator header) empty_history"
  by (simp add: history_of_def make_ArrivalRateEstimator_def empty_history_def sampled_empty)

lemma history_of_step:
  assumes "history_of e h"
  shows "history_of (av_step e ev) (ah_step h ev)"
proof (cases ev)
  case (Arrival bytes time)
  show ?thesis
  proof (cases "av_has_previous_arrival e \<and> av_previous_arrival_microseconds e < time")
    case True
    with assms Arrival show ?thesis
      using sampled_write [of 16 "ah_intervals h" "av_intervals e" "saturating_u32 (time - av_previous_arrival_microseconds e)"]
        sampled_write [of 16 "ah_sizes h" "av_payload_sizes e" "saturating_u32 bytes"]
      by (simp add: history_of_def av_observe_def Let_def mod_Suc_eq)
  next
    case False
    with assms Arrival show ?thesis by (auto simp: history_of_def av_observe_def Let_def)
  qed
next
  case (ProbePair t1 t2)
  with assms show ?thesis
    using sampled_write [of 16 "ah_probes h" "av_probe_intervals e" "saturating_u32 (t2 - t1)"]
    by (simp add: history_of_def av_observe_probe_pair_def mod_Suc_eq not_le [symmetric]) (simp add: min_def)
qed

lemma history_of_run: "history_of e h \<Longrightarrow> history_of (foldl av_step e evs) (foldl ah_step h evs)"
  by (induction evs arbitrary: e h) (simp_all add: history_of_step)

lemma packet_header_run: "av_packet_header_size (foldl av_step e evs) = av_packet_header_size e"
proof (induction evs arbitrary: e)
  case (Cons ev evs)
  have "av_packet_header_size (av_step e ev) = av_packet_header_size e"
    by (cases ev) (simp_all add: av_observe_def av_observe_probe_pair_def Let_def)
  with Cons show ?case by simp
qed simp

lemma ring_total:
  assumes "sampled 16 h slots" "k = min 16 (length h)"
  shows "unat (sum_u64 (map ucast (take k slots)) 0) = sum_of (lastn 16 h)"
    and "sum_of (lastn 16 h) \<le> 68719476720"
proof -
  have "unat (sum_u64 (map ucast (take k slots) :: u64 list) 0) = sum_list (map unat (take k slots))
      \<and> sum_list (map unat (take k slots)) \<le> length (take k slots) * 4294967295"
    using unat_sum_u64 [of "map ucast (take k slots)" 4294967295] assms(2) unat_lt32
    by (simp add: less_Suc_eq_le [symmetric] o_def)
  moreover have "sum_list (map unat (take k slots)) = sum_of (lastn 16 h)"
    using assms sum_list_mset_eq [of "take k slots" "lastn 16 h" unat] by (simp add: sampled_def sum_of_def)
  moreover have "length (take k slots) * 4294967295 \<le> 16 * 4294967295"
    using assms(2) by (intro mult_le_mono1) simp
  ultimately show "unat (sum_u64 (map ucast (take k slots)) 0) = sum_of (lastn 16 h)"
    "sum_of (lastn 16 h) \<le> 68719476720" by linarith+
qed

lemma ring_byte_total:
  assumes "sampled 16 h slots" "k = min 16 (length h)" "unat header \<le> 65536"
  shows "unat (sum_u64 (map (\<lambda>v. ucast v + header) (take k slots)) 0) = sum_of (lastn 16 h) + k * unat header"
proof -
  have sz: "unat (ucast (v :: u32) + header) = unat v + unat header" for v
    using unat_lt32 [of v] assms(3) by (subst unat_add_no_wrap) simp_all
  have "unat v + unat header \<le> 0x100010000" for v :: u32
    using unat_lt32 [of v] assms(3) by linarith
  then have "unat (sum_u64 (map (\<lambda>v. ucast v + header) (take k slots)) 0)
      = sum_list (map (\<lambda>v. unat v + unat header) (take k slots))"
    using unat_sum_u64 [of "map (\<lambda>v. ucast v + header) (take k slots)" "0x100010000"] assms(2)
    by (simp add: sz o_def)
  also have "\<dots> = sum_list (map (\<lambda>v. unat v + unat header) (lastn 16 h))"
    using assms by (intro sum_list_mset_eq) (simp add: sampled_def)
  also have "\<dots> = sum_of (lastn 16 h) + k * unat header"
    using assms(2) by (simp add: sum_list_addf sum_of_def sum_list_triv)
  finally show ?thesis .
qed

lemma unat_per_second:
  fixes amount time :: u64
  assumes "unat amount \<le> 0x100000000000"
  shows "unat (saturating_u32 (amount * 1000000 div time)) = per_second (unat amount) (unat time)"
proof -
  have "unat (amount * 1000000) = unat amount * 1000000"
    using assms by (subst unat_mult_no_wrap) simp_all
  then show ?thesis by (simp add: per_second_def unat_div)
qed

text \<open>
  C36. The rate fields of a full acknowledgement refine a specification that remembers the whole
  history. After any sequence of packet arrivals and probe pairs, the estimator's fixed rings
  yield exactly the rates of the last sixteen samples: samples and bytes (each packet with its
  header) per second of their total interval, and probe pairs per second of theirs, each
  saturated to 32 bits and computed without wrap-around; before the first sample all fields are
  zero and the result is marked invalid.
\<close>

theorem arrival_rates_window:
  fixes header :: u64 and evs :: "ArrivalEvent list"
  assumes "unat header \<le> 65536"
  defines "h \<equiv> foldl ah_step empty_history evs"
    and "r \<equiv> av_rates (foldl av_step (make_ArrivalRateEstimator header) evs)"
  defines "time \<equiv> sum_of (lastn 16 (ah_intervals h))" and "k \<equiv> min 16 (length (ah_intervals h))"
    and "probe_time \<equiv> sum_of (lastn 16 (ah_probes h))" and "j \<equiv> min 16 (length (ah_probes h))"
  shows "(ar_valid r \<longleftrightarrow> time \<noteq> 0)
    \<and> unat (ar_packets_per_second r) = (if time = 0 then 0 else per_second k time)
    \<and> unat (ar_bytes_per_second r) =
        (if time = 0 then 0 else per_second (sum_of (lastn 16 (ah_sizes h)) + k * unat header) time)
    \<and> unat (ar_link_capacity_packets_per_second r) =
        (if time = 0 \<or> probe_time = 0 then 0 else per_second j probe_time)"
proof -
  let ?e = "foldl av_step (make_ArrivalRateEstimator header) evs"
  have "history_of ?e h" unfolding h_def by (rule history_of_run [OF history_of_make])
  then have rings: "sampled 16 (ah_intervals h) (av_intervals ?e)" "sampled 16 (ah_sizes h) (av_payload_sizes ?e)"
      "sampled 16 (ah_probes h) (av_probe_intervals ?e)"
    and counts: "av_samples ?e = k" "av_probes ?e = j" "k = min 16 (length (ah_sizes h))"
    by (simp_all add: history_of_def k_def j_def)
  have header: "av_packet_header_size ?e = header"
    by (simp add: packet_header_run make_ArrivalRateEstimator_def)
  have "k = min 16 (length (ah_intervals h))" "j = min 16 (length (ah_probes h))"
    by (simp_all add: k_def j_def)
  note t = ring_total [OF rings(1) this(1)] and p = ring_total [OF rings(3) this(2)]
  note b = ring_byte_total [OF rings(2) counts(3) assms(1)]
  have bytes: "sum_of (lastn 16 (ah_sizes h)) + k * unat header \<le> 0x100000000000"
    using ring_total(2) [OF rings(2) refl] mult_le_mono [of k 16 "unat header" 65536] assms(1)
    by (simp add: k_def)
  have kj: "unat (of_nat k :: u64) = k" "unat (of_nat j :: u64) = j" "k \<le> 16" "j \<le> 16"
    by (simp_all add: k_def j_def unat_of_nat)
  have zero: "k = 0 \<Longrightarrow> time = 0"
    by (cases "ah_intervals h") (simp_all add: k_def time_def lastn_def sum_of_def)
  have nz: "sum_u64 (map ucast (take k (av_intervals ?e))) 0 = (0 :: u64) \<longleftrightarrow> time = 0"
    "sum_u64 (map ucast (take j (av_probe_intervals ?e))) 0 = (0 :: u64) \<longleftrightarrow> probe_time = 0"
    by (simp_all add: unat_eq_0 [symmetric] t p time_def probe_time_def)
  show ?thesis
    using zero bytes kj
    by (simp add: r_def av_rates_def Let_def counts(1,2) header nz default_ArrivalRates_def unat_per_second b
        t(1) p(1) time_def [symmetric] probe_time_def [symmetric] del: unat_saturating_u32)
qed

theorem arrival_rates_window_witness:
  "let r = av_rates (foldl av_step (make_ArrivalRateEstimator 44)
             [Arrival 1316 5, Arrival 1316 1005, Arrival 956 2005])
   in ar_valid r \<and> unat (ar_packets_per_second r) = 1000 \<and> unat (ar_bytes_per_second r) = 1180000"
  using arrival_rates_window [of 44 "[Arrival 1316 5, Arrival 1316 1005, Arrival 956 2005]"]
  by (simp add: Let_def empty_history_def sum_of_def lastn_def per_second_def)

section \<open>Pacing rate and packet interval\<close>

text \<open>The settings a controller is built from and the setters keep: overhead at most 100 percent.\<close>

definition rate_settings_ok :: "LiveRateController \<Rightarrow> bool" where
  "rate_settings_ok c \<longleftrightarrow>
     lc_overhead_percent (lr_configuration c) \<le> 100
     \<and> lc_maximum_bandwidth_bytes_per_second (lr_configuration c) < 9223372036854775808
     \<and> 0 < lr_average_payload_size c"

lemma rate_settings_setters:
  assumes "rate_settings_ok c"
  shows "rate_settings_ok (lr_set_input_bandwidth c rate)"
    "rate_settings_ok (lr_set_minimum_input_bandwidth c rate)"
    "rate_settings_ok (lr_set_overhead_percent c percent)"
    "m < 9223372036854775808 \<Longrightarrow> rate_settings_ok (lr_set_maximum_bandwidth c m)"
    "rate_settings_ok (lr_observe_payload c bytes)"
    "rate_settings_ok (lr_observe_input c bytes now)"
  using assms
  by (simp_all add: rate_settings_ok_def lr_set_input_bandwidth_def lr_set_minimum_input_bandwidth_def
      lr_set_overhead_percent_def lr_set_maximum_bandwidth_def lr_observe_payload_def
      lr_observe_input_def Let_def less_max_iff_disj)

definition relative_input_rate :: "LiveRateController \<Rightarrow> nat" where
  "relative_input_rate c =
     (if lc_input_bandwidth_bytes_per_second (lr_configuration c) = 0
      then max (unat (lr_estimated_input_bandwidth c))
               (unat (lc_minimum_input_bandwidth_bytes_per_second (lr_configuration c)))
      else unat (lc_input_bandwidth_bytes_per_second (lr_configuration c)))"

text \<open>The rate a configuration asks for, over unbounded integers.\<close>

definition requested_rate :: "LiveRateController \<Rightarrow> nat" where
  "requested_rate c =
     (let m = lc_maximum_bandwidth_bytes_per_second (lr_configuration c)
      in if m > 0 then nat m
         else if m < 0 \<or> relative_input_rate c = 0 then 125000000
         else relative_input_rate c * (100 + unat (lc_overhead_percent (lr_configuration c))) div 100)"

lemma scaled_rate:
  fixes rate :: u64 and percent :: u32
  assumes "percent \<le> 100"
  defines "factor \<equiv> ucast (100 + percent) :: u64"
  shows "unat factor = 100 + unat percent"
    and "rate \<le> 0xffffffffffffffff div factor \<Longrightarrow>
      unat (rate * factor div 100) = unat rate * (100 + unat percent) div 100"
    and "rate \<le> 0xffffffffffffffff div factor \<longleftrightarrow> unat rate * (100 + unat percent) \<le> 18446744073709551615"
proof -
  have p: "unat percent \<le> 100" using assms(1) by (simp add: word_le_nat_alt)
  then have "unat (100 + percent) = 100 + unat percent" by (subst unat_add_no_wrap) simp_all
  then show m: "unat factor = 100 + unat percent" by (simp add: factor_def)
  let ?q = "18446744073709551615 div (100 + unat percent)"
  have q: "unat (0xffffffffffffffff div factor) = ?q" by (simp add: unat_div m)
  show "unat (rate * factor div 100) = unat rate * (100 + unat percent) div 100"
    if "rate \<le> 0xffffffffffffffff div factor"
  proof -
    have "unat rate \<le> ?q" using that by (simp add: word_le_nat_alt q)
    then have "unat rate * (100 + unat percent) \<le> ?q * (100 + unat percent)" by (rule mult_le_mono1)
    also have "\<dots> \<le> 18446744073709551615" by (rule div_times_less_eq_dividend)
    finally show ?thesis by (simp add: unat_div unat_mult_no_wrap m)
  qed
  show "rate \<le> 0xffffffffffffffff div factor \<longleftrightarrow> unat rate * (100 + unat percent) \<le> 18446744073709551615"
    by (simp only: word_le_nat_alt q) (simp add: less_eq_div_iff_mult_less_eq)
qed

lemma scaled_pos: "0 < r \<Longrightarrow> 0 < r * (100 + p) div (100 :: nat)"
  using mult_le_mono [of 1 r 100 "100 + p"] by (simp add: div_greater_zero_iff)

lemma unat_word_of_int_pos:
  "0 < m \<Longrightarrow> m < 9223372036854775808 \<Longrightarrow> unat (word_of_int m :: u64) = nat m"
  by (simp add: unsigned_of_int take_bit_int_eq_self)

lemma unat_pacing_rate:
  assumes "rate_settings_ok c"
  defines "conf \<equiv> lr_configuration c"
  defines "product \<equiv> relative_input_rate c * (100 + unat (lc_overhead_percent conf))"
  shows "unat (pacing_rate_bytes_per_second c) =
    (if lc_maximum_bandwidth_bytes_per_second conf = 0 \<and> 18446744073709551615 < product
     then 18446744073709551615 else requested_rate c)"
proof -
  define rate where "rate = (if lc_input_bandwidth_bytes_per_second conf = 0
    then max (lr_estimated_input_bandwidth c) (lc_minimum_input_bandwidth_bytes_per_second conf)
    else lc_input_bandwidth_bytes_per_second conf)"
  let ?m = "lc_maximum_bandwidth_bytes_per_second conf"
  have u: "unat rate = relative_input_rate c"
    by (simp add: rate_def relative_input_rate_def conf_def unat_max)
  then have z: "rate = 0 \<longleftrightarrow> relative_input_rate c = 0" by (simp add: unat_eq_0 [symmetric])
  have p: "lc_overhead_percent conf \<le> 100" "?m < 9223372036854775808"
    using assms(1) by (simp_all add: rate_settings_ok_def conf_def)
  note scaled = scaled_rate(2) [OF p(1), of rate] scaled_rate(3) [OF p(1), of rate]
  have pos: "rate \<noteq> 0 \<Longrightarrow> 0 < product div 100" by (simp add: product_def z scaled_pos)
  consider "?m < 0" | "?m > 0" | "?m = 0" by linarith
  then show ?thesis
  proof cases
    case 3
    let ?f = "ucast (100 + lc_overhead_percent conf) :: u64"
    let ?r = "if rate \<noteq> 0 then if rate > 0xffffffffffffffff div ?f then 0xffffffffffffffff
      else rate * ?f div 100 else rate"
    have code: "pacing_rate_bytes_per_second c = (if ?r = 0 then 125000000 else ?r)"
      unfolding pacing_rate_bytes_per_second_def Let_def conf_def [symmetric] rate_def using 3 by simp
    have spec: "requested_rate c = (if rate = 0 then 125000000 else product div 100)"
      using 3 by (simp add: requested_rate_def Let_def conf_def [symmetric] product_def z)
    show ?thesis
    proof (cases "rate = 0")
      case True
      then show ?thesis using 3 z by (simp add: code spec product_def)
    next
      case False
      show ?thesis
      proof (cases "rate \<le> 0xffffffffffffffff div ?f")
        case True
        then have "unat (rate * ?f div 100) = product div 100" "product \<le> 18446744073709551615"
          using scaled by (simp_all add: u product_def)
        with True False pos [OF False] show ?thesis
          unfolding code spec using 3 by (auto simp: unat_eq_0 [symmetric] simp del: unat_eq_0)
      next
        case False
        then show ?thesis unfolding code spec using 3 \<open>rate \<noteq> 0\<close> scaled(2) by (simp add: u product_def not_le)
      qed
    qed
  qed (use p unat_word_of_int_pos [of ?m] in
      \<open>simp_all add: pacing_rate_bytes_per_second_def requested_rate_def Let_def conf_def [symmetric]\<close>)
qed

lemma requested_rate_pos: "0 < requested_rate c"
  by (simp add: requested_rate_def Let_def scaled_pos)

text \<open>
  The rounded-up quotient of the two pacing computations: although the 64-bit sum may wrap for
  rates near the top of the type, the result is always the least positive interval in which the
  rate covers the packet.
\<close>

lemma unat_ceil_interval:
  fixes x rate :: u64
  assumes "0 < unat x" "unat x \<le> 9223372036854775808" "0 < unat rate"
  defines "i \<equiv> max 1 ((x + rate - 1) div rate)"
  shows "unat x \<le> unat i * unat rate" "unat i * unat rate < unat x + unat rate"
proof -
  have "unat i = (unat x + unat rate - 1) div unat rate"
  proof (cases "unat x + unat rate \<le> 18446744073709551616")
    case True
    have "unat (rate - 1) = unat rate - 1" using assms(3) by (intro unat_minus_one) auto
    then have "unat (x + (rate - 1)) = unat x + unat rate - 1"
      using True assms(3) by (subst unat_add_no_wrap) simp_all
    then have "unat (x + rate - 1) = unat x + unat rate - 1" by (simp only: add_diff_eq)
    moreover have "1 \<le> (unat x + unat rate - 1) div unat rate"
      using assms by (simp add: less_eq_div_iff_mult_less_eq)
    ultimately show ?thesis by (simp add: i_def unat_max unat_div)
  next
    case False
    have "unat (x + rate - 1) < unat rate"
    proof -
      have "unat (x + rate) = unat x + unat rate - 18446744073709551616"
        using False unat_lt64 [of x] unat_lt64 [of rate] by (simp add: unat_word_ariths le_mod_geq)
      then show ?thesis
        using False assms(2) unat_lt64 [of x] unat_lt64 [of rate]
        by (cases "x + rate = 0") (simp_all add: unat_minus_one)
    qed
    then have "i = 1" by (simp add: i_def div_word_less word_less_nat_alt)
    moreover have "(unat x + unat rate - 1) div unat rate = 1"
      using False assms unat_lt64 [of rate] by (intro div_nat_eqI) simp_all
    ultimately show ?thesis by simp
  qed
  then show "unat x \<le> unat i * unat rate" "unat i * unat rate < unat x + unat rate"
    using ceil_div_bounds [OF assms(3), of "unat x"] by simp_all
qed

text \<open>
  C37. The pacing rate is never zero and is exactly the requested one: the absolute maximum when
  it is positive, 125 MB/s when unlimited or when nothing is known of the input, and otherwise
  the configured or estimated input rate increased by the overhead percentage (saturated when
  that product leaves 64 bits). The packet interval is the least number of microseconds in which
  that rate covers an average packet with its header.
\<close>

theorem pacing_rate_and_interval:
  fixes c :: LiveRateController
  assumes "rate_settings_ok c"
    and "unat (lr_average_payload_size c) + unat (lc_packet_header_size (lr_configuration c)) \<le> 4294967296"
  defines "bytes \<equiv> unat (lr_average_payload_size c) + unat (lc_packet_header_size (lr_configuration c))"
    and "rate \<equiv> unat (pacing_rate_bytes_per_second c)"
    and "interval \<equiv> unat (packet_interval_microseconds c)"
  shows "0 < rate
    \<and> rate = (if lc_maximum_bandwidth_bytes_per_second (lr_configuration c) = 0
          \<and> 18446744073709551615
              < relative_input_rate c * (100 + unat (lc_overhead_percent (lr_configuration c)))
        then 18446744073709551615 else requested_rate c)
    \<and> bytes * 1000000 \<le> interval * rate \<and> interval * rate < bytes * 1000000 + rate"
proof -
  let ?x = "(lr_average_payload_size c + lc_packet_header_size (lr_configuration c)) * 1000000"
  have "unat ?x = bytes * 1000000"
    using assms(2) by (simp add: bytes_def unat_mult_no_wrap unat_add_no_wrap)
  moreover have "0 < bytes" using assms(1) by (simp add: bytes_def rate_settings_ok_def word_greater_zero_iff unat_gt_0)
  moreover have rate: "0 < rate" using requested_rate_pos [of c] by (simp add: rate_def unat_pacing_rate [OF assms(1)])
  ultimately have "bytes * 1000000 \<le> interval * rate" "interval * rate < bytes * 1000000 + rate"
    using unat_ceil_interval [of ?x "pacing_rate_bytes_per_second c"] assms(2)
    by (simp_all add: bytes_def rate_def interval_def packet_interval_microseconds_def Let_def)
  with rate show ?thesis by (simp add: rate_def unat_pacing_rate [OF assms(1)])
qed

theorem pacing_rate_and_interval_witness:
  "let c = lr_set_input_bandwidth (make_LiveRateController default_LiveRateConfiguration) 1000000
   in rate_settings_ok c \<and> unat (pacing_rate_bytes_per_second c) = 1250000
      \<and> 1360 * 1000000 \<le> unat (packet_interval_microseconds c) * unat (pacing_rate_bytes_per_second c)"
proof -
  define c where "c = lr_set_input_bandwidth (make_LiveRateController default_LiveRateConfiguration) 1000000"
  note defs = c_def lr_set_input_bandwidth_def make_LiveRateController_def default_LiveRateConfiguration_def
  have facts: "rate_settings_ok c" "requested_rate c = 1250000" "relative_input_rate c = 1000000"
    "lr_average_payload_size c = 1316" "lc_packet_header_size (lr_configuration c) = 44"
    "lc_overhead_percent (lr_configuration c) = 25"
    by (simp_all add: defs rate_settings_ok_def requested_rate_def relative_input_rate_def)
  from pacing_rate_and_interval [OF facts(1)] facts show ?thesis
    unfolding c_def [symmetric] Let_def by (simp, elim conjE, simp)
qed

section \<open>The drift sampler\<close>

definition sampler_ok :: "DriftSampler \<Rightarrow> bool" where
  "sampler_ok s \<longleftrightarrow> ds_samples s < ds_samples_per_window s \<and> 0 < ds_maximum_correction_microseconds s"

lemma i64_exact [simp]: "- (2 ^ 63) \<le> x \<Longrightarrow> x < 2 ^ 63 \<Longrightarrow> i64 x = x"
  by (simp add: i64_def)

lemma i64_range: "- (2 ^ 63) \<le> i64 x" "i64 x < 2 ^ 63"
  by (simp_all add: i64_def)

lemma sampler_ok_make: "sampler_ok (make_DriftSampler n m)"
  by (simp add: sampler_ok_def make_DriftSampler_def less_max_iff_disj)

lemma sampler_ok_observe: "sampler_ok s \<Longrightarrow> sampler_ok (snd (ds_observe s d))"
  by (simp add: sampler_ok_def ds_observe_def Let_def)

lemma clamp_bounds:
  "lo \<le> hi \<Longrightarrow> lo \<le> clamp x lo hi" "lo \<le> hi \<Longrightarrow> clamp x lo hi \<le> hi"
  by (simp_all add: clamp_def)

lemma ds_observe_bounded:
  assumes "sampler_ok s"
  shows "\<bar>du_correction_microseconds (fst (ds_observe s d))\<bar> \<le> ds_maximum_correction_microseconds s"
    and "ds_maximum_correction_microseconds (snd (ds_observe s d)) = ds_maximum_correction_microseconds s"
  using assms clamp_bounds [of "- ds_maximum_correction_microseconds s" "ds_maximum_correction_microseconds s"]
  by (auto simp: ds_observe_def Let_def sampler_ok_def abs_le_iff minus_le_iff)

definition ds_run :: "DriftSampler \<Rightarrow> int list \<Rightarrow> DriftSampler" where
  "ds_run s drifts = foldl (\<lambda>s d. snd (ds_observe s d)) s drifts"

lemma ds_run_Nil [simp]: "ds_run s [] = s"
  by (simp add: ds_run_def)

lemma ds_run_Cons [simp]: "ds_run s (d # drifts) = ds_run (snd (ds_observe s d)) drifts"
  by (simp add: ds_run_def)

lemma ds_run_append: "ds_run s (xs @ ys) = ds_run (ds_run s xs) ys"
  by (simp add: ds_run_def)

text \<open>
  Observations of magnitude at most \<open>b\<close> whose sum over a window stays below \<open>2 ^ 62\<close>: the sum, the
  estimate and the residual are then computed exactly, and the estimate stays within \<open>b\<close>.
\<close>

definition sampler_within :: "int \<Rightarrow> DriftSampler \<Rightarrow> bool" where
  "sampler_within b s \<longleftrightarrow> sampler_ok s \<and> 0 \<le> b \<and> b * int (ds_samples_per_window s) < 2 ^ 62
     \<and> \<bar>ds_sum_microseconds s\<bar> \<le> b * int (ds_samples s) \<and> \<bar>ds_estimated_drift_microseconds s\<bar> \<le> b
     \<and> ds_maximum_correction_microseconds s < 2 ^ 63"

definition ds_observe_exact :: "DriftSampler \<Rightarrow> int \<Rightarrow> DriftSampler" where
  "ds_observe_exact s drift =
     (let sum = ds_sum_microseconds s + drift; mean = sum sdiv int (ds_samples s + 1);
          est = ds_estimated_drift_microseconds s
            + clamp (mean - ds_estimated_drift_microseconds s)
                (- ds_maximum_correction_microseconds s) (ds_maximum_correction_microseconds s)
      in if ds_samples s + 1 < ds_samples_per_window s
         then s \<lparr>ds_sum_microseconds := sum, ds_samples := ds_samples s + 1\<rparr>
         else s \<lparr>ds_samples := 0, ds_sum_microseconds := 0,
                ds_estimated_drift_microseconds := est, ds_residual_drift_microseconds := mean - est\<rparr>)"

lemma abs_sdiv_le: "0 < n \<Longrightarrow> \<bar>x\<bar> \<le> b * int n \<Longrightarrow> \<bar>x sdiv int n\<bar> \<le> b"
proof -
  assume n: "0 < n" and x: "\<bar>x\<bar> \<le> b * int n"
  have "\<bar>x sdiv int n\<bar> = (if x = 0 then 0 else \<bar>x\<bar> div int n)"
    using n by (auto simp: signed_divide_int_def abs_mult sgn_if pos_imp_zdiv_nonneg_iff)
  moreover have "\<bar>x\<bar> div int n \<le> b * int n div int n" using x n by (intro zdiv_mono1) simp_all
  moreover have "0 \<le> \<bar>x\<bar> div int n" using n by (simp add: pos_imp_zdiv_nonneg_iff)
  ultimately show "\<bar>x sdiv int n\<bar> \<le> b" using n by simp
qed

lemma clamp_between:
  fixes e d m b :: int
  assumes "0 < m" "\<bar>e\<bar> \<le> b" "\<bar>d\<bar> \<le> b"
  shows "\<bar>e + clamp (d - e) (- m) m\<bar> \<le> b"
  using assms by (auto simp: clamp_def)

lemma window_sum_bound:
  assumes "sampler_within b s" "\<bar>d\<bar> \<le> b"
  shows "\<bar>ds_sum_microseconds s + d\<bar> \<le> b * int (ds_samples s + 1)"
    and "b * int (ds_samples s + 1) < 2 ^ 62" and "b < 2 ^ 62"
proof -
  have s: "\<bar>ds_sum_microseconds s\<bar> \<le> b * int (ds_samples s)" "0 \<le> b" "ds_samples s + 1 \<le> ds_samples_per_window s"
    "b * int (ds_samples_per_window s) < 2 ^ 62"
    using assms(1) by (simp_all add: sampler_within_def sampler_ok_def)
  show "\<bar>ds_sum_microseconds s + d\<bar> \<le> b * int (ds_samples s + 1)"
    using s(1) assms(2) by (simp add: algebra_simps)
  have "b * int (ds_samples s + 1) \<le> b * int (ds_samples_per_window s)"
    using s(2,3) by (intro mult_left_mono) simp_all
  then show "b * int (ds_samples s + 1) < 2 ^ 62" using s(4) by linarith
  moreover have "b * 1 \<le> b * int (ds_samples s + 1)" using s(2) by (intro mult_left_mono) simp_all
  ultimately show "b < 2 ^ 62" by linarith
qed

lemma ds_observe_within:
  assumes "sampler_within b s" "\<bar>d\<bar> \<le> b"
  shows "snd (ds_observe s d) = ds_observe_exact s d" and "sampler_within b (ds_observe_exact s d)"
    and "ds_estimated_drift_microseconds (ds_observe_exact s d) = ds_estimated_drift_microseconds s
      + (if du_window_complete (fst (ds_observe s d)) then du_correction_microseconds (fst (ds_observe s d)) else 0)"
proof -
  let ?m = "ds_maximum_correction_microseconds s" and ?e = "ds_estimated_drift_microseconds s"
  let ?mean = "(ds_sum_microseconds s + d) sdiv int (ds_samples s + 1)"
  let ?est = "?e + clamp (?mean - ?e) (- ?m) ?m"
  note w = window_sum_bound [OF assms]
  have s: "0 < ?m" "\<bar>?e\<bar> \<le> b" using assms(1) by (simp_all add: sampler_within_def sampler_ok_def)
  have mean: "\<bar>?mean\<bar> \<le> b" using w(1) by (intro abs_sdiv_le) simp_all
  have est: "\<bar>?est\<bar> \<le> b" by (rule clamp_between [OF s mean])
  have p: "(2 :: int) ^ 62 + 2 ^ 62 = 2 ^ 63" "0 < (2 :: int) ^ 62" by simp_all
  have i: "i64 (ds_sum_microseconds s + d) = ds_sum_microseconds s + d" using w p by (intro i64_exact) linarith+
  have j: "i64 (?mean - ?e) = ?mean - ?e" "i64 ?est = ?est" "i64 (?mean - ?est) = ?mean - ?est"
    using w(3) p s(2) mean est by (intro i64_exact; linarith)+
  show eq: "snd (ds_observe s d) = ds_observe_exact s d"
    using i j by (simp add: ds_observe_def ds_observe_exact_def Let_def)
  show "ds_estimated_drift_microseconds (ds_observe_exact s d) = ?e
      + (if du_window_complete (fst (ds_observe s d)) then du_correction_microseconds (fst (ds_observe s d)) else 0)"
    using i j by (simp add: ds_observe_def ds_observe_exact_def Let_def)
  have "sampler_ok (ds_observe_exact s d)"
    using sampler_ok_observe [of s d] assms(1) by (simp add: eq sampler_within_def)
  then show "sampler_within b (ds_observe_exact s d)"
    using assms(1) w(1) est unfolding sampler_within_def ds_observe_exact_def Let_def by simp
qed

lemma ds_run_within:
  "sampler_within b s \<Longrightarrow> \<forall>d \<in> set drifts. \<bar>d\<bar> \<le> b \<Longrightarrow> sampler_within b (ds_run s drifts)"
  by (induction drifts arbitrary: s) (simp_all add: ds_observe_within)

text \<open>One whole window of observations, in which only the mean of the samples counts.\<close>

lemma ds_partial_window:
  assumes "sampler_within b s" "\<forall>d \<in> set drifts. \<bar>d\<bar> \<le> b"
    "ds_samples s + length drifts < ds_samples_per_window s"
  shows "ds_run s drifts = s \<lparr>ds_sum_microseconds := ds_sum_microseconds s + sum_list drifts,
    ds_samples := ds_samples s + length drifts\<rparr>"
  using assms
proof (induction drifts arbitrary: s)
  case (Cons d drifts)
  have "snd (ds_observe s d) = s \<lparr>ds_sum_microseconds := ds_sum_microseconds s + d, ds_samples := ds_samples s + 1\<rparr>"
    using Cons.prems by (simp add: ds_observe_within(1) ds_observe_exact_def)
  with Cons.IH [of "snd (ds_observe s d)"] Cons.prems ds_observe_within [of b s d] show ?case by simp
qed simp

lemma ds_window:
  assumes "sampler_within b s" "\<forall>d \<in> set drifts. \<bar>d\<bar> \<le> b"
    "ds_samples s = 0" "ds_sum_microseconds s = 0" "length drifts = ds_samples_per_window s" "drifts \<noteq> []"
  defines "mean \<equiv> sum_list drifts sdiv int (length drifts)"
  defines "est \<equiv> ds_estimated_drift_microseconds s
    + clamp (mean - ds_estimated_drift_microseconds s)
        (- ds_maximum_correction_microseconds s) (ds_maximum_correction_microseconds s)"
  shows "ds_run s drifts = s \<lparr>ds_samples := 0, ds_sum_microseconds := 0,
    ds_estimated_drift_microseconds := est, ds_residual_drift_microseconds := mean - est\<rparr>"
proof -
  obtain xs x where xs: "drifts = xs @ [x]" using assms(6) by (cases drifts rule: rev_cases) auto
  have run: "ds_run s xs = s \<lparr>ds_sum_microseconds := sum_list xs, ds_samples := length xs\<rparr>"
    using ds_partial_window [of b s xs] assms(1-5) xs by simp
  have "sampler_within b (ds_run s xs)" using ds_run_within assms(1,2) xs by simp
  then have "ds_run s drifts = ds_observe_exact (ds_run s xs) x"
    using ds_observe_within(1) [of b "ds_run s xs" x] assms(2) xs by (simp add: ds_run_append)
  then show ?thesis
    using assms(3,4) assms(5) [symmetric] xs by (simp add: run ds_observe_exact_def Let_def est_def mean_def)
qed

text \<open>Approaching a target by steps of at most \<open>m\<close>.\<close>

lemma clamp_approach:
  assumes "0 < m" "\<bar>d - e\<bar> \<le> int (Suc k) * m"
  shows "\<bar>d - (e + clamp (d - e) (- m) m)\<bar> \<le> int k * m"
  using assms by (auto simp: clamp_def algebra_simps)

lemma sdiv_mult_self: "0 < n \<Longrightarrow> (int n * d) sdiv int n = d"
  by (simp add: signed_divide_int_def sgn_mult abs_mult sgn_mult_abs)

lemma ds_run_windows:
  assumes "sampler_within b s" "\<bar>d\<bar> \<le> b" "ds_samples s = 0" "ds_sum_microseconds s = 0"
    "\<bar>d - ds_estimated_drift_microseconds s\<bar> \<le> int k * ds_maximum_correction_microseconds s"
  shows "ds_estimated_drift_microseconds (ds_run s (replicate (k * ds_samples_per_window s) d)) = d"
  using assms
proof (induction k arbitrary: s)
  case (Suc k)
  let ?n = "ds_samples_per_window s" and ?w = "replicate (ds_samples_per_window s) d"
  have pos: "0 < ?n" "0 < ds_maximum_correction_microseconds s"
    using Suc.prems(1,3) by (simp_all add: sampler_within_def sampler_ok_def)
  have "sum_list ?w sdiv int (length ?w) = d"
    using pos(1) sdiv_mult_self [of ?n d] by (simp add: sum_list_replicate)
  then have w: "ds_samples (ds_run s ?w) = 0" "ds_sum_microseconds (ds_run s ?w) = 0"
    "ds_samples_per_window (ds_run s ?w) = ?n"
    "ds_maximum_correction_microseconds (ds_run s ?w) = ds_maximum_correction_microseconds s"
    "ds_estimated_drift_microseconds (ds_run s ?w) = ds_estimated_drift_microseconds s
      + clamp (d - ds_estimated_drift_microseconds s) (- ds_maximum_correction_microseconds s)
          (ds_maximum_correction_microseconds s)"
    using ds_window [of b s ?w] Suc.prems pos by simp_all
  have "sampler_within b (ds_run s ?w)" using Suc.prems(1,2) by (intro ds_run_within) simp_all
  moreover have "replicate (Suc k * ?n) d = ?w @ replicate (k * ?n) d" by (simp add: replicate_add)
  ultimately show ?case
    using Suc.IH [of "ds_run s ?w"] clamp_approach [OF pos(2) Suc.prems(5)] Suc.prems(2) w
    by (simp add: ds_run_append)
qed simp

lemma sampler_within_make:
  assumes "0 \<le> b" "b * int (max window 1) < 2 ^ 62" "- (2 ^ 63) \<le> limit" "limit < 2 ^ 63"
  shows "sampler_within b (make_DriftSampler window limit)"
  using assms sampler_ok_make [of window limit] by (simp add: sampler_within_def) (simp add: make_DriftSampler_def)

text \<open>
  C34. The drift estimate converges. Let the correction limit be a 64-bit value and let the
  observed drifts be at most \<open>b\<close> in magnitude, with \<open>b\<close> times the window below \<open>2 ^ 62\<close>. A receiver
  whose clock is off by a constant amount, of either sign, knows it exactly after as many complete
  windows as corrections of the permitted size are needed. After any history of such observations
  the running sum, the estimate and the residual have been computed without overflow (each step is
  the one in unbounded arithmetic), the estimate is within \<open>b\<close>, and the next correction is at most
  the permitted size.
\<close>

theorem drift_converges:
  fixes window :: nat and limit drift b d :: int and drifts :: "int list"
  assumes "- (2 ^ 63) \<le> limit" "limit < 2 ^ 63" "b * int (max window 1) < 2 ^ 62"
    and "\<bar>drift\<bar> \<le> b" "\<bar>drift\<bar> \<le> int k * max limit 1"
    and "\<forall>x \<in> set drifts. \<bar>x\<bar> \<le> b" "\<bar>d\<bar> \<le> b"
  defines "s \<equiv> make_DriftSampler window limit"
  shows "ds_estimated_drift_microseconds (ds_run s (replicate (k * max window 1) drift)) = drift
    \<and> snd (ds_observe (ds_run s drifts) d) = ds_observe_exact (ds_run s drifts) d
    \<and> \<bar>ds_estimated_drift_microseconds (ds_run s drifts)\<bar> \<le> b
    \<and> \<bar>du_correction_microseconds (fst (ds_observe (ds_run s drifts) d))\<bar> \<le> max limit 1"
proof (intro conjI)
  have w: "sampler_within b s" unfolding s_def using assms(1-4) by (intro sampler_within_make) simp_all
  have r: "sampler_within b (ds_run s drifts)" by (rule ds_run_within [OF w assms(6)])
  show "ds_estimated_drift_microseconds (ds_run s (replicate (k * max window 1) drift)) = drift"
    using ds_run_windows [OF w assms(4), of k] assms(1,2,5) by (simp add: s_def make_DriftSampler_def)
  show "snd (ds_observe (ds_run s drifts) d) = ds_observe_exact (ds_run s drifts) d"
    by (rule ds_observe_within(1) [OF r assms(7)])
  show "\<bar>ds_estimated_drift_microseconds (ds_run s drifts)\<bar> \<le> b" using r by (simp add: sampler_within_def)
  have "ds_maximum_correction_microseconds (ds_run s' xs) = ds_maximum_correction_microseconds s'"
    if "sampler_ok s'" for s' xs
    using that by (induction xs arbitrary: s') (simp_all add: sampler_ok_observe ds_observe_bounded)
  then have "ds_maximum_correction_microseconds (ds_run s drifts) = max limit 1"
    using assms(1,2) sampler_ok_make by (simp add: s_def) (simp add: make_DriftSampler_def)
  then show "\<bar>du_correction_microseconds (fst (ds_observe (ds_run s drifts) d))\<bar> \<le> max limit 1"
    using ds_observe_bounded(1) [of "ds_run s drifts" d] r by (simp add: sampler_within_def)
qed

theorem drift_converges_witness:
  "ds_estimated_drift_microseconds (ds_run (make_DriftSampler 2 5) (replicate (3 * max 2 1) (- 12))) = - 12
    \<and> \<bar>ds_estimated_drift_microseconds (ds_run (make_DriftSampler 2 5) [20, - 7, 3])\<bar> \<le> 20"
  using drift_converges [of 5 20 2 "- 12" 3 "[20, - 7, 3]" 9] by simp

end
