(* ===== verification/Timers.thy ===== *)
theory Timers
  imports Live_Rate
begin

text \<open>
  \<^verbatim>\<open>timing.hpp\<close> and \<^verbatim>\<open>timing.cpp\<close>, the timers of a session: the control timer scheduler
  (acknowledgements, loss reports, keepalives), the sender's retransmission timer, the packet
  pacer and the monitor of late timer wake-ups. All times are 64-bit microseconds and wrap where
  the code lets them wrap. The playout clock of the same files is in the theory \<open>Tsbpd\<close>.
\<close>

section \<open>Control timers\<close>

datatype TimerActionKind =
    full_acknowledgement
  | lite_acknowledgement
  | periodic_loss_report
  | keepalive

record TimerActions =
  ta_values :: "TimerActionKind list"
  ta_size :: nat

definition default_TimerActions :: TimerActions where
  "default_TimerActions = \<lparr>ta_values = replicate 4 full_acknowledgement, ta_size = 0\<rparr>"

definition ta_push :: "TimerActions \<Rightarrow> TimerActionKind \<Rightarrow> TimerActions" where
  "ta_push actions action =
     (if ta_size actions < length (ta_values actions) then
        \<lparr>ta_values = (ta_values actions)[ta_size actions := action], ta_size = ta_size actions + 1\<rparr>
      else actions)"

record TimerConfiguration =
  tf_acknowledgement_interval_microseconds :: u64
  tf_keepalive_interval_microseconds :: u64
  tf_lite_acknowledgement_packet_interval :: u32

definition default_TimerConfiguration :: TimerConfiguration where
  "default_TimerConfiguration =
     \<lparr>tf_acknowledgement_interval_microseconds = 10000, tf_keepalive_interval_microseconds = 1000000,
      tf_lite_acknowledgement_packet_interval = 64\<rparr>"

record ControlTimerScheduler =
  cs_configuration :: TimerConfiguration
  cs_next_ack_microseconds :: u64
  cs_next_nak_microseconds :: u64
  cs_last_send_microseconds :: u64
  cs_packets_since_full_ack :: u32
  cs_next_lite_ack_threshold :: u32
  cs_nak_interval_microseconds :: u32
  cs_acknowledgement_dirty :: bool
  cs_has_loss :: bool

abbreviation (input) minimum_nak_interval_microseconds :: u32 where
  "minimum_nak_interval_microseconds \<equiv> 20000"

definition make_ControlTimerScheduler :: "u64 \<Rightarrow> TimerConfiguration \<Rightarrow> ControlTimerScheduler" where
  "make_ControlTimerScheduler start configuration =
     (let conf = \<lparr>tf_acknowledgement_interval_microseconds =
                    max (tf_acknowledgement_interval_microseconds configuration) 1,
                  tf_keepalive_interval_microseconds =
                    max (tf_keepalive_interval_microseconds configuration) 1,
                  tf_lite_acknowledgement_packet_interval =
                    max (tf_lite_acknowledgement_packet_interval configuration) 1\<rparr>
      in \<lparr>cs_configuration = conf,
          cs_next_ack_microseconds = start + tf_acknowledgement_interval_microseconds conf,
          cs_next_nak_microseconds = start + ucast minimum_nak_interval_microseconds,
          cs_last_send_microseconds = start,
          cs_packets_since_full_ack = 0,
          cs_next_lite_ack_threshold = tf_lite_acknowledgement_packet_interval conf,
          cs_nak_interval_microseconds = minimum_nak_interval_microseconds,
          cs_acknowledgement_dirty = False,
          cs_has_loss = False\<rparr>)"

definition cs_set_keepalive_interval :: "ControlTimerScheduler \<Rightarrow> u64 \<Rightarrow> ControlTimerScheduler" where
  "cs_set_keepalive_interval s microseconds =
     s \<lparr>cs_configuration := (cs_configuration s) \<lparr>tf_keepalive_interval_microseconds := max microseconds 1\<rparr>\<rparr>"

definition cs_on_data_received :: "ControlTimerScheduler \<Rightarrow> ControlTimerScheduler" where
  "cs_on_data_received s =
     s \<lparr>cs_acknowledgement_dirty := True, cs_packets_since_full_ack := cs_packets_since_full_ack s + 1\<rparr>"

definition cs_on_receive_buffer_released ::
    "ControlTimerScheduler \<Rightarrow> u64 \<Rightarrow> bool \<Rightarrow> ControlTimerScheduler" where
  "cs_on_receive_buffer_released s now expedite =
     (let s1 = s \<lparr>cs_acknowledgement_dirty := True\<rparr>
      in if expedite then s1 \<lparr>cs_next_ack_microseconds := min (cs_next_ack_microseconds s1) now\<rparr> else s1)"

text \<open>The bookkeeping a full acknowledgement resets, shared by the flush and the poll.\<close>

definition cs_full_ack_sent :: "ControlTimerScheduler \<Rightarrow> u64 \<Rightarrow> ControlTimerScheduler" where
  "cs_full_ack_sent s now =
     s \<lparr>cs_acknowledgement_dirty := False, cs_packets_since_full_ack := 0,
        cs_next_lite_ack_threshold := tf_lite_acknowledgement_packet_interval (cs_configuration s),
        cs_next_ack_microseconds := now + tf_acknowledgement_interval_microseconds (cs_configuration s)\<rparr>"

definition cs_flush_full_acknowledgement :: "ControlTimerScheduler \<Rightarrow> u64 \<Rightarrow> bool \<times> ControlTimerScheduler" where
  "cs_flush_full_acknowledgement s now =
     (if \<not> cs_acknowledgement_dirty s then (False, s) else (True, cs_full_ack_sent s now))"

definition cs_on_packet_sent :: "ControlTimerScheduler \<Rightarrow> u64 \<Rightarrow> ControlTimerScheduler" where
  "cs_on_packet_sent s now = s \<lparr>cs_last_send_microseconds := now\<rparr>"

definition cs_set_loss_state ::
    "ControlTimerScheduler \<Rightarrow> bool \<Rightarrow> u64 \<Rightarrow> u32 \<Rightarrow> bool \<Rightarrow> ControlTimerScheduler" where
  "cs_set_loss_state s has_loss now nak_interval defer_initial_report =
     (let previous_interval = cs_nak_interval_microseconds s;
          interval = max nak_interval minimum_nak_interval_microseconds;
          s1 = s \<lparr>cs_nak_interval_microseconds := interval\<rparr>;
          s2 = (if has_loss \<and> \<not> cs_has_loss s1 then
                  s1 \<lparr>cs_next_nak_microseconds :=
                        (if defer_initial_report then
                           if now > 0xffffffffffffffff - ucast interval then 0xffffffffffffffff
                           else now + ucast interval
                         else now)\<rparr>
                else s1);
          s3 = (if has_loss \<and> cs_has_loss s2 \<and> interval < previous_interval then
                  let revised = now + min (ucast interval) (0xffffffffffffffff - now)
                  in s2 \<lparr>cs_next_nak_microseconds := min (cs_next_nak_microseconds s2) revised\<rparr>
                else s2)
      in s3 \<lparr>cs_has_loss := has_loss\<rparr>)"

definition cs_next_deadline :: "ControlTimerScheduler \<Rightarrow> u64 \<Rightarrow> u64" where
  "cs_next_deadline s now =
     (let deadline = cs_last_send_microseconds s
            + min (tf_keepalive_interval_microseconds (cs_configuration s))
                  (0xffffffffffffffff - cs_last_send_microseconds s);
          deadline = (if cs_acknowledgement_dirty s then
                        let deadline = min deadline (cs_next_ack_microseconds s)
                        in if cs_packets_since_full_ack s \<ge> cs_next_lite_ack_threshold s
                           then min deadline now else deadline
                      else deadline)
      in if cs_has_loss s then min deadline (cs_next_nak_microseconds s) else deadline)"

definition cs_poll :: "ControlTimerScheduler \<Rightarrow> u64 \<Rightarrow> TimerActions \<times> ControlTimerScheduler" where
  "cs_poll s now =
     (let actions = default_TimerActions;
          (actions, s) =
            (if cs_acknowledgement_dirty s \<and> now \<ge> cs_next_ack_microseconds s then
               (ta_push actions full_acknowledgement, cs_full_ack_sent s now)
             else if cs_acknowledgement_dirty s \<and> cs_packets_since_full_ack s \<ge> cs_next_lite_ack_threshold s then
               (ta_push actions lite_acknowledgement,
                s \<lparr>cs_next_lite_ack_threshold := cs_next_lite_ack_threshold s
                     + tf_lite_acknowledgement_packet_interval (cs_configuration s)\<rparr>)
             else (actions, s));
          (actions, s) =
            (if cs_has_loss s \<and> now \<ge> cs_next_nak_microseconds s then
               (ta_push actions periodic_loss_report,
                s \<lparr>cs_next_nak_microseconds := now + ucast (cs_nak_interval_microseconds s)\<rparr>)
             else (actions, s))
      in if now \<ge> cs_last_send_microseconds s + tf_keepalive_interval_microseconds (cs_configuration s) then
           (ta_push actions keepalive, s \<lparr>cs_last_send_microseconds := now\<rparr>)
         else (actions, s))"

section \<open>The sender's retransmission timer\<close>

record SenderRetransmissionTimer =
  rt_last_acknowledgement_microseconds :: u64
  rt_timeout_multiplier :: u32
  rt_armed :: bool

definition make_SenderRetransmissionTimer :: "u64 \<Rightarrow> SenderRetransmissionTimer" where
  "make_SenderRetransmissionTimer start =
     \<lparr>rt_last_acknowledgement_microseconds = start, rt_timeout_multiplier = 1, rt_armed = False\<rparr>"

definition rt_on_data_packet_sent :: "SenderRetransmissionTimer \<Rightarrow> u64 \<Rightarrow> SenderRetransmissionTimer" where
  "rt_on_data_packet_sent t now =
     (if rt_armed t then t
      else \<lparr>rt_last_acknowledgement_microseconds = now, rt_timeout_multiplier = 1, rt_armed = True\<rparr>)"

definition rt_on_acknowledgement_received ::
    "SenderRetransmissionTimer \<Rightarrow> u64 \<Rightarrow> bool \<Rightarrow> SenderRetransmissionTimer" where
  "rt_on_acknowledgement_received t now has_packets_in_flight =
     \<lparr>rt_last_acknowledgement_microseconds = now, rt_timeout_multiplier = 1, rt_armed = has_packets_in_flight\<rparr>"

definition rt_on_no_packets_in_flight :: "SenderRetransmissionTimer \<Rightarrow> SenderRetransmissionTimer" where
  "rt_on_no_packets_in_flight t = t \<lparr>rt_timeout_multiplier := 1, rt_armed := False\<rparr>"

definition rt_timeout_interval :: "SenderRetransmissionTimer \<Rightarrow> u32 \<Rightarrow> u32 \<Rightarrow> u64" where
  "rt_timeout_interval t smoothed variation =
     (let round_trip_timeout = ucast smoothed + 4 * ucast variation + 2 * 10000 :: u64;
          maximum = 0xffffffffffffffff
      in if round_trip_timeout \<noteq> 0
            \<and> ucast (rt_timeout_multiplier t) > (maximum - 10000) div round_trip_timeout
         then maximum
         else ucast (rt_timeout_multiplier t) * round_trip_timeout + 10000)"

definition rt_next_deadline :: "SenderRetransmissionTimer \<Rightarrow> u32 \<Rightarrow> u32 \<Rightarrow> u64 option" where
  "rt_next_deadline t smoothed variation =
     (if \<not> rt_armed t then None
      else
        let interval = rt_timeout_interval t smoothed variation;
            maximum = 0xffffffffffffffff
        in if interval > maximum - rt_last_acknowledgement_microseconds t then Some maximum
           else Some (rt_last_acknowledgement_microseconds t + interval))"

definition rt_poll ::
    "SenderRetransmissionTimer \<Rightarrow> u64 \<Rightarrow> u32 \<Rightarrow> u32 \<Rightarrow> bool \<times> SenderRetransmissionTimer" where
  "rt_poll t now smoothed variation =
     (case rt_next_deadline t smoothed variation of
        None \<Rightarrow> (False, t)
      | Some deadline \<Rightarrow>
          if now < deadline then (False, t)
          else (True, if rt_timeout_multiplier t \<noteq> 0xffffffff
                      then t \<lparr>rt_timeout_multiplier := rt_timeout_multiplier t + 1\<rparr> else t))"

section \<open>The packet pacer\<close>

record PaceDecision =
  pd_ready :: bool
  pd_next_ready_microseconds :: u64

record PacketPacer =
  pp_bytes_per_second :: u64
  pp_flow_window_packets :: u64
  pp_next_send_microseconds :: u64
  pp_schedule_credit_microseconds :: u64
  pp_has_schedule :: bool

definition make_PacketPacer :: "u64 \<Rightarrow> u64 \<Rightarrow> PacketPacer" where
  "make_PacketPacer bytes_per_second flow_window_packets =
     \<lparr>pp_bytes_per_second = max bytes_per_second 1, pp_flow_window_packets = max flow_window_packets 1,
      pp_next_send_microseconds = 0, pp_schedule_credit_microseconds = 1000, pp_has_schedule = False\<rparr>"

definition pp_query :: "PacketPacer \<Rightarrow> u64 \<Rightarrow> u64 \<Rightarrow> PaceDecision" where
  "pp_query p now packets_in_flight =
     \<lparr>pd_ready = (packets_in_flight < pp_flow_window_packets p \<and> now \<ge> pp_next_send_microseconds p),
      pd_next_ready_microseconds = pp_next_send_microseconds p\<rparr>"

text \<open>
  The platform macro \<^verbatim>\<open>ROBOTWEAX_SRT_SUBMILLISECOND_TIMER_PACING\<close> is the argument
  \<open>submillisecond\<close>: both schedules of the source are modelled.
\<close>

definition pp_on_packet_sent :: "bool \<Rightarrow> PacketPacer \<Rightarrow> u64 \<Rightarrow> u64 \<Rightarrow> PacketPacer" where
  "pp_on_packet_sent submillisecond p bytes now =
     (let interval = max 1 ((bytes * 1000000 + pp_bytes_per_second p - 1) div pp_bytes_per_second p)
      in if submillisecond then
           let keeps_schedule = pp_has_schedule p
                 \<and> now \<le> pp_next_send_microseconds p + pp_schedule_credit_microseconds p;
               base = (if keeps_schedule then pp_next_send_microseconds p else now)
           in p \<lparr>pp_next_send_microseconds := base + interval, pp_has_schedule := True\<rparr>
         else p \<lparr>pp_next_send_microseconds := max (pp_next_send_microseconds p) now + interval\<rparr>)"

definition pp_set_schedule_credit :: "PacketPacer \<Rightarrow> u64 \<Rightarrow> PacketPacer" where
  "pp_set_schedule_credit p microseconds = p \<lparr>pp_schedule_credit_microseconds := microseconds\<rparr>"

definition pp_set_rate :: "PacketPacer \<Rightarrow> u64 \<Rightarrow> PacketPacer" where
  "pp_set_rate p bytes_per_second = p \<lparr>pp_bytes_per_second := max bytes_per_second 1\<rparr>"

definition pp_set_flow_window :: "PacketPacer \<Rightarrow> u64 \<Rightarrow> PacketPacer" where
  "pp_set_flow_window p packets = p \<lparr>pp_flow_window_packets := max packets 1\<rparr>"

section \<open>The wake-up monitor\<close>

record TimerWakeMonitor =
  wm_late_streak :: nat
  wm_punctual_streak :: nat
  wm_coarse :: bool

definition default_TimerWakeMonitor :: TimerWakeMonitor where
  "default_TimerWakeMonitor = \<lparr>wm_late_streak = 0, wm_punctual_streak = 0, wm_coarse = False\<rparr>"

abbreviation (input) late_threshold_microseconds :: u64 where "late_threshold_microseconds \<equiv> 1000"
abbreviation (input) punctual_threshold_microseconds :: u64 where "punctual_threshold_microseconds \<equiv> 250"
abbreviation (input) late_streak_to_enter :: nat where "late_streak_to_enter \<equiv> 3"
abbreviation (input) punctual_streak_to_leave :: nat where "punctual_streak_to_leave \<equiv> 16"

definition wm_observe :: "TimerWakeMonitor \<Rightarrow> u64 \<Rightarrow> TimerWakeMonitor" where
  "wm_observe w lateness =
     (if lateness > late_threshold_microseconds then
        let w = w \<lparr>wm_punctual_streak := 0\<rparr>;
            w = (if wm_late_streak w < late_streak_to_enter
                 then w \<lparr>wm_late_streak := wm_late_streak w + 1\<rparr> else w)
        in if wm_late_streak w \<ge> late_streak_to_enter then w \<lparr>wm_coarse := True\<rparr> else w
      else
        let w = w \<lparr>wm_late_streak := 0\<rparr>
        in if lateness \<le> punctual_threshold_microseconds then
             let w = (if wm_punctual_streak w < punctual_streak_to_leave
                      then w \<lparr>wm_punctual_streak := wm_punctual_streak w + 1\<rparr> else w)
             in if wm_punctual_streak w \<ge> punctual_streak_to_leave then w \<lparr>wm_coarse := False\<rparr> else w
           else w)"

section \<open>Polling and deadlines agree\<close>

text \<open>The intervals of a scheduler are positive: the constructor and every operation keep this.\<close>

definition scheduler_ok :: "ControlTimerScheduler \<Rightarrow> bool" where
  "scheduler_ok s \<longleftrightarrow>
     0 < tf_acknowledgement_interval_microseconds (cs_configuration s)
     \<and> 0 < tf_keepalive_interval_microseconds (cs_configuration s)
     \<and> 0 < tf_lite_acknowledgement_packet_interval (cs_configuration s)
     \<and> 20000 \<le> cs_nak_interval_microseconds s"

lemma scheduler_ok_make: "scheduler_ok (make_ControlTimerScheduler start conf)"
  by (simp add: scheduler_ok_def make_ControlTimerScheduler_def less_max_iff_disj)

lemma scheduler_ok_full_ack: "scheduler_ok s \<Longrightarrow> scheduler_ok (cs_full_ack_sent s now)"
  by (simp add: scheduler_ok_def cs_full_ack_sent_def)

lemma scheduler_ok_poll: "scheduler_ok s \<Longrightarrow> scheduler_ok (snd (cs_poll s now))"
  by (simp add: scheduler_ok_def cs_poll_def cs_full_ack_sent_def)

lemma scheduler_ok_events:
  assumes "scheduler_ok s"
  shows "scheduler_ok (cs_set_keepalive_interval s interval)" "scheduler_ok (cs_on_data_received s)"
    "scheduler_ok (cs_on_receive_buffer_released s now expedite)"
    "scheduler_ok (snd (cs_flush_full_acknowledgement s now))" "scheduler_ok (cs_on_packet_sent s now)"
    "scheduler_ok (cs_set_loss_state s has_loss now nak deferred)"
  using assms scheduler_ok_full_ack [OF assms]
  by (simp_all add: scheduler_ok_def cs_set_keepalive_interval_def cs_on_data_received_def
      cs_on_receive_buffer_released_def cs_flush_full_acknowledgement_def cs_on_packet_sent_def
      cs_set_loss_state_def Let_def less_max_iff_disj)

text \<open>The conditions under which each action is due.\<close>

definition full_due :: "ControlTimerScheduler \<Rightarrow> u64 \<Rightarrow> bool" where
  "full_due s now \<longleftrightarrow> cs_acknowledgement_dirty s \<and> cs_next_ack_microseconds s \<le> now"

definition lite_due :: "ControlTimerScheduler \<Rightarrow> bool" where
  "lite_due s \<longleftrightarrow> cs_acknowledgement_dirty s \<and> cs_next_lite_ack_threshold s \<le> cs_packets_since_full_ack s"

definition report_due :: "ControlTimerScheduler \<Rightarrow> u64 \<Rightarrow> bool" where
  "report_due s now \<longleftrightarrow> cs_has_loss s \<and> cs_next_nak_microseconds s \<le> now"

definition keepalive_due :: "ControlTimerScheduler \<Rightarrow> u64 \<Rightarrow> bool" where
  "keepalive_due s now \<longleftrightarrow>
     unat (cs_last_send_microseconds s) + unat (tf_keepalive_interval_microseconds (cs_configuration s)) \<le> unat now"

definition due_actions :: "ControlTimerScheduler \<Rightarrow> u64 \<Rightarrow> TimerActionKind list" where
  "due_actions s now =
     (if full_due s now then [full_acknowledgement] else if lite_due s then [lite_acknowledgement] else [])
     @ (if report_due s now then [periodic_loss_report] else [])
     @ (if keepalive_due s now then [keepalive] else [])"

definition ta_list :: "TimerActions \<Rightarrow> TimerActionKind list" where
  "ta_list actions = take (ta_size actions) (ta_values actions)"

lemma ta_list_push:
  assumes "length (ta_values a) = 4" "ta_size a < 4"
  shows "ta_list (ta_push a k) = ta_list a @ [k]" "ta_size (ta_push a k) = ta_size a + 1"
    "length (ta_values (ta_push a k)) = 4"
  using assms by (simp_all add: ta_list_def ta_push_def take_Suc_conv_app_nth)

lemma ta_list_default: "ta_list default_TimerActions = []" "length (ta_values default_TimerActions) = 4"
    "ta_size default_TimerActions = 0"
  by (simp_all add: ta_list_def default_TimerActions_def)

lemma keepalive_due_word:
  fixes a b now :: u64
  assumes "unat a + unat b < 18446744073709551616"
  shows "a + b \<le> now \<longleftrightarrow> unat a + unat b \<le> unat now"
  using assms by (simp add: word_le_nat_alt unat_add_no_wrap)

lemma cs_poll_actions:
  assumes "unat (cs_last_send_microseconds s) + unat (tf_keepalive_interval_microseconds (cs_configuration s))
    < 18446744073709551616"
  shows "ta_list (fst (cs_poll s now)) = due_actions s now"
  using keepalive_due_word [OF assms, of now]
  by (simp add: cs_poll_def cs_full_ack_sent_def due_actions_def full_due_def lite_due_def report_due_def
      keepalive_due_def ta_list_push ta_list_default)

lemma unat_saturated_keepalive:
  fixes a b :: u64
  shows "unat (a + min b (0xffffffffffffffff - a)) = min (unat a + unat b) 18446744073709551615"
proof -
  have "unat (0xffffffffffffffff - a) = 18446744073709551615 - unat a"
    using unat_lt64 [of a] by (subst unat_sub) (simp_all add: word_le_nat_alt)
  then have m: "unat (min b (0xffffffffffffffff - a)) = min (unat b) (18446744073709551615 - unat a)"
    by (simp only: unat_min)
  have "unat a + min (unat b) (18446744073709551615 - unat a) = min (unat a + unat b) 18446744073709551615"
    using unat_lt64 [of a] by linarith
  then show ?thesis by (subst unat_add_no_wrap) (simp_all only: m, simp)
qed

lemma deadline_reached_iff:
  assumes "unat (cs_last_send_microseconds s) + unat (tf_keepalive_interval_microseconds (cs_configuration s))
    < 18446744073709551616"
  shows "cs_next_deadline s now \<le> now \<longleftrightarrow> due_actions s now \<noteq> []"
proof -
  let ?k = "cs_last_send_microseconds s + min (tf_keepalive_interval_microseconds (cs_configuration s))
    (0xffffffffffffffff - cs_last_send_microseconds s)"
  have "?k \<le> now \<longleftrightarrow> keepalive_due s now"
    using assms by (simp add: word_le_nat_alt unat_saturated_keepalive keepalive_due_def)
  then show ?thesis
    by (simp add: cs_next_deadline_def Let_def due_actions_def full_due_def lite_due_def report_due_def
        min_le_iff_disj)
qed

text \<open>The state after a poll, by what was due.\<close>

definition after_poll :: "ControlTimerScheduler \<Rightarrow> u64 \<Rightarrow> ControlTimerScheduler" where
  "after_poll s now =
     (let s1 = (if full_due s now then cs_full_ack_sent s now
                else if lite_due s then s \<lparr>cs_next_lite_ack_threshold := cs_next_lite_ack_threshold s
                     + tf_lite_acknowledgement_packet_interval (cs_configuration s)\<rparr>
                else s);
          s2 = (if report_due s now
                then s1 \<lparr>cs_next_nak_microseconds := now + ucast (cs_nak_interval_microseconds s)\<rparr> else s1)
      in if keepalive_due s now then s2 \<lparr>cs_last_send_microseconds := now\<rparr> else s2)"

lemma cs_poll_state:
  assumes "unat (cs_last_send_microseconds s) + unat (tf_keepalive_interval_microseconds (cs_configuration s))
    < 18446744073709551616"
  shows "snd (cs_poll s now) = after_poll s now"
proof -
  have k: "keepalive_due s now \<longleftrightarrow>
      now \<ge> cs_last_send_microseconds s + tf_keepalive_interval_microseconds (cs_configuration s)"
    using keepalive_due_word [OF assms, of now] by (simp add: keepalive_due_def)
  show ?thesis
    unfolding cs_poll_def after_poll_def Let_def full_due_def [symmetric] lite_due_def [symmetric]
    by (cases "full_due s now"; cases "lite_due s"; cases "cs_has_loss s"; cases "cs_next_nak_microseconds s \<le> now")
      (simp_all add: k report_due_def cs_full_ack_sent_def)
qed

lemma after_poll_idle: "due_actions s now = [] \<Longrightarrow> after_poll s now = s"
  by (simp add: due_actions_def after_poll_def split: if_splits)

text \<open>After a poll nothing is due at the same instant, so the next deadline lies ahead.\<close>

definition polling_bounds :: "ControlTimerScheduler \<Rightarrow> u64 \<Rightarrow> bool" where
  "polling_bounds s now \<longleftrightarrow>
     unat now + unat (tf_keepalive_interval_microseconds (cs_configuration s)) < 9223372036854775808
     \<and> unat (tf_acknowledgement_interval_microseconds (cs_configuration s)) < 9223372036854775808
     \<and> unat (cs_packets_since_full_ack s) < unat (cs_next_lite_ack_threshold s)
          + unat (tf_lite_acknowledgement_packet_interval (cs_configuration s))
     \<and> unat (cs_next_lite_ack_threshold s)
          + unat (tf_lite_acknowledgement_packet_interval (cs_configuration s)) < 4294967296"

lemma after_poll_not_due:
  assumes "scheduler_ok s" "polling_bounds s now"
  shows "due_actions (after_poll s now) now = []"
proof -
  have pos: "0 < unat (tf_acknowledgement_interval_microseconds (cs_configuration s))"
    "0 < unat (tf_keepalive_interval_microseconds (cs_configuration s))"
    "0 < unat (tf_lite_acknowledgement_packet_interval (cs_configuration s))"
    "0 < unat (cs_nak_interval_microseconds s)"
    using assms(1) by (auto simp: scheduler_ok_def word_less_nat_alt word_le_nat_alt)
  have ack: "\<not> now + tf_acknowledgement_interval_microseconds (cs_configuration s) \<le> now"
    using assms(2) pos(1) by (simp add: polling_bounds_def word_le_nat_alt unat_add_no_wrap)
  have nak: "\<not> now + ucast (cs_nak_interval_microseconds s) \<le> now"
    using assms(2) pos(4) unat_lt32 [of "cs_nak_interval_microseconds s"]
    by (simp add: polling_bounds_def word_le_nat_alt unat_add_no_wrap)
  have lite: "\<not> cs_next_lite_ack_threshold s + tf_lite_acknowledgement_packet_interval (cs_configuration s)
      \<le> cs_packets_since_full_ack s"
    using assms(2) by (simp add: polling_bounds_def word_le_nat_alt unat_add_no_wrap)
  have lite0: "\<not> tf_lite_acknowledgement_packet_interval (cs_configuration s) \<le> 0"
    using pos(3) by auto
  have "\<not> full_due (after_poll s now) now" "\<not> lite_due (after_poll s now)"
    using ack lite lite0 by (auto simp: after_poll_def Let_def full_due_def lite_due_def cs_full_ack_sent_def)
  moreover have "\<not> report_due (after_poll s now) now" "\<not> keepalive_due (after_poll s now) now"
    using nak pos(2) by (auto simp: after_poll_def Let_def report_due_def keepalive_due_def cs_full_ack_sent_def)
  ultimately show ?thesis by (simp add: due_actions_def)
qed

text \<open>
  C22. The control scheduler's deadline is exact and polling it makes progress. As long as the
  keepalive time fits in 64 bits, a poll returns precisely the actions that are due, none of them
  dropped by the fixed array; the deadline has been reached exactly when there is such an action,
  and before it a poll changes nothing. After a poll (with at most one lite acknowledgement
  outstanding) the next deadline lies strictly in the future, so a loop that sleeps until the
  deadline never spins and never sleeps past a due action.
\<close>

theorem control_timer_deadline:
  fixes s :: ControlTimerScheduler and now :: u64
  assumes "scheduler_ok s"
    and "unat (cs_last_send_microseconds s) + unat (tf_keepalive_interval_microseconds (cs_configuration s))
      < 18446744073709551616"
  shows "ta_list (fst (cs_poll s now)) = due_actions s now
    \<and> (cs_next_deadline s now \<le> now \<longleftrightarrow> due_actions s now \<noteq> [])
    \<and> (now < cs_next_deadline s now \<longrightarrow> snd (cs_poll s now) = s)
    \<and> (polling_bounds s now \<longrightarrow> now < cs_next_deadline (snd (cs_poll s now)) now)"
proof (intro conjI impI)
  show "ta_list (fst (cs_poll s now)) = due_actions s now" by (rule cs_poll_actions [OF assms(2)])
  show reached: "cs_next_deadline s now \<le> now \<longleftrightarrow> due_actions s now \<noteq> []"
    by (rule deadline_reached_iff [OF assms(2)])
  show "snd (cs_poll s now) = s" if "now < cs_next_deadline s now"
    using that reached by (simp add: cs_poll_state [OF assms(2)] after_poll_idle not_le [symmetric])
  assume bounds: "polling_bounds s now"
  have "unat (cs_last_send_microseconds (after_poll s now))
      + unat (tf_keepalive_interval_microseconds (cs_configuration (after_poll s now))) < 18446744073709551616"
    using assms(2) bounds by (simp add: after_poll_def Let_def cs_full_ack_sent_def polling_bounds_def)
  from deadline_reached_iff [OF this, of now] after_poll_not_due [OF assms(1) bounds]
  show "now < cs_next_deadline (snd (cs_poll s now)) now"
    by (simp add: cs_poll_state [OF assms(2)] not_le [symmetric])
qed

theorem control_timer_deadline_witness:
  "let s = cs_on_data_received (make_ControlTimerScheduler 1000 default_TimerConfiguration)
   in ta_list (fst (cs_poll s 11000)) = [full_acknowledgement]
      \<and> snd (cs_poll s 10999) = s \<and> 11000 < cs_next_deadline (snd (cs_poll s 11000)) 11000"
proof -
  let ?s = "cs_on_data_received (make_ControlTimerScheduler 1000 default_TimerConfiguration)"
  have ok: "scheduler_ok ?s" by (simp add: scheduler_ok_events scheduler_ok_make)
  note defs = cs_on_data_received_def make_ControlTimerScheduler_def default_TimerConfiguration_def Let_def
  have fits: "unat (cs_last_send_microseconds ?s) + unat (tf_keepalive_interval_microseconds (cs_configuration ?s))
      < 18446744073709551616" by (simp add: defs)
  have "due_actions ?s 11000 = [full_acknowledgement]"
    by (simp add: defs due_actions_def full_due_def report_due_def keepalive_due_def lite_due_def word_le_nat_alt)
  moreover have "10999 < cs_next_deadline ?s 10999" by (simp add: defs cs_next_deadline_def word_le_nat_alt)
  moreover have "polling_bounds ?s 11000" by (simp add: polling_bounds_def defs)
  ultimately show ?thesis
    using control_timer_deadline [OF ok fits] unfolding Let_def by metis
qed

section \<open>The retransmission timeout\<close>

definition round_trip_timeout :: "u32 \<Rightarrow> u32 \<Rightarrow> nat" where
  "round_trip_timeout smoothed variation = unat smoothed + 4 * unat variation + 20000"

lemma unat_timeout_interval:
  "unat (rt_timeout_interval t smoothed variation) =
     min (unat (rt_timeout_multiplier t) * round_trip_timeout smoothed variation + 10000) 18446744073709551615"
proof -
  define r where "r = (ucast smoothed + 4 * ucast variation + 2 * 10000 :: u64)"
  let ?m = "ucast (rt_timeout_multiplier t) :: u64"
  have r: "unat r = round_trip_timeout smoothed variation"
    using unat_lt32 [of smoothed] unat_lt32 [of variation]
    by (simp add: r_def round_trip_timeout_def unat_add_no_wrap unat_mult_no_wrap)
  then have pos: "0 < unat r" by (simp add: round_trip_timeout_def)
  have guard: "(0xffffffffffffffff - 10000) div r < ?m \<longleftrightarrow> 18446744073709541615 < unat ?m * unat r"
    by (simp add: word_less_nat_alt unat_div div_less_iff_less_mult pos)
  have code: "rt_timeout_interval t smoothed variation =
      (if (0xffffffffffffffff - 10000) div r < ?m then 0xffffffffffffffff else ?m * r + 10000)"
  proof -
    have "r \<noteq> 0" using pos by auto
    then show ?thesis by (simp only: rt_timeout_interval_def Let_def r_def [symmetric]) simp
  qed
  show ?thesis
  proof (cases "18446744073709541615 < unat ?m * unat r")
    case True
    then show ?thesis unfolding code if_P [OF iffD2 [OF guard True]] by (simp add: r)
  next
    case False
    then have "unat (?m * r + 10000) = unat ?m * unat r + 10000"
      by (simp add: unat_add_no_wrap unat_mult_no_wrap)
    then show ?thesis using False unfolding code guard by (simp add: r)
  qed
qed

lemma rt_next_deadline_armed:
  assumes "rt_armed t"
  shows "\<exists>d. rt_next_deadline t smoothed variation = Some d \<and>
    unat d = min (unat (rt_last_acknowledgement_microseconds t)
      + (unat (rt_timeout_multiplier t) * round_trip_timeout smoothed variation + 10000)) 18446744073709551615"
proof -
  let ?a = "rt_last_acknowledgement_microseconds t" and ?i = "rt_timeout_interval t smoothed variation"
  have "rt_next_deadline t smoothed variation
      = Some (if ?i > 0xffffffffffffffff - ?a then 0xffffffffffffffff else ?a + ?i)"
    using assms by (simp add: rt_next_deadline_def Let_def)
  moreover have "min (a + min x m) m = min (a + x) m" for a x m :: nat by linarith
  ultimately show ?thesis using unat_saturating_add [of ?a ?i] by (simp add: unat_timeout_interval)
qed

text \<open>A sequence of polls, with the number of expirations it reported.\<close>

fun rt_polls :: "SenderRetransmissionTimer \<Rightarrow> (u64 \<times> u32 \<times> u32) list \<Rightarrow> nat \<times> SenderRetransmissionTimer" where
  "rt_polls t [] = (0, t)"
| "rt_polls t ((now, smoothed, variation) # polls) =
     (let (fired, t) = rt_poll t now smoothed variation;
          (n, t) = rt_polls t polls
      in (n + (if fired then 1 else 0), t))"

lemma rt_poll_effect:
  "rt_armed (snd (rt_poll t now s v)) = rt_armed t"
  "rt_last_acknowledgement_microseconds (snd (rt_poll t now s v)) = rt_last_acknowledgement_microseconds t"
  "unat (rt_timeout_multiplier (snd (rt_poll t now s v))) =
     min (unat (rt_timeout_multiplier t) + (if fst (rt_poll t now s v) then 1 else 0)) 4294967295"
proof -
  have "unat (rt_timeout_multiplier t + 1) = unat (rt_timeout_multiplier t) + 1
      \<and> unat (rt_timeout_multiplier t) < 4294967295"
    if "rt_timeout_multiplier t \<noteq> 0xffffffff"
  proof -
    have "unat (rt_timeout_multiplier t) \<noteq> unat (0xffffffff :: u32)" using that by (metis unsigned_word_eqI)
    then show ?thesis using unat_lt32 [of "rt_timeout_multiplier t"] by (subst unat_add_no_wrap) simp_all
  qed
  then show "rt_armed (snd (rt_poll t now s v)) = rt_armed t"
    "rt_last_acknowledgement_microseconds (snd (rt_poll t now s v)) = rt_last_acknowledgement_microseconds t"
    "unat (rt_timeout_multiplier (snd (rt_poll t now s v))) =
       min (unat (rt_timeout_multiplier t) + (if fst (rt_poll t now s v) then 1 else 0)) 4294967295"
    using unat_lt32 [of "rt_timeout_multiplier t"]
    by (auto simp: rt_poll_def split: option.split)
qed

lemma rt_polls_effect:
  "rt_armed (snd (rt_polls t polls)) = rt_armed t
   \<and> rt_last_acknowledgement_microseconds (snd (rt_polls t polls)) = rt_last_acknowledgement_microseconds t
   \<and> unat (rt_timeout_multiplier (snd (rt_polls t polls)))
      = min (unat (rt_timeout_multiplier t) + fst (rt_polls t polls)) 4294967295"
proof (induction polls arbitrary: t)
  case Nil
  then show ?case using unat_lt32 [of "rt_timeout_multiplier t"] by simp
next
  case (Cons poll polls)
  obtain now s v where poll: "poll = (now, s, v)" by (cases poll)
  have "min (min (m + f) b + n) b = min (m + (n + f)) b" for m f n b :: nat by linarith
  with Cons [of "snd (rt_poll t now s v)"] rt_poll_effect [of t now s v] poll
  show ?case by (simp only: rt_polls.simps split_beta Let_def fst_conv snd_conv)
qed

text \<open>
  C24. The retransmission timeout grows linearly with consecutive expirations and is exact. After
  an acknowledgement with packets in flight, and any polls of which \<open>n\<close> expired, the next
  deadline is the acknowledgement time plus \<open>(n + 1) * (SRTT + 4 * RTTVar + 20 ms) + 10 ms\<close>
  (the count saturating at 32 bits, the sum at 64 bits, never wrapping), and the next poll
  expires exactly when that deadline has passed. Without packets in flight it never expires.
\<close>

theorem retransmission_timeout_linear:
  fixes t :: SenderRetransmissionTimer and polls :: "(u64 \<times> u32 \<times> u32) list"
    and acked now :: u64 and smoothed variation :: u32
  defines "t' \<equiv> snd (rt_polls (rt_on_acknowledgement_received t acked True) polls)"
    and "n \<equiv> fst (rt_polls (rt_on_acknowledgement_received t acked True) polls)"
  defines "deadline \<equiv> min (unat acked + (min (n + 1) 4294967295 * round_trip_timeout smoothed variation + 10000))
      18446744073709551615"
  shows "map_option unat (rt_next_deadline t' smoothed variation) = Some deadline
    \<and> (fst (rt_poll t' now smoothed variation) \<longleftrightarrow> deadline \<le> unat now)
    \<and> \<not> fst (rt_poll (snd (rt_polls (rt_on_acknowledgement_received t acked False) polls)) now smoothed variation)"
proof -
  have eff: "rt_armed t'" "rt_last_acknowledgement_microseconds t' = acked"
    "unat (rt_timeout_multiplier t') = min (n + 1) 4294967295"
    using rt_polls_effect [of "rt_on_acknowledgement_received t acked True" polls]
    by (simp_all add: t'_def n_def rt_on_acknowledgement_received_def)
  from rt_next_deadline_armed [OF this(1), of smoothed variation] obtain d
    where d: "rt_next_deadline t' smoothed variation = Some d" "unat d = deadline"
    unfolding eff(2,3) deadline_def by blast
  have "\<not> rt_armed (snd (rt_polls (rt_on_acknowledgement_received t acked False) polls))"
    using rt_polls_effect [of "rt_on_acknowledgement_received t acked False" polls]
    by (simp add: rt_on_acknowledgement_received_def)
  then show ?thesis using d
    by (simp add: rt_poll_def word_less_nat_alt not_less rt_next_deadline_def [of "snd _"])
qed

section \<open>The pacer keeps the rate\<close>

fun pp_sends :: "bool \<Rightarrow> PacketPacer \<Rightarrow> (u64 \<times> u64) list \<Rightarrow> PacketPacer" where
  "pp_sends sub p [] = p"
| "pp_sends sub p ((bytes, now) # sends) = pp_sends sub (pp_on_packet_sent sub p bytes now) sends"

text \<open>Every packet is sent at a time at which the pacer reported ready.\<close>

fun paced :: "bool \<Rightarrow> PacketPacer \<Rightarrow> (u64 \<times> u64) list \<Rightarrow> bool" where
  "paced sub p [] \<longleftrightarrow> True"
| "paced sub p ((bytes, now) # sends) \<longleftrightarrow>
     pp_next_send_microseconds p \<le> now \<and> paced sub (pp_on_packet_sent sub p bytes now) sends"

abbreviation (input) sane :: "u64 \<Rightarrow> bool" where
  "sane x \<equiv> unat x \<le> 1152921504606846976"

lemma pp_interval:
  fixes bytes rate :: u64
  assumes "unat bytes \<le> 4294967296" "0 < unat rate"
  defines "i \<equiv> max 1 ((bytes * 1000000 + rate - 1) div rate)"
  shows "unat bytes * 1000000 \<le> unat i * unat rate" "unat i \<le> 4294967296000001"
proof -
  have x: "unat (bytes * 1000000) = unat bytes * 1000000"
    using assms(1) by (subst unat_mult_no_wrap) simp_all
  show le: "unat bytes * 1000000 \<le> unat i * unat rate"
    using unat_ceil_interval(1) [of "bytes * 1000000" rate] assms x by (cases "unat bytes = 0") simp_all
  show "unat i \<le> 4294967296000001"
  proof (cases "bytes = 0")
    case True
    have "rate \<noteq> 0" using assms(2) by auto
    then have "(rate - 1) div rate = 0"
      using assms(2) by (intro div_word_less) (simp add: word_less_nat_alt unat_minus_one)
    with True show ?thesis by (simp add: i_def)
  next
    case False
    then have "0 < unat bytes" by (simp add: unat_gt_0)
    then have "unat i * unat rate < unat bytes * 1000000 + unat rate"
      using unat_ceil_interval(2) [of "bytes * 1000000" rate] assms x by simp
    then have "(unat i - 1) * unat rate < unat bytes * 1000000"
      using \<open>0 < unat bytes\<close> unfolding diff_mult_distrib by linarith
    moreover have "unat i - 1 \<le> (unat i - 1) * unat rate" using assms(2) by simp
    ultimately show ?thesis using assms(1) by linarith
  qed
qed

text \<open>One paced send: where the next slot starts from, and how far it moves.\<close>

lemma pp_send_slot:
  assumes "unat bytes \<le> 4294967296" "0 < unat (pp_bytes_per_second p)" "pp_next_send_microseconds p \<le> now"
    "sane now" "sane (pp_schedule_credit_microseconds p)"
  obtains base i where
    "unat (pp_next_send_microseconds (pp_on_packet_sent sub p bytes now)) = base + i"
    "unat (pp_next_send_microseconds p) \<le> base"
    "unat now \<le> base + (if sub then unat (pp_schedule_credit_microseconds p) else 0)"
    "unat bytes * 1000000 \<le> i * unat (pp_bytes_per_second p)"
proof -
  define iw where "iw = max 1 ((bytes * 1000000 + pp_bytes_per_second p - 1) div pp_bytes_per_second p)"
  note i = pp_interval [OF assms(1,2), folded iw_def]
  define base where "base = (if sub \<and> pp_has_schedule p
      \<and> now \<le> pp_next_send_microseconds p + pp_schedule_credit_microseconds p
    then pp_next_send_microseconds p else now)"
  have next_le: "unat (pp_next_send_microseconds p) \<le> unat now" using assms(3) by (simp add: word_le_nat_alt)
  then have base_le: "unat base \<le> unat now" "unat (pp_next_send_microseconds p) \<le> unat base"
    by (simp_all add: base_def)
  have "pp_next_send_microseconds (pp_on_packet_sent sub p bytes now) = base + iw"
    using assms(3) by (simp add: pp_on_packet_sent_def Let_def iw_def base_def max_absorb2)
  moreover have "unat (base + iw) = unat base + unat iw"
    using base_le(1) i(2) assms(4) by (subst unat_add_no_wrap) simp_all
  moreover have "unat now \<le> unat base + (if sub then unat (pp_schedule_credit_microseconds p) else 0)"
    using next_le assms(4,5) by (simp add: base_def word_le_nat_alt unat_add_no_wrap)
  ultimately show thesis using that [of "unat base" "unat iw"] base_le(2) i(1) by simp
qed

lemma pp_send_keeps:
  "pp_bytes_per_second (pp_on_packet_sent sub p b n) = pp_bytes_per_second p"
  "pp_schedule_credit_microseconds (pp_on_packet_sent sub p b n) = pp_schedule_credit_microseconds p"
  by (simp_all add: pp_on_packet_sent_def Let_def)

definition total_bytes :: "(u64 \<times> u64) list \<Rightarrow> nat" where
  "total_bytes sends = sum_list (map (unat \<circ> fst) sends)"

lemma pp_sends_advance:
  assumes "paced sub p sends" "\<forall>(b, n) \<in> set sends. unat b \<le> 4294967296 \<and> sane n"
    "0 < unat (pp_bytes_per_second p)" "sane (pp_schedule_credit_microseconds p)"
  shows "unat (pp_next_send_microseconds p) * unat (pp_bytes_per_second p) + total_bytes sends * 1000000
    \<le> unat (pp_next_send_microseconds (pp_sends sub p sends)) * unat (pp_bytes_per_second p)"
  using assms
proof (induction sub p sends rule: paced.induct)
  case (2 sub p bytes now sends)
  then obtain base i where step:
    "unat (pp_next_send_microseconds (pp_on_packet_sent sub p bytes now)) = base + i"
    "unat (pp_next_send_microseconds p) \<le> base"
    "unat bytes * 1000000 \<le> i * unat (pp_bytes_per_second p)"
    by (auto elim: pp_send_slot [of bytes p now sub])
  have "unat (pp_next_send_microseconds p) * unat (pp_bytes_per_second p) \<le> base * unat (pp_bytes_per_second p)"
    using step(2) by (rule mult_le_mono1)
  moreover have "(base + i) * unat (pp_bytes_per_second p) + total_bytes sends * 1000000
      \<le> unat (pp_next_send_microseconds (pp_sends sub (pp_on_packet_sent sub p bytes now) sends))
        * unat (pp_bytes_per_second p)"
    using step(1) 2 by (simp add: pp_send_keeps)
  moreover have "total_bytes ((bytes, now) # sends) = unat bytes + total_bytes sends"
    by (simp add: total_bytes_def)
  ultimately show ?case using step(3) unfolding pp_sends.simps add_mult_distrib by linarith
qed (simp add: total_bytes_def)

text \<open>
  C21. The pacer never exceeds its rate. If packets are only sent when the pacer reports ready,
  then from the first of them to any later ready instant the bytes sent are at most the rate
  times the elapsed time, plus, with the submillisecond schedule, what the rate yields during the
  schedule credit: a pause or a late timer wake-up is never followed by a larger burst.
\<close>

theorem pacer_keeps_rate:
  fixes p :: PacketPacer and bytes start now :: u64 and flight :: u64
  assumes "paced sub p ((bytes, start) # sends)"
    and "pd_ready (pp_query (pp_sends sub p ((bytes, start) # sends)) now flight)"
    and "\<forall>(b, n) \<in> set ((bytes, start) # sends). unat b \<le> 4294967296 \<and> sane n"
    and "0 < pp_bytes_per_second p" "sane (pp_schedule_credit_microseconds p)" "start \<le> now"
  shows "total_bytes ((bytes, start) # sends) * 1000000
    \<le> unat (pp_bytes_per_second p)
       * (unat now - unat start + (if sub then unat (pp_schedule_credit_microseconds p) else 0))"
proof -
  let ?p = "pp_on_packet_sent sub p bytes start" and ?r = "unat (pp_bytes_per_second p)"
  let ?c = "if sub then unat (pp_schedule_credit_microseconds p) else 0"
  have rate: "0 < ?r" using assms(4) by (simp add: word_less_nat_alt)
  from assms rate obtain base i where step:
    "unat (pp_next_send_microseconds ?p) = base + i" "unat start \<le> base + ?c"
    "unat bytes * 1000000 \<le> i * ?r"
    by (auto elim: pp_send_slot [of bytes p start sub])
  have "unat (pp_next_send_microseconds ?p) * ?r + total_bytes sends * 1000000
      \<le> unat (pp_next_send_microseconds (pp_sends sub ?p sends)) * ?r"
    using pp_sends_advance [of sub ?p sends] assms rate by (simp add: pp_send_keeps)
  also have "\<dots> \<le> unat now * ?r"
    using assms(2) by (intro mult_le_mono1) (simp add: pp_query_def word_le_nat_alt)
  finally have "base * ?r + total_bytes ((bytes, start) # sends) * 1000000 \<le> unat now * ?r"
    using step(1,3) by (simp add: total_bytes_def add_mult_distrib)
  moreover have "unat start * ?r \<le> base * ?r + ?c * ?r"
    using mult_le_mono1 [OF step(2), of ?r] by (simp add: add_mult_distrib)
  moreover have "unat start \<le> unat now" using assms(6) by (simp add: word_le_nat_alt)
  ultimately show ?thesis
    by (simp add: mult.commute [of ?r] add_mult_distrib diff_mult_distrib)
qed

theorem pacer_keeps_rate_witness:
  "let p = make_PacketPacer 1000000 10; sends = [(1316, 5000), (1316, 6400)]
   in pd_ready (pp_query (pp_sends True p sends) 7700 3)
      \<and> total_bytes sends * 1000000 \<le> 1000000 * (7700 - 5000 + 1000)"
proof -
  let ?p = "make_PacketPacer 1000000 10"
  have "paced True ?p [(1316, 5000), (1316, 6400)]"
    "pd_ready (pp_query (pp_sends True ?p [(1316, 5000), (1316, 6400)]) 7700 3)"
    by code_simp+
  with pacer_keeps_rate [of True ?p 1316 5000 "[(1316, 6400)]" 7700 3] show ?thesis
    by (simp add: make_PacketPacer_def Let_def)
qed

section \<open>Hysteresis of the wake-up monitor\<close>

definition is_late :: "u64 \<Rightarrow> bool" where
  "is_late lateness \<longleftrightarrow> 1000 < lateness"

definition wm_run :: "u64 list \<Rightarrow> TimerWakeMonitor" where
  "wm_run history = foldl wm_observe default_TimerWakeMonitor history"

text \<open>How many wake-ups in a row were late, and how many punctual ones followed the last late one.\<close>

definition late_run :: "u64 list \<Rightarrow> nat" where
  "late_run history = length (takeWhile is_late (rev history))"

definition punctual_run :: "u64 list \<Rightarrow> nat" where
  "punctual_run history = length (filter (\<lambda>x. x \<le> 250) (takeWhile (\<lambda>x. \<not> is_late x) (rev history)))"

lemma wm_run_snoc: "wm_run (h @ [x]) = wm_observe (wm_run h) x"
  by (simp add: wm_run_def)

lemma wm_streaks:
  "wm_late_streak (wm_run h) = min 3 (late_run h) \<and> wm_punctual_streak (wm_run h) = min 16 (punctual_run h)"
proof (induction h rule: rev_induct)
  case Nil
  then show ?case by (simp add: wm_run_def default_TimerWakeMonitor_def late_run_def punctual_run_def)
next
  case (snoc x h)
  then show ?case
    by (auto simp: wm_run_snoc wm_observe_def Let_def late_run_def punctual_run_def is_late_def min_def)
qed

text \<open>
  C39. The wake-up monitor switches with hysteresis: it becomes coarse exactly when a wake-up is
  at least the third late one in a row, it becomes precise again exactly when a punctual wake-up
  is at least the sixteenth since the last late one, and otherwise it keeps its mode.
\<close>

theorem wake_monitor_hysteresis:
  "wm_coarse (wm_run (h @ [x])) =
     (if is_late x then 3 \<le> late_run (h @ [x]) \<or> wm_coarse (wm_run h)
      else if x \<le> 250 \<and> 16 \<le> punctual_run (h @ [x]) then False
      else wm_coarse (wm_run h))"
  using wm_streaks [of h]
  by (auto simp: wm_run_snoc wm_observe_def Let_def late_run_def punctual_run_def is_late_def)

end
