(* ===== verification/Tsbpd.thy ===== *)
theory Tsbpd
  imports Sequence Live_Rate
begin

text \<open>
  The playout clock of \<^verbatim>\<open>timing.hpp\<close> and \<^verbatim>\<open>timing.cpp\<close> (timestamp-based packet delivery): it
  unwraps the 32-bit packet timestamps, adds the negotiated delay and follows the drift of the
  peer's clock with a bounded slew. \<open>std::int64_t\<close> fields are \<open>int\<close>; the casts between signed and
  unsigned 64-bit values are \<open>sint\<close> and \<open>word_of_int\<close>. The theorems
  carry the bounds under which no signed value leaves its range.
\<close>

section \<open>The clock\<close>

record TsbpdClock =
  tc_time_base_microseconds :: int
  tc_latest_unwrapped_timestamp :: u64
  tc_last_slew_timestamp :: u64
  tc_delay_microseconds :: u32
  tc_target_drift_microseconds :: int
  tc_applied_drift_microseconds :: int
  tc_slew_remainder :: u64
  tc_drift_sampler :: DriftSampler
  tc_first_round_trip_time_microseconds :: "u32 option"

definition make_TsbpdClock :: "u64 \<Rightarrow> PacketTimestamp \<Rightarrow> u32 \<Rightarrow> TsbpdClock" where
  "make_TsbpdClock handshake_arrival handshake_timestamp delay =
     \<lparr>tc_time_base_microseconds = sint handshake_arrival - uint (timestamp_value handshake_timestamp),
      tc_latest_unwrapped_timestamp = ucast (timestamp_value handshake_timestamp),
      tc_last_slew_timestamp = ucast (timestamp_value handshake_timestamp),
      tc_delay_microseconds = delay,
      tc_target_drift_microseconds = 0,
      tc_applied_drift_microseconds = 0,
      tc_slew_remainder = 0,
      tc_drift_sampler = make_DriftSampler 1000 5000,
      tc_first_round_trip_time_microseconds = None\<rparr>"

definition tc_project :: "TsbpdClock \<Rightarrow> PacketTimestamp \<Rightarrow> u64" where
  "tc_project c timestamp =
     (let latest_low = ucast (tc_latest_unwrapped_timestamp c) :: u32;
          distance = sint (timestamp_value timestamp - latest_low);
          candidate_signed = sint (tc_latest_unwrapped_timestamp c) + distance
      in if candidate_signed \<le> 0 then 0 else word_of_int candidate_signed)"

definition tc_unwrap :: "TsbpdClock \<Rightarrow> PacketTimestamp \<Rightarrow> u64 \<times> TsbpdClock" where
  "tc_unwrap c timestamp =
     (let candidate = tc_project c timestamp
      in (candidate, c \<lparr>tc_latest_unwrapped_timestamp := max (tc_latest_unwrapped_timestamp c) candidate\<rparr>))"

definition tc_advance_applied_drift :: "TsbpdClock \<Rightarrow> u64 \<Rightarrow> TsbpdClock" where
  "tc_advance_applied_drift c unwrapped =
     (if unwrapped \<le> tc_last_slew_timestamp c then c
      else
        let elapsed = unwrapped - tc_last_slew_timestamp c;
            c1 = c \<lparr>tc_last_slew_timestamp := unwrapped\<rparr>
        in if tc_applied_drift_microseconds c = tc_target_drift_microseconds c then c1 \<lparr>tc_slew_remainder := 0\<rparr>
           else
             let scaled_budget = elapsed * 1000 + tc_slew_remainder c;
                 budget = scaled_budget div 1000000;
                 c2 = c1 \<lparr>tc_slew_remainder := scaled_budget mod 1000000\<rparr>
             in if budget = 0 then c2
                else
                  let difference = tc_target_drift_microseconds c - tc_applied_drift_microseconds c;
                      magnitude = word_of_int (if difference < 0 then - difference else difference) :: u64;
                      step = sint (min budget magnitude);
                      c3 = c2 \<lparr>tc_applied_drift_microseconds := tc_applied_drift_microseconds c
                               + (if difference < 0 then - step else step)\<rparr>
                  in if tc_applied_drift_microseconds c3 = tc_target_drift_microseconds c
                     then c3 \<lparr>tc_slew_remainder := 0\<rparr> else c3)"

definition signed_delivery :: "TsbpdClock \<Rightarrow> u64 \<Rightarrow> u64" where
  "signed_delivery c unwrapped =
     (let delivery = tc_time_base_microseconds c + sint unwrapped + uint (tc_delay_microseconds c)
            + tc_applied_drift_microseconds c
      in if delivery \<le> 0 then 0 else word_of_int delivery)"

definition tc_delivery_time :: "TsbpdClock \<Rightarrow> PacketTimestamp \<Rightarrow> u64 \<times> TsbpdClock" where
  "tc_delivery_time c timestamp =
     (let (unwrapped, c) = tc_unwrap c timestamp;
          c = tc_advance_applied_drift c unwrapped
      in (signed_delivery c unwrapped, c))"

definition tc_control_delivery_time :: "TsbpdClock \<Rightarrow> PacketTimestamp \<Rightarrow> u64" where
  "tc_control_delivery_time c timestamp = signed_delivery c (tc_project c timestamp)"

definition tc_observe_arrival ::
    "TsbpdClock \<Rightarrow> PacketTimestamp \<Rightarrow> u64 \<Rightarrow> u32 option \<Rightarrow> bool \<Rightarrow> DriftUpdate \<times> TsbpdClock" where
  "tc_observe_arrival c timestamp arrival round_trip_time advance_epoch =
     (let c = (if tc_first_round_trip_time_microseconds c = None \<and> round_trip_time \<noteq> None
               then c \<lparr>tc_first_round_trip_time_microseconds := round_trip_time\<rparr> else c);
          c = (if \<not> advance_epoch then
                 let local_source_time = sint arrival - tc_time_base_microseconds c
                       - tc_applied_drift_microseconds c
                 in if local_source_time > 0
                    then c \<lparr>tc_latest_unwrapped_timestamp :=
                              max (tc_latest_unwrapped_timestamp c) (word_of_int local_source_time)\<rparr>
                    else c
               else c);
          (unwrapped, c) = (if advance_epoch then tc_unwrap c timestamp else (tc_project c timestamp, c));
          rtt_delta = (case round_trip_time of
                         Some rtt \<Rightarrow>
                           (uint rtt - uint (the (tc_first_round_trip_time_microseconds c))) sdiv 2
                       | None \<Rightarrow> 0);
          expected_arrival = tc_time_base_microseconds c + sint unwrapped + rtt_delta;
          (update, sampler) = ds_observe (tc_drift_sampler c) (sint arrival - expected_arrival);
          c = c \<lparr>tc_drift_sampler := sampler\<rparr>
      in (update,
          if du_window_complete update
          then c \<lparr>tc_target_drift_microseconds :=
                    tc_target_drift_microseconds c + du_correction_microseconds update\<rparr>
          else c))"

section \<open>Unwrapping\<close>

definition stamp :: "int \<Rightarrow> PacketTimestamp" where
  "stamp time = PacketTimestamp (word_of_int time)"

lemma sint_word_of_int_small:
  "- 2147483648 \<le> d \<Longrightarrow> d < 2147483648 \<Longrightarrow> sint (word_of_int d :: u32) = d"
  by (simp add: signed_of_int signed_take_bit_int_eq_self)

lemma sint_u64: "uint (x :: u64) < 9223372036854775808 \<Longrightarrow> sint x = uint x"
  using unsigned_greater_eq [of x, where ?'a = int]
  by (simp add: sint_uint signed_take_bit_int_eq_self order_trans [of _ 0])

lemma uint_word_of_int_u64: "0 \<le> d \<Longrightarrow> d < 18446744073709551616 \<Longrightarrow> uint (word_of_int d :: u64) = d"
  by (simp add: unsigned_of_int take_bit_int_eq_self)

text \<open>A source time within half a period of the latest one is recovered from its low 32 bits.\<close>

lemma tc_project_exact:
  assumes "0 \<le> time" "time < 4611686018427387904"
    "- 2147483648 \<le> time - uint (tc_latest_unwrapped_timestamp c)"
    "time - uint (tc_latest_unwrapped_timestamp c) < 2147483648"
  shows "uint (tc_project c (stamp time)) = time"
proof -
  let ?l = "tc_latest_unwrapped_timestamp c"
  have "word_of_int time - (ucast ?l :: u32) = word_of_int (time - uint ?l)"
    by (simp only: ucast_eq of_int_diff)
  then have d: "sint (word_of_int time - (ucast ?l :: u32)) = time - uint ?l"
    using sint_word_of_int_small [OF assms(3,4)] by (simp only:)
  have "uint ?l < 9223372036854775808" using assms(2,3) by linarith
  then show ?thesis
    using assms(1,2) by (simp add: tc_project_def stamp_def Let_def d sint_u64 uint_word_of_int_u64)
qed

text \<open>Times that never jump by half a period from the newest one seen.\<close>

fun near :: "int \<Rightarrow> int list \<Rightarrow> bool" where
  "near latest [] \<longleftrightarrow> True"
| "near latest (time # srcs) \<longleftrightarrow>
     0 \<le> time \<and> time < 4611686018427387904 \<and> - 2147483648 \<le> time - latest \<and> time - latest < 2147483648
     \<and> near (max latest time) srcs"

fun tc_unwraps :: "TsbpdClock \<Rightarrow> PacketTimestamp list \<Rightarrow> u64 list \<times> TsbpdClock" where
  "tc_unwraps c [] = ([], c)"
| "tc_unwraps c (t # ts) = (let (u, c) = tc_unwrap c t; (us, c) = tc_unwraps c ts in (u # us, c))"

lemma uint_max: "uint (max a b) = max (uint a) (uint b)"
  by (simp add: max_def word_le_def)

lemma tc_unwrap_exact:
  assumes "near (uint (tc_latest_unwrapped_timestamp c)) (time # srcs)"
  shows "uint (fst (tc_unwrap c (stamp time))) = time"
    "uint (tc_latest_unwrapped_timestamp (snd (tc_unwrap c (stamp time))))
      = max (uint (tc_latest_unwrapped_timestamp c)) time"
  using assms tc_project_exact [of time c] by (simp_all add: tc_unwrap_def Let_def uint_max)

text \<open>
  C30. Packet timestamps are unwrapped exactly. For any arrival order in which each source time is
  less than half a timestamp period (about 36 minutes) away from the newest one seen so far, the
  clock recovers every 64-bit source time from its low 32 bits, through any number of
  wrap-arounds, and remembers the newest.
\<close>

theorem timestamps_unwrap_exact:
  assumes "near (uint (tc_latest_unwrapped_timestamp c)) srcs"
  shows "map uint (fst (tc_unwraps c (map stamp srcs))) = srcs
    \<and> uint (tc_latest_unwrapped_timestamp (snd (tc_unwraps c (map stamp srcs))))
       = foldl max (uint (tc_latest_unwrapped_timestamp c)) srcs"
  using assms
proof (induction srcs arbitrary: c)
  case (Cons time srcs)
  note u = tc_unwrap_exact [OF Cons.prems]
  from Cons.IH [of "snd (tc_unwrap c (stamp time))"] Cons.prems u show ?case
    by (simp add: split_beta Let_def)
qed simp

theorem timestamps_unwrap_exact_witness:
  "let c = make_TsbpdClock 1000 (stamp 4294967000) 120000
   in map uint (fst (tc_unwraps c (map stamp [4294967100, 4294967400, 4294967200, 4294968000])))
      = [4294967100, 4294967400, 4294967200, 4294968000]"
proof -
  let ?c = "make_TsbpdClock 1000 (stamp 4294967000) 120000"
  have "uint (tc_latest_unwrapped_timestamp ?c) = 4294967000"
    by (simp add: make_TsbpdClock_def stamp_def)
  then have "near (uint (tc_latest_unwrapped_timestamp ?c)) [4294967100, 4294967400, 4294967200, 4294968000]"
    by simp
  from timestamps_unwrap_exact [OF this] show ?thesis unfolding Let_def by blast
qed

section \<open>The slew\<close>

text \<open>Moving towards a target by a bounded amount.\<close>

definition towards :: "int \<Rightarrow> int \<Rightarrow> int \<Rightarrow> int" where
  "towards target applied budget =
     (if applied < target then min target (applied + budget) else max target (applied - budget))"

text \<open>The ranges in which 64-bit arithmetic is exact: 285 years of microseconds.\<close>

definition clock_bounds :: "TsbpdClock \<Rightarrow> bool" where
  "clock_bounds c \<longleftrightarrow>
     uint (tc_last_slew_timestamp c) < 9007199254740992 \<and> uint (tc_slew_remainder c) < 1000000
     \<and> \<bar>tc_target_drift_microseconds c\<bar> < 576460752303423488
     \<and> \<bar>tc_applied_drift_microseconds c\<bar> < 576460752303423488
     \<and> \<bar>tc_time_base_microseconds c\<bar> < 2305843009213693952"

definition slew_scaled :: "TsbpdClock \<Rightarrow> int \<Rightarrow> int" where
  "slew_scaled c time = (time - uint (tc_last_slew_timestamp c)) * 1000 + uint (tc_slew_remainder c)"

lemma scaled_int_bounds:
  fixes l r u :: int
  assumes "0 \<le> l" "0 \<le> r" "r < 1000000" "l < u" "u < 9007199254740992"
  shows "(u - l) * 1000 < 9223372036854775808" "0 \<le> (u - l) * 1000 + r"
    "(u - l) * 1000 + r \<le> 9223372036854775808"
proof -
  have "(u - l) * 1000 < 9007199254740992 * 1000"
    using assms(1,5) by (intro mult_strict_right_mono) simp_all
  then have n: "(u - l) * 1000 < 9007199254740992000" by simp
  then show "(u - l) * 1000 < 9223372036854775808" by (rule less_trans) simp
  show "0 \<le> (u - l) * 1000 + r" using assms(2,4) by simp
  have "(u - l) * 1000 + r < 9007199254740992000 + 1000000" by (rule add_strict_mono [OF n assms(3)])
  then show "(u - l) * 1000 + r \<le> 9223372036854775808" by (rule order_trans [OF less_imp_le]) simp
qed

lemma uint_scaled_budget:
  assumes "clock_bounds c" "tc_last_slew_timestamp c < u" "uint u < 9007199254740992"
  shows "uint ((u - tc_last_slew_timestamp c) * 1000 + tc_slew_remainder c) = slew_scaled c (uint u)"
proof -
  have d: "uint (u - tc_last_slew_timestamp c) = uint u - uint (tc_last_slew_timestamp c)"
    using assms(2) by (simp add: uint_sub_lem [symmetric] word_le_def order_less_imp_le word_less_def)
  have l: "uint (tc_slew_remainder c) < 1000000" "uint (tc_last_slew_timestamp c) < uint u"
    using assms(1,2) by (simp_all add: clock_bounds_def word_less_def)
  have fits: "uint (u - tc_last_slew_timestamp c) * 1000 < 9223372036854775808"
    unfolding d by (rule scaled_int_bounds(1) [OF unsigned_greater_eq unsigned_greater_eq l assms(3)])
  then have "uint ((u - tc_last_slew_timestamp c) * 1000) = uint (u - tc_last_slew_timestamp c) * 1000"
    by (subst uint_mult_lem [THEN iffD1]) simp_all
  then show ?thesis
    using l(1) fits unfolding slew_scaled_def d [symmetric]
    by (subst uint_add_lem [THEN iffD1]) simp_all
qed

lemma signed_min_budget:
  assumes "uint budget < 9223372036854775808" "0 \<le> d" "d < 9223372036854775808"
  shows "sint (min budget (word_of_int d :: u64)) = min (uint budget) d"
proof -
  have "uint (word_of_int d :: u64) = d" using assms(2,3) by (simp add: uint_word_of_int_u64)
  then have "uint (min budget (word_of_int d :: u64)) = min (uint budget) d"
    by (simp add: min_def word_le_def)
  then show ?thesis using assms(1) by (simp add: sint_u64)
qed

lemma slew_scaled_bounds:
  assumes "clock_bounds c" "tc_last_slew_timestamp c < u" "uint u < 9007199254740992"
  shows "0 \<le> slew_scaled c (uint u) div 1000000" "slew_scaled c (uint u) div 1000000 < 9223372036854775808"
proof -
  have l: "uint (tc_slew_remainder c) < 1000000" "uint (tc_last_slew_timestamp c) < uint u"
    using assms(1,2) by (simp_all add: clock_bounds_def word_less_def)
  have "0 \<le> slew_scaled c (uint u)" "slew_scaled c (uint u) \<le> 9223372036854775808"
    unfolding slew_scaled_def
    by (rule scaled_int_bounds(2,3) [OF unsigned_greater_eq unsigned_greater_eq l assms(3)])+
  then show "0 \<le> slew_scaled c (uint u) div 1000000" "slew_scaled c (uint u) div 1000000 < 9223372036854775808"
    by simp_all
qed

lemma tc_advance_late: "u \<le> tc_last_slew_timestamp c \<Longrightarrow> tc_advance_applied_drift c u = c"
  by (simp add: tc_advance_applied_drift_def)

lemma tc_advance_keeps:
  "tc_time_base_microseconds (tc_advance_applied_drift c u) = tc_time_base_microseconds c"
  "tc_delay_microseconds (tc_advance_applied_drift c u) = tc_delay_microseconds c"
  "tc_target_drift_microseconds (tc_advance_applied_drift c u) = tc_target_drift_microseconds c"
  "tc_latest_unwrapped_timestamp (tc_advance_applied_drift c u) = tc_latest_unwrapped_timestamp c"
  "tc_last_slew_timestamp (tc_advance_applied_drift c u) = max (tc_last_slew_timestamp c) u"
  by (auto simp: tc_advance_applied_drift_def Let_def max_def)

text \<open>What an advance to a later source time does to the applied drift and the remainder.\<close>

lemma tc_advance_exact:
  assumes "clock_bounds c" "tc_last_slew_timestamp c < u" "uint u < 9007199254740992"
  defines "b \<equiv> slew_scaled c (uint u) div 1000000"
    and "c' \<equiv> tc_advance_applied_drift c u"
  shows "tc_applied_drift_microseconds c' =
      towards (tc_target_drift_microseconds c) (tc_applied_drift_microseconds c) b"
    and "uint (tc_slew_remainder c') =
      (if tc_applied_drift_microseconds c' = tc_target_drift_microseconds c then 0
       else slew_scaled c (uint u) mod 1000000)"
proof -
  let ?w = "(u - tc_last_slew_timestamp c) * 1000 + tc_slew_remainder c"
  let ?t = "tc_target_drift_microseconds c" and ?a = "tc_applied_drift_microseconds c"
  have w: "uint (?w div 1000000) = b" "uint (?w mod 1000000) = slew_scaled c (uint u) mod 1000000"
    by (simp_all only: uint_div uint_mod uint_scaled_budget [OF assms(1-3)] b_def) simp_all
  have b: "0 \<le> b" "b < 9223372036854775808"
    unfolding b_def by (rule slew_scaled_bounds [OF assms(1-3)])+
  have z: "?w div 1000000 = 0 \<longleftrightarrow> b = 0" by (simp only: word_uint_eq_iff w(1)) simp
  have "\<bar>?t\<bar> < 576460752303423488" "\<bar>?a\<bar> < 576460752303423488"
    using assms(1) by (simp_all add: clock_bounds_def)
  then have "\<bar>?t - ?a\<bar> < 9223372036854775808" by arith
  then have step: "sint (min (?w div 1000000) (word_of_int (if ?t - ?a < 0 then - (?t - ?a) else ?t - ?a) :: u64))
      = min b \<bar>?t - ?a\<bar>"
    using signed_min_budget [of "?w div 1000000" "\<bar>?t - ?a\<bar>"] b(2)
    by (cases "?t - ?a < 0") (simp_all only: w abs_if if_True if_False; simp)+
  define W where "W = ?w"
  define S where "S = min b \<bar>?t - ?a\<bar>"
  let ?c = "c \<lparr>tc_last_slew_timestamp := u, tc_slew_remainder := W mod 1000000\<rparr>"
  let ?s = "?a + (if ?t - ?a < 0 then - S else S)"
  have late: "\<not> u \<le> tc_last_slew_timestamp c" using assms(2) by simp
  have code: "c' = (if ?a = ?t then c \<lparr>tc_last_slew_timestamp := u, tc_slew_remainder := 0\<rparr>
      else if b = 0 then ?c
      else if ?s = ?t then ?c \<lparr>tc_applied_drift_microseconds := ?s, tc_slew_remainder := 0\<rparr>
      else ?c \<lparr>tc_applied_drift_microseconds := ?s\<rparr>)"
    unfolding c'_def tc_advance_applied_drift_def Let_def if_not_P [OF late] z step W_def S_def by simp
  have applied: "tc_applied_drift_microseconds c' = towards ?t ?a b"
    using b(1) unfolding code S_def by (simp add: towards_def min_def max_def abs_if)
  show "tc_applied_drift_microseconds c' = towards ?t ?a b" by (rule applied)
  show "uint (tc_slew_remainder c') =
      (if tc_applied_drift_microseconds c' = ?t then 0 else slew_scaled c (uint u) mod 1000000)"
    unfolding code w(2) [symmetric] W_def [symmetric] by simp
qed

lemma towards_simps:
  "0 \<le> b \<Longrightarrow> towards t t b = t" "towards t a 0 = a"
  "0 \<le> b1 \<Longrightarrow> 0 \<le> b2 \<Longrightarrow> towards t (towards t a b1) b2 = towards t a (b1 + b2)"
  "0 \<le> b \<Longrightarrow> \<bar>t - a\<bar> \<le> b \<Longrightarrow> towards t a b = t"
  "0 \<le> b \<Longrightarrow> a - b \<le> towards t a b" "0 \<le> b \<Longrightarrow> towards t a b \<le> a + b"
  by (auto simp: towards_def min_def max_def)

lemma towards_reached: "0 \<le> b1 \<Longrightarrow> b1 \<le> b2 \<Longrightarrow> towards t a b1 = t \<Longrightarrow> towards t a b2 = t"
  by (simp add: towards_def min_def max_def split: if_splits)

lemma towards_between: "0 \<le> b \<Longrightarrow> min t a \<le> towards t a b" "0 \<le> b \<Longrightarrow> towards t a b \<le> max t a"
  by (auto simp: towards_def min_def max_def)

lemma tc_advance_bounds:
  assumes "clock_bounds c" "uint u < 9007199254740992"
  shows "clock_bounds (tc_advance_applied_drift c u)"
proof (cases "u \<le> tc_last_slew_timestamp c")
  case False
  then have lt: "tc_last_slew_timestamp c < u" by simp
  note ex = tc_advance_exact [OF assms(1) lt assms(2)]
  note b = slew_scaled_bounds(1) [OF assms(1) lt assms(2)]
  have "\<bar>towards (tc_target_drift_microseconds c) (tc_applied_drift_microseconds c)
      (slew_scaled c (uint u) div 1000000)\<bar> < 576460752303423488"
    using towards_between [OF b, of "tc_target_drift_microseconds c" "tc_applied_drift_microseconds c"] assms(1)
    unfolding clock_bounds_def abs_less_iff min_def max_def by (simp split: if_splits)
  then show ?thesis
    using assms lt by (simp add: clock_bounds_def tc_advance_keeps ex uint_max max_def)
qed (simp add: tc_advance_late assms)

lemma slew_scaled_split:
  assumes "clock_bounds c" "tc_last_slew_timestamp c < u" "uint u < 9007199254740992"
  shows "slew_scaled c time div 1000000 =
    slew_scaled c (uint u) div 1000000 + ((time - uint u) * 1000 + slew_scaled c (uint u) mod 1000000) div 1000000"
proof -
  have "slew_scaled c time = slew_scaled c (uint u) + (time - uint u) * 1000"
    by (simp add: slew_scaled_def algebra_simps)
  also have "\<dots> = ((time - uint u) * 1000 + slew_scaled c (uint u) mod 1000000)
      + (slew_scaled c (uint u) div 1000000) * 1000000"
    by simp
  finally show ?thesis by (simp only: div_mult_self1 [of 1000000 "_ + _ mod _", simplified])
qed

lemma tc_advance_compose:
  assumes "clock_bounds c" "uint u < 9007199254740992" "uint u \<le> time" "uint (tc_last_slew_timestamp c) \<le> time"
  defines "c' \<equiv> tc_advance_applied_drift c u"
  shows "towards (tc_target_drift_microseconds c) (tc_applied_drift_microseconds c') (slew_scaled c' time div 1000000)
    = towards (tc_target_drift_microseconds c) (tc_applied_drift_microseconds c) (slew_scaled c time div 1000000)"
proof (cases "u \<le> tc_last_slew_timestamp c")
  case False
  then have lt: "tc_last_slew_timestamp c < u" by simp
  let ?t = "tc_target_drift_microseconds c" and ?a = "tc_applied_drift_microseconds c"
  let ?s = "slew_scaled c (uint u)"
  note ex = tc_advance_exact [OF assms(1) lt assms(2), folded c'_def]
  note b = slew_scaled_bounds(1) [OF assms(1) lt assms(2)]
  have last: "tc_last_slew_timestamp c' = u" using lt by (simp add: c'_def tc_advance_keeps max_absorb2)
  note split = slew_scaled_split [OF assms(1) lt assms(2), of time]
  show ?thesis
  proof (cases "tc_applied_drift_microseconds c' = ?t")
    case True
    have "0 \<le> slew_scaled c' time div 1000000"
      using True assms(3) by (simp add: slew_scaled_def last ex(2))
    moreover have "?s div 1000000 \<le> slew_scaled c time div 1000000"
      unfolding split using assms(3) by simp
    ultimately show ?thesis using True ex(1) b towards_simps(1) towards_reached by metis
  next
    case False
    then have "slew_scaled c' time = (time - uint u) * 1000 + ?s mod 1000000"
      by (simp add: slew_scaled_def last ex(2))
    moreover have "0 \<le> ((time - uint u) * 1000 + ?s mod 1000000) div 1000000" using assms(3) by simp
    ultimately show ?thesis unfolding split ex(1) using b by (simp only: towards_simps(3))
  qed
qed (simp add: c'_def tc_advance_late)

lemma le_foldl_max: "(x :: 'a :: linorder) \<le> foldl max x xs"
proof (induction xs arbitrary: x)
  case (Cons a xs)
  from Cons [of "max x a"] show ?case by simp
qed simp

lemma foldl_max_upper: "y \<in> set (x # xs) \<Longrightarrow> y \<le> foldl max (x :: 'a :: linorder) xs"
proof (induction xs arbitrary: x)
  case (Cons a xs)
  show ?case
  proof (cases "y \<in> set xs")
    case True
    then show ?thesis using Cons.IH [of "max x a"] by simp
  next
    case False
    then have "y \<le> max x a" using Cons.prems by auto
    also have "\<dots> \<le> foldl max (max x a) xs" by (rule le_foldl_max)
    finally show ?thesis by simp
  qed
qed simp

lemma tc_advances_exact:
  assumes "clock_bounds c" "\<forall>u \<in> set us. uint u < 9007199254740992"
  shows "tc_applied_drift_microseconds (foldl tc_advance_applied_drift c us) =
    towards (tc_target_drift_microseconds c) (tc_applied_drift_microseconds c)
      (slew_scaled c (foldl max (uint (tc_last_slew_timestamp c)) (map uint us)) div 1000000)"
  using assms
proof (induction us arbitrary: c)
  case Nil
  then show ?case by (simp add: slew_scaled_def clock_bounds_def towards_simps(2))
next
  case (Cons u us)
  let ?c = "tc_advance_applied_drift c u"
  let ?m = "foldl max (max (uint (tc_last_slew_timestamp c)) (uint u)) (map uint us)"
  have "max (uint (tc_last_slew_timestamp c)) (uint u) \<le> ?m" by (rule le_foldl_max)
  then have "uint u \<le> ?m" "uint (tc_last_slew_timestamp c) \<le> ?m" by simp_all
  note compose = tc_advance_compose [OF Cons.prems(1) _ this]
  show ?case
    using Cons.IH [of ?c] tc_advance_bounds [of c u] Cons.prems compose by (simp add: tc_advance_keeps uint_max)
qed

text \<open>
  C31. The drift correction is a bounded slew that loses nothing. Whatever sequence of source
  times the packets present, in any order, the applied correction depends only on the newest of
  them: it has moved from its old value towards the target by exactly one microsecond per
  millisecond of source time (the carried remainder included), never past the target, and it has
  reached the target once a thousand times the distance has elapsed.
\<close>

theorem drift_slew_exact:
  fixes c :: TsbpdClock and us :: "u64 list"
  assumes "clock_bounds c" and "\<forall>u \<in> set us. uint u < 9007199254740992"
  defines "target \<equiv> tc_target_drift_microseconds c" and "old \<equiv> tc_applied_drift_microseconds c"
    and "new \<equiv> tc_applied_drift_microseconds (foldl tc_advance_applied_drift c us)"
    and "elapsed \<equiv> foldl max (uint (tc_last_slew_timestamp c)) (map uint us) - uint (tc_last_slew_timestamp c)"
  shows "new = towards target old ((elapsed * 1000 + uint (tc_slew_remainder c)) div 1000000)
    \<and> min target old \<le> new \<and> new \<le> max target old
    \<and> (1000 * \<bar>target - old\<bar> \<le> elapsed \<longrightarrow> new = target)"
proof -
  let ?b = "(elapsed * 1000 + uint (tc_slew_remainder c)) div 1000000"
  have new: "new = towards target old ?b"
    using tc_advances_exact [OF assms(1,2)]
    by (simp add: new_def target_def old_def elapsed_def slew_scaled_def)
  have "0 \<le> elapsed" using le_foldl_max by (simp add: elapsed_def)
  then have "0 \<le> elapsed * 1000 + uint (tc_slew_remainder c)" by (intro add_nonneg_nonneg) simp_all
  then have nonneg: "0 \<le> ?b" by simp
  moreover have "\<bar>target - old\<bar> \<le> ?b" if "1000 * \<bar>target - old\<bar> \<le> elapsed"
  proof -
    have "1000000 * \<bar>target - old\<bar> \<le> elapsed * 1000 + uint (tc_slew_remainder c)"
      using that by (rule_tac add_increasing2) simp_all
    from zdiv_mono1 [OF this, of 1000000] show ?thesis by simp
  qed
  ultimately show ?thesis using new towards_between [OF nonneg] towards_simps(4) [OF nonneg] by simp
qed

theorem drift_slew_exact_witness:
  "let c = (make_TsbpdClock 1000 (stamp 0) 120000) \<lparr>tc_target_drift_microseconds := - 3\<rparr>
   in tc_applied_drift_microseconds (foldl tc_advance_applied_drift c [1500, 900, 2600]) = - 2"
proof -
  let ?c = "(make_TsbpdClock 1000 (stamp 0) 120000) \<lparr>tc_target_drift_microseconds := - 3\<rparr>"
  have "clock_bounds ?c" by (simp add: clock_bounds_def make_TsbpdClock_def stamp_def sint_u64)
  from drift_slew_exact [OF this, of "[1500, 900, 2600]"] show ?thesis
    by (simp add: make_TsbpdClock_def stamp_def towards_def)
qed

section \<open>Delivery times\<close>

lemma uint_signed_delivery:
  assumes "clock_bounds c" "uint u < 9007199254740992"
  shows "uint (signed_delivery c u) =
    max 0 (tc_time_base_microseconds c + uint u + uint (tc_delay_microseconds c) + tc_applied_drift_microseconds c)"
proof -
  let ?d = "tc_time_base_microseconds c + uint u + uint (tc_delay_microseconds c) + tc_applied_drift_microseconds c"
  have "uint (tc_delay_microseconds c) < 4294967296"
    using uint_bounded [of "tc_delay_microseconds c"] by simp
  moreover have "tc_time_base_microseconds c < 2305843009213693952"
    "tc_applied_drift_microseconds c < 576460752303423488"
    using assms(1) by (simp_all add: clock_bounds_def abs_less_iff)
  ultimately have "?d < 2305843009213693952 + 9007199254740992 + 4294967296 + 576460752303423488"
    by (intro add_strict_mono assms(2))
  then have "?d < 18446744073709551616" by (rule less_trans) simp
  moreover have "sint u = uint u" using assms(2) by (simp add: sint_u64)
  ultimately show ?thesis
    using uint_word_of_int_u64 [of ?d] unfolding signed_delivery_def Let_def
    by (cases "?d \<le> 0") (simp_all only: if_True if_False max_def, simp_all)
qed

lemma tc_observe_keeps:
  defines "c' \<equiv> \<lambda>c ts arr rtt adv. snd (tc_observe_arrival c ts arr rtt adv)"
  shows "tc_time_base_microseconds (c' c ts arr rtt adv) = tc_time_base_microseconds c"
    "tc_delay_microseconds (c' c ts arr rtt adv) = tc_delay_microseconds c"
    "tc_applied_drift_microseconds (c' c ts arr rtt adv) = tc_applied_drift_microseconds c"
    "tc_last_slew_timestamp (c' c ts arr rtt adv) = tc_last_slew_timestamp c"
    "tc_slew_remainder (c' c ts arr rtt adv) = tc_slew_remainder c"
  by (simp_all add: c'_def tc_observe_arrival_def tc_unwrap_def Let_def split_beta)

text \<open>Any number of arrival observations, each with its own round trip and epoch mode.\<close>

fun tc_observes :: "TsbpdClock \<Rightarrow> (PacketTimestamp \<times> u64 \<times> u32 option \<times> bool) list \<Rightarrow> TsbpdClock" where
  "tc_observes c [] = c"
| "tc_observes c ((ts, arrival, rtt, advance) # rest) =
     tc_observes (snd (tc_observe_arrival c ts arrival rtt advance)) rest"

lemma tc_observes_keeps:
  "tc_time_base_microseconds (tc_observes c obs) = tc_time_base_microseconds c
   \<and> tc_delay_microseconds (tc_observes c obs) = tc_delay_microseconds c
   \<and> tc_applied_drift_microseconds (tc_observes c obs) = tc_applied_drift_microseconds c
   \<and> tc_last_slew_timestamp (tc_observes c obs) = tc_last_slew_timestamp c
   \<and> tc_slew_remainder (tc_observes c obs) = tc_slew_remainder c"
  by (induction c obs rule: tc_observes.induct) (simp_all add: tc_observe_keeps)

lemma tc_delivery_time_eq:
  "fst (tc_delivery_time c ts) =
     signed_delivery (tc_advance_applied_drift (snd (tc_unwrap c ts)) (tc_project c ts)) (tc_project c ts)"
  "snd (tc_delivery_time c ts) = tc_advance_applied_drift (snd (tc_unwrap c ts)) (tc_project c ts)"
  by (simp_all add: tc_delivery_time_def tc_unwrap_def Let_def split_beta)

lemma clock_bounds_unwrap: "clock_bounds (snd (tc_unwrap c ts)) \<longleftrightarrow> clock_bounds c"
  by (simp add: clock_bounds_def tc_unwrap_def Let_def)

text \<open>
  The slew takes back at most the source time that has passed, so it never reorders delivery.
\<close>

lemma slew_below_elapsed:
  fixes n r :: int
  assumes "0 < n" "r < 1000000"
  shows "(n * 1000 + r) div 1000000 \<le> n"
proof -
  have "n * 1000 + r < (n + 1) * 1000000" using assms by (simp add: algebra_simps)
  then have "(n * 1000 + r) div 1000000 < n + 1" by (simp add: div_less_iff_less_mult)
  then show ?thesis by simp
qed

lemma applied_after_advance:
  assumes "clock_bounds c" "uint u < 9007199254740992" "uint v \<le> uint (tc_last_slew_timestamp c)" "uint v \<le> uint u"
  shows "tc_applied_drift_microseconds c - (uint u - uint v)
    \<le> tc_applied_drift_microseconds (tc_advance_applied_drift c u)"
proof (cases "u \<le> tc_last_slew_timestamp c")
  case True
  then show ?thesis using assms(4) by (simp add: tc_advance_late)
next
  case False
  then have lt: "tc_last_slew_timestamp c < u" by simp
  let ?n = "uint u - uint (tc_last_slew_timestamp c)"
  have "0 < ?n" "uint (tc_slew_remainder c) < 1000000"
    using lt assms(1) by (simp_all add: word_less_def clock_bounds_def)
  then have "slew_scaled c (uint u) div 1000000 \<le> ?n"
    unfolding slew_scaled_def by (rule slew_below_elapsed)
  moreover have "tc_applied_drift_microseconds c - slew_scaled c (uint u) div 1000000
      \<le> tc_applied_drift_microseconds (tc_advance_applied_drift c u)"
    unfolding tc_advance_exact(1) [OF assms(1) lt assms(2)]
    by (rule towards_simps) (rule slew_scaled_bounds(1) [OF assms(1) lt assms(2)])
  ultimately show ?thesis using assms(3) by linarith
qed

text \<open>
  C28. Playout keeps the source order while the clock is being corrected. If a packet is delivered
  after another whose source time is not later, with any arrival observations (and hence any
  change of the drift target) in between, its delivery time is not earlier, and the first
  delivery time is the source time shifted by base, delay and the applied correction.
\<close>

theorem playout_in_order:
  fixes c :: TsbpdClock and first second :: PacketTimestamp
    and observations :: "(PacketTimestamp \<times> u64 \<times> u32 option \<times> bool) list"
  assumes "clock_bounds c"
  defines "c1 \<equiv> snd (tc_delivery_time c first)"
  defines "c2 \<equiv> tc_observes c1 observations"
  assumes "clock_bounds c2"
    and "uint (tc_project c first) \<le> uint (tc_project c2 second)"
    and "uint (tc_project c2 second) < 9007199254740992"
  shows "fst (tc_delivery_time c first) \<le> fst (tc_delivery_time c2 second)
    \<and> uint (fst (tc_delivery_time c first)) =
       max 0 (tc_time_base_microseconds c + uint (tc_project c first) + uint (tc_delay_microseconds c)
         + tc_applied_drift_microseconds c1)"
proof -
  let ?u = "tc_project c first" and ?v = "tc_project c2 second"
  let ?c2 = "snd (tc_unwrap c2 second)"
  let ?c3 = "tc_advance_applied_drift ?c2 ?v"
  have u: "uint ?u < 9007199254740992" using assms(5,6) by linarith
  have keep: "tc_time_base_microseconds c2 = tc_time_base_microseconds c" "tc_delay_microseconds c2 = tc_delay_microseconds c"
    "tc_applied_drift_microseconds c2 = tc_applied_drift_microseconds c1"
    "tc_last_slew_timestamp c2 = max (tc_last_slew_timestamp c) ?u"
    "tc_time_base_microseconds c1 = tc_time_base_microseconds c" "tc_delay_microseconds c1 = tc_delay_microseconds c"
    using tc_observes_keeps [of c1 observations]
    by (simp_all add: c1_def c2_def tc_delivery_time_eq tc_advance_keeps tc_unwrap_def Let_def)
  have b1: "clock_bounds c1"
    unfolding c1_def tc_delivery_time_eq by (rule tc_advance_bounds [OF _ u]) (simp add: clock_bounds_unwrap assms(1))
  have d1: "uint (fst (tc_delivery_time c first)) =
      max 0 (tc_time_base_microseconds c + uint ?u + uint (tc_delay_microseconds c) + tc_applied_drift_microseconds c1)"
    using uint_signed_delivery [OF b1 u] by (simp add: tc_delivery_time_eq(1) tc_delivery_time_eq(2) [symmetric] c1_def [symmetric] keep)
  have b2: "clock_bounds ?c2" by (simp add: clock_bounds_unwrap assms(4))
  have unwrap: "tc_time_base_microseconds ?c2 = tc_time_base_microseconds c2" "tc_delay_microseconds ?c2 = tc_delay_microseconds c2"
    "tc_applied_drift_microseconds ?c2 = tc_applied_drift_microseconds c2"
    "tc_last_slew_timestamp ?c2 = tc_last_slew_timestamp c2"
    by (simp_all add: tc_unwrap_def Let_def)
  have d2: "uint (fst (tc_delivery_time c2 second)) =
      max 0 (tc_time_base_microseconds c + uint ?v + uint (tc_delay_microseconds c) + tc_applied_drift_microseconds ?c3)"
    using uint_signed_delivery [OF tc_advance_bounds [OF b2 assms(6)] assms(6)]
    by (simp add: tc_delivery_time_eq tc_advance_keeps unwrap keep)
  have "tc_applied_drift_microseconds c1 - (uint ?v - uint ?u) \<le> tc_applied_drift_microseconds ?c3"
    using applied_after_advance [OF b2 assms(6), of ?u] assms(5) by (simp add: unwrap keep uint_max)
  then have "uint (fst (tc_delivery_time c first)) \<le> uint (fst (tc_delivery_time c2 second))"
    unfolding d1 d2 by linarith
  then show ?thesis using d1 by (simp add: word_le_def)
qed

theorem playout_in_order_witness:
  "let c = (make_TsbpdClock 1000 (stamp 0) 120000) \<lparr>tc_target_drift_microseconds := - 3\<rparr>;
       c1 = snd (tc_delivery_time c (stamp 5000))
   in fst (tc_delivery_time c (stamp 5000)) \<le> fst (tc_delivery_time c1 (stamp 5001))"
proof -
  let ?c = "(make_TsbpdClock 1000 (stamp 0) 120000) \<lparr>tc_target_drift_microseconds := - 3\<rparr>"
  let ?c1 = "snd (tc_delivery_time ?c (stamp 5000))"
  have b: "clock_bounds ?c" by (simp add: clock_bounds_def make_TsbpdClock_def stamp_def sint_u64)
  have u: "uint (tc_project ?c (stamp 5000)) = 5000"
    by (rule tc_project_exact) (simp_all add: make_TsbpdClock_def stamp_def)
  then have b1: "clock_bounds ?c1"
    unfolding tc_delivery_time_eq by (intro tc_advance_bounds) (simp_all add: clock_bounds_unwrap b)
  have "uint (tc_latest_unwrapped_timestamp ?c1) = 5000"
    using u by (simp add: tc_delivery_time_eq tc_advance_keeps tc_unwrap_def Let_def uint_max)
      (simp add: make_TsbpdClock_def stamp_def)
  then have v: "uint (tc_project ?c1 (stamp 5001)) = 5001" by (intro tc_project_exact) simp_all
  from playout_in_order [OF b, of "stamp 5000" "[]" "stamp 5001"] b1 u v show ?thesis
    by (simp add: Let_def)
qed

section \<open>Learning the offset of the peer's clock\<close>

text \<open>The target follows the estimate of the sampler; one observation of an exact arrival.\<close>

definition target_is_estimate :: "TsbpdClock \<Rightarrow> bool" where
  "target_is_estimate c \<longleftrightarrow>
     tc_target_drift_microseconds c = ds_estimated_drift_microseconds (tc_drift_sampler c)"

definition arrival_at :: "int \<Rightarrow> u64" where
  "arrival_at time = word_of_int time"

lemma tc_observe_offset:
  assumes "near (uint (tc_latest_unwrapped_timestamp c)) (time # srcs)"
    and "0 \<le> tc_time_base_microseconds c + time + d" "tc_time_base_microseconds c + time + d < 9223372036854775808"
  defines "c' \<equiv> snd (tc_observe_arrival c (stamp time) (arrival_at (tc_time_base_microseconds c + time + d)) None True)"
  shows "tc_drift_sampler c' = snd (ds_observe (tc_drift_sampler c) d)"
    and "uint (tc_latest_unwrapped_timestamp c') = max (uint (tc_latest_unwrapped_timestamp c)) time"
    and "tc_target_drift_microseconds c' = tc_target_drift_microseconds c
      + (if du_window_complete (fst (ds_observe (tc_drift_sampler c) d))
         then du_correction_microseconds (fst (ds_observe (tc_drift_sampler c) d)) else 0)"
proof -
  let ?a = "arrival_at (tc_time_base_microseconds c + time + d)"
  have "uint ?a = tc_time_base_microseconds c + time + d"
    unfolding arrival_at_def using assms(2,3) by (intro uint_word_of_int_u64) simp_all
  then have a: "sint ?a = tc_time_base_microseconds c + time + d"
    using assms(3) by (simp add: sint_u64)
  note u = tc_unwrap_exact [OF assms(1)]
  have "uint (fst (tc_unwrap c (stamp time))) < 9223372036854775808" using u(1) assms(1) by simp
  then have s: "sint (fst (tc_unwrap c (stamp time))) = time" using u(1) by (simp add: sint_u64)
  have keep: "tc_time_base_microseconds (snd (tc_unwrap c (stamp time))) = tc_time_base_microseconds c"
    "tc_drift_sampler (snd (tc_unwrap c (stamp time))) = tc_drift_sampler c"
    "tc_target_drift_microseconds (snd (tc_unwrap c (stamp time))) = tc_target_drift_microseconds c"
    by (simp_all add: tc_unwrap_def Let_def)
  show "tc_drift_sampler c' = snd (ds_observe (tc_drift_sampler c) d)"
    by (simp add: c'_def tc_observe_arrival_def split_beta Let_def a s keep)
  show "uint (tc_latest_unwrapped_timestamp c') = max (uint (tc_latest_unwrapped_timestamp c)) time"
    using u(2) by (simp add: c'_def tc_observe_arrival_def split_beta Let_def)
  show "tc_target_drift_microseconds c' = tc_target_drift_microseconds c
      + (if du_window_complete (fst (ds_observe (tc_drift_sampler c) d))
         then du_correction_microseconds (fst (ds_observe (tc_drift_sampler c) d)) else 0)"
    by (simp add: c'_def tc_observe_arrival_def split_beta Let_def a s keep)
qed

definition offset_observations :: "int \<Rightarrow> int \<Rightarrow> int list \<Rightarrow> (PacketTimestamp \<times> u64 \<times> u32 option \<times> bool) list" where
  "offset_observations base d srcs = map (\<lambda>time. (stamp time, arrival_at (base + time + d), None, True)) srcs"

lemma tc_observes_offset:
  assumes "near (uint (tc_latest_unwrapped_timestamp c)) srcs" "target_is_estimate c"
    and "sampler_within \<bar>d\<bar> (tc_drift_sampler c)"
    and "\<forall>time \<in> set srcs. 0 \<le> tc_time_base_microseconds c + time + d
      \<and> tc_time_base_microseconds c + time + d < 9223372036854775808"
  defines "c' \<equiv> tc_observes c (offset_observations (tc_time_base_microseconds c) d srcs)"
  shows "tc_drift_sampler c' = ds_run (tc_drift_sampler c) (replicate (length srcs) d) \<and> target_is_estimate c'"
  unfolding c'_def using assms(1-4)
proof (induction srcs arbitrary: c)
  case (Cons time srcs)
  let ?c = "snd (tc_observe_arrival c (stamp time) (arrival_at (tc_time_base_microseconds c + time + d)) None True)"
  have "tc_time_base_microseconds ?c = tc_time_base_microseconds c" by (rule tc_observe_keeps)
  with Cons.IH [of ?c] tc_observe_offset [of c time srcs d] Cons.prems
    ds_observe_within [of "\<bar>d\<bar>" "tc_drift_sampler c" d]
  show ?case by (simp add: offset_observations_def target_is_estimate_def)
qed (simp add: offset_observations_def)

text \<open>
  C32. A constant offset of the peer's clock is learned exactly. If every packet arrives a fixed
  number of microseconds, early or late, after the time its timestamp announces, then after a
  thousand packets per five milliseconds of offset the clock's drift target is exactly that
  offset, in whatever order the timestamps came and however often they wrapped. A thousand
  offsets add up to less than \<open>2 ^ 62\<close> microseconds (an offset below 146 years), and local times are
  below \<open>2 ^ 63\<close> microseconds, so that no 64-bit value overflows.
\<close>

theorem clock_offset_learned:
  fixes arrival :: u64 and first :: PacketTimestamp and delay :: u32 and offset :: int
  defines "c \<equiv> make_TsbpdClock arrival first delay"
  assumes "\<bar>offset\<bar> \<le> int windows * 5000" "length srcs = windows * 1000"
    and "uint arrival < 2 ^ 63" "\<bar>offset\<bar> * 1000 < 2 ^ 62"
    and "near (uint (tc_latest_unwrapped_timestamp c)) srcs"
    and "\<forall>time \<in> set srcs. tc_time_base_microseconds c + time < 2 ^ 63
      \<and> 0 \<le> tc_time_base_microseconds c + time + offset \<and> tc_time_base_microseconds c + time + offset < 2 ^ 63"
  defines "c' \<equiv> tc_observes c (offset_observations (tc_time_base_microseconds c) offset srcs)"
  shows "tc_target_drift_microseconds c' = offset \<and> sampler_within \<bar>offset\<bar> (tc_drift_sampler c')"
proof -
  have s: "tc_drift_sampler c = make_DriftSampler 1000 5000" "target_is_estimate c"
    by (simp_all add: c_def make_TsbpdClock_def target_is_estimate_def make_DriftSampler_def)
  have w: "sampler_within \<bar>offset\<bar> (make_DriftSampler 1000 5000)"
    using assms(5) by (intro sampler_within_make) simp_all
  have "ds_estimated_drift_microseconds (ds_run (make_DriftSampler 1000 5000) (replicate (windows * 1000) offset)) = offset"
    using ds_run_windows [OF w order_refl, of windows] assms(2) by (simp add: make_DriftSampler_def)
  with tc_observes_offset [OF assms(6) s(2), of offset] s(1) w assms(3,7)
    ds_run_within [OF w, of "replicate (windows * 1000) offset"]
  show ?thesis by (simp add: target_is_estimate_def c'_def)
qed

theorem clock_offset_learned_witness:
  "let c = make_TsbpdClock 1000 (stamp 0) 120000
   in tc_target_drift_microseconds (tc_observes c (offset_observations 1000 (- 700) (replicate 1000 500))) = - 700"
proof -
  let ?c = "make_TsbpdClock 1000 (stamp 0) 120000"
  have base: "tc_time_base_microseconds ?c = 1000" "uint (tc_latest_unwrapped_timestamp ?c) = 0"
    by (simp_all add: make_TsbpdClock_def stamp_def sint_u64)
  have "near 500 (replicate n 500)" for n by (induction n) simp_all
  then have "near 0 (replicate 1000 500)" by (simp add: eval_nat_numeral)
  moreover have "uint (1000 :: u64) < 2 ^ 63" by simp
  ultimately show ?thesis
    using clock_offset_learned [of "- 700" 1 "replicate 1000 500" 1000 "stamp 0" 120000] base by (simp add: Let_def)
qed

end
