(* ===== verification/Payload_Pool.thy ===== *)
theory Payload_Pool
  imports Wire
begin

text \<open>
  \<^verbatim>\<open>payload_pool.hpp\<close>: the fixed arena in which the send and the receive buffer keep packet
  bodies, addressed by an index that is reused independently of the sequence ring. The arena is
  one flat list of bytes; what \<^verbatim>\<open>allocate_payload_storage\<close> returns comes from the operating
  system and is the argument \<open>storage\<close>.
\<close>

section \<open>The pool\<close>

record PayloadPool =
  pl_payload :: bytes
  pl_sizes :: "nat list"
  pl_free_indices :: "nat list"
  pl_next_unused :: nat
  pl_free_count :: nat

definition pl_checked_bytes :: "nat \<Rightarrow> nat option" where
  "pl_checked_bytes capacity =
     (if capacity = 0 \<or> capacity \<ge> 0x40000000
         \<or> capacity > 18446744073709551615 div maximum_data_payload_size
      then None else Some (capacity * maximum_data_payload_size))"

definition make_PayloadPool :: "bytes \<Rightarrow> nat \<Rightarrow> PayloadPool option" where
  "make_PayloadPool storage capacity =
     (case pl_checked_bytes capacity of
        None \<Rightarrow> None
      | Some count \<Rightarrow>
          Some \<lparr>pl_payload = take count storage, pl_sizes = replicate capacity 0,
                pl_free_indices = replicate capacity 0, pl_next_unused = 0, pl_free_count = 0\<rparr>)"

definition pl_store :: "PayloadPool \<Rightarrow> nat \<Rightarrow> bytes \<Rightarrow> PayloadPool" where
  "pl_store p index source =
     p \<lparr>pl_payload := copy_to source (pl_payload p) (index * maximum_data_payload_size),
        pl_sizes := (pl_sizes p)[index := length source mod 65536]\<rparr>"

definition pl_acquire :: "PayloadPool \<Rightarrow> bytes \<Rightarrow> nat \<times> PayloadPool" where
  "pl_acquire p source =
     (let (index, p) =
        (if pl_free_count p \<noteq> 0
         then (pl_free_indices p ! (pl_free_count p - 1), p \<lparr>pl_free_count := pl_free_count p - 1\<rparr>)
         else (pl_next_unused p, p \<lparr>pl_next_unused := pl_next_unused p + 1\<rparr>))
      in (index, pl_store p index source))"

definition pl_release :: "PayloadPool \<Rightarrow> nat \<Rightarrow> PayloadPool" where
  "pl_release p index =
     p \<lparr>pl_sizes := (pl_sizes p)[index := 0],
        pl_free_indices := (pl_free_indices p)[pl_free_count p := index],
        pl_free_count := pl_free_count p + 1\<rparr>"

definition pl_get :: "PayloadPool \<Rightarrow> nat \<Rightarrow> bytes" where
  "pl_get p index = take (pl_sizes p ! index) (drop (index * maximum_data_payload_size) (pl_payload p))"

text \<open>
  The copy constructor: the indices are copied, and of the arena only the bytes each index
  below the high-water mark is using.
\<close>

fun pl_copy_payloads :: "PayloadPool \<Rightarrow> bytes \<Rightarrow> nat \<Rightarrow> bytes" where
  "pl_copy_payloads p target 0 = target"
| "pl_copy_payloads p target (Suc index) =
     copy_to (pl_get p index) (pl_copy_payloads p target index) (index * maximum_data_payload_size)"

definition pl_copy :: "bytes \<Rightarrow> PayloadPool \<Rightarrow> PayloadPool option" where
  "pl_copy storage other =
     (case make_PayloadPool storage (length (pl_sizes other)) of
        None \<Rightarrow> None
      | Some fresh \<Rightarrow>
          Some (fresh \<lparr>pl_payload := pl_copy_payloads other (pl_payload fresh) (pl_next_unused other),
                       pl_sizes := pl_sizes other, pl_free_indices := pl_free_indices other,
                       pl_next_unused := pl_next_unused other, pl_free_count := pl_free_count other\<rparr>))"

section \<open>The interface of a pool\<close>

text \<open>
  What the buffers rely on: an acquired index is new, holds its bytes until it is stored to or
  released, and no operation disturbs another index. Room is exactly the number of indices not
  in use.
\<close>

locale slab_pool =
  fixes ok :: "'p \<Rightarrow> bool"
    and live :: "'p \<Rightarrow> 'i set"
    and cap :: "'p \<Rightarrow> nat"
    and fits :: "'b \<Rightarrow> bool"
    and acquire :: "'p \<Rightarrow> 'b \<Rightarrow> 'i \<times> 'p"
    and release :: "'p \<Rightarrow> 'i \<Rightarrow> 'p"
    and store :: "'p \<Rightarrow> 'i \<Rightarrow> 'b \<Rightarrow> 'p"
    and get :: "'p \<Rightarrow> 'i \<Rightarrow> 'b"
  assumes finite_live: "ok p \<Longrightarrow> finite (live p)"
    and acquire_laws: "ok p \<Longrightarrow> fits b \<Longrightarrow> card (live p) < cap p \<Longrightarrow>
      ok (snd (acquire p b)) \<and> fst (acquire p b) \<notin> live p
      \<and> live (snd (acquire p b)) = insert (fst (acquire p b)) (live p)
      \<and> cap (snd (acquire p b)) = cap p
      \<and> get (snd (acquire p b)) (fst (acquire p b)) = b
      \<and> (\<forall>j \<in> live p. get (snd (acquire p b)) j = get p j)"
    and release_laws: "ok p \<Longrightarrow> i \<in> live p \<Longrightarrow>
      ok (release p i) \<and> live (release p i) = live p - {i} \<and> cap (release p i) = cap p
      \<and> (\<forall>j \<in> live p - {i}. get (release p i) j = get p j)"
    and store_laws: "ok p \<Longrightarrow> i \<in> live p \<Longrightarrow> fits b \<Longrightarrow>
      ok (store p i b) \<and> live (store p i b) = live p \<and> cap (store p i b) = cap p
      \<and> get (store p i b) i = b \<and> (\<forall>j \<in> live p - {i}. get (store p i b) j = get p j)"
begin

lemma acquire_card:
  "ok p \<Longrightarrow> fits b \<Longrightarrow> card (live p) < cap p \<Longrightarrow> card (live (snd (acquire p b))) = Suc (card (live p))"
  using acquire_laws [of p b] finite_live [of p] by simp

lemma release_card: "ok p \<Longrightarrow> i \<in> live p \<Longrightarrow> card (live (release p i)) = card (live p) - 1"
  using release_laws [of p i] finite_live [of p] by simp

text \<open>What a release frees can be acquired again.\<close>

lemma release_acquire:
  assumes "ok p" "i \<in> live p" "fits b" "card (live p) \<le> cap p"
  shows "ok (snd (acquire (release p i) b))
    \<and> get (snd (acquire (release p i) b)) (fst (acquire (release p i) b)) = b
    \<and> card (live (snd (acquire (release p i) b))) = card (live p)"
proof -
  from assms have pos: "0 < card (live p)" using finite_live [of p] by (auto simp: card_gt_0_iff)
  have "card (live (release p i)) < cap (release p i)"
    using assms pos release_laws [of p i] by (simp add: release_card)
  then show ?thesis
    using assms(1-3) pos release_laws [of p i] acquire_laws [of "release p i" b] acquire_card [of "release p i" b]
    by (simp add: release_card)
qed

end

section \<open>Regions of the arena\<close>

lemma copy_to_same:
  "off + length src \<le> length dst \<Longrightarrow> take (length src) (drop off (copy_to src dst off)) = src"
  by (simp add: copy_to_def)

lemma copy_to_other:
  assumes "a + n \<le> off \<or> off + length src \<le> a" "off + length src \<le> length dst"
  shows "take n (drop a (copy_to src dst off)) = take n (drop a dst)"
proof (rule nth_equalityI)
  show len: "length (take n (drop a (copy_to src dst off))) = length (take n (drop a dst))"
    using assms(2) by simp
  fix i assume "i < length (take n (drop a (copy_to src dst off)))"
  then have i: "i < n" "a + i < length dst" using assms(2) by auto
  have "copy_to src dst off ! (a + i) = dst ! (a + i)"
    using assms i by (auto simp: copy_to_def nth_append min_def)
  then show "take n (drop a (copy_to src dst off)) ! i = take n (drop a dst) ! i"
    using i assms(2) by simp
qed

text \<open>Regions of different indices do not overlap.\<close>

lemma region_fits:
  assumes "i < n" "m \<le> 1456" shows "i * 1456 + m \<le> n * (1456 :: nat)"
proof -
  have "(i + 1) * 1456 \<le> n * 1456" using assms(1) by (intro mult_le_mono1) simp
  then show ?thesis using assms(2) by simp
qed

lemma regions_apart:
  assumes "i \<noteq> j" "m \<le> 1456" "n \<le> 1456"
  shows "i * 1456 + m \<le> j * (1456 :: nat) \<or> j * 1456 + n \<le> i * 1456"
  using region_fits [of i j m] region_fits [of j i n] assms by (metis linorder_neqE_nat)

section \<open>The invariant\<close>

definition pl_capacity :: "PayloadPool \<Rightarrow> nat" where
  "pl_capacity p = length (pl_sizes p)"

definition pl_free :: "PayloadPool \<Rightarrow> nat list" where
  "pl_free p = take (pl_free_count p) (pl_free_indices p)"

definition pl_live :: "PayloadPool \<Rightarrow> nat set" where
  "pl_live p = {..<pl_next_unused p} - set (pl_free p)"

definition pool_ok :: "PayloadPool \<Rightarrow> bool" where
  "pool_ok p \<longleftrightarrow>
     length (pl_free_indices p) = pl_capacity p \<and> length (pl_payload p) = pl_capacity p * 1456
     \<and> pl_next_unused p \<le> pl_capacity p \<and> pl_free_count p \<le> pl_next_unused p
     \<and> distinct (pl_free p) \<and> set (pl_free p) \<subseteq> {..<pl_next_unused p}
     \<and> (\<forall>n \<in> set (pl_sizes p). n \<le> 1456)"

lemma pool_ok_sizes: "pool_ok p \<Longrightarrow> i < pl_capacity p \<Longrightarrow> pl_sizes p ! i \<le> 1456"
  by (simp add: pool_ok_def pl_capacity_def)

lemma length_pl_free: "pool_ok p \<Longrightarrow> length (pl_free p) = pl_free_count p"
  by (simp add: pool_ok_def pl_free_def)

lemma card_pl_live: "pool_ok p \<Longrightarrow> card (pl_live p) = pl_next_unused p - pl_free_count p"
  using length_pl_free [of p] unfolding pl_live_def pool_ok_def
  by (simp add: card_Diff_subset distinct_card)

lemma pl_live_bound: "pool_ok p \<Longrightarrow> i \<in> pl_live p \<Longrightarrow> i < pl_capacity p"
  by (auto simp: pl_live_def pool_ok_def)

lemma make_PayloadPool_ok:
  assumes "make_PayloadPool storage capacity = Some p" "length storage \<ge> capacity * 1456"
  shows "pool_ok p" "pl_live p = {}" "pl_capacity p = capacity" "capacity \<noteq> 0"
  using assms
  by (auto simp: make_PayloadPool_def pl_checked_bytes_def pool_ok_def pl_live_def pl_free_def pl_capacity_def
      split: if_splits)

lemma pl_store_get:
  assumes "pool_ok p" "i < pl_capacity p" "length source \<le> 1456"
  shows "pl_get (pl_store p i source) i = source"
    and "j < pl_capacity p \<Longrightarrow> j \<noteq> i \<Longrightarrow> pl_get (pl_store p i source) j = pl_get p j"
    and "pool_ok (pl_store p i source)"
    and "pl_live (pl_store p i source) = pl_live p" and "pl_capacity (pl_store p i source) = pl_capacity p"
proof -
  have len: "i * 1456 + length source \<le> length (pl_payload p)"
    using assms region_fits [of i "pl_capacity p"] by (simp add: pool_ok_def)
  show "pl_get (pl_store p i source) i = source"
    using assms len by (simp add: pl_get_def pl_store_def pl_capacity_def copy_to_same)
  show "pl_get (pl_store p i source) j = pl_get p j" if "j < pl_capacity p" "j \<noteq> i"
    using that regions_apart [of j i "pl_sizes p ! j" "length source"] pool_ok_sizes [OF assms(1) that(1)] assms(3)
    by (simp add: pl_get_def pl_store_def) (rule copy_to_other [OF _ len], auto)
  show "pool_ok (pl_store p i source)"
    using assms len by (auto simp: pool_ok_def pl_store_def pl_capacity_def pl_free_def dest!: set_update_subset_insert [THEN subsetD])
  show "pl_live (pl_store p i source) = pl_live p" "pl_capacity (pl_store p i source) = pl_capacity p"
    by (simp_all add: pl_live_def pl_free_def pl_store_def pl_capacity_def)
qed

lemma pl_release_laws:
  assumes "pool_ok p" "i \<in> pl_live p"
  shows "pool_ok (pl_release p i)" "pl_live (pl_release p i) = pl_live p - {i}"
    "pl_capacity (pl_release p i) = pl_capacity p"
    "j \<noteq> i \<Longrightarrow> pl_get (pl_release p i) j = pl_get p j"
proof -
  have "0 < card (pl_live p)" using assms by (auto simp: card_gt_0_iff pl_live_def)
  then have fc: "pl_free_count p < pl_next_unused p" by (simp add: card_pl_live [OF assms(1)])
  then have free: "pl_free (pl_release p i) = pl_free p @ [i]"
    using assms(1) by (simp add: pl_free_def pl_release_def pool_ok_def take_Suc_conv_app_nth)
  then show "pl_live (pl_release p i) = pl_live p - {i}"
    by (auto simp: pl_live_def) (simp_all add: pl_release_def)
  show "pool_ok (pl_release p i)"
    using assms fc free unfolding pool_ok_def
    by (auto simp: pl_live_def pl_capacity_def) (auto simp: pl_release_def dest!: set_update_subset_insert [THEN subsetD])
  show "pl_capacity (pl_release p i) = pl_capacity p" by (simp add: pl_capacity_def pl_release_def)
  show "pl_get (pl_release p i) j = pl_get p j" if "j \<noteq> i" using that by (simp add: pl_get_def pl_release_def)
qed

lemma pl_acquire_laws:
  assumes "pool_ok p" "length source \<le> 1456" "card (pl_live p) < pl_capacity p"
  defines "i \<equiv> fst (pl_acquire p source)" and "p' \<equiv> snd (pl_acquire p source)"
  shows "pool_ok p' \<and> i \<notin> pl_live p \<and> pl_live p' = insert i (pl_live p) \<and> pl_capacity p' = pl_capacity p
    \<and> pl_get p' i = source \<and> (\<forall>j \<in> pl_live p. pl_get p' j = pl_get p j)"
proof -
  define p1 where "p1 = (if pl_free_count p \<noteq> 0 then p \<lparr>pl_free_count := pl_free_count p - 1\<rparr>
    else p \<lparr>pl_next_unused := pl_next_unused p + 1\<rparr>)"
  have p': "p' = pl_store p1 i source"
    by (simp add: p'_def i_def p1_def pl_acquire_def split_beta)
  have i: "i = (if pl_free_count p \<noteq> 0 then pl_free_indices p ! (pl_free_count p - 1) else pl_next_unused p)"
    by (simp add: i_def pl_acquire_def split_beta)
  have split: "pl_free p = pl_free p1 @ [i]" if "pl_free_count p \<noteq> 0"
  proof -
    have "pl_free_count p - 1 < length (pl_free_indices p)" using that assms(1) by (auto simp: pool_ok_def)
    from take_Suc_conv_app_nth [OF this] show ?thesis using that by (simp add: pl_free_def p1_def i)
  qed
  have keep: "pl_capacity p1 = pl_capacity p" "\<And>j. pl_get p1 j = pl_get p j"
    by (simp_all add: p1_def pl_capacity_def pl_get_def)
  have step: "pool_ok p1 \<and> i < pl_capacity p \<and> i \<notin> pl_live p \<and> pl_live p1 = insert i (pl_live p)"
  proof (cases "pl_free_count p = 0")
    case True
    with assms(1,3) show ?thesis
      by (auto simp: card_pl_live i p1_def pool_ok_def pl_free_def pl_live_def pl_capacity_def)
  next
    case False
    then have "set (pl_free p) = insert i (set (pl_free p1))" "distinct (pl_free p1)" "i \<notin> set (pl_free p1)"
      using split assms(1) by (auto simp: pool_ok_def)
    moreover have "pl_next_unused p1 = pl_next_unused p" "pl_payload p1 = pl_payload p"
      "pl_free_indices p1 = pl_free_indices p" "pl_sizes p1 = pl_sizes p" "pl_free_count p1 \<le> pl_free_count p"
      using False by (simp_all add: p1_def)
    ultimately show ?thesis using assms(1) by (auto simp: pool_ok_def pl_live_def keep(1))
  qed
  then show ?thesis
    using pl_store_get [of p1 i source] assms(2) pl_live_bound [OF assms(1)] by (auto simp: p' keep)
qed

interpretation pool: slab_pool pool_ok pl_live pl_capacity "\<lambda>b. length b \<le> 1456" pl_acquire pl_release pl_store pl_get
proof
  fix p :: PayloadPool and i :: nat and b :: bytes
  assume ok: "pool_ok p"
  show "finite (pl_live p)" by (simp add: pl_live_def)
  show "pool_ok (snd (pl_acquire p b)) \<and> fst (pl_acquire p b) \<notin> pl_live p
      \<and> pl_live (snd (pl_acquire p b)) = insert (fst (pl_acquire p b)) (pl_live p)
      \<and> pl_capacity (snd (pl_acquire p b)) = pl_capacity p
      \<and> pl_get (snd (pl_acquire p b)) (fst (pl_acquire p b)) = b
      \<and> (\<forall>j \<in> pl_live p. pl_get (snd (pl_acquire p b)) j = pl_get p j)"
    if "length b \<le> 1456" "card (pl_live p) < pl_capacity p"
    by (rule pl_acquire_laws [OF ok that])
  show "pool_ok (pl_release p i) \<and> pl_live (pl_release p i) = pl_live p - {i}
      \<and> pl_capacity (pl_release p i) = pl_capacity p
      \<and> (\<forall>j \<in> pl_live p - {i}. pl_get (pl_release p i) j = pl_get p j)" if "i \<in> pl_live p"
    using pl_release_laws [OF ok that] by auto
  show "pool_ok (pl_store p i b) \<and> pl_live (pl_store p i b) = pl_live p \<and> pl_capacity (pl_store p i b) = pl_capacity p
      \<and> pl_get (pl_store p i b) i = b \<and> (\<forall>j \<in> pl_live p - {i}. pl_get (pl_store p i b) j = pl_get p j)"
    if "i \<in> pl_live p" "length b \<le> 1456"
    using pl_store_get [OF ok pl_live_bound [OF ok that(1)] that(2)] pl_live_bound [OF ok] by auto
qed

section \<open>The pool is a finite map\<close>

text \<open>The pools a client can reach that releases and overwrites only what it holds.\<close>

inductive pool_reachable :: "nat \<Rightarrow> PayloadPool \<Rightarrow> bool" for capacity where
  fresh: "make_PayloadPool storage capacity = Some p \<Longrightarrow> capacity * 1456 \<le> length storage \<Longrightarrow>
    pool_reachable capacity p"
| acquire: "pool_reachable capacity p \<Longrightarrow> length b \<le> 1456 \<Longrightarrow> card (pl_live p) < capacity \<Longrightarrow>
    pool_reachable capacity (snd (pl_acquire p b))"
| release: "pool_reachable capacity p \<Longrightarrow> i \<in> pl_live p \<Longrightarrow> pool_reachable capacity (pl_release p i)"
| store: "pool_reachable capacity p \<Longrightarrow> i \<in> pl_live p \<Longrightarrow> length b \<le> 1456 \<Longrightarrow>
    pool_reachable capacity (pl_store p i b)"

lemma pool_reachable_ok: "pool_reachable capacity p \<Longrightarrow> pool_ok p \<and> pl_capacity p = capacity"
proof (induction rule: pool_reachable.induct)
  case (fresh storage p)
  then show ?case using make_PayloadPool_ok [of storage capacity p] by simp
next
  case (acquire p b)
  then show ?case using pool.acquire_laws [of p b] by simp
next
  case (release p i)
  then show ?case using pool.release_laws [of p i] by simp
next
  case (store p i b)
  then show ?case using pool.store_laws [of p i b] by simp
qed

definition pl_contents :: "PayloadPool \<Rightarrow> nat \<rightharpoonup> bytes" where
  "pl_contents p i = (if i \<in> pl_live p then Some (pl_get p i) else None)"

text \<open>
  C18. The payload pool refines a finite map from indices to packet bodies. In every reachable
  pool, acquiring picks an index that is not in use (never failing while fewer than the capacity
  are) and binds it to the bytes, storing rebinds one index, releasing unbinds one, and no
  operation changes what any other index holds, although all share one flat arena.
\<close>

theorem payload_pool_map:
  assumes "pool_reachable capacity p"
  shows "(length b \<le> 1456 \<and> card (dom (pl_contents p)) < capacity \<longrightarrow>
      pl_contents p (fst (pl_acquire p b)) = None \<and>
      pl_contents (snd (pl_acquire p b)) = (pl_contents p)(fst (pl_acquire p b) \<mapsto> b))
    \<and> (i \<in> dom (pl_contents p) \<longrightarrow> pl_contents (pl_release p i) = (pl_contents p)(i := None))
    \<and> (i \<in> dom (pl_contents p) \<and> length b \<le> 1456 \<longrightarrow>
        pl_contents (pl_store p i b) = (pl_contents p)(i \<mapsto> b))"
proof -
  have ok: "pool_ok p" "pl_capacity p = capacity" using pool_reachable_ok [OF assms] by simp_all
  have "dom (pl_contents p) = pl_live p" by (auto simp: pl_contents_def split: if_splits)
  with ok show ?thesis
    using pool.acquire_laws [of p b] pool.release_laws [of p i] pool.store_laws [of p i b]
    by (auto simp: pl_contents_def fun_eq_iff)
qed

theorem payload_pool_map_witness:
  "let p = the (make_PayloadPool (replicate 2912 0) 2)
   in pl_contents (snd (pl_acquire p [1, 2, 3])) = (pl_contents p)(fst (pl_acquire p [1, 2, 3]) \<mapsto> [1, 2, 3])"
proof -
  have "make_PayloadPool (replicate 2912 0) 2 = Some (the (make_PayloadPool (replicate 2912 0) 2))"
    by (simp add: make_PayloadPool_def pl_checked_bytes_def)
  then have "pool_reachable 2 (the (make_PayloadPool (replicate 2912 0) 2))"
    by (rule pool_reachable.fresh) simp
  moreover have "dom (pl_contents (the (make_PayloadPool (replicate 2912 0) 2))) = {}"
    by (simp add: make_PayloadPool_def pl_checked_bytes_def pl_contents_def pl_live_def dom_def)
  ultimately show ?thesis using payload_pool_map [of 2 _ "[1, 2, 3]"] by (simp add: Let_def)
qed

text \<open>A copied pool has the same contents, whatever the new storage held.\<close>

lemma pl_copy_payloads_get:
  assumes "pool_ok p" "n \<le> pl_next_unused p" "length target = pl_capacity p * 1456"
  shows "length (pl_copy_payloads p target n) = pl_capacity p * 1456
    \<and> (\<forall>i < n. take (pl_sizes p ! i) (drop (i * 1456) (pl_copy_payloads p target n)) = pl_get p i)"
  using assms(2)
proof (induction n)
  case (Suc n)
  have n: "n < pl_capacity p" using Suc.prems assms(1) by (simp add: pool_ok_def)
  have size: "length (pl_get p n) = pl_sizes p ! n"
    using pool_ok_sizes [OF assms(1) n] region_fits [OF n, of "pl_sizes p ! n"] assms(1)
    by (simp add: pl_get_def pool_ok_def)
  have fit: "n * 1456 + length (pl_get p n) \<le> length (pl_copy_payloads p target n)"
    using Suc pool_ok_sizes [OF assms(1) n] region_fits [OF n, of "pl_sizes p ! n"] size by simp
  have "take (pl_sizes p ! i) (drop (i * 1456) (pl_copy_payloads p target (Suc n))) = pl_get p i" if "i < Suc n" for i
  proof (cases "i = n")
    case True
    then show ?thesis using copy_to_same [OF fit] size by simp
  next
    case False
    have "pl_sizes p ! i \<le> 1456" using that n pool_ok_sizes [OF assms(1), of i] by simp
    then have apart: "i * 1456 + pl_sizes p ! i \<le> n * 1456 \<or> n * 1456 + length (pl_get p n) \<le> i * 1456"
      using regions_apart [of i n "pl_sizes p ! i" "length (pl_get p n)"] False pool_ok_sizes [OF assms(1) n] size by simp
    show ?thesis using copy_to_other [OF apart fit] Suc that False by simp
  qed
  then show ?case using Suc fit by simp
qed (simp add: assms(3))

lemma pl_copy_contents:
  assumes "pool_ok p" "pl_copy storage p = Some q" "pl_capacity p * 1456 \<le> length storage"
  shows "pl_contents q = pl_contents p"
proof -
  obtain count where "pl_checked_bytes (pl_capacity p) = Some count" "count = pl_capacity p * 1456"
    using assms(2) by (auto simp: pl_copy_def make_PayloadPool_def pl_capacity_def pl_checked_bytes_def split: option.splits if_splits)
  then have q: "pl_payload q = pl_copy_payloads p (take (pl_capacity p * 1456) storage) (pl_next_unused p)"
    "pl_sizes q = pl_sizes p" "pl_free_indices q = pl_free_indices p"
    "pl_next_unused q = pl_next_unused p" "pl_free_count q = pl_free_count p"
    using assms(2) by (auto simp: pl_copy_def make_PayloadPool_def pl_capacity_def)
  then have "pl_get q i = pl_get p i" if "i < pl_next_unused p" for i
    using pl_copy_payloads_get [OF assms(1) order_refl, of "take (pl_capacity p * 1456) storage"] assms(3) that
    by (simp add: pl_get_def)
  then show ?thesis using q by (auto simp: pl_contents_def pl_live_def pl_free_def fun_eq_iff)
qed

end
