(* ===== verification/Range_Drop_Queue.thy ===== *)
theory Range_Drop_Queue
  imports Sequence
begin

text \<open>
  \<^verbatim>\<open>detail/range_drop_queue.hpp\<close>: the sender's queue of sequence ranges it answers with
  sequence-only drop requests. The queue keeps the exact union of what was asked for as sorted
  intervals of sequence values; a range that wraps is stored as two intervals and joined again
  when it is emitted. The optional \<open>work\<close> counter of the source only counts steps for its tests
  and is not modelled.
\<close>

section \<open>The queue\<close>

abbreviation (input) maximum_range_drop_terms :: nat where "maximum_range_drop_terms \<equiv> 364"
abbreviation (input) range_drop_capacity :: nat where "range_drop_capacity \<equiv> 365"

record RangeDropQueue =
  dq_ranges :: "SequenceRange list"
  dq_head :: nat
  dq_size :: nat

abbreviation make_range :: "SequenceNumber \<Rightarrow> SequenceNumber \<Rightarrow> SequenceRange" where
  "make_range first final \<equiv> \<lparr>sr_first = first, sr_last = final\<rparr>"

definition make_RangeDropQueue :: RangeDropQueue where
  "make_RangeDropQueue =
     \<lparr>dq_ranges = replicate range_drop_capacity (make_range (SequenceNumber 0) (SequenceNumber 0)),
      dq_head = 0, dq_size = 0\<rparr>"

definition dq_empty :: "RangeDropQueue \<Rightarrow> bool" where
  "dq_empty q \<longleftrightarrow> dq_size q = 0"

definition dq_at :: "RangeDropQueue \<Rightarrow> nat \<Rightarrow> SequenceRange" where
  "dq_at q index = dq_ranges q ! ((dq_head q + index) mod range_drop_capacity)"

text \<open>The first loop of \<open>queue\<close>: reject a reversed range, cut a wrapping one in two.\<close>

fun dq_split :: "SequenceRange list \<Rightarrow> SequenceRange list option" where
  "dq_split [] = Some []"
| "dq_split (r # rest) =
     (if seq_distance (sr_last r) (sr_first r) < 0 then None
      else
        map_option
          (\<lambda>split.
             (if seq_value (sr_first r) \<le> seq_value (sr_last r) then [r]
              else [make_range (SequenceNumber 0) (sr_last r), make_range (sr_first r) (SequenceNumber 0x7fffffff)])
             @ split)
          (dq_split rest))"

text \<open>The merge loop. \<open>merged\<close> is the part of the preview array that has been filled.\<close>

definition dq_keep :: "SequenceRange list \<Rightarrow> SequenceRange \<Rightarrow> SequenceRange list" where
  "dq_keep merged r =
     (if merged \<noteq> [] \<and> seq_value (sr_first r) \<le> seq_value (sr_last (last merged)) + 1 then
        if seq_value (sr_last r) > seq_value (sr_last (last merged))
        then butlast merged @ [(last merged) \<lparr>sr_last := sr_last r\<rparr>] else merged
      else merged @ [r])"

fun dq_merge :: "SequenceRange list \<Rightarrow> SequenceRange list \<Rightarrow> SequenceRange list \<Rightarrow> SequenceRange list" where
  "dq_merge [] [] merged = merged"
| "dq_merge (r # old) [] merged = dq_merge old [] (dq_keep merged r)"
| "dq_merge [] (r # new) merged = dq_merge [] new (dq_keep merged r)"
| "dq_merge (a # old) (b # new) merged =
     (if seq_value (sr_first a) \<le> seq_value (sr_first b) then dq_merge old (b # new) (dq_keep merged a)
      else dq_merge (a # old) new (dq_keep merged b))"

definition dq_queue :: "RangeDropQueue \<Rightarrow> SequenceRange list \<Rightarrow> bool \<times> RangeDropQueue" where
  "dq_queue q incoming =
     (if length incoming > maximum_range_drop_terms \<or> length (dq_ranges q) \<noteq> range_drop_capacity then (False, q)
      else if incoming = [] then (True, q)
      else
        case dq_split incoming of
          None \<Rightarrow> (False, q)
        | Some split \<Rightarrow>
            let merged = dq_merge (map (dq_at q) [0..<dq_size q])
                           (sort_key (\<lambda>r. seq_value (sr_first r)) split) []
            in if length merged > range_drop_capacity then (False, q)
               else (True, \<lparr>dq_ranges = merged @ drop (length merged) (dq_ranges q),
                            dq_head = 0, dq_size = length merged\<rparr>))"

definition dq_next :: "RangeDropQueue \<Rightarrow> SequenceRange option \<times> RangeDropQueue" where
  "dq_next q =
     (if dq_empty q then (None, q)
      else
        let tail = dq_at q (dq_size q - 1);
            wrap = make_range (sr_first tail) (sr_last (dq_at q 0))
        in if dq_size q > 1 \<and> sr_first (dq_at q 0) = SequenceNumber 0
              \<and> sr_last tail = SequenceNumber 0x7fffffff
              \<and> seq_distance (sr_last wrap) (sr_first wrap) \<ge> 0
           then (Some wrap, q \<lparr>dq_head := (dq_head q + 1) mod range_drop_capacity, dq_size := dq_size q - 2\<rparr>)
           else
             let first = dq_ranges q ! dq_head q
             in if seq_value (sr_last first) - seq_value (sr_first first) \<ge> 0x40000000 then
                  let result = make_range (sr_first first) (seq_advanced (sr_first first) (0x40000000 - 1))
                  in (Some result,
                      q \<lparr>dq_ranges := (dq_ranges q)[dq_head q := first \<lparr>sr_first := seq_next (sr_last result)\<rparr>]\<rparr>)
                else (Some first,
                      q \<lparr>dq_head := (dq_head q + 1) mod range_drop_capacity, dq_size := dq_size q - 1\<rparr>))"

section \<open>Canonical interval lists\<close>

abbreviation lo :: "SequenceRange \<Rightarrow> int" where "lo r \<equiv> seq_int (sr_first r)"
abbreviation hi :: "SequenceRange \<Rightarrow> int" where "hi r \<equiv> seq_int (sr_last r)"

definition covered :: "SequenceRange list \<Rightarrow> SequenceNumber set" where
  "covered rs = {s. \<exists>r \<in> set rs. lo r \<le> seq_int s \<and> seq_int s \<le> hi r}"

fun canonical :: "SequenceRange list \<Rightarrow> bool" where
  "canonical [] \<longleftrightarrow> True"
| "canonical [r] \<longleftrightarrow> lo r \<le> hi r"
| "canonical (r # r' # rs) \<longleftrightarrow> lo r \<le> hi r \<and> hi r + 1 < lo r' \<and> canonical (r' # rs)"

lemma covered_simps [simp]:
  "covered [] = {}" "covered (xs @ ys) = covered xs \<union> covered ys"
  "covered (r # rs) = {s. lo r \<le> seq_int s \<and> seq_int s \<le> hi r} \<union> covered rs"
  by (auto simp: covered_def)

lemma covered_set: "set xs = set ys \<Longrightarrow> covered xs = covered ys"
  by (simp add: covered_def)

lemma canonical_append:
  "canonical (xs @ [r]) \<longleftrightarrow> canonical xs \<and> lo r \<le> hi r \<and> (xs \<noteq> [] \<longrightarrow> hi (last xs) + 1 < lo r)"
  by (induction xs rule: canonical.induct) auto

lemma canonical_tl: "canonical (r # rs) \<Longrightarrow> canonical rs"
  by (cases rs) auto

lemma canonical_head: "canonical (r # rs) \<Longrightarrow> lo r \<le> hi r"
  by (cases rs) auto

lemma canonical_lower: "canonical (r # rs) \<Longrightarrow> r' \<in> set rs \<Longrightarrow> hi r + 1 < lo r' \<and> lo r' \<le> hi r'"
proof (induction rs arbitrary: r)
  case (Cons a rs)
  then have a: "hi r + 1 < lo a" "canonical (a # rs)" by simp_all
  show ?case
  proof (cases "r' = a")
    case True
    then show ?thesis using a canonical_head [OF a(2)] by simp
  next
    case False
    then have "hi a + 1 < lo r' \<and> lo r' \<le> hi r'" using Cons.IH [OF a(2)] Cons.prems(2) by simp
    then show ?thesis using a(1) canonical_head [OF a(2)] by linarith
  qed
qed simp

lemma canonical_sorted: "canonical rs \<Longrightarrow> sorted (map lo rs) \<and> (\<forall>r \<in> set rs. lo r \<le> hi r)"
  by (induction rs rule: canonical.induct) auto

lemma canonical_butlast: "canonical rs \<Longrightarrow> canonical (butlast rs)"
  by (cases rs rule: rev_cases) (simp_all add: canonical_append)

lemma canonical_upper:
  assumes "canonical (rs @ [r])" "r' \<in> set rs"
  shows "hi r' + 1 < lo r"
  using assms
proof (induction rs)
  case (Cons a rs)
  then show ?case
    using canonical_lower [of a "rs @ [r]" r] by (auto dest: canonical_tl)
qed simp

section \<open>Merging\<close>

lemma seq_value_le_int: "seq_value a \<le> seq_value b \<longleftrightarrow> seq_int a \<le> seq_int b"
  by (simp add: word_le_def)

lemma seq_value_succ_int: "uint (seq_value a + 1) = seq_int a + 1"
  using seq_int_range(2) [of a] by (subst uint_add_lem [THEN iffD1]) simp_all

lemma dq_keep_int:
  "dq_keep merged r =
     (if merged \<noteq> [] \<and> lo r \<le> hi (last merged) + 1 then
        if hi (last merged) < hi r then butlast merged @ [(last merged) \<lparr>sr_last := sr_last r\<rparr>] else merged
      else merged @ [r])"
  by (simp add: dq_keep_def word_le_def word_less_def seq_value_succ_int)

definition reaches :: "SequenceRange list \<Rightarrow> int \<Rightarrow> bool" where
  "reaches merged x \<longleftrightarrow> (merged \<noteq> [] \<longrightarrow> lo (last merged) \<le> x)"

lemma dq_keep_correct:
  assumes "canonical merged" "reaches merged (lo r)" "lo r \<le> hi r"
  shows "canonical (dq_keep merged r)" "covered (dq_keep merged r) = covered (merged @ [r])"
    "lo r \<le> x \<Longrightarrow> reaches (dq_keep merged r) x"
proof -
  consider (new) "merged = [] \<or> hi (last merged) + 1 < lo r"
    | (old) ms m where "merged = ms @ [m]" "lo r \<le> hi m + 1"
    by (cases merged rule: rev_cases) (auto, linarith)
  then have "canonical (dq_keep merged r) \<and> covered (dq_keep merged r) = covered (merged @ [r])
      \<and> (lo r \<le> x \<longrightarrow> reaches (dq_keep merged r) x)"
  proof cases
    case new
    then have "dq_keep merged r = merged @ [r]" by (auto simp: dq_keep_int)
    with new assms show ?thesis by (auto simp: canonical_append reaches_def)
  next
    case old
    then have m: "canonical ms" "lo m \<le> hi m" "ms \<noteq> [] \<longrightarrow> hi (last ms) + 1 < lo m" "lo m \<le> lo r"
      using assms(1,2) by (simp_all add: canonical_append reaches_def)
    have "dq_keep merged r = ms @ [if hi m < hi r then m \<lparr>sr_last := sr_last r\<rparr> else m]"
      using old by (simp add: dq_keep_int)
    with m old assms(3) show ?thesis by (auto simp: canonical_append reaches_def)
  qed
  then show "canonical (dq_keep merged r)" "covered (dq_keep merged r) = covered (merged @ [r])"
    "lo r \<le> x \<Longrightarrow> reaches (dq_keep merged r) x" by simp_all
qed

definition mergeable :: "SequenceRange list \<Rightarrow> SequenceRange list \<Rightarrow> bool" where
  "mergeable merged rs \<longleftrightarrow>
     sorted (map lo rs) \<and> (\<forall>r \<in> set rs. lo r \<le> hi r) \<and> (rs \<noteq> [] \<longrightarrow> reaches merged (lo (hd rs)))"

lemma mergeable_keep:
  assumes "canonical merged" "mergeable merged (r # rs)"
  shows "canonical (dq_keep merged r)" "mergeable (dq_keep merged r) rs"
    "covered (dq_keep merged r) = covered (merged @ [r])"
    "mergeable merged os \<Longrightarrow> (os \<noteq> [] \<longrightarrow> lo r \<le> lo (hd os)) \<Longrightarrow> mergeable (dq_keep merged r) os"
  using assms dq_keep_correct [OF assms(1), of r] by (auto simp: mergeable_def neq_Nil_conv)

lemma dq_merge_correct:
  assumes "canonical merged" "mergeable merged old" "mergeable merged new"
  shows "canonical (dq_merge old new merged)
    \<and> covered (dq_merge old new merged) = covered merged \<union> covered old \<union> covered new"
  using assms
proof (induction old new merged rule: dq_merge.induct)
  case (2 r old merged)
  from 2 mergeable_keep [OF 2(2,3)] show ?case by (auto simp: mergeable_def)
next
  case (3 r new merged)
  from 3 mergeable_keep [OF 3(2,4)] show ?case by (auto simp: mergeable_def)
next
  case (4 a old b new merged)
  show ?case
  proof (cases "lo a \<le> lo b")
    case True
    with 4 mergeable_keep [OF 4(3,4)] mergeable_keep(4) [OF 4(3,4,5)] show ?thesis
      by (auto simp: seq_value_le_int)
  next
    case False
    with 4 mergeable_keep [OF 4(3,5)] mergeable_keep(4) [OF 4(3,5,4)] show ?thesis
      by (auto simp: seq_value_le_int)
  qed
qed simp

section \<open>Cutting wrapping ranges\<close>

text \<open>The sequence numbers of a range on the wire, which may wrap.\<close>

definition range_set :: "SequenceRange \<Rightarrow> SequenceNumber set" where
  "range_set r = {s. 0 \<le> seq_distance s (sr_first r)
     \<and> seq_distance s (sr_first r) \<le> seq_distance (sr_last r) (sr_first r)}"

definition forward_range :: "SequenceRange \<Rightarrow> bool" where
  "forward_range r \<longleftrightarrow> 0 \<le> seq_distance (sr_last r) (sr_first r)"

definition wrapped :: "int \<Rightarrow> int" where
  "wrapped d = (if d < - 1073741824 then d + 2147483648 else if d < 1073741824 then d else d - 2147483648)"

lemma seq_distance_cases: "seq_distance s t = wrapped (seq_int s - seq_int t)"
proof -
  let ?d = "seq_int s - seq_int t"
  have r: "- 2147483648 < ?d" "?d < 2147483648"
    using seq_int_range [of s] seq_int_range [of t] by linarith+
  consider "?d < - 1073741824" | "- 1073741824 \<le> ?d" "?d < 1073741824" | "1073741824 \<le> ?d" by linarith
  then show ?thesis
  proof cases
    case 1
    then have "seq_distance s t = ?d + 2147483648" using r by (intro sn.dist_unique) simp_all
    with 1 show ?thesis by (simp add: wrapped_def)
  next
    case 2
    then have "seq_distance s t = ?d" by (intro sn.dist_unique) simp_all
    with 2 show ?thesis by (simp add: wrapped_def)
  next
    case 3
    then have "seq_distance s t = ?d - 2147483648" using r by (intro sn.dist_unique) simp_all
    with 3 show ?thesis by (simp add: wrapped_def)
  qed
qed

text \<open>The same over plain integers in the value range.\<close>

lemma wrapped_plain:
  fixes f l x :: int
  assumes "0 \<le> f" "f \<le> l" "l < 2147483648" "0 \<le> x" "x < 2147483648" "0 \<le> wrapped (l - f)"
  shows "l - f < 1073741824" "0 \<le> wrapped (x - f) \<and> wrapped (x - f) \<le> wrapped (l - f) \<longleftrightarrow> f \<le> x \<and> x \<le> l"
  using assms by (auto simp: wrapped_def split: if_splits)

lemma wrapped_around:
  fixes f l x :: int
  assumes "f < 2147483648" "l < f" "0 \<le> l" "0 \<le> x" "x < 2147483648" "0 \<le> wrapped (l - f)"
  shows "1073741824 < f - l" "0 \<le> wrapped (x - f) \<and> wrapped (x - f) \<le> wrapped (l - f) \<longleftrightarrow> x \<le> l \<or> f \<le> x"
  using assms by (auto simp: wrapped_def split: if_splits)

lemma range_set_plain:
  assumes "forward_range r" "lo r \<le> hi r"
  shows "range_set r = {s. lo r \<le> seq_int s \<and> seq_int s \<le> hi r}" "hi r - lo r < 1073741824"
  using wrapped_plain [OF seq_int_range(1) assms(2) seq_int_range(2) seq_int_range(1) seq_int_range(2)] assms(1)
  by (simp_all add: range_set_def forward_range_def seq_distance_cases)

lemma range_set_wrapping:
  assumes "forward_range r" "hi r < lo r"
  shows "range_set r = {s. seq_int s \<le> hi r \<or> lo r \<le> seq_int s}" "1073741824 < lo r - hi r"
  using wrapped_around [OF seq_int_range(2) assms(2) seq_int_range(1) seq_int_range(1) seq_int_range(2)] assms(1)
  by (simp_all add: range_set_def forward_range_def seq_distance_cases)

lemma dq_split_correct:
  "dq_split rs = Some split \<Longrightarrow>
     (\<forall>r \<in> set rs. forward_range r) \<and> (\<forall>r \<in> set split. lo r \<le> hi r)
     \<and> covered split = (\<Union>r \<in> set rs. range_set r)"
proof (induction rs arbitrary: split)
  case (Cons r rs)
  then obtain more where fwd: "forward_range r" and more: "dq_split rs = Some more"
    and split: "split = (if lo r \<le> hi r then [r]
      else [make_range (SequenceNumber 0) (sr_last r), make_range (sr_first r) (SequenceNumber 0x7fffffff)]) @ more"
    by (auto simp: forward_range_def seq_value_le_int split: if_splits)
  have top: "seq_int s \<le> 2147483647" for s using seq_int_range(2) [of s] by simp
  show ?case
  proof (cases "lo r \<le> hi r")
    case True
    with Cons.IH [OF more] fwd split show ?thesis by (auto simp: range_set_plain)
  next
    case False
    then have "hi r < lo r" by simp
    with Cons.IH [OF more] fwd split top show ?thesis by (auto simp: range_set_wrapping)
  qed
qed simp

lemma dq_split_None: "dq_split rs = None \<longleftrightarrow> (\<exists>r \<in> set rs. \<not> forward_range r)"
  by (induction rs) (auto simp: forward_range_def)

section \<open>The queue keeps the exact union\<close>

definition dq_view :: "RangeDropQueue \<Rightarrow> SequenceRange list" where
  "dq_view q = map (dq_at q) [0..<dq_size q]"

definition dq_ok :: "RangeDropQueue \<Rightarrow> bool" where
  "dq_ok q \<longleftrightarrow> length (dq_ranges q) = 365 \<and> dq_head q < 365 \<and> dq_size q \<le> 365 \<and> canonical (dq_view q)"

definition dq_pending :: "RangeDropQueue \<Rightarrow> SequenceNumber set" where
  "dq_pending q = covered (dq_view q)"

lemma dq_view_ring: "length (dq_ranges q) = 365 \<Longrightarrow> dq_view q = ring_view (dq_ranges q) (dq_head q) (dq_size q)"
  by (simp add: dq_view_def ring_view_def dq_at_def ring_at_def)

lemma make_RangeDropQueue_ok: "dq_ok make_RangeDropQueue" "dq_pending make_RangeDropQueue = {}"
  by (simp_all add: dq_ok_def make_RangeDropQueue_def dq_view_def dq_pending_def)

lemma mergeable_canonical: "canonical rs \<Longrightarrow> mergeable [] rs"
  using canonical_sorted [of rs] by (simp add: mergeable_def reaches_def)

lemma mergeable_sort: "\<forall>r \<in> set rs. lo r \<le> hi r \<Longrightarrow> mergeable [] (sort_key (\<lambda>r. seq_value (sr_first r)) rs)"
proof -
  have "sorted (map (\<lambda>r. seq_value (sr_first r)) (sort_key (\<lambda>r. seq_value (sr_first r)) rs))"
    by (rule sorted_sort_key)
  then have "sorted (map lo (sort_key (\<lambda>r. seq_value (sr_first r)) rs))"
    by (simp add: sorted_wrt_map sorted_map word_le_def)
  then show "\<forall>r \<in> set rs. lo r \<le> hi r \<Longrightarrow> ?thesis" by (simp add: mergeable_def reaches_def)
qed

lemma dq_queue_merged:
  assumes "dq_ok q" "dq_split incoming = Some split"
  defines "merged \<equiv> dq_merge (dq_view q) (sort_key (\<lambda>r. seq_value (sr_first r)) split) []"
  shows "canonical merged" "covered merged = dq_pending q \<union> (\<Union>r \<in> set incoming. range_set r)"
proof -
  have "canonical [] " by simp
  moreover have "mergeable [] (dq_view q)" using assms(1) by (simp add: dq_ok_def mergeable_canonical)
  moreover have "mergeable [] (sort_key (\<lambda>r. seq_value (sr_first r)) split)"
    using dq_split_correct [OF assms(2)] by (simp add: mergeable_sort)
  ultimately have "canonical merged
      \<and> covered merged = covered [] \<union> dq_pending q \<union> covered (sort_key (\<lambda>r. seq_value (sr_first r)) split)"
    unfolding merged_def dq_pending_def by (rule dq_merge_correct)
  moreover have "covered (sort_key (\<lambda>r. seq_value (sr_first r)) split) = covered split"
    by (rule covered_set) simp
  ultimately show "canonical merged" "covered merged = dq_pending q \<union> (\<Union>r \<in> set incoming. range_set r)"
    using dq_split_correct [OF assms(2)] by simp_all
qed

lemma dq_view_installed:
  assumes "length merged \<le> 365" "length ranges = 365"
  shows "dq_view \<lparr>dq_ranges = merged @ drop (length merged) ranges, dq_head = 0, dq_size = length merged\<rparr> = merged"
  using assms by (intro nth_equalityI) (simp_all add: dq_view_def dq_at_def nth_append)

lemma dq_queue_correct:
  assumes "dq_ok q"
  shows "fst (dq_queue q incoming) \<Longrightarrow> dq_ok (snd (dq_queue q incoming))
      \<and> dq_pending (snd (dq_queue q incoming)) = dq_pending q \<union> (\<Union>r \<in> set incoming. range_set r)"
    and "\<not> fst (dq_queue q incoming) \<Longrightarrow> snd (dq_queue q incoming) = q"
proof -
  show "\<not> fst (dq_queue q incoming) \<Longrightarrow> snd (dq_queue q incoming) = q"
    by (auto simp: dq_queue_def Let_def split: if_splits option.splits)
  assume acc: "fst (dq_queue q incoming)"
  show "dq_ok (snd (dq_queue q incoming))
      \<and> dq_pending (snd (dq_queue q incoming)) = dq_pending q \<union> (\<Union>r \<in> set incoming. range_set r)"
  proof (cases "incoming = []")
    case True
    with acc assms show ?thesis by (simp add: dq_queue_def split: if_splits)
  next
    case False
    then obtain split where split: "dq_split incoming = Some split"
      using acc by (auto simp: dq_queue_def split: if_splits option.splits)
    define merged where "merged = dq_merge (dq_view q) (sort_key (\<lambda>r. seq_value (sr_first r)) split) []"
    note m = dq_queue_merged [OF assms split, folded merged_def]
    have len: "length merged \<le> 365" and q': "snd (dq_queue q incoming) =
        \<lparr>dq_ranges = merged @ drop (length merged) (dq_ranges q), dq_head = 0, dq_size = length merged\<rparr>"
      using acc False split by (simp_all add: dq_queue_def Let_def merged_def dq_view_def split: if_splits)
    have view: "dq_view (snd (dq_queue q incoming)) = merged"
      unfolding q' using dq_view_installed [OF len] assms by (simp add: dq_ok_def)
    show ?thesis
      using m len assms by (simp add: dq_ok_def dq_pending_def view) (simp add: q')
  qed
qed

section \<open>Emission\<close>

text \<open>How many ranges an interval can be emitted as.\<close>

definition pieces :: "SequenceRange list \<Rightarrow> nat" where
  "pieces rs = sum_list (map (\<lambda>r. if 1073741824 \<le> hi r - lo r then 2 else 1) rs)"

lemma pieces_simps [simp]:
  "pieces [] = 0" "pieces (r # rs) = (if 1073741824 \<le> hi r - lo r then 2 else 1) + pieces rs"
  "pieces (xs @ ys) = pieces xs + pieces ys"
  by (simp_all add: pieces_def)

lemma pieces_bound: "pieces rs \<le> 2 * length rs"
  by (induction rs) auto

text \<open>The three ways in which the next range is taken, over the view.\<close>

definition view_next :: "SequenceRange list \<Rightarrow> SequenceRange \<Rightarrow> SequenceRange list \<Rightarrow> bool" where
  "view_next rs r rs' \<longleftrightarrow>
     (\<exists>a z mid. rs = a # mid @ [z] \<and> rs' = mid \<and> r = make_range (sr_first z) (sr_last a)
        \<and> lo a = 0 \<and> hi z = 2147483647 \<and> forward_range r)
     \<or> (\<exists>a rest. rs = a # rest \<and> 1073741824 \<le> hi a - lo a
        \<and> r = make_range (sr_first a) (seq_advanced (sr_first a) 0x3fffffff)
        \<and> rs' = a \<lparr>sr_first := seq_advanced (sr_first a) 0x40000000\<rparr> # rest)
     \<or> (\<exists>a rest. rs = a # rest \<and> hi a - lo a < 1073741824 \<and> r = a \<and> rs' = rest)"

lemma seq_int_eq_iff: "seq_int s = seq_int t \<longleftrightarrow> s = t"
  by (metis sn.val_inject)

lemma seq_int_advanced_small:
  "seq_int s + uint n < 2147483648 \<Longrightarrow> seq_int (seq_advanced s n) = seq_int s + uint n"
  by (simp add: seq_int_advanced)

text \<open>What taking a range must do to the intervals.\<close>

definition takes :: "SequenceRange list \<Rightarrow> SequenceRange \<Rightarrow> SequenceRange list \<Rightarrow> bool" where
  "takes rs r rs' \<longleftrightarrow>
     canonical rs' \<and> forward_range r \<and> covered rs = range_set r \<union> covered rs'
     \<and> range_set r \<inter> covered rs' = {} \<and> pieces rs' < pieces rs \<and> length rs' \<le> length rs"

lemma takes_wrap:
  assumes "canonical (a # mid @ [z])" "r = make_range (sr_first z) (sr_last a)"
    "lo a = 0" "hi z = 2147483647" "forward_range r"
  shows "takes (a # mid @ [z]) r mid"
proof -
  have top: "seq_int s \<le> 2147483647" for s using seq_int_range(2) [of s] by simp
  have "canonical mid" "hi a + 1 < lo z" "lo a \<le> hi a" "lo z \<le> hi z"
    using assms(1) canonical_lower [of a "mid @ [z]" z] canonical_head [of a]
    by (auto dest!: canonical_tl simp: canonical_append)
  moreover have "hi a + 1 < lo m" "hi m + 1 < lo z" if "m \<in> set mid" for m
    using that assms(1) canonical_lower [of a "mid @ [z]" m] canonical_upper [of "a # mid" z m] by auto
  moreover have "range_set r = {s. seq_int s \<le> hi a \<or> lo z \<le> seq_int s}"
    using range_set_wrapping(1) [OF assms(5)] \<open>hi a + 1 < lo z\<close> assms(2) by simp
  ultimately show ?thesis using assms top unfolding takes_def by (fastforce simp: covered_def)
qed

lemma takes_big:
  assumes "canonical (a # rest)" "1073741824 \<le> hi a - lo a"
    "r = make_range (sr_first a) (seq_advanced (sr_first a) 0x3fffffff)"
    "rs' = a \<lparr>sr_first := seq_advanced (sr_first a) 0x40000000\<rparr> # rest"
  shows "takes (a # rest) r rs'"
proof -
  let ?m = "seq_advanced (sr_first a) 0x40000000" and ?l = "seq_advanced (sr_first a) 0x3fffffff"
  have "lo a + 1073741824 < 2147483648" using assms(2) seq_int_range(2) [of "sr_last a"] by simp
  then have m: "seq_int ?m = lo a + 1073741824" "seq_int ?l = lo a + 1073741823"
    by (simp_all add: seq_int_advanced_small)
  have "canonical rs'" using assms(1,2,4) m by (cases rest) simp_all
  moreover have fwd: "forward_range r" by (simp add: assms(3) forward_range_def seq_distance_cases m wrapped_def)
  moreover have "range_set r = {s. lo a \<le> seq_int s \<and> seq_int s \<le> lo a + 1073741823}"
    using range_set_plain(1) [OF fwd] by (simp add: assms(3) m)
  moreover have "lo b > hi a" if "b \<in> set rest" for b
    using canonical_lower [of a rest b] assms(1) that by simp
  moreover have "hi a - lo a < 2147483648" using seq_int_range [of "sr_last a"] seq_int_range [of "sr_first a"] by linarith
  ultimately show ?thesis using assms m unfolding takes_def by (fastforce simp: covered_def)
qed

lemma takes_small:
  assumes "canonical (a # rest)" "hi a - lo a < 1073741824"
  shows "takes (a # rest) a rest"
proof -
  have le: "lo a \<le> hi a" using assms(1) canonical_head by blast
  have fwd: "forward_range a" using assms(2) le by (simp add: forward_range_def seq_distance_cases wrapped_def)
  then have "range_set a = {s. lo a \<le> seq_int s \<and> seq_int s \<le> hi a}" using range_set_plain(1) [OF fwd] le by simp
  moreover have "lo b > hi a" if "b \<in> set rest" for b
    using canonical_lower [of a rest b] assms(1) that by simp
  ultimately show ?thesis using assms fwd unfolding takes_def by (fastforce simp: covered_def dest: canonical_tl)
qed

lemma view_next_correct: "canonical rs \<Longrightarrow> view_next rs r rs' \<Longrightarrow> takes rs r rs'"
  unfolding view_next_def by (auto intro: takes_wrap takes_big takes_small)

lemma dq_view_Cons:
  assumes "dq_ok q" "dq_size q = Suc n"
  shows "dq_view q = dq_at q 0 # dq_view (q \<lparr>dq_head := (dq_head q + 1) mod 365, dq_size := n\<rparr>)"
    and "dq_at q 0 = dq_ranges q ! dq_head q"
  using assms ring_view_Cons [of "dq_ranges q" "dq_head q" n]
  by (simp_all add: dq_view_ring dq_ok_def dq_at_def ring_at_def)

lemma dq_view_set_head:
  assumes "dq_ok q" "dq_size q = Suc n"
  shows "dq_view (q \<lparr>dq_ranges := (dq_ranges q)[dq_head q := r]\<rparr>) = (dq_view q)[0 := r]"
  using assms ring_view_put [of 0 "dq_ranges q" "dq_size q" "dq_head q" r]
  by (simp add: dq_view_ring dq_ok_def ring_put_def)

lemma interval_width:
  assumes "lo a \<le> hi a"
  shows "0x40000000 \<le> seq_value (sr_last a) - seq_value (sr_first a) \<longleftrightarrow> 1073741824 \<le> hi a - lo a"
  using assms by (simp add: word_le_def uint_sub_lem [THEN iffD1])

lemma seq_next_half: "seq_next (seq_advanced s (0x40000000 - 1)) = seq_advanced s 0x40000000"
proof (rule sn.val_inject)
  have "seq_int (seq_next (seq_advanced s (0x40000000 - 1))) = (seq_int s + 1073741823 + 1) mod 2147483648"
    by (simp add: seq_next_adv seq_int_advanced mod_add_left_eq)
  then show "seq_int (seq_next (seq_advanced s (0x40000000 - 1))) = seq_int (seq_advanced s 0x40000000)"
    by (simp add: seq_int_advanced) (simp only: add.commute)
qed

lemma dq_next_view:
  assumes "dq_ok q" "dq_next q = (Some r, q')"
  shows "view_next (dq_view q) r (dq_view q')"
    "length (dq_ranges q') = 365" "dq_head q' < 365" "dq_size q' \<le> dq_size q"
proof -
  obtain n where n: "dq_size q = Suc n" using assms(2) by (cases "dq_size q") (auto simp: dq_next_def dq_empty_def)
  note view = dq_view_Cons [OF assms(1) n]
  let ?a = "dq_at q 0" and ?z = "dq_at q n"
  let ?wrap = "make_range (sr_first ?z) (sr_last ?a)"
  let ?joins = "dq_size q > 1 \<and> sr_first ?a = SequenceNumber 0 \<and> sr_last ?z = SequenceNumber 0x7fffffff
    \<and> seq_distance (sr_last ?wrap) (sr_first ?wrap) \<ge> 0"
  have big: "0x40000000 \<le> seq_value (sr_last ?a) - seq_value (sr_first ?a) \<longleftrightarrow> 1073741824 \<le> hi ?a - lo ?a"
    using assms(1) unfolding dq_ok_def view(1) by (intro interval_width) (blast intro: canonical_head)
  have "view_next (dq_view q) r (dq_view q') \<and> length (dq_ranges q') = 365 \<and> dq_head q' < 365 \<and> dq_size q' \<le> dq_size q"
  proof (cases ?joins)
    case True
    then obtain k where k: "n = Suc k" using n by (cases n) auto
    let ?q = "q \<lparr>dq_head := (dq_head q + 1) mod 365, dq_size := k\<rparr>"
    have "dq_view (q \<lparr>dq_head := (dq_head q + 1) mod 365, dq_size := n\<rparr>) = dq_view ?q @ [?z]"
      using assms(1) by (simp add: dq_view_def dq_at_def k mod_simps)
    then have "dq_view q = ?a # dq_view ?q @ [?z]" using view(1) by simp
    moreover have "r = ?wrap" "q' = ?q" using assms(2) True k n by (auto simp: dq_next_def dq_empty_def)
    ultimately show ?thesis
      using True assms(1) k n by (simp add: view_next_def forward_range_def dq_ok_def)
  next
    case False
    show ?thesis
    proof (cases "1073741824 \<le> hi ?a - lo ?a")
      case True
      then have "r = make_range (sr_first ?a) (seq_advanced (sr_first ?a) 0x3fffffff)"
        "q' = q \<lparr>dq_ranges := (dq_ranges q)[dq_head q := ?a \<lparr>sr_first := seq_advanced (sr_first ?a) 0x40000000\<rparr>]\<rparr>"
        using assms(2) n False big seq_next_half by (auto simp: dq_next_def dq_empty_def Let_def view(2))
      then show ?thesis
        using True assms(1) view(1) dq_view_set_head [OF assms(1) n] by (simp add: view_next_def dq_ok_def)
    next
      case small: False
      then have "r = ?a" "q' = q \<lparr>dq_head := (dq_head q + 1) mod 365, dq_size := n\<rparr>"
        using assms(2) n False big by (auto simp: dq_next_def dq_empty_def Let_def view(2))
      then show ?thesis using small assms(1) view(1) n by (simp add: view_next_def dq_ok_def)
    qed
  qed
  then show "view_next (dq_view q) r (dq_view q')" "length (dq_ranges q') = 365" "dq_head q' < 365"
    "dq_size q' \<le> dq_size q" by simp_all
qed

lemma dq_next_correct:
  assumes "dq_ok q" "dq_next q = (Some r, q')"
  shows "dq_ok q' \<and> forward_range r \<and> dq_pending q = range_set r \<union> dq_pending q'
    \<and> range_set r \<inter> dq_pending q' = {} \<and> pieces (dq_view q') < pieces (dq_view q)"
proof -
  have "takes (dq_view q) r (dq_view q')"
    using assms(1) dq_next_view(1) [OF assms] by (intro view_next_correct) (simp_all add: dq_ok_def)
  then show ?thesis
    using assms(1) dq_next_view(2-4) [OF assms] by (simp add: takes_def dq_ok_def dq_pending_def)
qed

lemma dq_next_None: "dq_next q = (None, q') \<longleftrightarrow> dq_size q = 0 \<and> q' = q"
  by (auto simp: dq_next_def dq_empty_def Let_def split: if_splits)

inductive dq_reachable :: "RangeDropQueue \<Rightarrow> bool" where
  fresh: "dq_reachable make_RangeDropQueue"
| queued: "dq_reachable q \<Longrightarrow> dq_reachable (snd (dq_queue q incoming))"
| emitted: "dq_reachable q \<Longrightarrow> dq_reachable (snd (dq_next q))"

lemma dq_reachable_ok: "dq_reachable q \<Longrightarrow> dq_ok q"
proof (induction rule: dq_reachable.induct)
  case (queued q incoming)
  then show ?case using dq_queue_correct [of q incoming] by (cases "fst (dq_queue q incoming)") auto
next
  case (emitted q)
  obtain res q' where res: "dq_next q = (res, q')" by force
  show ?case
  proof (cases res)
    case None
    then show ?thesis using emitted.IH res dq_next_None [of q q'] by simp
  next
    case (Some r)
    then show ?thesis using emitted.IH res dq_next_correct [of q r q'] by simp
  qed
qed (rule make_RangeDropQueue_ok)

text \<open>
  C19. The drop queue holds the exact union of what it accepted. In every reachable queue, a batch
  is either refused without any change, or accepted with the pending set growing by exactly the
  sequence numbers of its ranges, wrapping ones included; a batch of at most 364 valid ranges is
  refused only when the merged union would need more than 365 intervals.
\<close>

theorem range_drop_union:
  assumes "dq_reachable q"
  shows "(if fst (dq_queue q incoming)
     then dq_reachable (snd (dq_queue q incoming))
       \<and> dq_pending (snd (dq_queue q incoming)) = dq_pending q \<union> (\<Union>r \<in> set incoming. range_set r)
       \<and> list_all forward_range incoming
     else snd (dq_queue q incoming) = q
       \<and> (364 < length incoming \<or> \<not> list_all forward_range incoming
          \<or> 365 < length (dq_merge (dq_view q)
              (sort_key (\<lambda>r. seq_value (sr_first r)) (the (dq_split incoming))) [])))"
proof -
  note q = dq_queue_correct [OF dq_reachable_ok [OF assms], of incoming]
  have all: "list_all forward_range incoming \<longleftrightarrow> dq_split incoming \<noteq> None"
    unfolding dq_split_None list_all_iff by blast
  show ?thesis
    using q dq_reachable.queued [OF assms, of incoming] dq_reachable_ok [OF assms] unfolding all
    by (auto simp: dq_queue_def dq_ok_def dq_view_def Let_def split: if_splits option.splits)
qed

theorem range_drop_union_witness:
  "let r = make_range (SequenceNumber 0x7ffffffe) (SequenceNumber 3)
   in dq_pending (snd (dq_queue make_RangeDropQueue [r])) = range_set r"
proof -
  let ?r = "make_range (SequenceNumber 0x7ffffffe) (SequenceNumber 3)"
  have "fst (dq_queue make_RangeDropQueue [?r])" by code_simp
  with range_drop_union [OF dq_reachable.fresh, of "[?r]"] make_RangeDropQueue_ok(2) show ?thesis
    by (simp add: Let_def)
qed

fun dq_drain :: "nat \<Rightarrow> RangeDropQueue \<Rightarrow> SequenceRange list \<times> RangeDropQueue" where
  "dq_drain 0 q = ([], q)"
| "dq_drain (Suc n) q =
     (case dq_next q of
        (None, q) \<Rightarrow> ([], q)
      | (Some r, q) \<Rightarrow> let (rs, q) = dq_drain n q in (r # rs, q))"

lemma dq_drain_correct:
  assumes "dq_ok q" "pieces (dq_view q) \<le> n"
  defines "rs \<equiv> fst (dq_drain n q)"
  shows "dq_size (snd (dq_drain n q)) = 0 \<and> list_all forward_range rs
    \<and> (\<Union>r \<in> set rs. range_set r) = dq_pending q
    \<and> sorted_wrt (\<lambda>r r'. range_set r \<inter> range_set r' = {}) rs"
  unfolding rs_def using assms(1,2)
proof (induction n arbitrary: q)
  case 0
  then have "dq_view q = []" by (cases "dq_view q") (auto split: if_splits)
  then show ?case by (simp add: dq_view_def dq_pending_def)
next
  case (Suc n)
  show ?case
  proof (cases "dq_next q")
    case (Pair res q')
    show ?thesis
    proof (cases res)
      case None
      then have "dq_size q = 0 \<and> q' = q" using Pair dq_next_None by blast
      then show ?thesis using Pair None by (simp add: dq_pending_def dq_view_def)
    next
      case (Some r)
      note step = dq_next_correct [OF Suc.prems(1) Pair [unfolded Some]]
      have "pieces (dq_view q') \<le> n" using step Suc.prems(2) by simp
      with Suc.IH [of q'] step show ?thesis using Pair Some by (auto simp: split_beta)
    qed
  qed
qed

text \<open>
  C20. The drop queue drains. At most two requests per stored interval empty any reachable queue;
  the emitted ranges are valid on the wire (their span is below half the sequence space, however
  large the union grew), pairwise disjoint, and together exactly the pending sequence numbers.
\<close>

theorem range_drop_drains:
  assumes "dq_reachable q"
  defines "rs \<equiv> fst (dq_drain (2 * dq_size q) q)"
  shows "dq_empty (snd (dq_drain (2 * dq_size q) q)) \<and> list_all forward_range rs
    \<and> (\<Union>r \<in> set rs. range_set r) = dq_pending q
    \<and> sorted_wrt (\<lambda>r r'. range_set r \<inter> range_set r' = {}) rs"
proof -
  have "pieces (dq_view q) \<le> 2 * dq_size q" using pieces_bound [of "dq_view q"] by (simp add: dq_view_def)
  from dq_drain_correct [OF dq_reachable_ok [OF assms(1)] this] show ?thesis
    by (simp add: rs_def dq_empty_def)
qed

theorem range_drop_drains_witness:
  "let q = snd (dq_queue make_RangeDropQueue
         [make_range (SequenceNumber 0x7ffffffe) (SequenceNumber 3), make_range (SequenceNumber 9) (SequenceNumber 9)])
   in dq_empty (snd (dq_drain (2 * dq_size q) q)) \<and> length (fst (dq_drain (2 * dq_size q) q)) = 2"
proof -
  let ?q = "snd (dq_queue make_RangeDropQueue
    [make_range (SequenceNumber 0x7ffffffe) (SequenceNumber 3), make_range (SequenceNumber 9) (SequenceNumber 9)])"
  have "length (fst (dq_drain (2 * dq_size ?q) ?q)) = 2" by code_simp
  then show ?thesis
    using range_drop_drains [OF dq_reachable.queued [OF dq_reachable.fresh]] unfolding Let_def by blast
qed

end
