(* ===== verification/Fenwick.thy ===== *)
theory Fenwick
  imports SRT_Prelude
begin

unbundle bit_operations_syntax

text \<open>
  The binary indexed tree with which \<^verbatim>\<open>send_buffer.cpp\<close> counts dropped slots
  (\<^verbatim>\<open>dropped_counts_\<close>): the two loops over \<^verbatim>\<open>index & (~index + 1U)\<close> as the code writes them, and
  the proof that the prefix query agrees with counting.
\<close>

section \<open>The two loops\<close>

definition lowbit :: "nat \<Rightarrow> nat" where
  "lowbit index = unat ((of_nat index AND (NOT (of_nat index) + 1)) :: u64)"

text \<open>
  The guards \<open>lowbit index \<noteq> 0\<close> exclude the index 0, for which the loops of the source would not
  advance: the update starts at \<open>position + 1\<close> and the query stops at 0.
\<close>

function fenwick_update :: "(u32 \<Rightarrow> u32) \<Rightarrow> u32 list \<Rightarrow> nat \<Rightarrow> u32 list" where
  "fenwick_update f counts index =
     (if index < length counts \<and> lowbit index \<noteq> 0
      then fenwick_update f (counts[index := f (counts ! index)]) (index + lowbit index)
      else counts)"
  by pat_completeness auto
termination
  by (relation "measure (\<lambda>(f, counts, index). length counts - index)") auto

function dropped_prefix_loop :: "u32 list \<Rightarrow> nat \<Rightarrow> nat \<Rightarrow> nat" where
  "dropped_prefix_loop counts bound result =
     (if bound \<noteq> 0 \<and> lowbit bound \<noteq> 0
      then dropped_prefix_loop counts (bound - lowbit bound) (result + unat (counts ! bound))
      else result)"
  by pat_completeness auto
termination
  by (relation "measure (\<lambda>(counts, bound, result). bound)") auto

declare fenwick_update.simps [simp del] dropped_prefix_loop.simps [simp del]

section \<open>The lowest set bit\<close>

definition low_int :: "nat \<Rightarrow> int" where
  "low_int n = int n AND - int n"

lemma low_int_even: "low_int (2 * n) = 2 * low_int n"
proof -
  have "- (2 * int n) div 2 = - int n" by presburger
  then show ?thesis by (simp add: low_int_def and_int_rec [of "2 * int n"])
qed

lemma low_int_odd: "low_int (2 * n + 1) = 1"
proof -
  have "(1 + 2 * int n) div 2 = int n" "(- 1 - 2 * int n) div 2 = NOT (int n)"
    by (simp_all add: not_eq_complement)
  moreover have "odd (- 1 - 2 * int n)" by simp
  ultimately have "(1 + 2 * int n) AND (- 1 - 2 * int n) = 1"
    by (subst and_int_rec) simp
  moreover have "int (2 * n + 1) = 1 + 2 * int n" "- int (2 * n + 1) = - 1 - 2 * int n" by simp_all
  ultimately show ?thesis by (simp only: low_int_def)
qed

lemma low_int_power: "0 < n \<Longrightarrow> \<exists>k m. n = (2 * m + 1) * 2 ^ k \<and> low_int n = 2 ^ k"
proof (induction n rule: less_induct)
  case (less n)
  show ?case
  proof (cases "even n")
    case True
    then obtain h where h: "n = 2 * h" "0 < h" "h < n" using less.prems by (auto elim!: evenE)
    then obtain k m where "h = (2 * m + 1) * 2 ^ k" "low_int h = 2 ^ k" using less.IH by blast
    then have "n = (2 * m + 1) * 2 ^ Suc k \<and> low_int n = 2 ^ Suc k"
      using low_int_even [of h] h(1) by simp
    then show ?thesis by blast
  next
    case False
    then obtain h where "n = 2 * h + 1" by (elim oddE)
    then have "n = (2 * h + 1) * 2 ^ 0 \<and> low_int n = 2 ^ 0" using low_int_odd [of h] by simp
    then show ?thesis by blast
  qed
qed

lemma lowbit_int: "n < 18446744073709551616 \<Longrightarrow> int (lowbit n) = low_int n"
proof -
  assume n: "n < 18446744073709551616"
  have "(of_nat n AND (NOT (of_nat n) + 1) :: u64) = word_of_int (low_int n)"
    by (simp add: low_int_def of_int_and_eq not_eq_complement)
  then have "uint (of_nat n AND (NOT (of_nat n) + 1) :: u64) = take_bit 64 (low_int n)"
    by (simp add: unsigned_of_int)
  moreover have "0 \<le> low_int n" "low_int n \<le> int n"
    by (simp_all add: low_int_def AND_upper1)
  ultimately show ?thesis
    using n by (simp add: lowbit_def uint_nat [symmetric] take_bit_int_eq_self)
qed

lemma lowbit_power:
  assumes "0 < n" "n < 18446744073709551616"
  obtains k m where "n = (2 * m + 1) * 2 ^ k" "lowbit n = 2 ^ k"
proof -
  obtain k m where "n = (2 * m + 1) * 2 ^ k" "low_int n = 2 ^ k" using low_int_power [OF assms(1)] by blast
  moreover have "int (lowbit n) = int (2 ^ k)" using lowbit_int [OF assms(2)] calculation(2) by simp
  ultimately show thesis using that by (metis of_nat_eq_iff)
qed

lemma lowbit_bounds: "0 < n \<Longrightarrow> n < 18446744073709551616 \<Longrightarrow> 0 < lowbit n \<and> lowbit n \<le> n"
  by (erule (1) lowbit_power) simp

section \<open>Which nodes cover a position\<close>

lemma multiple_between:
  fixes d p i :: nat
  assumes "d dvd p" "d dvd i" "i - d < p" "p \<le> i" "0 < d"
  shows "p = i"
proof -
  obtain a b where ab: "p = d * a" "i = d * b" using assms(1,2) by (auto elim!: dvdE)
  have "d * b < d * a + d" using assms(3) ab by auto
  then have "b < a + 1" using assms(5) by (metis add.commute mult_Suc_right nat_mult_less_cancel1 plus_1_eq_Suc)
  moreover have "a \<le> b" using assms(4,5) ab by simp
  ultimately show ?thesis using ab by simp
qed

lemma next_multiple:
  fixes d m i :: nat
  assumes "2 * d dvd i" "(2 * m + 1) * d < i"
  shows "(2 * m + 2) * d \<le> i"
proof -
  obtain b where b: "i = 2 * d * b" using assms(1) by (elim dvdE)
  have "(2 * m + 1) * d < (2 * b) * d" using assms(2) b by (simp add: mult.commute mult.left_commute)
  then have "2 * m + 1 < 2 * b" unfolding mult_less_cancel2 by simp
  then have "2 * m + 2 \<le> 2 * b" by simp
  then have "(2 * m + 2) * d \<le> (2 * b) * d" by (rule mult_le_mono1)
  then show ?thesis using b by (simp add: mult.commute mult.left_commute)
qed

lemma covers_step:
  assumes "0 < p" "p < i" "i < 18446744073709551616"
  shows "i - lowbit i < p \<longleftrightarrow> i - lowbit i < p + lowbit p \<and> p + lowbit p \<le> i"
proof -
  obtain k m where p: "p = (2 * m + 1) * 2 ^ k" "lowbit p = 2 ^ k" using assms by (auto elim: lowbit_power [of p])
  obtain j n where i: "i = (2 * n + 1) * 2 ^ j" "lowbit i = 2 ^ j" 
    using assms lowbit_power [of i] by (metis less_trans)
  have next_p: "p + lowbit p = (2 * m + 2) * 2 ^ k" 
    unfolding p(2) by (simp add: p(1) algebra_simps)
  show ?thesis
  proof (cases "j \<le> k")
    case True
    then have d: "(2 :: nat) ^ j dvd 2 ^ k" by (rule le_imp_power_dvd)
    then have dvd: "2 ^ j dvd p" "2 ^ j dvd p + lowbit p" "2 ^ j dvd i"
      unfolding next_p by (simp_all add: p(1) i(1))
    have "\<not> i - 2 ^ j < p" using multiple_between [OF dvd(1,3)] assms(2) by auto
    moreover have "\<not> (i - 2 ^ j < p + lowbit p \<and> p + lowbit p \<le> i)"
    proof
      assume "i - 2 ^ j < p + lowbit p \<and> p + lowbit p \<le> i"
      then have "(2 * m + 2) * 2 ^ k = (2 * n + 1) * 2 ^ j"
        using multiple_between [OF dvd(2,3)] next_p i(1) by simp
      moreover have "(2 :: nat) ^ k = 2 ^ (k - j) * 2 ^ j" using True by (simp add: power_add [symmetric])
      ultimately have "((2 * m + 2) * 2 ^ (k - j)) * 2 ^ j = (2 * n + 1) * 2 ^ j" by (simp only: mult.assoc)
      then have "(2 * m + 2) * 2 ^ (k - j) = 2 * n + 1" unfolding mult_cancel2 by simp
      then show False by (metis even_add even_mult_iff even_numeral odd_one)
    qed
    ultimately show ?thesis using i(2) by simp
  next
    case False
    then have "2 * 2 ^ k dvd (2 :: nat) ^ j" using le_imp_power_dvd [of "Suc k" j "2 :: nat"] by simp
    then have d: "2 * 2 ^ k dvd i" "2 * 2 ^ k dvd i - 2 ^ j" by (simp_all add: i(1))
    have le: "p + lowbit p \<le> i" unfolding next_p using next_multiple [OF d(1)] assms(2) p(1) by blast
    have "i - 2 ^ j < p" if "i - 2 ^ j < p + lowbit p"
    proof (rule ccontr)
      assume "\<not> i - 2 ^ j < p"
      moreover have "\<not> 2 * 2 ^ k dvd p"
        unfolding p(1) using dvd_times_right_cancel_iff [of "2 ^ k :: nat" 2 "2 * m + 1"] by simp
      ultimately have "p < i - 2 ^ j" using d(2) by (metis nat_neq_iff)
      then show False using next_multiple [OF d(2), of m] that p(1) next_p by simp
    qed
    then show ?thesis using le i(2) by auto
  qed
qed

lemma fenwick_update_nth:
  assumes "0 < p" "i < length counts" "length counts \<le> 18446744073709551616"
  shows "fenwick_update f counts p ! i = (if p \<le> i \<and> i - lowbit i < p then f (counts ! i) else counts ! i)"
  using assms
proof (induction f counts p rule: fenwick_update.induct)
  case (1 f counts p)
  show ?case
  proof (cases "p < length counts")
    case True
    then have low: "lowbit p \<noteq> 0" using lowbit_bounds [of p] 1(2,4) by simp
    have "fenwick_update f counts p ! i = fenwick_update f (counts[p := f (counts ! p)]) (p + lowbit p) ! i"
      using True low by (subst fenwick_update.simps) simp
    also have "\<dots> = (if p + lowbit p \<le> i \<and> i - lowbit i < p + lowbit p
        then f (counts[p := f (counts ! p)] ! i) else counts[p := f (counts ! p)] ! i)"
      using 1 True low by simp
    finally show ?thesis
      using covers_step [of p i] lowbit_bounds [of p] 1(2-4) True
      by (cases "i = p") (auto simp: not_le nth_list_update)
  next
    case False
    then show ?thesis using 1(3) by (subst fenwick_update.simps) simp
  qed
qed

lemma length_fenwick_update [simp]: "length (fenwick_update f counts p) = length counts"
proof (induction f counts p rule: fenwick_update.induct)
  case (1 f counts p)
  then show ?case by (subst fenwick_update.simps) simp
qed

section \<open>Counting with the tree\<close>

text \<open>The flags at positions \<open>from, \<dots>, to - 1\<close> that are set.\<close>

definition count_between :: "bool list \<Rightarrow> nat \<Rightarrow> nat \<Rightarrow> nat" where
  "count_between flags from to = length (filter id (take (to - from) (drop from flags)))"

definition fenwick_ok :: "u32 list \<Rightarrow> bool list \<Rightarrow> bool" where
  "fenwick_ok counts flags \<longleftrightarrow>
     length counts = length flags + 1 \<and> length flags < 1073741824
     \<and> (\<forall>i. 0 < i \<and> i \<le> length flags \<longrightarrow>
          unat (counts ! i) = count_between flags (i - lowbit i) i)"

lemma count_between_split:
  "a \<le> b \<Longrightarrow> b \<le> c \<Longrightarrow> count_between flags a c = count_between flags a b + count_between flags b c"
proof -
  assume le: "a \<le> b" "b \<le> c"
  have "take (c - a) (drop a flags) = take (b - a) (drop a flags) @ take (c - b) (drop b flags)"
    using le take_add [of "b - a" "c - b" "drop a flags"] by simp
  then show "count_between flags a c = count_between flags a b + count_between flags b c"
    by (simp add: count_between_def)
qed

lemma count_between_empty [simp]: "count_between flags a a = 0"
  by (simp add: count_between_def)

lemma count_between_bound: "count_between flags a b \<le> length flags"
  unfolding count_between_def
  by (rule order_trans [OF length_filter_le]) simp

lemma count_between_update:
  assumes "pos < length flags"
  shows "count_between (flags[pos := b]) from to + (if from \<le> pos \<and> pos < to \<and> flags ! pos then 1 else 0)
    = count_between flags from to + (if from \<le> pos \<and> pos < to \<and> b then 1 else 0)"
proof (cases "from \<le> pos \<and> pos < to")
  case True
  then have "take (to - from) (drop from (flags[pos := b])) = (take (to - from) (drop from flags))[pos - from := b]"
    by (simp add: drop_update_swap take_update_swap)
  moreover have "pos - from < length (take (to - from) (drop from flags))" using True assms by auto
  ultimately show ?thesis
    using True assms length_filter_update [of "pos - from" "take (to - from) (drop from flags)" id b]
    by (auto simp: count_between_def)
next
  case False
  then have "take (to - from) (drop from (flags[pos := b])) = take (to - from) (drop from flags)"
    by (intro nth_equalityI) (auto simp: nth_list_update)
  then show ?thesis using False by (auto simp: count_between_def)
qed

text \<open>The query is the number of flags set below the bound.\<close>

lemma dropped_prefix_loop_count:
  assumes "fenwick_ok counts flags" "bound \<le> length flags"
  shows "dropped_prefix_loop counts bound result = result + count_between flags 0 bound"
  using assms(2)
proof (induction bound arbitrary: result rule: less_induct)
  case (less bound)
  show ?case
  proof (cases "bound = 0")
    case True
    then show ?thesis by (subst dropped_prefix_loop.simps) simp
  next
    case False
    have small: "bound < 18446744073709551616" using less.prems assms(1) by (simp add: fenwick_ok_def)
    have low: "0 < lowbit bound" "lowbit bound \<le> bound" using lowbit_bounds [OF _ small] False by simp_all
    have "dropped_prefix_loop counts bound result =
        dropped_prefix_loop counts (bound - lowbit bound) (result + unat (counts ! bound))"
      using False low by (subst dropped_prefix_loop.simps) simp
    also have "\<dots> = result + unat (counts ! bound) + count_between flags 0 (bound - lowbit bound)"
      using less low by simp
    also have "unat (counts ! bound) = count_between flags (bound - lowbit bound) bound"
      using assms(1) less.prems False by (simp add: fenwick_ok_def)
    finally show ?thesis
      using count_between_split [of 0 "bound - lowbit bound" bound flags] by simp
  qed
qed

text \<open>An update by one follows the flag it stands for.\<close>

lemma fenwick_ok_initial: "n < 1073741824 \<Longrightarrow> fenwick_ok (replicate (n + 1) 0) (replicate n False)"
  by (auto simp: fenwick_ok_def count_between_def nth_Cons')

lemma fenwick_update_ok:
  assumes "fenwick_ok counts flags" "pos < length flags" "flags ! pos \<noteq> b"
  shows "fenwick_ok (fenwick_update (if b then (\<lambda>x. x + 1) else (\<lambda>x. x - 1)) counts (pos + 1)) (flags[pos := b])"
proof -
  let ?f = "if b then (\<lambda>x. x + 1) else (\<lambda>x. x - 1) :: u32 \<Rightarrow> u32"
  have len: "length counts = length flags + 1" "length flags < 1073741824" using assms(1) by (simp_all add: fenwick_ok_def)
  have "unat (fenwick_update ?f counts (pos + 1) ! i) = count_between (flags[pos := b]) (i - lowbit i) i"
    if i: "0 < i" "i \<le> length flags" for i
  proof -
    have c: "unat (counts ! i) = count_between flags (i - lowbit i) i" using assms(1) i by (simp add: fenwick_ok_def)
    note upd = count_between_update [OF assms(2), of b "i - lowbit i" i]
    have small: "unat (counts ! i) < 4294967295" using c count_between_bound [of flags "i - lowbit i" i] len by linarith
    have inc: "unat (counts ! i + 1) = unat (counts ! i) + 1" using small by (subst unat_add_no_wrap) simp_all
    have dec: "0 < unat (counts ! i) \<Longrightarrow> unat (counts ! i - 1) = unat (counts ! i) - 1"
      by (intro unat_minus_one) auto
    have "fenwick_update ?f counts (pos + 1) ! i =
        (if i - lowbit i \<le> pos \<and> pos < i then ?f (counts ! i) else counts ! i)"
      using fenwick_update_nth [of "pos + 1" i counts ?f] i len by (auto simp: less_Suc_eq_le)
    moreover have "0 < count_between flags (i - lowbit i) i" if "i - lowbit i \<le> pos" "pos < i" "\<not> b"
      using upd that assms(3) by simp
    ultimately show ?thesis
      using upd c inc dec assms(3) by (cases "i - lowbit i \<le> pos"; cases "pos < i"; cases b) (simp_all, linarith)
  qed
  then show ?thesis using len by (simp add: fenwick_ok_def)
qed

end
