(* ===== verification/Send_Buffer.thy ===== *)
theory Send_Buffer
  imports Packet_Codec Payload_Pool Range_Drop_Queue Fenwick
begin

text \<open>
  \<^verbatim>\<open>send_buffer.hpp\<close> and \<^verbatim>\<open>send_buffer.cpp\<close>: the sender's packet store. Packets live in a ring
  of slots that covers a window of consecutive sequence numbers; their bodies are in the payload
  pool; slots to retransmit and dropped messages to announce are queued in two rings of sequence
  numbers; dropped slots stay as tombstones that a binary indexed tree counts. This theory holds
  the definitions, one for every member function and loop, in the order of the source. The
  \<^verbatim>\<open>union\<close> of live and drop metadata is a datatype; the diagnostics trace is output only.
\<close>

section \<open>Data\<close>

record OutboundPacket =
  op_header :: DataHeader
  op_payload :: bytes
  op_sequence_position :: u64

record SendDropResult =
  sd_packets :: nat
  sd_bytes :: nat
  sd_first_message_number :: u32
  sd_sequences :: SequenceRange

definition default_SendDropResult :: SendDropResult where
  "default_SendDropResult =
     \<lparr>sd_packets = 0, sd_bytes = 0, sd_first_message_number = 0,
      sd_sequences = make_range (SequenceNumber 0) (SequenceNumber 0)\<rparr>"

record StreamEnqueueResult =
  se_error :: Error
  se_bytes_accepted :: nat

datatype SlotMetadata =
    LiveMetadata (last_retransmission_send_microseconds: u64) (expiration_microseconds: u64)
  | DropMetadata (message_first: SequenceNumber) (message_last: SequenceNumber) (remaining_bytes: nat)

record SendSlot =
  ss_header :: DataHeader
  ss_payload_index :: nat
  ss_sequence_position :: u64
  ss_enqueue_microseconds :: u64
  ss_first_send_microseconds :: u64
  ss_metadata :: SlotMetadata
  ss_payload_size :: nat
  ss_plaintext_size :: nat
  ss_protection_mode :: CryptoMode
  ss_occupied :: bool
  ss_dropped :: bool
  ss_drop_request_queued :: bool
  ss_sent :: bool
  ss_submitted :: bool
  ss_retransmission_queued :: bool
  ss_has_retransmission_send_time :: bool

definition default_SendSlot :: SendSlot where
  "default_SendSlot =
     \<lparr>ss_header = default_DataHeader, ss_payload_index = 0, ss_sequence_position = 0,
      ss_enqueue_microseconds = 0, ss_first_send_microseconds = 0, ss_metadata = LiveMetadata 0 0,
      ss_payload_size = 0, ss_plaintext_size = 0, ss_protection_mode = CryptoMode_automatic,
      ss_occupied = False, ss_dropped = False, ss_drop_request_queued = False, ss_sent = False,
      ss_submitted = False, ss_retransmission_queued = False, ss_has_retransmission_send_time = False\<rparr>"

record SendBuffer =
  sb_dropped_counts :: "u32 list"
  sb_payloads :: PayloadPool
  sb_slots :: "SendSlot list"
  sb_retransmission_queue :: "SequenceNumber list"
  sb_drop_request_queue :: "SequenceNumber list"
  sb_range_drop_request_queue :: RangeDropQueue
  sb_first_sequence :: SequenceNumber
  sb_next_sequence_position :: u64
  sb_maximum_payload_size :: nat
  sb_head :: nat
  sb_sequence_span :: nat
  sb_next_unsent_offset :: nat
  sb_occupied_count :: nat
  sb_retained_drop_count :: nat
  sb_buffered_plaintext_bytes :: nat
  sb_expiring_packet_count :: nat
  sb_earliest_expiration_microseconds :: u64
  sb_first_buffered_enqueue_microseconds :: u64
  sb_last_buffered_enqueue_microseconds :: u64
  sb_retransmission_head :: nat
  sb_retransmission_size :: nat
  sb_drop_request_head :: nat
  sb_drop_request_size :: nat
  sb_packets_in_flight :: nat

section \<open>Construction and simple queries\<close>

definition checked_send_capacity :: "nat \<Rightarrow> nat \<Rightarrow> nat option" where
  "checked_send_capacity capacity maximum_payload =
     (if capacity = 0 \<or> capacity \<ge> 0x40000000 \<or> maximum_payload = 0
         \<or> maximum_payload > maximum_data_payload_size
      then None else Some capacity)"

definition make_SendBuffer :: "bytes \<Rightarrow> SequenceNumber \<Rightarrow> nat \<Rightarrow> nat \<Rightarrow> SendBuffer option" where
  "make_SendBuffer storage initial_sequence capacity_packets maximum_payload =
     (case (checked_send_capacity capacity_packets maximum_payload, make_PayloadPool storage capacity_packets) of
        (Some capacity, Some pool) \<Rightarrow>
          Some \<lparr>sb_dropped_counts = replicate (capacity + 1) 0, sb_payloads = pool,
                sb_slots = replicate capacity default_SendSlot,
                sb_retransmission_queue = replicate capacity (SequenceNumber 0),
                sb_drop_request_queue = replicate capacity (SequenceNumber 0),
                sb_range_drop_request_queue = make_RangeDropQueue,
                sb_first_sequence = initial_sequence, sb_next_sequence_position = 0,
                sb_maximum_payload_size = maximum_payload, sb_head = 0, sb_sequence_span = 0,
                sb_next_unsent_offset = 0, sb_occupied_count = 0, sb_retained_drop_count = 0,
                sb_buffered_plaintext_bytes = 0, sb_expiring_packet_count = 0,
                sb_earliest_expiration_microseconds = 0, sb_first_buffered_enqueue_microseconds = 0,
                sb_last_buffered_enqueue_microseconds = 0, sb_retransmission_head = 0,
                sb_retransmission_size = 0, sb_drop_request_head = 0, sb_drop_request_size = 0,
                sb_packets_in_flight = 0\<rparr>
      | _ \<Rightarrow> None)"

definition sb_capacity :: "SendBuffer \<Rightarrow> nat" where
  "sb_capacity b = length (sb_slots b)"

definition sb_available :: "SendBuffer \<Rightarrow> nat" where
  "sb_available b = sb_capacity b - sb_sequence_span b"

definition sb_next_sequence :: "SendBuffer \<Rightarrow> SequenceNumber" where
  "sb_next_sequence b = seq_advanced (sb_first_sequence b) (of_nat (sb_sequence_span b))"

text \<open>Slots are addressed by their offset from the head of the window.\<close>

definition sb_index :: "SendBuffer \<Rightarrow> nat \<Rightarrow> nat" where
  "sb_index b offset = (sb_head b + offset) mod sb_capacity b"

definition sb_slot :: "SendBuffer \<Rightarrow> nat \<Rightarrow> SendSlot" where
  "sb_slot b offset = sb_slots b ! sb_index b offset"

definition sb_set_slot :: "SendBuffer \<Rightarrow> nat \<Rightarrow> SendSlot \<Rightarrow> SendBuffer" where
  "sb_set_slot b offset slot = b \<lparr>sb_slots := (sb_slots b)[sb_index b offset := slot]\<rparr>"

definition sb_synchronize_empty :: "SendBuffer \<Rightarrow> SequenceNumber \<Rightarrow> bool \<times> SendBuffer" where
  "sb_synchronize_empty b next_sequence =
     (if sb_sequence_span b \<noteq> 0 \<or> sb_occupied_count b \<noteq> 0 then (sb_next_sequence b = next_sequence, b)
      else
        let skipped = ucast ((seq_value next_sequence - seq_value (sb_first_sequence b)) AND seq_mask) :: u64
        in if skipped > 0xffffffffffffffff - sb_next_sequence_position b then (False, b)
           else (True, b \<lparr>sb_next_sequence_position := sb_next_sequence_position b + skipped,
                          sb_first_sequence := next_sequence, sb_head := 0, sb_next_unsent_offset := 0,
                          sb_buffered_plaintext_bytes := 0, sb_expiring_packet_count := 0,
                          sb_retained_drop_count := 0, sb_first_buffered_enqueue_microseconds := 0,
                          sb_last_buffered_enqueue_microseconds := 0\<rparr>))"

section \<open>Enqueueing\<close>

definition boundary_of :: "bool \<Rightarrow> bool \<Rightarrow> MessageBoundary" where
  "boundary_of first final =
     (if first \<and> final then MessageBoundary_solo
      else if first then MessageBoundary_first
      else if final then MessageBoundary_last else MessageBoundary_subsequent)"

record EnqueueRequest =
  er_message_number :: u32
  er_timestamp :: PacketTimestamp
  er_destination_socket_id :: u32
  er_in_order :: bool
  er_enqueue_microseconds :: u64
  er_expiration_microseconds :: u64

text \<open>One iteration of the packet loop of \<open>enqueue_message\<close>.\<close>

definition sb_enqueue_packet :: "SendBuffer \<Rightarrow> EnqueueRequest \<Rightarrow> bytes \<Rightarrow> MessageBoundary \<Rightarrow> SendBuffer" where
  "sb_enqueue_packet b req payload boundary =
     (let (payload_index, pool) = pl_acquire (sb_payloads b) payload;
          slot = (sb_slot b (sb_sequence_span b))
            \<lparr>ss_sequence_position := sb_next_sequence_position b,
             ss_header :=
               \<lparr>dh_sequence = seq_advanced (sb_first_sequence b) (of_nat (sb_sequence_span b)),
                dh_message_number = er_message_number req AND 0x03ffffff,
                dh_boundary = boundary, dh_in_order = er_in_order req,
                dh_encryption_key = EncryptionKey_none, dh_retransmitted = False,
                dh_timestamp = er_timestamp req,
                dh_destination_socket_id = er_destination_socket_id req\<rparr>,
             ss_payload_index := payload_index,
             ss_payload_size := length payload mod 65536,
             ss_plaintext_size := length payload mod 65536,
             ss_protection_mode := CryptoMode_automatic,
             ss_occupied := True, ss_dropped := False, ss_sent := False, ss_submitted := False,
             ss_has_retransmission_send_time := False, ss_retransmission_queued := False,
             ss_enqueue_microseconds := er_enqueue_microseconds req,
             ss_metadata := LiveMetadata 0 (er_expiration_microseconds req)\<rparr>;
          b1 = (sb_set_slot b (sb_sequence_span b) slot)
            \<lparr>sb_payloads := pool,
             sb_next_sequence_position := sb_next_sequence_position b + 1,
             sb_first_buffered_enqueue_microseconds :=
               (if sb_occupied_count b = 0 then er_enqueue_microseconds req
                else sb_first_buffered_enqueue_microseconds b),
             sb_last_buffered_enqueue_microseconds := er_enqueue_microseconds req,
             sb_sequence_span := sb_sequence_span b + 1,
             sb_occupied_count := sb_occupied_count b + 1,
             sb_buffered_plaintext_bytes := sb_buffered_plaintext_bytes b + length payload\<rparr>
      in if er_expiration_microseconds req \<noteq> 0 then
           b1 \<lparr>sb_earliest_expiration_microseconds :=
                 (if sb_expiring_packet_count b1 = 0
                     \<or> er_expiration_microseconds req < sb_earliest_expiration_microseconds b1
                  then er_expiration_microseconds req else sb_earliest_expiration_microseconds b1),
               sb_expiring_packet_count := sb_expiring_packet_count b1 + 1\<rparr>
         else b1)"

text \<open>The loop, with \<open>remaining = packet_count - packet_index\<close>.\<close>

fun sb_enqueue_packets :: "SendBuffer \<Rightarrow> EnqueueRequest \<Rightarrow> bytes \<Rightarrow> nat \<Rightarrow> nat \<Rightarrow> nat \<Rightarrow> SendBuffer" where
  "sb_enqueue_packets b req message packet_count 0 consumed = b"
| "sb_enqueue_packets b req message packet_count (Suc remaining) consumed =
     (let payload_size = min (sb_maximum_payload_size b) (length message - consumed);
          packet_index = packet_count - Suc remaining
      in sb_enqueue_packets
           (sb_enqueue_packet b req (take payload_size (drop consumed message))
              (boundary_of (packet_index = 0) (packet_index + 1 = packet_count)))
           req message packet_count remaining (consumed + payload_size))"

definition sb_enqueue_message :: "SendBuffer \<Rightarrow> bytes \<Rightarrow> EnqueueRequest \<Rightarrow> Error \<times> SendBuffer" where
  "sb_enqueue_message b message req =
     (if message = [] then (invalid_state, b)
      else
        let packet_count = (length message + sb_maximum_payload_size b - 1) div sb_maximum_payload_size b
        in if packet_count > sb_available b then (buffer_too_small, b)
           else if packet_count > 18446744073709551615 - unat (sb_next_sequence_position b) then (invalid_state, b)
           else (Error_none, sb_enqueue_packets b req message packet_count packet_count 0))"

definition sb_enqueue_stream ::
    "SendBuffer \<Rightarrow> bytes \<Rightarrow> u32 \<Rightarrow> PacketTimestamp \<Rightarrow> u32 \<Rightarrow> u64 \<Rightarrow> StreamEnqueueResult \<times> SendBuffer" where
  "sb_enqueue_stream b source message_number timestamp destination enqueue =
     (if source = [] then (\<lparr>se_error = invalid_state, se_bytes_accepted = 0\<rparr>, b)
      else if sb_available b = 0 then (\<lparr>se_error = buffer_too_small, se_bytes_accepted = 0\<rparr>, b)
      else
        let accepted = min (length source) (sb_available b * sb_maximum_payload_size b);
            (error, b) = sb_enqueue_message b (take accepted source)
              \<lparr>er_message_number = message_number, er_timestamp = timestamp,
               er_destination_socket_id = destination, er_in_order = True,
               er_enqueue_microseconds = enqueue, er_expiration_microseconds = 0\<rparr>
        in (\<lparr>se_error = error, se_bytes_accepted = (if error = Error_none then accepted else 0)\<rparr>, b))"

section \<open>Slots\<close>

text \<open>\<open>find\<close> yields the offset of the slot instead of a pointer.\<close>

definition sb_offset :: "SendBuffer \<Rightarrow> SequenceNumber \<Rightarrow> nat option" where
  "sb_offset b sequence =
     (let signed_offset = seq_distance sequence (sb_first_sequence b)
      in if signed_offset < 0 \<or> nat signed_offset \<ge> sb_sequence_span b then None
         else Some (nat signed_offset))"

definition sb_find :: "SendBuffer \<Rightarrow> SequenceNumber \<Rightarrow> nat option" where
  "sb_find b sequence =
     (case sb_offset b sequence of
        None \<Rightarrow> None
      | Some offset \<Rightarrow> if ss_occupied (sb_slot b offset) then Some offset else None)"

definition sb_discard_slot :: "SendBuffer \<Rightarrow> nat \<Rightarrow> bool \<Rightarrow> SendBuffer" where
  "sb_discard_slot b offset retain_drop_marker =
     (let slot = sb_slot b offset;
          was_dropped = ss_dropped slot;
          b = (if ss_occupied slot then
                 let b = b \<lparr>sb_payloads := pl_release (sb_payloads b) (ss_payload_index slot),
                            sb_packets_in_flight :=
                              (if ss_sent slot then sb_packets_in_flight b - 1 else sb_packets_in_flight b),
                            sb_buffered_plaintext_bytes := sb_buffered_plaintext_bytes b - ss_plaintext_size slot,
                            sb_expiring_packet_count :=
                              (if expiration_microseconds (ss_metadata slot) \<noteq> 0
                               then sb_expiring_packet_count b - 1 else sb_expiring_packet_count b),
                            sb_occupied_count := sb_occupied_count b - 1\<rparr>
                 in if sb_occupied_count b = 0
                    then b \<lparr>sb_first_buffered_enqueue_microseconds := 0, sb_last_buffered_enqueue_microseconds := 0\<rparr>
                    else b
               else b);
          b = (if was_dropped \<noteq> retain_drop_marker then
                 b \<lparr>sb_dropped_counts :=
                      fenwick_update (if retain_drop_marker then (\<lambda>x. x + 1) else (\<lambda>x. x - 1))
                        (sb_dropped_counts b) (sb_index b offset + 1),
                    sb_retained_drop_count :=
                      (if retain_drop_marker then sb_retained_drop_count b + 1 else sb_retained_drop_count b - 1)\<rparr>
               else b);
          slot = slot \<lparr>ss_occupied := False, ss_dropped := retain_drop_marker, ss_drop_request_queued := False,
                       ss_sent := False, ss_submitted := False, ss_retransmission_queued := False,
                       ss_has_retransmission_send_time := False,
                       ss_metadata :=
                         (if retain_drop_marker then
                            if was_dropped then ss_metadata slot
                            else DropMetadata (SequenceNumber 0) (SequenceNumber 0) 0
                          else LiveMetadata 0 0)\<rparr>;
          slot = (if retain_drop_marker then slot
                  else slot \<lparr>ss_payload_size := 0, ss_plaintext_size := 0,
                             ss_protection_mode := CryptoMode_automatic, ss_enqueue_microseconds := 0\<rparr>)
      in sb_set_slot b offset slot)"

text \<open>The first and the last occupied slot of the window.\<close>

fun sb_first_occupied :: "SendBuffer \<Rightarrow> nat \<Rightarrow> nat \<Rightarrow> nat option" where
  "sb_first_occupied b offset 0 = None"
| "sb_first_occupied b offset (Suc remaining) =
     (if ss_occupied (sb_slot b offset) then Some offset else sb_first_occupied b (offset + 1) remaining)"

fun sb_last_occupied :: "SendBuffer \<Rightarrow> nat \<Rightarrow> nat option" where
  "sb_last_occupied b 0 = None"
| "sb_last_occupied b (Suc offset) =
     (if ss_occupied (sb_slot b offset) then Some offset else sb_last_occupied b offset)"

definition sb_refresh_first_buffered_enqueue_time :: "SendBuffer \<Rightarrow> SendBuffer" where
  "sb_refresh_first_buffered_enqueue_time b =
     (if sb_occupied_count b = 0
      then b \<lparr>sb_first_buffered_enqueue_microseconds := 0, sb_last_buffered_enqueue_microseconds := 0\<rparr>
      else
        case sb_first_occupied b 0 (sb_sequence_span b) of
          Some offset \<Rightarrow> b \<lparr>sb_first_buffered_enqueue_microseconds := ss_enqueue_microseconds (sb_slot b offset)\<rparr>
        | None \<Rightarrow> b)"

definition sb_refresh_buffered_enqueue_time_bounds :: "SendBuffer \<Rightarrow> SendBuffer" where
  "sb_refresh_buffered_enqueue_time_bounds b =
     (let b = sb_refresh_first_buffered_enqueue_time b
      in if sb_occupied_count b = 0 then b
         else
           case sb_last_occupied b (sb_sequence_span b) of
             Some offset \<Rightarrow> b \<lparr>sb_last_buffered_enqueue_microseconds := ss_enqueue_microseconds (sb_slot b offset)\<rparr>
           | None \<Rightarrow> b)"

section \<open>The two request queues\<close>

text \<open>
  Both queues are rings of the buffer's capacity that are compacted in place by the same loop:
  the entries that are still wanted are moved up to the head.
\<close>

fun compact_loop :: "(SequenceNumber \<Rightarrow> bool) \<Rightarrow> nat \<Rightarrow> SequenceNumber list \<Rightarrow> nat \<Rightarrow> nat \<Rightarrow> nat
    \<Rightarrow> SequenceNumber list \<times> nat" where
  "compact_loop wanted head queue index kept 0 = (queue, kept)"
| "compact_loop wanted head queue index kept (Suc remaining) =
     (let sequence = queue ! ((head + index) mod length queue)
      in if wanted sequence
         then compact_loop wanted head (queue[(head + kept) mod length queue := sequence]) (index + 1) (kept + 1) remaining
         else compact_loop wanted head queue (index + 1) kept remaining)"

definition sb_drop_wanted :: "SendBuffer \<Rightarrow> SequenceNumber \<Rightarrow> bool" where
  "sb_drop_wanted b sequence =
     (case sb_offset b sequence of
        None \<Rightarrow> False
      | Some offset \<Rightarrow> ss_dropped (sb_slot b offset) \<and> ss_drop_request_queued (sb_slot b offset))"

definition sb_compact_drop_request_queue :: "SendBuffer \<Rightarrow> SendBuffer" where
  "sb_compact_drop_request_queue b =
     (let (queue, kept) = compact_loop (sb_drop_wanted b) (sb_drop_request_head b) (sb_drop_request_queue b)
            0 0 (sb_drop_request_size b)
      in b \<lparr>sb_drop_request_queue := queue,
            sb_drop_request_head := (if kept = 0 then 0 else sb_drop_request_head b),
            sb_drop_request_size := kept\<rparr>)"

definition sb_queue_drop_request :: "SendBuffer \<Rightarrow> SequenceNumber \<Rightarrow> bool \<times> SendBuffer" where
  "sb_queue_drop_request b sequence =
     (case sb_offset b sequence of
        None \<Rightarrow> (False, b)
      | Some offset \<Rightarrow>
          if \<not> ss_dropped (sb_slot b offset) then (False, b)
          else
            let message_offset = seq_distance (message_first (ss_metadata (sb_slot b offset))) (sb_first_sequence b);
                first_offset = nat (max message_offset 0)
            in if ss_drop_request_queued (sb_slot b first_offset) then (True, b)
               else
                 let b = (if sb_drop_request_size b = sb_capacity b then sb_compact_drop_request_queue b else b)
                 in if sb_drop_request_size b = sb_capacity b then (False, b)
                    else
                      let tail = (sb_drop_request_head b + sb_drop_request_size b) mod sb_capacity b
                      in (True,
                          (sb_set_slot b first_offset ((sb_slot b first_offset) \<lparr>ss_drop_request_queued := True\<rparr>))
                          \<lparr>sb_drop_request_queue := (sb_drop_request_queue b)
                             [tail := seq_advanced (sb_first_sequence b) (of_nat first_offset)],
                           sb_drop_request_size := sb_drop_request_size b + 1\<rparr>))"

definition sb_retransmission_wanted :: "SendBuffer \<Rightarrow> SequenceNumber \<Rightarrow> bool" where
  "sb_retransmission_wanted b sequence =
     (case sb_find b sequence of
        None \<Rightarrow> False
      | Some offset \<Rightarrow> ss_retransmission_queued (sb_slot b offset))"

definition sb_compact_retransmission_queue :: "SendBuffer \<Rightarrow> SendBuffer" where
  "sb_compact_retransmission_queue b =
     (let (queue, kept) = compact_loop (sb_retransmission_wanted b) (sb_retransmission_head b)
            (sb_retransmission_queue b) 0 0 (sb_retransmission_size b)
      in b \<lparr>sb_retransmission_queue := queue, sb_retransmission_size := kept\<rparr>)"

definition sb_queue_retransmission :: "SendBuffer \<Rightarrow> SequenceNumber \<Rightarrow> bool \<times> SendBuffer" where
  "sb_queue_retransmission b sequence =
     (case sb_offset b sequence of
        None \<Rightarrow> (False, b)
      | Some offset \<Rightarrow>
          if ss_dropped (sb_slot b offset) then sb_queue_drop_request b sequence
          else if \<not> ss_occupied (sb_slot b offset) then (False, b)
          else if \<not> ss_sent (sb_slot b offset) \<or> ss_retransmission_queued (sb_slot b offset) then (True, b)
          else
            let b = (if sb_retransmission_size b = sb_capacity b then sb_compact_retransmission_queue b else b)
            in if sb_retransmission_size b = sb_capacity b then (False, b)
               else
                 let tail = (sb_retransmission_head b + sb_retransmission_size b) mod sb_capacity b
                 in (True,
                     (sb_set_slot b offset ((sb_slot b offset) \<lparr>ss_retransmission_queued := True\<rparr>))
                     \<lparr>sb_retransmission_queue := (sb_retransmission_queue b)[tail := sequence],
                      sb_retransmission_size := sb_retransmission_size b + 1\<rparr>))"

section \<open>Selecting packets\<close>

definition sb_outbound :: "SendBuffer \<Rightarrow> nat \<Rightarrow> bool \<Rightarrow> OutboundPacket" where
  "sb_outbound b offset retransmission =
     (let slot = sb_slot b offset
      in \<lparr>op_header = (if retransmission then (ss_header slot) \<lparr>dh_retransmitted := True\<rparr> else ss_header slot),
          op_payload = pl_get (sb_payloads b) (ss_payload_index slot),
          op_sequence_position = ss_sequence_position slot\<rparr>)"

function sb_peek_new_loop :: "SendBuffer \<Rightarrow> nat \<Rightarrow> OutboundPacket option" where
  "sb_peek_new_loop b offset =
     (if offset < sb_sequence_span b then
        if ss_occupied (sb_slot b offset) \<and> \<not> ss_sent (sb_slot b offset)
        then Some (sb_outbound b offset False)
        else sb_peek_new_loop b (offset + 1)
      else None)"
  by pat_completeness auto
termination
  by (relation "measure (\<lambda>(b, offset). sb_sequence_span b - offset)") auto

definition sb_peek_new_packet :: "SendBuffer \<Rightarrow> OutboundPacket option" where
  "sb_peek_new_packet b = sb_peek_new_loop b (sb_next_unsent_offset b)"

text \<open>The first loop of \<open>next_packet\<close>: the oldest queued retransmission that is still wanted.\<close>

function sb_next_retransmission :: "SendBuffer \<Rightarrow> bool \<Rightarrow> OutboundPacket option \<times> SendBuffer" where
  "sb_next_retransmission b defer_commit =
     (if sb_retransmission_size b > 0 then
        let sequence = sb_retransmission_queue b ! sb_retransmission_head b;
            b1 = b \<lparr>sb_retransmission_head := (sb_retransmission_head b + 1) mod sb_capacity b,
                    sb_retransmission_size := sb_retransmission_size b - 1\<rparr>
        in case sb_find b1 sequence of
             None \<Rightarrow> sb_next_retransmission b1 defer_commit
           | Some offset \<Rightarrow>
               if \<not> ss_retransmission_queued (sb_slot b1 offset) then sb_next_retransmission b1 defer_commit
               else
                 let b2 = sb_set_slot b1 offset ((sb_slot b1 offset) \<lparr>ss_retransmission_queued := defer_commit\<rparr>)
                 in (Some (sb_outbound b2 offset True), b2)
      else (None, b))"
  by pat_completeness auto
termination
  by (relation "measure (\<lambda>(b, d). sb_retransmission_size b)") auto

text \<open>The second loop: the next original packet.\<close>

function sb_next_original :: "SendBuffer \<Rightarrow> bool \<Rightarrow> u64 \<Rightarrow> OutboundPacket option \<times> SendBuffer" where
  "sb_next_original b defer_commit now =
     (if sb_next_unsent_offset b < sb_sequence_span b then
        let offset = sb_next_unsent_offset b;
            b1 = b \<lparr>sb_next_unsent_offset := offset + 1\<rparr>
        in if ss_occupied (sb_slot b1 offset) \<and> \<not> ss_sent (sb_slot b1 offset) then
             let b2 = (sb_set_slot b1 offset
                   ((sb_slot b1 offset) \<lparr>ss_sent := True, ss_submitted := \<not> defer_commit,
                      ss_first_send_microseconds := now\<rparr>))
                 \<lparr>sb_packets_in_flight := sb_packets_in_flight b1 + 1\<rparr>
             in (Some (sb_outbound b2 offset False), b2)
           else sb_next_original b1 defer_commit now
      else (None, b))"
  by pat_completeness auto
termination
  by (relation "measure (\<lambda>(b, d, n). sb_sequence_span b - sb_next_unsent_offset b)") auto

declare sb_peek_new_loop.simps [simp del] sb_next_retransmission.simps [simp del] sb_next_original.simps [simp del]

definition sb_next_packet ::
    "SendBuffer \<Rightarrow> bool \<Rightarrow> bool \<Rightarrow> u64 \<Rightarrow> OutboundPacket option \<times> SendBuffer" where
  "sb_next_packet b defer_retransmission_commit allow_retransmission now =
     (case (if allow_retransmission then sb_next_retransmission b defer_retransmission_commit else (None, b)) of
        (Some packet, b) \<Rightarrow> (Some packet, b)
      | (None, b) \<Rightarrow> sb_next_original b defer_retransmission_commit now)"

function sb_peek_retransmission_packet :: "SendBuffer \<Rightarrow> OutboundPacket option \<times> SendBuffer" where
  "sb_peek_retransmission_packet b =
     (if sb_retransmission_size b \<noteq> 0 then
        case sb_find b (sb_retransmission_queue b ! sb_retransmission_head b) of
          Some offset \<Rightarrow>
            if ss_retransmission_queued (sb_slot b offset) then (Some (sb_outbound b offset True), b)
            else sb_peek_retransmission_packet
                   (b \<lparr>sb_retransmission_head := (sb_retransmission_head b + 1) mod sb_capacity b,
                       sb_retransmission_size := sb_retransmission_size b - 1\<rparr>)
        | None \<Rightarrow> sb_peek_retransmission_packet
                   (b \<lparr>sb_retransmission_head := (sb_retransmission_head b + 1) mod sb_capacity b,
                       sb_retransmission_size := sb_retransmission_size b - 1\<rparr>)
      else (None, b))"
  by pat_completeness auto
termination
  by (relation "measure sb_retransmission_size") auto

declare sb_peek_retransmission_packet.simps [simp del]

definition sb_requeue_prepared_retransmission :: "SendBuffer \<Rightarrow> SequenceNumber \<Rightarrow> SendBuffer" where
  "sb_requeue_prepared_retransmission b sequence =
     (case sb_find b sequence of
        None \<Rightarrow> b
      | Some offset \<Rightarrow>
          snd (sb_queue_retransmission
                 (sb_set_slot b offset ((sb_slot b offset) \<lparr>ss_retransmission_queued := False\<rparr>)) sequence))"

definition sb_retains_packet :: "SendBuffer \<Rightarrow> SequenceNumber \<Rightarrow> bool" where
  "sb_retains_packet b sequence =
     (let offset = seq_distance sequence (sb_first_sequence b)
      in offset \<ge> 0 \<and> nat offset < sb_sequence_span b \<and> ss_occupied (sb_slot b (nat offset)))"

definition sb_preserve_protected_payload ::
    "SendBuffer \<Rightarrow> SequenceNumber \<Rightarrow> EncryptionKey \<Rightarrow> CryptoMode \<Rightarrow> bytes \<Rightarrow> Error \<times> SendBuffer" where
  "sb_preserve_protected_payload b sequence key mode protected_payload =
     (case (sb_find b sequence, crypto_suite_for_mode mode) of
        (Some offset, Some suite) \<Rightarrow>
          let slot = sb_slot b offset
          in if \<not> ss_sent slot \<or> (key \<noteq> EncryptionKey_even \<and> key \<noteq> EncryptionKey_odd) then (invalid_state, b)
             else if ss_plaintext_size slot > maximum_data_payload_size - cs_authentication_tag_size suite
             then (buffer_too_small, b)
             else if length protected_payload \<noteq> ss_plaintext_size slot + cs_authentication_tag_size suite
             then (invalid_payload_size, b)
             else if dh_encryption_key (ss_header slot) \<noteq> EncryptionKey_none then
               (if dh_encryption_key (ss_header slot) = key \<and> ss_protection_mode slot = mode
                   \<and> ss_payload_size slot = length protected_payload
                   \<and> protected_payload
                       = take (length protected_payload) (pl_get (sb_payloads b) (ss_payload_index slot))
                then Error_none else invalid_state, b)
             else
               (Error_none,
                (sb_set_slot b offset
                   (slot \<lparr>ss_payload_size := length protected_payload mod 65536, ss_protection_mode := mode,
                          ss_header := (ss_header slot) \<lparr>dh_encryption_key := key\<rparr>\<rparr>))
                \<lparr>sb_payloads := pl_store (sb_payloads b) (ss_payload_index slot) protected_payload\<rparr>)
      | _ \<Rightarrow> (invalid_state, b))"

definition sb_preserve_encrypted_payload ::
    "SendBuffer \<Rightarrow> SequenceNumber \<Rightarrow> EncryptionKey \<Rightarrow> bytes \<Rightarrow> Error \<times> SendBuffer" where
  "sb_preserve_encrypted_payload b sequence key ciphertext =
     sb_preserve_protected_payload b sequence key CryptoMode_aes_ctr ciphertext"

definition sb_has_pending_retransmission :: "SendBuffer \<Rightarrow> bool" where
  "sb_has_pending_retransmission b \<longleftrightarrow>
     list_ex (\<lambda>index. sb_retransmission_wanted b
         (sb_retransmission_queue b ! ((sb_retransmission_head b + index) mod sb_capacity b)))
       [0..<sb_retransmission_size b]"

definition sb_note_packet_submitted :: "SendBuffer \<Rightarrow> SequenceNumber \<Rightarrow> SendBuffer" where
  "sb_note_packet_submitted b sequence =
     (case sb_find b sequence of
        None \<Rightarrow> b
      | Some offset \<Rightarrow>
          if ss_sent (sb_slot b offset)
          then sb_set_slot b offset ((sb_slot b offset) \<lparr>ss_submitted := True\<rparr>) else b)"

section \<open>Acknowledgement\<close>

fun sb_discard_prefix :: "SendBuffer \<Rightarrow> nat \<Rightarrow> nat \<Rightarrow> SendBuffer" where
  "sb_discard_prefix b index 0 = b"
| "sb_discard_prefix b index (Suc remaining) =
     sb_discard_prefix (sb_discard_slot b index False) (index + 1) remaining"

text \<open>Moving the window past \<open>count\<close> slots that have been discarded.\<close>

definition sb_advance_window :: "SendBuffer \<Rightarrow> nat \<Rightarrow> SequenceNumber \<Rightarrow> SendBuffer" where
  "sb_advance_window b count sequence =
     b \<lparr>sb_head := (sb_head b + count) mod sb_capacity b,
        sb_sequence_span := sb_sequence_span b - count,
        sb_next_unsent_offset := sb_next_unsent_offset b - min (sb_next_unsent_offset b) count,
        sb_first_sequence := sequence\<rparr>"

definition sb_acknowledge_before :: "SendBuffer \<Rightarrow> SequenceNumber \<Rightarrow> Error \<times> SendBuffer" where
  "sb_acknowledge_before b sequence =
     (let signed_count = seq_distance sequence (sb_first_sequence b)
      in if signed_count < 0 then (Error_none, b)
         else if nat signed_count > sb_sequence_span b then (invalid_control_payload, b)
         else
           let count = nat signed_count;
               b = sb_advance_window (sb_discard_prefix b 0 count) count sequence
           in (Error_none, if count \<noteq> 0 then sb_refresh_first_buffered_enqueue_time b else b))"

definition sb_acknowledge_submitted_before :: "SendBuffer \<Rightarrow> SequenceNumber \<Rightarrow> Error \<times> SendBuffer" where
  "sb_acknowledge_submitted_before b sequence =
     (let signed_count = seq_distance sequence (sb_first_sequence b)
      in if signed_count < 0 then (Error_none, b)
         else if nat signed_count > sb_sequence_span b then (invalid_control_payload, b)
         else if list_ex (\<lambda>index. ss_occupied (sb_slot b index) \<and> \<not> ss_submitted (sb_slot b index))
                   [0..<nat signed_count]
         then (invalid_control_payload, b)
         else sb_acknowledge_before b sequence)"

section \<open>Retransmission requests\<close>

definition sb_dropped_prefix :: "SendBuffer \<Rightarrow> nat \<Rightarrow> nat" where
  "sb_dropped_prefix b bound = dropped_prefix_loop (sb_dropped_counts b) bound 0"

definition sb_validate_retransmission_range :: "SendBuffer \<Rightarrow> SequenceRange \<Rightarrow> Error" where
  "sb_validate_retransmission_range b r =
     (let signed_count = seq_distance (sr_last r) (sr_first r);
          first_offset = seq_distance (sr_first r) (sb_first_sequence b);
          last_offset = seq_distance (sr_last r) (sb_first_sequence b)
      in if signed_count < 0 \<or> first_offset < 0 \<or> last_offset < first_offset
            \<or> nat last_offset \<ge> sb_sequence_span b
         then invalid_control_payload
         else
           let begin_offset = max (nat first_offset) (sb_next_unsent_offset b);
               end_offset = nat last_offset + 1
           in if begin_offset < end_offset then
                let physical = (sb_head b + begin_offset) mod sb_capacity b;
                    count = end_offset - begin_offset;
                    first_count = min count (sb_capacity b - physical);
                    dropped = sb_dropped_prefix b (physical + first_count) - sb_dropped_prefix b physical
                      + sb_dropped_prefix b (count - first_count)
                in if dropped \<noteq> count then invalid_control_payload else Error_none
              else Error_none)"

definition sb_repeated_too_soon :: "SendSlot \<Rightarrow> u64 \<Rightarrow> u64 \<Rightarrow> bool" where
  "sb_repeated_too_soon slot now minimum_repeat \<longleftrightarrow>
     \<not> ss_dropped slot \<and> minimum_repeat \<noteq> 0 \<and> ss_has_retransmission_send_time slot
     \<and> (now < last_retransmission_send_microseconds (ss_metadata slot)
        \<or> now - last_retransmission_send_microseconds (ss_metadata slot) < minimum_repeat)"

fun sb_request_loop ::
    "SendBuffer \<Rightarrow> SequenceNumber \<Rightarrow> u64 \<Rightarrow> u64 \<Rightarrow> nat \<Rightarrow> nat \<Rightarrow> nat \<Rightarrow> nat \<Rightarrow> Error \<times> nat \<times> nat \<times> SendBuffer" where
  "sb_request_loop b first now minimum_repeat index 0 packets byte_count = (Error_none, packets, byte_count, b)"
| "sb_request_loop b first now minimum_repeat index (Suc remaining) packets byte_count =
     (let sequence = seq_advanced first (of_nat index);
          slot = map_option (sb_slot b) (sb_find b sequence)
      in if (case slot of Some s \<Rightarrow> sb_repeated_too_soon s now minimum_repeat | None \<Rightarrow> False)
         then sb_request_loop b first now minimum_repeat (index + 1) remaining packets byte_count
         else
           let newly_queued = (case slot of Some s \<Rightarrow> ss_sent s \<and> \<not> ss_retransmission_queued s | None \<Rightarrow> False);
               plaintext_size = (case slot of Some s \<Rightarrow> if newly_queued then ss_plaintext_size s else 0 | None \<Rightarrow> 0);
               (accepted, b) = sb_queue_retransmission b sequence
           in if \<not> accepted then (invalid_control_payload, packets, byte_count, b)
              else if newly_queued
              then sb_request_loop b first now minimum_repeat (index + 1) remaining (packets + 1) (byte_count + plaintext_size)
              else sb_request_loop b first now minimum_repeat (index + 1) remaining packets byte_count)"

definition sb_request_retransmission ::
    "SendBuffer \<Rightarrow> SequenceRange \<Rightarrow> u64 \<Rightarrow> u64 \<Rightarrow> Error \<times> nat \<times> nat \<times> SendBuffer" where
  "sb_request_retransmission b r now minimum_repeat =
     (let validation = sb_validate_retransmission_range b r
      in if validation \<noteq> Error_none then (validation, 0, 0, b)
         else sb_request_loop b (sr_first r) now minimum_repeat 0
                (nat (seq_distance (sr_last r) (sr_first r)) + 1) 0 0)"

definition sb_note_retransmission_sent :: "SendBuffer \<Rightarrow> SequenceNumber \<Rightarrow> u64 \<Rightarrow> SendBuffer" where
  "sb_note_retransmission_sent b sequence now =
     (case sb_find b sequence of
        None \<Rightarrow> b
      | Some offset \<Rightarrow>
          let slot = sb_slot b offset
          in if ss_occupied slot \<and> ss_sent slot
             then sb_set_slot b offset
                    (slot \<lparr>ss_retransmission_queued := False, ss_has_retransmission_send_time := True,
                           ss_metadata := LiveMetadata now (expiration_microseconds (ss_metadata slot))\<rparr>)
             else b)"

fun sb_last_sent :: "SendBuffer \<Rightarrow> nat \<Rightarrow> nat option" where
  "sb_last_sent b 0 = None"
| "sb_last_sent b (Suc offset) =
     (if ss_occupied (sb_slot b offset) \<and> ss_sent (sb_slot b offset) \<and> \<not> ss_dropped (sb_slot b offset)
      then Some offset else sb_last_sent b offset)"

definition sb_request_retransmission_of_last_sent :: "SendBuffer \<Rightarrow> bool \<times> SendBuffer" where
  "sb_request_retransmission_of_last_sent b =
     (case sb_last_sent b (sb_sequence_span b) of
        None \<Rightarrow> (False, b)
      | Some offset \<Rightarrow> sb_queue_retransmission b (dh_sequence (ss_header (sb_slot b offset))))"

fun sb_all_sent_loop :: "SendBuffer \<Rightarrow> nat \<Rightarrow> nat \<Rightarrow> nat \<Rightarrow> nat \<times> SendBuffer" where
  "sb_all_sent_loop b offset 0 queued = (queued, b)"
| "sb_all_sent_loop b offset (Suc remaining) queued =
     (let slot = sb_slot b offset
      in if \<not> ss_occupied slot \<or> \<not> ss_sent slot \<or> ss_retransmission_queued slot
         then sb_all_sent_loop b (offset + 1) remaining queued
         else
           let (accepted, b) = sb_queue_retransmission b (dh_sequence (ss_header slot))
           in if \<not> accepted then (queued, b) else sb_all_sent_loop b (offset + 1) remaining (queued + 1))"

definition sb_request_retransmission_of_all_sent :: "SendBuffer \<Rightarrow> nat \<times> SendBuffer" where
  "sb_request_retransmission_of_all_sent b = sb_all_sent_loop b 0 (sb_sequence_span b) 0"

section \<open>Drop requests\<close>

text \<open>A \<^verbatim>\<open>static_cast<std::size_t>\<close> of a signed distance.\<close>

definition size_of_int :: "int \<Rightarrow> nat" where
  "size_of_int d = nat (d mod 18446744073709551616)"

function sb_next_pending_drop_request :: "SendBuffer \<Rightarrow> SendDropResult option \<times> SendBuffer" where
  "sb_next_pending_drop_request b =
     (if sb_drop_request_size b > 0 then
        let sequence = sb_drop_request_queue b ! sb_drop_request_head b;
            b1 = b \<lparr>sb_drop_request_head := (sb_drop_request_head b + 1) mod sb_capacity b,
                    sb_drop_request_size := sb_drop_request_size b - 1\<rparr>
        in case sb_offset b1 sequence of
             None \<Rightarrow> sb_next_pending_drop_request b1
           | Some first_offset \<Rightarrow>
               let first = sb_slot b1 first_offset
               in if \<not> ss_dropped first \<or> \<not> ss_drop_request_queued first then sb_next_pending_drop_request b1
                  else
                    let b2 = sb_set_slot b1 first_offset (first \<lparr>ss_drop_request_queued := False\<rparr>);
                        final_offset = size_of_int (seq_distance (message_last (ss_metadata first)) (sb_first_sequence b2))
                    in (Some \<lparr>sd_packets = final_offset - first_offset + 1,
                              sd_bytes = remaining_bytes (ss_metadata first),
                              sd_first_message_number = dh_message_number (ss_header first),
                              sd_sequences = make_range sequence
                                (seq_advanced (sb_first_sequence b2) (of_nat final_offset))\<rparr>, b2)
      else
        case dq_next (sb_range_drop_request_queue b) of
          (Some r, queue) \<Rightarrow>
            (Some \<lparr>sd_packets = size_of_int (seq_distance (sr_last r) (sr_first r)) + 1, sd_bytes = 0,
                   sd_first_message_number = 0, sd_sequences = r\<rparr>,
             b \<lparr>sb_range_drop_request_queue := queue\<rparr>)
        | (None, queue) \<Rightarrow> (None, b \<lparr>sb_range_drop_request_queue := queue\<rparr>))"
  by pat_completeness auto
termination
  by (relation "measure sb_drop_request_size") auto

declare sb_next_pending_drop_request.simps [simp del]

definition sb_has_pending_drop_request :: "SendBuffer \<Rightarrow> bool \<times> SendBuffer" where
  "sb_has_pending_drop_request b =
     (let b = (if sb_drop_request_size b \<noteq> 0 then sb_compact_drop_request_queue b else b)
      in (sb_drop_request_size b \<noteq> 0 \<or> \<not> dq_empty (sb_range_drop_request_queue b), b))"

text \<open>The inner \<open>do \<dots> while\<close>: the end of the run of tombstones of one message.\<close>

function sb_skip_message :: "SendBuffer \<Rightarrow> u32 \<Rightarrow> nat \<Rightarrow> nat" where
  "sb_skip_message b message_number offset =
     (if offset < sb_sequence_span b \<and> ss_dropped (sb_slot b offset)
         \<and> dh_message_number (ss_header (sb_slot b offset)) = message_number
      then sb_skip_message b message_number (offset + 1)
      else offset)"
  by pat_completeness auto
termination
  by (relation "measure (\<lambda>(b, m, offset). sb_sequence_span b - offset)") auto

declare sb_skip_message.simps [simp del]

lemma sb_skip_message_ge: "offset \<le> sb_skip_message b m offset"
proof (induction b m offset rule: sb_skip_message.induct)
  case (1 b m offset)
  then show ?case by (subst sb_skip_message.simps) (auto intro: Suc_leD)
qed

lemma sb_queue_drop_request_span:
  "sb_sequence_span (snd (sb_queue_drop_request b s)) = sb_sequence_span b"
  by (simp add: sb_queue_drop_request_def sb_compact_drop_request_queue_def sb_set_slot_def Let_def split_beta
      split: option.split)

function sb_retained_loop :: "SendBuffer \<Rightarrow> nat \<Rightarrow> nat \<Rightarrow> nat \<times> SendBuffer" where
  "sb_retained_loop b offset queued =
     (if offset < sb_sequence_span b then
        let slot = sb_slot b offset
        in if \<not> ss_dropped slot then sb_retained_loop b (offset + 1) queued
           else
             let message_number = dh_message_number (ss_header slot);
                 res = sb_queue_drop_request b (seq_advanced (sb_first_sequence b) (of_nat offset))
             in sb_retained_loop (snd res) (sb_skip_message (snd res) message_number (offset + 1))
                  (if fst res then queued + 1 else queued)
      else (queued, b))"
  by pat_completeness auto
termination
proof (relation "measure (\<lambda>(b, offset, queued). sb_sequence_span b - offset)", goal_cases)
  case (3 b offset queued slot message_number res)
  then show ?case
    using sb_skip_message_ge [of "offset + 1" "snd res" message_number]
    by (simp add: sb_queue_drop_request_span)
qed auto

declare sb_retained_loop.simps [simp del]

definition sb_queue_retained_drop_requests :: "SendBuffer \<Rightarrow> nat \<times> SendBuffer" where
  "sb_queue_retained_drop_requests b = sb_retained_loop b 0 0"

fun sb_dropped_run :: "SendBuffer \<Rightarrow> nat \<Rightarrow> nat \<Rightarrow> nat" where
  "sb_dropped_run b count 0 = count"
| "sb_dropped_run b count (Suc remaining) =
     (if ss_dropped (sb_slot b count) then sb_dropped_run b (count + 1) remaining else count)"

definition sb_retired_prefix :: "SendBuffer \<Rightarrow> SequenceRange option" where
  "sb_retired_prefix b =
     (let count = sb_dropped_run b 0 (sb_sequence_span b)
      in if count = 0 then None
         else Some (make_range (sb_first_sequence b) (seq_advanced (sb_first_sequence b) (of_nat (count - 1)))))"

definition sb_release_retired_prefix :: "SendBuffer \<Rightarrow> SendBuffer" where
  "sb_release_retired_prefix b =
     (case sb_retired_prefix b of
        Some prefix \<Rightarrow> snd (sb_acknowledge_before b (seq_next (sr_last prefix)))
      | None \<Rightarrow> b)"

definition sb_has_retained_drop :: "SendBuffer \<Rightarrow> bool" where
  "sb_has_retained_drop b \<longleftrightarrow> sb_retained_drop_count b \<noteq> 0"

definition sb_next_expiration_microseconds :: "SendBuffer \<Rightarrow> u64 option" where
  "sb_next_expiration_microseconds b =
     (if sb_expiring_packet_count b = 0 then None else Some (sb_earliest_expiration_microseconds b))"

definition sb_queue_range_drop_requests :: "SendBuffer \<Rightarrow> SequenceRange list \<Rightarrow> bool \<times> SendBuffer" where
  "sb_queue_range_drop_requests b ranges =
     (let (accepted, queue) = dq_queue (sb_range_drop_request_queue b) ranges
      in (accepted, b \<lparr>sb_range_drop_request_queue := queue\<rparr>))"

section \<open>Dropping messages\<close>

definition continues_message :: "u32 \<Rightarrow> DataHeader \<Rightarrow> bool" where
  "continues_message message_number header \<longleftrightarrow>
     dh_message_number header = message_number
     \<and> (dh_boundary header = MessageBoundary_subsequent \<or> dh_boundary header = MessageBoundary_last)"

text \<open>The loop of \<open>drop_messages_older_than\<close>, with \<open>remaining = sequence_span_ - packets\<close>.\<close>

fun sb_drop_older_loop :: "SendBuffer \<Rightarrow> u64 \<Rightarrow> u32 \<Rightarrow> nat \<Rightarrow> nat \<Rightarrow> nat \<Rightarrow> nat \<times> nat \<times> SendBuffer" where
  "sb_drop_older_loop b cutoff last_message packets byte_count 0 = (packets, byte_count, b)"
| "sb_drop_older_loop b cutoff last_message packets byte_count (Suc remaining) =
     (let slot = sb_slot b packets
      in if \<not> ss_occupied slot then (packets, byte_count, b)
         else
           let continues = (packets \<noteq> 0 \<and> continues_message last_message (ss_header slot))
           in if \<not> continues \<and> (\<not> ss_sent slot \<or> ss_first_send_microseconds slot > cutoff)
              then (packets, byte_count, b)
              else sb_drop_older_loop (sb_discard_slot b packets False) cutoff (dh_message_number (ss_header slot))
                     (packets + 1) (byte_count + ss_plaintext_size slot) remaining)"

definition sb_drop_messages_older_than :: "SendBuffer \<Rightarrow> u64 \<Rightarrow> SendDropResult \<times> SendBuffer" where
  "sb_drop_messages_older_than b cutoff =
     (if sb_sequence_span b = 0 then (default_SendDropResult, b)
      else
        let first = sb_slots b ! sb_head b
        in if \<not> ss_sent first \<or> ss_first_send_microseconds first > cutoff then (default_SendDropResult, b)
           else
             let number = dh_message_number (ss_header first);
                 (packets, byte_count, b1) = sb_drop_older_loop b cutoff number 0 0 (sb_sequence_span b)
             in if packets = 0 then
                  (default_SendDropResult \<lparr>sd_first_message_number := number,
                     sd_sequences := make_range (sb_first_sequence b) (SequenceNumber 0)\<rparr>, b1)
                else
                  let final = seq_advanced (sb_first_sequence b) (of_nat (packets - 1));
                      b2 = sb_refresh_first_buffered_enqueue_time (sb_advance_window b1 packets (seq_next final))
                  in (\<lparr>sd_packets = packets, sd_bytes = byte_count, sd_first_message_number = number,
                       sd_sequences = make_range (sb_first_sequence b) final\<rparr>, b2))"

text \<open>Turning the packets of one expired message into tombstones.\<close>

fun sb_drop_message_loop :: "SendBuffer \<Rightarrow> SequenceNumber \<Rightarrow> u32 \<Rightarrow> nat \<Rightarrow> nat \<Rightarrow> nat \<Rightarrow> nat \<times> nat \<times> SendBuffer" where
  "sb_drop_message_loop b first_sequence number message_offset byte_count 0 = (message_offset, byte_count, b)"
| "sb_drop_message_loop b first_sequence number message_offset byte_count (Suc remaining) =
     (let slot = sb_slot b message_offset
      in if \<not> ss_occupied slot \<or> dh_message_number (ss_header slot) \<noteq> number
         then (message_offset, byte_count, b)
         else
           let b1 = sb_discard_slot b message_offset True;
               dropped = sb_slot b1 message_offset;
               b2 = sb_set_slot b1 message_offset
                      (dropped \<lparr>ss_metadata := DropMetadata first_sequence (message_last (ss_metadata dropped))
                                                 (remaining_bytes (ss_metadata dropped))\<rparr>)
           in sb_drop_message_loop b2 first_sequence number (message_offset + 1)
                (byte_count + ss_plaintext_size slot) remaining)"

text \<open>The backward loop that records in each tombstone the end of the message and its bytes.\<close>

fun sb_record_drop_loop :: "SendBuffer \<Rightarrow> SequenceNumber \<Rightarrow> nat \<Rightarrow> nat \<Rightarrow> nat \<Rightarrow> SendBuffer" where
  "sb_record_drop_loop b last_sequence offset tail_bytes 0 = b"
| "sb_record_drop_loop b last_sequence offset tail_bytes (Suc n) =
     (let slot = sb_slot b (offset + n);
          tail_bytes = tail_bytes + ss_plaintext_size slot
      in sb_record_drop_loop
           (sb_set_slot b (offset + n)
              (slot \<lparr>ss_metadata := DropMetadata (message_first (ss_metadata slot)) last_sequence tail_bytes\<rparr>))
           last_sequence offset tail_bytes n)"

definition sb_expire_message :: "SendBuffer \<Rightarrow> nat \<Rightarrow> SendDropResult \<times> SendBuffer" where
  "sb_expire_message b offset =
     (let first = sb_slot b offset;
          number = dh_message_number (ss_header first);
          first_sequence = seq_advanced (sb_first_sequence b) (of_nat offset);
          (message_offset, byte_count, b1) =
            sb_drop_message_loop b first_sequence number offset 0 (sb_sequence_span b - offset);
          packets = message_offset - offset;
          last_sequence = seq_advanced first_sequence (of_nat (packets - 1));
          b2 = sb_record_drop_loop b1 last_sequence offset 0 packets
      in (\<lparr>sd_packets = packets, sd_bytes = byte_count, sd_first_message_number = number,
           sd_sequences = make_range first_sequence last_sequence\<rparr>,
          sb_refresh_buffered_enqueue_time_bounds b2))"

text \<open>The scan: the first expired packet, or else the earliest expiration.\<close>

fun sb_scan_expired :: "SendBuffer \<Rightarrow> u64 \<Rightarrow> nat \<Rightarrow> u64 \<Rightarrow> nat \<Rightarrow> nat + u64" where
  "sb_scan_expired b now offset next_earliest 0 = Inr next_earliest"
| "sb_scan_expired b now offset next_earliest (Suc remaining) =
     (let slot = sb_slot b offset
      in if \<not> ss_occupied slot \<or> expiration_microseconds (ss_metadata slot) = 0
         then sb_scan_expired b now (offset + 1) next_earliest remaining
         else if now \<le> expiration_microseconds (ss_metadata slot)
         then sb_scan_expired b now (offset + 1) (min next_earliest (expiration_microseconds (ss_metadata slot))) remaining
         else Inl offset)"

definition sb_drop_expired_message :: "SendBuffer \<Rightarrow> u64 \<Rightarrow> SendDropResult \<times> SendBuffer" where
  "sb_drop_expired_message b now =
     (if sb_expiring_packet_count b = 0 \<or> now \<le> sb_earliest_expiration_microseconds b
      then (default_SendDropResult, b)
      else
        case sb_scan_expired b now 0 0xffffffffffffffff (sb_sequence_span b) of
          Inl offset \<Rightarrow> sb_expire_message b offset
        | Inr next_earliest \<Rightarrow>
            (default_SendDropResult, b \<lparr>sb_earliest_expiration_microseconds := next_earliest\<rparr>))"

definition sb_buffered_span_milliseconds :: "SendBuffer \<Rightarrow> u64" where
  "sb_buffered_span_milliseconds b =
     (if sb_occupied_count b = 0 then 0
      else if sb_last_buffered_enqueue_microseconds b \<ge> sb_first_buffered_enqueue_microseconds b
      then (sb_last_buffered_enqueue_microseconds b - sb_first_buffered_enqueue_microseconds b) div 1000 + 1
      else 1)"

end
