(* ===== verification/Send_Buffer_Inv.thy ===== *)
theory Send_Buffer_Inv
  imports Send_Buffer
begin

text \<open>
  The invariant of the send buffer and its preservation by every operation: the window of slots,
  the counters, the payload pool, the tree of tombstones and the cursor of unsent packets agree.
\<close>

section \<open>The invariant\<close>

definition slot_ok :: "SendSlot \<Rightarrow> bool" where
  "slot_ok s \<longleftrightarrow>
     (ss_occupied s \<longrightarrow> \<not> ss_dropped s \<and> is_LiveMetadata (ss_metadata s))
     \<and> (ss_dropped s \<longrightarrow> \<not> is_LiveMetadata (ss_metadata s))
     \<and> (ss_sent s \<longrightarrow> ss_occupied s) \<and> (ss_submitted s \<longrightarrow> ss_sent s)
     \<and> (ss_retransmission_queued s \<longrightarrow> ss_sent s)"

definition slot_expires :: "SendSlot \<Rightarrow> bool" where
  "slot_expires s \<longleftrightarrow> ss_occupied s \<and> expiration_microseconds (ss_metadata s) \<noteq> 0"

definition slot_bytes :: "SendSlot \<Rightarrow> nat" where
  "slot_bytes s = (if ss_occupied s then ss_plaintext_size s else 0)"

definition send_shape :: "SendBuffer \<Rightarrow> bool" where
  "send_shape b \<longleftrightarrow>
     0 < sb_capacity b \<and> sb_capacity b < 1073741824
     \<and> sb_head b < sb_capacity b \<and> sb_sequence_span b \<le> sb_capacity b
     \<and> 0 < sb_maximum_payload_size b \<and> sb_maximum_payload_size b \<le> 1456
     \<and> length (sb_retransmission_queue b) = sb_capacity b \<and> sb_retransmission_head b < sb_capacity b
     \<and> sb_retransmission_size b \<le> sb_capacity b
     \<and> length (sb_drop_request_queue b) = sb_capacity b \<and> sb_drop_request_head b < sb_capacity b
     \<and> sb_drop_request_size b \<le> sb_capacity b
     \<and> dq_ok (sb_range_drop_request_queue b)"

text \<open>
  The slots of the window hold consecutive sequence numbers and positions. Retiring a prefix
  empties its slots before the window moves, so the window is stated from an offset \<open>k\<close> on.
\<close>

definition window_at :: "nat \<Rightarrow> SendBuffer \<Rightarrow> nat \<Rightarrow> bool" where
  "window_at k b i \<longleftrightarrow>
     (if k \<le> i \<and> i < sb_sequence_span b
      then ss_occupied (sb_slot b i) \<noteq> ss_dropped (sb_slot b i)
        \<and> dh_sequence (ss_header (sb_slot b i)) = seq_advanced (sb_first_sequence b) (of_nat i)
        \<and> ss_sequence_position (sb_slot b i) = sb_next_sequence_position b - of_nat (sb_sequence_span b - i)
      else \<not> ss_occupied (sb_slot b i) \<and> \<not> ss_dropped (sb_slot b i))"

definition send_window :: "nat \<Rightarrow> SendBuffer \<Rightarrow> bool" where
  "send_window k b \<longleftrightarrow> list_all slot_ok (sb_slots b) \<and> (\<forall>i < sb_capacity b. window_at k b i)"

definition send_cursor :: "SendBuffer \<Rightarrow> bool" where
  "send_cursor b \<longleftrightarrow>
     sb_next_unsent_offset b \<le> sb_sequence_span b
     \<and> (\<forall>i < sb_sequence_span b. ss_occupied (sb_slot b i) \<longrightarrow> (ss_sent (sb_slot b i) \<longleftrightarrow> i < sb_next_unsent_offset b))"

definition send_counts :: "SendBuffer \<Rightarrow> bool" where
  "send_counts b \<longleftrightarrow>
     sb_occupied_count b = length (filter ss_occupied (sb_slots b))
     \<and> sb_retained_drop_count b = length (filter ss_dropped (sb_slots b))
     \<and> sb_packets_in_flight b = length (filter ss_sent (sb_slots b))
     \<and> sb_expiring_packet_count b = length (filter slot_expires (sb_slots b))
     \<and> sb_buffered_plaintext_bytes b = sum_list (map slot_bytes (sb_slots b))"

text \<open>Every occupied slot owns its own body in the pool, and the pool holds nothing else.\<close>

definition slot_body_ok :: "PayloadPool \<Rightarrow> SendSlot \<Rightarrow> bool" where
  "slot_body_ok p s \<longleftrightarrow>
     ss_payload_index s \<in> pl_live p \<and> length (pl_get p (ss_payload_index s)) = ss_payload_size s
     \<and> 0 < ss_plaintext_size s \<and> ss_plaintext_size s \<le> 1456"

definition bodies_ok :: "PayloadPool \<Rightarrow> SendSlot list \<Rightarrow> bool" where
  "bodies_ok p xs \<longleftrightarrow>
     (\<forall>s \<in> set xs. ss_occupied s \<longrightarrow> slot_body_ok p s)
     \<and> (\<forall>i < length xs. \<forall>j < length xs. ss_occupied (xs ! i) \<longrightarrow> ss_occupied (xs ! j)
          \<longrightarrow> ss_payload_index (xs ! i) = ss_payload_index (xs ! j) \<longrightarrow> i = j)
     \<and> card (pl_live p) = length (filter ss_occupied xs)"

definition send_pool :: "SendBuffer \<Rightarrow> bool" where
  "send_pool b \<longleftrightarrow>
     pool_ok (sb_payloads b) \<and> pl_capacity (sb_payloads b) = sb_capacity b
     \<and> bodies_ok (sb_payloads b) (sb_slots b)"

definition send_tree :: "SendBuffer \<Rightarrow> bool" where
  "send_tree b \<longleftrightarrow> fenwick_ok (sb_dropped_counts b) (map ss_dropped (sb_slots b))"

text \<open>The recorded expiration is a lower bound of every active one.\<close>

definition send_expiry :: "SendBuffer \<Rightarrow> bool" where
  "send_expiry b \<longleftrightarrow>
     (\<forall>s \<in> set (sb_slots b). slot_expires s \<longrightarrow>
        sb_earliest_expiration_microseconds b \<le> expiration_microseconds (ss_metadata s))"

definition send_from :: "nat \<Rightarrow> SendBuffer \<Rightarrow> bool" where
  "send_from k b \<longleftrightarrow>
     send_shape b \<and> send_window k b \<and> send_cursor b \<and> send_counts b \<and> send_pool b \<and> send_tree b \<and> send_expiry b"

abbreviation send_ok :: "SendBuffer \<Rightarrow> bool" where
  "send_ok \<equiv> send_from 0"

section \<open>Slots by offset\<close>

text \<open>Only the slots and the head decide which slot an offset names.\<close>

lemma sb_capacity_frame [simp]:
  "sb_capacity (sb_dropped_counts_update u1 b) = sb_capacity b"
  "sb_capacity (sb_payloads_update u2 b) = sb_capacity b"
  "sb_capacity (sb_retransmission_queue_update u3 b) = sb_capacity b"
  "sb_capacity (sb_drop_request_queue_update u4 b) = sb_capacity b"
  "sb_capacity (sb_range_drop_request_queue_update u5 b) = sb_capacity b"
  "sb_capacity (sb_first_sequence_update u6 b) = sb_capacity b"
  "sb_capacity (sb_next_sequence_position_update u7 b) = sb_capacity b"
  "sb_capacity (sb_maximum_payload_size_update u8 b) = sb_capacity b"
  "sb_capacity (sb_sequence_span_update u9 b) = sb_capacity b"
  "sb_capacity (sb_next_unsent_offset_update u10 b) = sb_capacity b"
  "sb_capacity (sb_occupied_count_update u11 b) = sb_capacity b"
  "sb_capacity (sb_retained_drop_count_update u12 b) = sb_capacity b"
  "sb_capacity (sb_buffered_plaintext_bytes_update u13 b) = sb_capacity b"
  "sb_capacity (sb_expiring_packet_count_update u14 b) = sb_capacity b"
  "sb_capacity (sb_earliest_expiration_microseconds_update u15 b) = sb_capacity b"
  "sb_capacity (sb_first_buffered_enqueue_microseconds_update u16 b) = sb_capacity b"
  "sb_capacity (sb_last_buffered_enqueue_microseconds_update u17 b) = sb_capacity b"
  "sb_capacity (sb_retransmission_head_update u18 b) = sb_capacity b"
  "sb_capacity (sb_retransmission_size_update u19 b) = sb_capacity b"
  "sb_capacity (sb_drop_request_head_update u20 b) = sb_capacity b"
  "sb_capacity (sb_drop_request_size_update u21 b) = sb_capacity b"
  "sb_capacity (sb_packets_in_flight_update u22 b) = sb_capacity b"
  "sb_capacity (sb_head_update h b) = sb_capacity b"
  by (simp_all add: sb_capacity_def)

lemma sb_index_frame [simp]:
  "sb_index (sb_dropped_counts_update u23 b) = sb_index b"
  "sb_index (sb_payloads_update u24 b) = sb_index b"
  "sb_index (sb_retransmission_queue_update u25 b) = sb_index b"
  "sb_index (sb_drop_request_queue_update u26 b) = sb_index b"
  "sb_index (sb_range_drop_request_queue_update u27 b) = sb_index b"
  "sb_index (sb_first_sequence_update u28 b) = sb_index b"
  "sb_index (sb_next_sequence_position_update u29 b) = sb_index b"
  "sb_index (sb_maximum_payload_size_update u30 b) = sb_index b"
  "sb_index (sb_sequence_span_update u31 b) = sb_index b"
  "sb_index (sb_next_unsent_offset_update u32 b) = sb_index b"
  "sb_index (sb_occupied_count_update u33 b) = sb_index b"
  "sb_index (sb_retained_drop_count_update u34 b) = sb_index b"
  "sb_index (sb_buffered_plaintext_bytes_update u35 b) = sb_index b"
  "sb_index (sb_expiring_packet_count_update u36 b) = sb_index b"
  "sb_index (sb_earliest_expiration_microseconds_update u37 b) = sb_index b"
  "sb_index (sb_first_buffered_enqueue_microseconds_update u38 b) = sb_index b"
  "sb_index (sb_last_buffered_enqueue_microseconds_update u39 b) = sb_index b"
  "sb_index (sb_retransmission_head_update u40 b) = sb_index b"
  "sb_index (sb_retransmission_size_update u41 b) = sb_index b"
  "sb_index (sb_drop_request_head_update u42 b) = sb_index b"
  "sb_index (sb_drop_request_size_update u43 b) = sb_index b"
  "sb_index (sb_packets_in_flight_update u44 b) = sb_index b"
  by (simp_all add: sb_index_def fun_eq_iff)

lemma sb_slot_frame [simp]:
  "sb_slot (sb_dropped_counts_update u45 b) = sb_slot b"
  "sb_slot (sb_payloads_update u46 b) = sb_slot b"
  "sb_slot (sb_retransmission_queue_update u47 b) = sb_slot b"
  "sb_slot (sb_drop_request_queue_update u48 b) = sb_slot b"
  "sb_slot (sb_range_drop_request_queue_update u49 b) = sb_slot b"
  "sb_slot (sb_first_sequence_update u50 b) = sb_slot b"
  "sb_slot (sb_next_sequence_position_update u51 b) = sb_slot b"
  "sb_slot (sb_maximum_payload_size_update u52 b) = sb_slot b"
  "sb_slot (sb_sequence_span_update u53 b) = sb_slot b"
  "sb_slot (sb_next_unsent_offset_update u54 b) = sb_slot b"
  "sb_slot (sb_occupied_count_update u55 b) = sb_slot b"
  "sb_slot (sb_retained_drop_count_update u56 b) = sb_slot b"
  "sb_slot (sb_buffered_plaintext_bytes_update u57 b) = sb_slot b"
  "sb_slot (sb_expiring_packet_count_update u58 b) = sb_slot b"
  "sb_slot (sb_earliest_expiration_microseconds_update u59 b) = sb_slot b"
  "sb_slot (sb_first_buffered_enqueue_microseconds_update u60 b) = sb_slot b"
  "sb_slot (sb_last_buffered_enqueue_microseconds_update u61 b) = sb_slot b"
  "sb_slot (sb_retransmission_head_update u62 b) = sb_slot b"
  "sb_slot (sb_retransmission_size_update u63 b) = sb_slot b"
  "sb_slot (sb_drop_request_head_update u64 b) = sb_slot b"
  "sb_slot (sb_drop_request_size_update u65 b) = sb_slot b"
  "sb_slot (sb_packets_in_flight_update u66 b) = sb_slot b"
  by (simp_all add: sb_slot_def fun_eq_iff)

lemma sb_set_slot_fields [simp]:
  "sb_dropped_counts (sb_set_slot b i s) = sb_dropped_counts b"
  "sb_payloads (sb_set_slot b i s) = sb_payloads b"
  "sb_retransmission_queue (sb_set_slot b i s) = sb_retransmission_queue b"
  "sb_drop_request_queue (sb_set_slot b i s) = sb_drop_request_queue b"
  "sb_range_drop_request_queue (sb_set_slot b i s) = sb_range_drop_request_queue b"
  "sb_first_sequence (sb_set_slot b i s) = sb_first_sequence b"
  "sb_next_sequence_position (sb_set_slot b i s) = sb_next_sequence_position b"
  "sb_maximum_payload_size (sb_set_slot b i s) = sb_maximum_payload_size b"
  "sb_sequence_span (sb_set_slot b i s) = sb_sequence_span b"
  "sb_next_unsent_offset (sb_set_slot b i s) = sb_next_unsent_offset b"
  "sb_occupied_count (sb_set_slot b i s) = sb_occupied_count b"
  "sb_retained_drop_count (sb_set_slot b i s) = sb_retained_drop_count b"
  "sb_buffered_plaintext_bytes (sb_set_slot b i s) = sb_buffered_plaintext_bytes b"
  "sb_expiring_packet_count (sb_set_slot b i s) = sb_expiring_packet_count b"
  "sb_earliest_expiration_microseconds (sb_set_slot b i s) = sb_earliest_expiration_microseconds b"
  "sb_first_buffered_enqueue_microseconds (sb_set_slot b i s) = sb_first_buffered_enqueue_microseconds b"
  "sb_last_buffered_enqueue_microseconds (sb_set_slot b i s) = sb_last_buffered_enqueue_microseconds b"
  "sb_retransmission_head (sb_set_slot b i s) = sb_retransmission_head b"
  "sb_retransmission_size (sb_set_slot b i s) = sb_retransmission_size b"
  "sb_drop_request_head (sb_set_slot b i s) = sb_drop_request_head b"
  "sb_drop_request_size (sb_set_slot b i s) = sb_drop_request_size b"
  "sb_packets_in_flight (sb_set_slot b i s) = sb_packets_in_flight b"
  "sb_head (sb_set_slot b i s) = sb_head b"
  "sb_capacity (sb_set_slot b i s) = sb_capacity b"
  "sb_slots (sb_set_slot b i s) = (sb_slots b)[sb_index b i := s]"
  "sb_index (sb_set_slot b i s) = sb_index b"
  by (simp_all add: sb_set_slot_def sb_capacity_def sb_index_def fun_eq_iff)

lemma sb_slot_ring: "sb_slot b i = ring_at (sb_slots b) (sb_head b) i"
  by (simp add: sb_slot_def ring_at_def sb_index_def sb_capacity_def)

lemma sb_set_slot_ring: "sb_set_slot b i s = b \<lparr>sb_slots := ring_put (sb_slots b) (sb_head b) i s\<rparr>"
  by (simp add: sb_set_slot_def ring_put_def sb_index_def sb_capacity_def)

lemma sb_index_less: "0 < sb_capacity b \<Longrightarrow> sb_index b i < length (sb_slots b)"
  by (simp add: sb_index_def sb_capacity_def)

lemma sb_index_inject: "i < sb_capacity b \<Longrightarrow> j < sb_capacity b \<Longrightarrow> sb_index b i = sb_index b j \<longleftrightarrow> i = j"
  by (simp add: sb_index_def ring_index_inject)

lemma sb_index_surj:
  assumes "sb_head b < sb_capacity b" "j < sb_capacity b"
  obtains i where "i < sb_capacity b" "sb_index b i = j"
proof -
  let ?n = "sb_capacity b"
  let ?i = "if sb_head b \<le> j then j - sb_head b else j + ?n - sb_head b"
  have "?i < ?n" using assms by auto
  moreover have "sb_index b ?i = j" using assms by (auto simp: sb_index_def)
  ultimately show thesis by (rule that)
qed

lemma sb_slot_set:
  assumes "i < sb_capacity b" "j < sb_capacity b"
  shows "sb_slot (sb_set_slot b i s) j = (if i = j then s else sb_slot b j)"
  using assms by (simp add: sb_slot_ring sb_set_slot_ring ring_at_put sb_capacity_def)

lemma sb_slots_mem: "0 < sb_capacity b \<Longrightarrow> sb_slot b i \<in> set (sb_slots b)"
  using sb_index_less [of b i] by (simp add: sb_slot_def)

lemma sb_slots_ex_offset:
  assumes "sb_head b < sb_capacity b" "s \<in> set (sb_slots b)"
  obtains i where "i < sb_capacity b" "s = sb_slot b i"
  using assms sb_index_surj [of b] by (metis in_set_conv_nth sb_capacity_def sb_slot_def)

lemma slot_ok_at: "send_from k b \<Longrightarrow> slot_ok (sb_slot b i)"
  using sb_slots_mem [of b i] by (simp add: send_from_def send_window_def send_shape_def list_all_iff)

lemma send_from_bounds:
  assumes "send_from k b"
  shows "0 < sb_capacity b" "sb_capacity b < 1073741824" "sb_head b < sb_capacity b"
    "sb_sequence_span b \<le> sb_capacity b" "sb_next_unsent_offset b \<le> sb_sequence_span b"
    "length (sb_slots b) = sb_capacity b"
  using assms by (auto simp: send_from_def send_shape_def send_cursor_def sb_capacity_def)

lemma send_from_slot:
  assumes "send_from k b" "i < sb_capacity b"
  shows "k \<le> i \<and> i < sb_sequence_span b \<Longrightarrow> ss_occupied (sb_slot b i) \<noteq> ss_dropped (sb_slot b i)"
    and "k \<le> i \<and> i < sb_sequence_span b \<Longrightarrow>
      dh_sequence (ss_header (sb_slot b i)) = seq_advanced (sb_first_sequence b) (of_nat i)"
    and "ss_occupied (sb_slot b i) \<or> ss_dropped (sb_slot b i) \<Longrightarrow> k \<le> i \<and> i < sb_sequence_span b"
  using assms by (auto simp: send_from_def send_window_def window_at_def split: if_splits)

section \<open>Changing one slot\<close>

text \<open>
  The laws of the counters under the replacement of one slot. A flag that a count or a sum
  reads changes it by the difference of the two slots.
\<close>

lemma filter_update_same: "i < length xs \<Longrightarrow> P x = P (xs ! i) \<Longrightarrow> length (filter P (xs[i := x])) = length (filter P xs)"
  using length_filter_update [of i xs P x] by (auto split: if_splits)

lemma map_update_same: "i < length xs \<Longrightarrow> f x = f (xs ! i) \<Longrightarrow> map f (xs[i := x]) = map f xs"
  by (metis list_update_id map_update)

lemma sum_list_map_update:
  "i < length xs \<Longrightarrow> sum_list (map f (xs[i := x])) + f (xs ! i) = sum_list (map f xs) + (f x :: nat)"
  by (induction xs arbitrary: i) (auto simp: nth_Cons split: nat.split)

text \<open>The pool keeps serving the slots when a slot leaves, enters, or keeps its body.\<close>

lemma bodies_ok_nth: "bodies_ok p xs \<Longrightarrow> i < length xs \<Longrightarrow> ss_occupied (xs ! i) \<Longrightarrow> slot_body_ok p (xs ! i)"
  by (simp add: bodies_ok_def)

lemma bodies_ok_update_same:
  assumes "bodies_ok p xs" "i < length xs" "ss_occupied x = ss_occupied (xs ! i)"
    "ss_payload_index x = ss_payload_index (xs ! i)" "ss_occupied x \<Longrightarrow> slot_body_ok p x"
  shows "bodies_ok p (xs[i := x])"
  using assms unfolding bodies_ok_def
  by (auto simp: filter_update_same nth_list_update dest: set_update_subset_insert [THEN subsetD])

lemma bodies_ok_release:
  assumes "pool_ok p" "bodies_ok p xs" "i < length xs" "ss_occupied (xs ! i)" "\<not> ss_occupied x"
  shows "bodies_ok (pl_release p (ss_payload_index (xs ! i))) (xs[i := x])"
proof -
  let ?k = "ss_payload_index (xs ! i)"
  have live: "?k \<in> pl_live p" using bodies_ok_nth [OF assms(2-4)] by (simp add: slot_body_ok_def)
  have other: "slot_body_ok (pl_release p ?k) (xs ! j)"
    if "j < length xs" "j \<noteq> i" "ss_occupied (xs ! j)" for j
  proof -
    have "ss_payload_index (xs ! j) \<noteq> ?k" using that assms(2-4) by (auto simp: bodies_ok_def)
    then show ?thesis
      using bodies_ok_nth [OF assms(2) that(1,3)] pool.release_laws [OF assms(1) live] by (simp add: slot_body_ok_def)
  qed
  have "length (filter ss_occupied (xs[i := x])) = length (filter ss_occupied xs) - 1"
    using length_filter_update [OF assms(3), of ss_occupied x] assms(4,5) by simp
  then show ?thesis
    using assms other pool.release_card [OF assms(1) live] unfolding bodies_ok_def
    by (auto simp: all_set_conv_all_nth nth_list_update)
qed

lemma bodies_ok_acquire:
  assumes "pool_ok p" "bodies_ok p xs" "i < length xs" "\<not> ss_occupied (xs ! i)" "card (pl_live p) < pl_capacity p"
    "0 < length body" "length body \<le> 1456"
    "ss_occupied x" "ss_payload_index x = fst (pl_acquire p body)" "ss_payload_size x = length body"
    "ss_plaintext_size x = length body"
  shows "bodies_ok (snd (pl_acquire p body)) (xs[i := x])"
proof -
  let ?p = "snd (pl_acquire p body)"
  note laws = pool.acquire_laws [OF assms(1,7,5)]
  have other: "slot_body_ok ?p (xs ! j) \<and> ss_payload_index (xs ! j) \<noteq> ss_payload_index x"
    if "j < length xs" "ss_occupied (xs ! j)" for j
    using bodies_ok_nth [OF assms(2) that] laws assms(9) by (auto simp: slot_body_ok_def)
  have "slot_body_ok ?p x" using laws assms(6,7,9-11) by (simp add: slot_body_ok_def)
  moreover have "length (filter ss_occupied (xs[i := x])) = length (filter ss_occupied xs) + 1"
    using length_filter_update [OF assms(3), of ss_occupied x] assms(4,8) by simp
  ultimately show ?thesis
    using assms(2-4,8) other pool.acquire_card [OF assms(1,7,5)] unfolding bodies_ok_def
    by (auto simp: all_set_conv_all_nth nth_list_update) metis+
qed

text \<open>
  Flags of the request queues, the submission mark and the time of the last retransmission do not
  take part in the invariant beyond \<open>slot_ok\<close>.
\<close>

definition same_standing :: "SendSlot \<Rightarrow> SendSlot \<Rightarrow> bool" where
  "same_standing s t \<longleftrightarrow>
     ss_occupied t = ss_occupied s \<and> ss_dropped t = ss_dropped s \<and> ss_sent t = ss_sent s
     \<and> ss_payload_index t = ss_payload_index s \<and> ss_plaintext_size t = ss_plaintext_size s
     \<and> ss_payload_size t = ss_payload_size s \<and> ss_header t = ss_header s
     \<and> ss_sequence_position t = ss_sequence_position s
     \<and> (ss_occupied s \<longrightarrow> expiration_microseconds (ss_metadata t) = expiration_microseconds (ss_metadata s))"

lemma same_standing_slot: "same_standing s t \<Longrightarrow> slot_expires t = slot_expires s \<and> slot_bytes t = slot_bytes s"
  by (auto simp: same_standing_def slot_expires_def slot_bytes_def)

lemma list_all_update: "list_all P xs \<Longrightarrow> P x \<Longrightarrow> list_all P (xs[i := x])"
  by (auto simp: list_all_iff dest: set_update_subset_insert [THEN subsetD])

lemma send_from_same_standing:
  assumes "send_from k b" "i < sb_capacity b" "same_standing (sb_slot b i) s" "slot_ok s"
  shows "send_from k (sb_set_slot b i s)"
proof -
  let ?b = "sb_set_slot b i s"
  have idx: "sb_index b i < length (sb_slots b)" using assms(2) by (intro sb_index_less) simp
  have old: "sb_slots b ! sb_index b i = sb_slot b i" by (simp add: sb_slot_def)
  note same = assms(3) [unfolded same_standing_def] same_standing_slot [OF assms(3)]
  have fields: "same_standing (sb_slot b j) (sb_slot ?b j)" if "j < sb_capacity b" for j
    using that assms(2,3) by (simp add: sb_slot_set) (simp add: same_standing_def)
  have "send_window k ?b"
    using assms(1,4) fields by (auto simp: send_from_def send_window_def window_at_def same_standing_def list_all_update)
  moreover have "send_cursor ?b"
    using assms(1) fields by (auto simp: send_from_def send_cursor_def send_shape_def same_standing_def)
  moreover have "send_counts ?b"
    using assms(1) idx old same sum_list_map_update [OF idx, of slot_bytes s]
    by (simp add: send_from_def send_counts_def filter_update_same)
  moreover have "send_pool ?b"
    using assms(1) same old idx bodies_ok_nth [of "sb_payloads b" "sb_slots b", OF _ idx]
    by (auto simp: send_from_def send_pool_def slot_body_ok_def intro!: bodies_ok_update_same)
  moreover have "send_expiry ?b"
    using assms(1) same old idx sb_slots_mem [of b i] send_from_bounds(1) [OF assms(1)]
    by (auto simp: send_from_def send_expiry_def slot_expires_def dest!: set_update_subset_insert [THEN subsetD])
  ultimately show ?thesis
    using assms(1) idx old same by (simp add: send_from_def send_shape_def send_tree_def map_update_same)
qed

section \<open>Discarding a slot\<close>

definition discarded :: "bool \<Rightarrow> SendSlot \<Rightarrow> SendSlot" where
  "discarded retain s =
     (let t = s \<lparr>ss_occupied := False, ss_dropped := retain, ss_drop_request_queued := False,
                 ss_sent := False, ss_submitted := False, ss_retransmission_queued := False,
                 ss_has_retransmission_send_time := False,
                 ss_metadata :=
                   (if retain then
                      if ss_dropped s then ss_metadata s else DropMetadata (SequenceNumber 0) (SequenceNumber 0) 0
                    else LiveMetadata 0 0)\<rparr>
      in if retain then t
         else t \<lparr>ss_payload_size := 0, ss_plaintext_size := 0, ss_protection_mode := CryptoMode_automatic,
                 ss_enqueue_microseconds := 0\<rparr>)"

lemma discarded_simps [simp]:
  "ss_occupied (discarded r s) = False" "ss_dropped (discarded r s) = r" "ss_sent (discarded r s) = False"
  "ss_submitted (discarded r s) = False" "ss_retransmission_queued (discarded r s) = False"
  "ss_header (discarded r s) = ss_header s" "ss_sequence_position (discarded r s) = ss_sequence_position s"
  "ss_payload_index (discarded r s) = ss_payload_index s"
  "slot_expires (discarded r s) = False" "slot_bytes (discarded r s) = 0"
  by (simp_all add: discarded_def slot_expires_def slot_bytes_def Let_def)

lemma slot_ok_discarded: "slot_ok s \<Longrightarrow> slot_ok (discarded r s)"
  by (simp add: slot_ok_def discarded_def Let_def)

lemma sb_discard_slot_fields:
  "sb_slots (sb_discard_slot b i r) = (sb_slots b)[sb_index b i := discarded r (sb_slot b i)]"
  "sb_head (sb_discard_slot b i r) = sb_head b"
  "sb_sequence_span (sb_discard_slot b i r) = sb_sequence_span b"
  "sb_first_sequence (sb_discard_slot b i r) = sb_first_sequence b"
  "sb_next_sequence_position (sb_discard_slot b i r) = sb_next_sequence_position b"
  "sb_next_unsent_offset (sb_discard_slot b i r) = sb_next_unsent_offset b"
  "sb_maximum_payload_size (sb_discard_slot b i r) = sb_maximum_payload_size b"
  "sb_retransmission_queue (sb_discard_slot b i r) = sb_retransmission_queue b"
  "sb_retransmission_head (sb_discard_slot b i r) = sb_retransmission_head b"
  "sb_retransmission_size (sb_discard_slot b i r) = sb_retransmission_size b"
  "sb_drop_request_queue (sb_discard_slot b i r) = sb_drop_request_queue b"
  "sb_drop_request_head (sb_discard_slot b i r) = sb_drop_request_head b"
  "sb_drop_request_size (sb_discard_slot b i r) = sb_drop_request_size b"
  "sb_range_drop_request_queue (sb_discard_slot b i r) = sb_range_drop_request_queue b"
  "sb_earliest_expiration_microseconds (sb_discard_slot b i r) = sb_earliest_expiration_microseconds b"
  by (simp_all add: sb_discard_slot_def discarded_def Let_def)

lemma sb_discard_slot_counters:
  "sb_occupied_count (sb_discard_slot b i r)
     = (if ss_occupied (sb_slot b i) then sb_occupied_count b - 1 else sb_occupied_count b)"
  "sb_payloads (sb_discard_slot b i r)
     = (if ss_occupied (sb_slot b i) then pl_release (sb_payloads b) (ss_payload_index (sb_slot b i)) else sb_payloads b)"
  "sb_packets_in_flight (sb_discard_slot b i r)
     = (if ss_occupied (sb_slot b i) \<and> ss_sent (sb_slot b i) then sb_packets_in_flight b - 1 else sb_packets_in_flight b)"
  "sb_buffered_plaintext_bytes (sb_discard_slot b i r) = sb_buffered_plaintext_bytes b - slot_bytes (sb_slot b i)"
  "sb_expiring_packet_count (sb_discard_slot b i r)
     = (if slot_expires (sb_slot b i) then sb_expiring_packet_count b - 1 else sb_expiring_packet_count b)"
  "sb_retained_drop_count (sb_discard_slot b i r)
     = (if ss_dropped (sb_slot b i) = r then sb_retained_drop_count b
        else if r then sb_retained_drop_count b + 1 else sb_retained_drop_count b - 1)"
  "sb_dropped_counts (sb_discard_slot b i r)
     = (if ss_dropped (sb_slot b i) = r then sb_dropped_counts b
        else fenwick_update (if r then (\<lambda>x. x + 1) else (\<lambda>x. x - 1)) (sb_dropped_counts b) (sb_index b i + 1))"
  by (simp_all add: sb_discard_slot_def Let_def slot_bytes_def slot_expires_def)

lemma sb_discard_slot_index [simp]:
  "sb_capacity (sb_discard_slot b i r) = sb_capacity b" "sb_index (sb_discard_slot b i r) = sb_index b"
  by (simp_all add: sb_capacity_def sb_index_def fun_eq_iff sb_discard_slot_fields)

lemma sb_slot_discard:
  assumes "i < sb_capacity b" "j < sb_capacity b"
  shows "sb_slot (sb_discard_slot b i r) j = (if i = j then discarded r (sb_slot b i) else sb_slot b j)"
  using assms sb_index_inject [of i b j] sb_index_less [of b i]
  by (auto simp: sb_slot_def sb_discard_slot_fields)

lemma sb_discard_counts:
  assumes "send_from k b" "i < sb_capacity b"
  shows "send_counts (sb_discard_slot b i r)"
proof -
  have idx: "sb_index b i < length (sb_slots b)" using assms(2) by (intro sb_index_less) simp
  have old: "sb_slots b ! sb_index b i = sb_slot b i" by (simp add: sb_slot_def)
  note count = length_filter_update [OF idx, of _ "discarded r (sb_slot b i)", unfolded old]
  have sent: "ss_sent (sb_slot b i) \<Longrightarrow> ss_occupied (sb_slot b i)"
    using slot_ok_at [OF assms(1), of i] by (simp add: slot_ok_def)
  note ok = assms(1) [unfolded send_from_def send_counts_def]
  let ?b = "sb_discard_slot b i r"
  have "sb_occupied_count ?b = length (filter ss_occupied (sb_slots ?b))"
    using ok count [of ss_occupied] by (simp add: sb_discard_slot_fields sb_discard_slot_counters split: if_splits)
  moreover have "sb_retained_drop_count ?b = length (filter ss_dropped (sb_slots ?b))"
    using ok count [of ss_dropped] by (simp add: sb_discard_slot_fields sb_discard_slot_counters split: if_splits)
  moreover have "sb_packets_in_flight ?b = length (filter ss_sent (sb_slots ?b))"
    using ok sent count [of ss_sent] by (simp add: sb_discard_slot_fields sb_discard_slot_counters split: if_splits)
  moreover have "sb_expiring_packet_count ?b = length (filter slot_expires (sb_slots ?b))"
    using ok count [of slot_expires] by (simp add: sb_discard_slot_fields sb_discard_slot_counters split: if_splits)
  moreover have "sb_buffered_plaintext_bytes ?b = sum_list (map slot_bytes (sb_slots ?b))"
    using ok sum_list_map_update [OF idx, of slot_bytes "discarded r (sb_slot b i)", unfolded old]
    by (simp add: sb_discard_slot_fields sb_discard_slot_counters)
  ultimately show ?thesis unfolding send_counts_def by blast
qed

lemma sb_discard_tree:
  assumes "send_from k b" "i < sb_capacity b"
  shows "send_tree (sb_discard_slot b i r)"
proof -
  have idx: "sb_index b i < length (sb_slots b)" using assms(2) by (intro sb_index_less) simp
  have old: "sb_slots b ! sb_index b i = sb_slot b i" by (simp add: sb_slot_def)
  have "fenwick_ok (sb_dropped_counts b) (map ss_dropped (sb_slots b))"
    using assms(1) by (simp add: send_from_def send_tree_def)
  then show ?thesis
    using fenwick_update_ok [of "sb_dropped_counts b" "map ss_dropped (sb_slots b)" "sb_index b i" r] idx old
    by (cases "ss_dropped (sb_slot b i) = r")
       (simp_all add: send_tree_def sb_discard_slot_fields sb_discard_slot_counters map_update_same,
        cases r, simp_all add: map_update)
qed

lemma sb_discard_pool:
  assumes "send_from k b" "i < sb_capacity b"
  shows "send_pool (sb_discard_slot b i r)"
proof -
  have idx: "sb_index b i < length (sb_slots b)" using assms(2) by (intro sb_index_less) simp
  have old: "sb_slots b ! sb_index b i = sb_slot b i" by (simp add: sb_slot_def)
  let ?p = "sb_payloads b" and ?s = "discarded r (sb_slot b i)"
  have ok: "pool_ok ?p" "pl_capacity ?p = sb_capacity b" "bodies_ok ?p (sb_slots b)"
    using assms(1) by (simp_all add: send_from_def send_pool_def)
  show ?thesis
  proof (cases "ss_occupied (sb_slot b i)")
    case True
    then have "ss_payload_index (sb_slot b i) \<in> pl_live ?p"
      using bodies_ok_nth [OF ok(3) idx] old by (simp add: slot_body_ok_def)
    then show ?thesis
      using True ok pool.release_laws [OF ok(1)] bodies_ok_release [OF ok(1,3) idx, of ?s] old
      by (simp add: send_pool_def sb_discard_slot_fields sb_discard_slot_counters)
  next
    case False
    have "bodies_ok ?p ((sb_slots b)[sb_index b i := ?s])"
      using ok(3) False old idx
      by (intro bodies_ok_update_same) simp_all
    then show ?thesis using False ok by (simp add: send_pool_def sb_discard_slot_fields sb_discard_slot_counters)
  qed
qed

lemma send_from_discard:
  assumes "send_from k b" "k \<le> i" "i < sb_sequence_span b" "r \<or> i = k"
  shows "send_from (if r then k else Suc k) (sb_discard_slot b i r)"
proof -
  let ?b = "sb_discard_slot b i r"
  note bounds = send_from_bounds [OF assms(1)]
  have i: "i < sb_capacity b" using assms(3) bounds(4) by simp
  have slot: "sb_slot ?b j = (if i = j then discarded r (sb_slot b i) else sb_slot b j)" if "j < sb_capacity b" for j
    using sb_slot_discard [OF i that] .
  let ?k = "if r then k else Suc k"
  have "window_at ?k ?b j" if "j < sb_capacity b" for j
  proof (cases "i = j")
    case True
    then show ?thesis using assms(1-4) that slot [OF that]
      by (auto simp: send_from_def send_window_def window_at_def sb_discard_slot_fields)
  next
    case False
    have "?k \<le> j \<longleftrightarrow> k \<le> j" using False assms(4) by auto
    then show ?thesis using assms(1) that slot [OF that] False
      by (simp add: send_from_def send_window_def window_at_def sb_discard_slot_fields)
  qed
  then have "send_window ?k ?b"
    using assms(1) slot_ok_at [OF assms(1), of i]
    by (simp add: send_from_def send_window_def sb_discard_slot_fields list_all_update slot_ok_discarded)
  moreover have "send_cursor ?b"
    using assms(1) slot bounds(4) by (auto simp: send_from_def send_cursor_def sb_discard_slot_fields)
  moreover have "send_expiry ?b"
    using assms(1) by (auto simp: send_from_def send_expiry_def sb_discard_slot_fields dest!: set_update_subset_insert [THEN subsetD])
  moreover have "send_shape ?b" using assms(1) by (simp add: send_from_def send_shape_def sb_discard_slot_fields)
  ultimately show ?thesis
    using sb_discard_counts [OF assms(1) i] sb_discard_tree [OF assms(1) i] sb_discard_pool [OF assms(1) i]
    by (simp add: send_from_def)
qed

end
