(* ===== verification/Send_Buffer_Ops.thy ===== *)
theory Send_Buffer_Ops
  imports Send_Buffer_Inv
begin

text \<open>
  What the operations of the send buffer do to the sequence of packets it holds, and that each
  keeps the invariant: enqueueing, retiring a prefix, dropping and selecting packets, and the
  bookkeeping of the two request queues.
\<close>

section \<open>The packets of the window\<close>

text \<open>The window as a list: a packet with whether it has been sent, or a gap.\<close>

definition sb_entry :: "SendBuffer \<Rightarrow> nat \<Rightarrow> (OutboundPacket \<times> bool) option" where
  "sb_entry b i = (if ss_occupied (sb_slot b i) then Some (sb_outbound b i False, ss_sent (sb_slot b i)) else None)"

definition sb_entries :: "SendBuffer \<Rightarrow> (OutboundPacket \<times> bool) option list" where
  "sb_entries b = map (sb_entry b) [0..<sb_sequence_span b]"

lemma length_sb_entries [simp]: "length (sb_entries b) = sb_sequence_span b"
  by (simp add: sb_entries_def)

lemma sb_entries_nth [simp]: "i < sb_sequence_span b \<Longrightarrow> sb_entries b ! i = sb_entry b i"
  by (simp add: sb_entries_def)

lemma sb_body_live:
  assumes "send_from k b" "ss_occupied (sb_slot b i)"
  shows "slot_body_ok (sb_payloads b) (sb_slot b i)"
  using assms bodies_ok_nth [of "sb_payloads b" "sb_slots b" "sb_index b i"]
    sb_index_less [of b i] send_from_bounds(1) [OF assms(1)]
  by (simp add: send_from_def send_pool_def sb_slot_def)

lemma sb_bodies_apart:
  assumes "send_from k b" "i < sb_capacity b" "j < sb_capacity b" "i \<noteq> j"
    "ss_occupied (sb_slot b i)" "ss_occupied (sb_slot b j)"
  shows "ss_payload_index (sb_slot b i) \<noteq> ss_payload_index (sb_slot b j)"
  using assms sb_index_inject [OF assms(2,3)] sb_index_less [of b] send_from_bounds(1,6) [OF assms(1)]
  by (auto simp: send_from_def send_pool_def bodies_ok_def sb_slot_def)

lemma sb_entry_same_standing:
  assumes "i < sb_capacity b" "j < sb_capacity b" "same_standing (sb_slot b i) s"
  shows "sb_entry (sb_set_slot b i s) j = sb_entry b j"
  using assms by (auto simp: sb_entry_def sb_outbound_def sb_slot_set same_standing_def Let_def)

lemma sb_entry_discard:
  assumes "send_from k b" "i < sb_capacity b" "j < sb_capacity b"
  shows "sb_entry (sb_discard_slot b i r) j = (if i = j then None else sb_entry b j)"
proof (cases "i \<noteq> j \<and> ss_occupied (sb_slot b i) \<and> ss_occupied (sb_slot b j)")
  case True
  have "pl_get (pl_release (sb_payloads b) (ss_payload_index (sb_slot b i))) (ss_payload_index (sb_slot b j))
      = pl_get (sb_payloads b) (ss_payload_index (sb_slot b j))"
    using True sb_bodies_apart [OF assms] sb_body_live [OF assms(1), of i] assms(1)
    by (intro pl_release_laws(4)) (auto simp: slot_body_ok_def send_from_def send_pool_def)
  then show ?thesis
    using True assms(2,3)
    by (simp add: sb_entry_def sb_outbound_def sb_slot_discard sb_discard_slot_counters Let_def)
next
  case False
  then show ?thesis
    using assms(2,3) by (auto simp: sb_entry_def sb_outbound_def sb_slot_discard sb_discard_slot_counters Let_def)
qed

section \<open>The queues and the times are apart from the packets\<close>

definition send_core :: "nat \<Rightarrow> SendBuffer \<Rightarrow> bool" where
  "send_core k b \<longleftrightarrow>
     send_window k b \<and> send_cursor b \<and> send_counts b \<and> send_pool b \<and> send_tree b \<and> send_expiry b"

lemma send_from_core: "send_from k b \<longleftrightarrow> send_shape b \<and> send_core k b"
  by (simp add: send_from_def send_core_def)

lemma send_core_frame [simp]:
  "send_core k (sb_retransmission_queue_update u0 b) = send_core k b"
  "send_core k (sb_retransmission_head_update u1 b) = send_core k b"
  "send_core k (sb_retransmission_size_update u2 b) = send_core k b"
  "send_core k (sb_drop_request_queue_update u3 b) = send_core k b"
  "send_core k (sb_drop_request_head_update u4 b) = send_core k b"
  "send_core k (sb_drop_request_size_update u5 b) = send_core k b"
  "send_core k (sb_range_drop_request_queue_update u6 b) = send_core k b"
  "send_core k (sb_first_buffered_enqueue_microseconds_update u7 b) = send_core k b"
  "send_core k (sb_last_buffered_enqueue_microseconds_update u8 b) = send_core k b"
  by (simp_all add: send_core_def send_window_def window_at_def send_cursor_def send_counts_def send_pool_def
      send_tree_def send_expiry_def)

lemma sb_outbound_frame [simp]:
  "sb_outbound (sb_retransmission_queue_update u0 b) = sb_outbound b"
  "sb_outbound (sb_retransmission_head_update u1 b) = sb_outbound b"
  "sb_outbound (sb_retransmission_size_update u2 b) = sb_outbound b"
  "sb_outbound (sb_drop_request_queue_update u3 b) = sb_outbound b"
  "sb_outbound (sb_drop_request_head_update u4 b) = sb_outbound b"
  "sb_outbound (sb_drop_request_size_update u5 b) = sb_outbound b"
  "sb_outbound (sb_range_drop_request_queue_update u6 b) = sb_outbound b"
  "sb_outbound (sb_first_buffered_enqueue_microseconds_update u7 b) = sb_outbound b"
  "sb_outbound (sb_last_buffered_enqueue_microseconds_update u8 b) = sb_outbound b"
  "sb_outbound (sb_next_unsent_offset_update u9 b) = sb_outbound b"
  "sb_outbound (sb_packets_in_flight_update u10 b) = sb_outbound b"
  "sb_outbound (sb_earliest_expiration_microseconds_update u11 b) = sb_outbound b"
  by (simp_all add: sb_outbound_def fun_eq_iff)

lemma sb_entry_frame [simp]:
  "sb_entry (sb_retransmission_queue_update u0 b) = sb_entry b"
  "sb_entry (sb_retransmission_head_update u1 b) = sb_entry b"
  "sb_entry (sb_retransmission_size_update u2 b) = sb_entry b"
  "sb_entry (sb_drop_request_queue_update u3 b) = sb_entry b"
  "sb_entry (sb_drop_request_head_update u4 b) = sb_entry b"
  "sb_entry (sb_drop_request_size_update u5 b) = sb_entry b"
  "sb_entry (sb_range_drop_request_queue_update u6 b) = sb_entry b"
  "sb_entry (sb_first_buffered_enqueue_microseconds_update u7 b) = sb_entry b"
  "sb_entry (sb_last_buffered_enqueue_microseconds_update u8 b) = sb_entry b"
  "sb_entry (sb_next_unsent_offset_update u9 b) = sb_entry b"
  "sb_entry (sb_packets_in_flight_update u10 b) = sb_entry b"
  "sb_entry (sb_earliest_expiration_microseconds_update u11 b) = sb_entry b"
  by (simp_all add: sb_entry_def fun_eq_iff)

lemma sb_entries_frame [simp]:
  "sb_entries (sb_retransmission_queue_update u0 b) = sb_entries b"
  "sb_entries (sb_retransmission_head_update u1 b) = sb_entries b"
  "sb_entries (sb_retransmission_size_update u2 b) = sb_entries b"
  "sb_entries (sb_drop_request_queue_update u3 b) = sb_entries b"
  "sb_entries (sb_drop_request_head_update u4 b) = sb_entries b"
  "sb_entries (sb_drop_request_size_update u5 b) = sb_entries b"
  "sb_entries (sb_range_drop_request_queue_update u6 b) = sb_entries b"
  "sb_entries (sb_first_buffered_enqueue_microseconds_update u7 b) = sb_entries b"
  "sb_entries (sb_last_buffered_enqueue_microseconds_update u8 b) = sb_entries b"
  "sb_entries (sb_next_unsent_offset_update u9 b) = sb_entries b"
  "sb_entries (sb_packets_in_flight_update u10 b) = sb_entries b"
  "sb_entries (sb_earliest_expiration_microseconds_update u11 b) = sb_entries b"
  by (simp_all add: sb_entries_def)

section \<open>Retiring a prefix\<close>

lemma sb_discard_prefix_ok:
  assumes "send_from k b" "k + n \<le> sb_sequence_span b"
  shows "send_from (k + n) (sb_discard_prefix b k n)
    \<and> sb_sequence_span (sb_discard_prefix b k n) = sb_sequence_span b
    \<and> sb_first_sequence (sb_discard_prefix b k n) = sb_first_sequence b
    \<and> sb_capacity (sb_discard_prefix b k n) = sb_capacity b
    \<and> sb_next_unsent_offset (sb_discard_prefix b k n) = sb_next_unsent_offset b
    \<and> sb_next_sequence_position (sb_discard_prefix b k n) = sb_next_sequence_position b
    \<and> sb_maximum_payload_size (sb_discard_prefix b k n) = sb_maximum_payload_size b
    \<and> (\<forall>j. k + n \<le> j \<longrightarrow> j < sb_capacity b \<longrightarrow> sb_entry (sb_discard_prefix b k n) j = sb_entry b j)"
  using assms
proof (induction n arbitrary: b k)
  case (Suc n)
  have step: "send_from (Suc k) (sb_discard_slot b k False)"
    using send_from_discard [of k b k False] Suc.prems by simp
  have "sb_entry (sb_discard_slot b k False) j = sb_entry b j" if "Suc k \<le> j" "j < sb_capacity b" for j
    using sb_entry_discard [OF Suc.prems(1), of k j] that by simp
  then show ?case
    using Suc.IH [OF step] Suc.prems(2) by (simp add: sb_discard_slot_fields)
qed simp

lemma sb_advance_fields:
  "sb_slots (sb_advance_window b n q) = sb_slots b" "sb_capacity (sb_advance_window b n q) = sb_capacity b"
  "sb_payloads (sb_advance_window b n q) = sb_payloads b"
  "sb_sequence_span (sb_advance_window b n q) = sb_sequence_span b - n"
  "sb_first_sequence (sb_advance_window b n q) = q"
  "sb_next_sequence_position (sb_advance_window b n q) = sb_next_sequence_position b"
  "sb_dropped_counts (sb_advance_window b n q) = sb_dropped_counts b"
  "sb_maximum_payload_size (sb_advance_window b n q) = sb_maximum_payload_size b"
  "sb_next_unsent_offset (sb_advance_window b n q) = sb_next_unsent_offset b - n"
  by (simp_all add: sb_advance_window_def min_def)

lemma sb_advance_slot:
  "sb_slot (sb_advance_window b n q) i = sb_slot b (n + i)"
  by (simp add: sb_slot_def sb_index_def sb_advance_window_def sb_capacity_def mod_add_left_eq add.assoc)

lemma sb_advance_window_ok:
  assumes "send_from n b" "n \<le> sb_sequence_span b" "q = seq_advanced (sb_first_sequence b) (of_nat n)"
  shows "send_ok (sb_advance_window b n q)"
proof -
  let ?b = "sb_advance_window b n q"
  note bounds = send_from_bounds [OF assms(1)]
  have "window_at 0 ?b i" if "i < sb_capacity b" for i
  proof (cases "n + i < sb_capacity b")
    case True
    then have "window_at n b (n + i)" using assms(1) by (simp add: send_from_def send_window_def)
    moreover have "seq_advanced q (of_nat i) = seq_advanced (sb_first_sequence b) (of_nat (n + i))"
      by (simp only: assms(3) seq_advanced_of_nat)
    moreover have "i < sb_sequence_span b - n \<longleftrightarrow> n + i < sb_sequence_span b" by auto
    ultimately show ?thesis
      by (simp only: window_at_def sb_advance_slot sb_advance_fields le0 le_add1 diff_diff_left simp_thms)
  next
    case False
    have "(sb_head b + (n + i)) mod sb_capacity b = (sb_head b + (n + i - sb_capacity b)) mod sb_capacity b"
      using False by (subst mod_add_self2 [symmetric]) simp
    then have "sb_slot ?b i = sb_slot b (n + i - sb_capacity b)"
      by (simp only: sb_advance_slot) (simp only: sb_slot_def sb_index_def)
    moreover have "window_at n b (n + i - sb_capacity b)"
      using assms(1,2) that bounds by (simp add: send_from_def send_window_def)
    ultimately show ?thesis using that bounds assms(2) False by (auto simp: window_at_def sb_advance_fields)
  qed
  moreover have "send_cursor ?b"
    using assms(1,2)
    by (auto simp: send_from_def send_cursor_def sb_advance_slot sb_advance_fields less_diff_conv add.commute)
  ultimately show ?thesis
    using assms(1) bounds
    by (simp add: send_from_def send_window_def sb_advance_fields send_shape_def send_counts_def send_pool_def send_tree_def send_expiry_def)
       (simp add: sb_advance_window_def)
qed

lemma sb_refresh_first_frame:
  "send_from k (sb_refresh_first_buffered_enqueue_time b) = send_from k b"
  "sb_entries (sb_refresh_first_buffered_enqueue_time b) = sb_entries b"
  "sb_first_sequence (sb_refresh_first_buffered_enqueue_time b) = sb_first_sequence b"
  "sb_sequence_span (sb_refresh_first_buffered_enqueue_time b) = sb_sequence_span b"
  "sb_capacity (sb_refresh_first_buffered_enqueue_time b) = sb_capacity b"
  "sb_next_sequence_position (sb_refresh_first_buffered_enqueue_time b) = sb_next_sequence_position b"
  "sb_next_unsent_offset (sb_refresh_first_buffered_enqueue_time b) = sb_next_unsent_offset b"
  by (simp_all add: sb_refresh_first_buffered_enqueue_time_def send_from_core send_shape_def split: option.split)

text \<open>Discarding a prefix and moving the window past it drops the prefix of the packets.\<close>

lemma sb_retire_prefix:
  assumes "send_ok b" "n \<le> sb_sequence_span b" "q = seq_advanced (sb_first_sequence b) (of_nat n)"
  defines "b' \<equiv> sb_advance_window (sb_discard_prefix b 0 n) n q"
  shows "send_ok b'" "sb_entries b' = drop n (sb_entries b)" "sb_first_sequence b' = q"
    "sb_next_sequence_position b' = sb_next_sequence_position b" "sb_capacity b' = sb_capacity b"
    "sb_next_unsent_offset b' = sb_next_unsent_offset b - n"
proof -
  note prefix = sb_discard_prefix_ok [OF assms(1), of n]
  show "send_ok b'" unfolding b'_def
    using prefix assms(2,3) by (intro sb_advance_window_ok) simp_all
  have entry: "sb_entry b' i = sb_entry b (n + i)" if "n + i < sb_sequence_span b" for i
  proof -
    have "sb_entry b' i = sb_entry (sb_discard_prefix b 0 n) (n + i)"
      by (simp add: b'_def sb_entry_def sb_outbound_def sb_advance_slot sb_advance_fields)
    then show ?thesis using prefix assms(2) that send_from_bounds(4) [OF assms(1)] by simp
  qed
  show "sb_entries b' = drop n (sb_entries b)"
    using prefix assms(2) entry
    by (intro nth_equalityI) (simp_all add: b'_def sb_advance_fields)
qed (use sb_discard_prefix_ok [OF assms(1), of n] assms(2) in \<open>simp_all add: b'_def sb_advance_fields\<close>)

section \<open>Enqueueing\<close>

definition request_header :: "EnqueueRequest \<Rightarrow> SequenceNumber \<Rightarrow> MessageBoundary \<Rightarrow> DataHeader" where
  "request_header req sequence boundary =
     \<lparr>dh_sequence = sequence, dh_message_number = er_message_number req AND 0x03ffffff, dh_boundary = boundary,
      dh_in_order = er_in_order req, dh_encryption_key = EncryptionKey_none, dh_retransmitted = False,
      dh_timestamp = er_timestamp req, dh_destination_socket_id = er_destination_socket_id req\<rparr>"

definition enqueued :: "SendBuffer \<Rightarrow> EnqueueRequest \<Rightarrow> bytes \<Rightarrow> MessageBoundary \<Rightarrow> SendSlot" where
  "enqueued b req payload boundary =
     (sb_slot b (sb_sequence_span b))
       \<lparr>ss_sequence_position := sb_next_sequence_position b,
        ss_header := request_header req (sb_next_sequence b) boundary,
        ss_payload_index := fst (pl_acquire (sb_payloads b) payload),
        ss_payload_size := length payload mod 65536, ss_plaintext_size := length payload mod 65536,
        ss_protection_mode := CryptoMode_automatic,
        ss_occupied := True, ss_dropped := False, ss_sent := False, ss_submitted := False,
        ss_has_retransmission_send_time := False, ss_retransmission_queued := False,
        ss_enqueue_microseconds := er_enqueue_microseconds req,
        ss_metadata := LiveMetadata 0 (er_expiration_microseconds req)\<rparr>"

lemma sb_enqueue_packet_fields:
  "sb_slots (sb_enqueue_packet b req payload boundary)
     = (sb_slots b)[sb_index b (sb_sequence_span b) := enqueued b req payload boundary]"
  "sb_head (sb_enqueue_packet b req payload boundary) = sb_head b"
  "sb_sequence_span (sb_enqueue_packet b req payload boundary) = sb_sequence_span b + 1"
  "sb_first_sequence (sb_enqueue_packet b req payload boundary) = sb_first_sequence b"
  "sb_payloads (sb_enqueue_packet b req payload boundary) = snd (pl_acquire (sb_payloads b) payload)"
  "sb_next_sequence_position (sb_enqueue_packet b req payload boundary) = sb_next_sequence_position b + 1"
  "sb_next_unsent_offset (sb_enqueue_packet b req payload boundary) = sb_next_unsent_offset b"
  "sb_maximum_payload_size (sb_enqueue_packet b req payload boundary) = sb_maximum_payload_size b"
  "sb_dropped_counts (sb_enqueue_packet b req payload boundary) = sb_dropped_counts b"
  "sb_retransmission_queue (sb_enqueue_packet b req payload boundary) = sb_retransmission_queue b"
  "sb_retransmission_head (sb_enqueue_packet b req payload boundary) = sb_retransmission_head b"
  "sb_retransmission_size (sb_enqueue_packet b req payload boundary) = sb_retransmission_size b"
  "sb_drop_request_queue (sb_enqueue_packet b req payload boundary) = sb_drop_request_queue b"
  "sb_drop_request_head (sb_enqueue_packet b req payload boundary) = sb_drop_request_head b"
  "sb_drop_request_size (sb_enqueue_packet b req payload boundary) = sb_drop_request_size b"
  "sb_range_drop_request_queue (sb_enqueue_packet b req payload boundary) = sb_range_drop_request_queue b"
  by (simp_all add: sb_enqueue_packet_def enqueued_def request_header_def sb_next_sequence_def Let_def split_beta)

lemma sb_enqueue_packet_counters:
  "sb_occupied_count (sb_enqueue_packet b req payload boundary) = sb_occupied_count b + 1"
  "sb_retained_drop_count (sb_enqueue_packet b req payload boundary) = sb_retained_drop_count b"
  "sb_packets_in_flight (sb_enqueue_packet b req payload boundary) = sb_packets_in_flight b"
  "sb_buffered_plaintext_bytes (sb_enqueue_packet b req payload boundary) = sb_buffered_plaintext_bytes b + length payload"
  "sb_expiring_packet_count (sb_enqueue_packet b req payload boundary)
     = (if er_expiration_microseconds req \<noteq> 0 then sb_expiring_packet_count b + 1 else sb_expiring_packet_count b)"
  "sb_earliest_expiration_microseconds (sb_enqueue_packet b req payload boundary)
     = (if er_expiration_microseconds req \<noteq> 0
           \<and> (sb_expiring_packet_count b = 0
              \<or> er_expiration_microseconds req < sb_earliest_expiration_microseconds b)
        then er_expiration_microseconds req else sb_earliest_expiration_microseconds b)"
  by (simp_all add: sb_enqueue_packet_def Let_def split_beta)

lemma sb_enqueue_packet_index [simp]:
  "sb_capacity (sb_enqueue_packet b req payload boundary) = sb_capacity b"
  "sb_index (sb_enqueue_packet b req payload boundary) = sb_index b"
  by (simp_all add: sb_capacity_def sb_index_def fun_eq_iff sb_enqueue_packet_fields)

lemma sb_slot_enqueue:
  assumes "sb_sequence_span b < sb_capacity b" "j < sb_capacity b"
  shows "sb_slot (sb_enqueue_packet b req payload boundary) j
    = (if j = sb_sequence_span b then enqueued b req payload boundary else sb_slot b j)"
  using assms sb_index_inject [of "sb_sequence_span b" b j] sb_index_less [of b "sb_sequence_span b"]
  by (auto simp: sb_slot_def sb_enqueue_packet_fields)

lemma sb_room:
  assumes "send_ok b" "sb_sequence_span b < sb_capacity b"
  shows "\<not> ss_occupied (sb_slot b (sb_sequence_span b))" "\<not> ss_dropped (sb_slot b (sb_sequence_span b))"
    "card (pl_live (sb_payloads b)) < pl_capacity (sb_payloads b)"
proof -
  have "window_at 0 b (sb_sequence_span b)" using assms by (simp add: send_from_def send_window_def)
  then show empty: "\<not> ss_occupied (sb_slot b (sb_sequence_span b))" "\<not> ss_dropped (sb_slot b (sb_sequence_span b))"
    by (simp_all add: window_at_def)
  have "sb_slot b (sb_sequence_span b) \<in> set (sb_slots b)" using assms(2) by (intro sb_slots_mem) simp
  then have "length (filter ss_occupied (sb_slots b)) < length (sb_slots b)"
    using empty by (intro length_filter_less) auto
  then show "card (pl_live (sb_payloads b)) < pl_capacity (sb_payloads b)"
    using assms(1) by (simp add: send_from_def send_pool_def bodies_ok_def sb_capacity_def)
qed

lemma enqueued_slot:
  assumes "0 < length payload" "length payload \<le> 1456"
  shows "slot_ok (enqueued b req payload boundary)" "ss_occupied (enqueued b req payload boundary)"
    "\<not> ss_dropped (enqueued b req payload boundary)" "\<not> ss_sent (enqueued b req payload boundary)"
    "slot_bytes (enqueued b req payload boundary) = length payload"
    "slot_expires (enqueued b req payload boundary) = (er_expiration_microseconds req \<noteq> 0)"
    "expiration_microseconds (ss_metadata (enqueued b req payload boundary)) = er_expiration_microseconds req"
  using assms by (simp_all add: slot_ok_def slot_bytes_def slot_expires_def enqueued_def)

lemma sb_enqueue_packet_counts:
  assumes "send_ok b" "sb_sequence_span b < sb_capacity b" "0 < length payload" "length payload \<le> 1456"
  shows "send_counts (sb_enqueue_packet b req payload boundary)"
proof -
  let ?i = "sb_index b (sb_sequence_span b)" and ?s = "enqueued b req payload boundary"
  have idx: "?i < length (sb_slots b)" using assms(2) by (intro sb_index_less) simp
  have old: "sb_slots b ! ?i = sb_slot b (sb_sequence_span b)" by (simp add: sb_slot_def)
  note empty = sb_room(1,2) [OF assms(1,2)] and slot = enqueued_slot [OF assms(3,4), of b req boundary]
  have "\<not> ss_sent (sb_slots b ! ?i)" "\<not> slot_expires (sb_slots b ! ?i)" "slot_bytes (sb_slots b ! ?i) = 0"
    using slot_ok_at [OF assms(1), of "sb_sequence_span b"] empty old
    by (auto simp: slot_ok_def slot_expires_def slot_bytes_def)
  then show ?thesis
    using assms(1) old empty slot length_filter_update [OF idx, of ss_occupied ?s]
      length_filter_update [OF idx, of ss_dropped ?s] length_filter_update [OF idx, of ss_sent ?s]
      length_filter_update [OF idx, of slot_expires ?s] sum_list_map_update [OF idx, of slot_bytes ?s]
    by (simp add: send_from_def send_counts_def sb_enqueue_packet_fields sb_enqueue_packet_counters split: if_splits)
qed

lemma sb_enqueue_packet_expiry:
  assumes "send_ok b" "0 < length payload" "length payload \<le> 1456"
  shows "send_expiry (sb_enqueue_packet b req payload boundary)"
proof -
  let ?b = "sb_enqueue_packet b req payload boundary" and ?s = "enqueued b req payload boundary"
  note slot = enqueued_slot [OF assms(2,3), of b req boundary]
  have "sb_earliest_expiration_microseconds ?b \<le> expiration_microseconds (ss_metadata s)"
    if s: "s \<in> set (sb_slots b)" "slot_expires s" for s
  proof -
    have "sb_expiring_packet_count b \<noteq> 0"
      using assms(1) s by (auto simp: send_from_def send_counts_def filter_empty_conv)
    then show ?thesis
      using assms(1) s by (auto simp: send_from_def send_expiry_def sb_enqueue_packet_counters)
  qed
  moreover have "slot_expires ?s \<Longrightarrow> sb_earliest_expiration_microseconds ?b \<le> er_expiration_microseconds req"
    using slot by (auto simp: sb_enqueue_packet_counters)
  ultimately show ?thesis
    using slot
    by (auto simp: send_expiry_def sb_enqueue_packet_fields dest!: set_update_subset_insert [THEN subsetD])
qed

lemma sb_enqueue_packet_ok:
  assumes "send_ok b" "sb_sequence_span b < sb_capacity b" "0 < length payload" "length payload \<le> 1456"
  shows "send_ok (sb_enqueue_packet b req payload boundary)"
proof -
  let ?b = "sb_enqueue_packet b req payload boundary" and ?n = "sb_sequence_span b"
    and ?s = "enqueued b req payload boundary" and ?p = "sb_payloads b"
  have idx: "sb_index b ?n < length (sb_slots b)" using assms(2) by (intro sb_index_less) simp
  have old: "sb_slots b ! sb_index b ?n = sb_slot b ?n" by (simp add: sb_slot_def)
  note room = sb_room [OF assms(1,2)] and slot = enqueued_slot [OF assms(3,4), of b req boundary]
    and at = sb_slot_enqueue [OF assms(2)]
  have pool: "pool_ok ?p" "pl_capacity ?p = sb_capacity b" "bodies_ok ?p (sb_slots b)"
    using assms(1) by (simp_all add: send_from_def send_pool_def)
  have "window_at 0 ?b i" if "i < sb_capacity b" for i
  proof (cases "i = ?n")
    case True
    then show ?thesis
      using that slot at [OF that]
      by (simp add: window_at_def sb_enqueue_packet_fields) (simp add: enqueued_def request_header_def sb_next_sequence_def)
  next
    case False
    have "window_at 0 b i" using assms(1) that by (simp add: send_from_def send_window_def)
    moreover have "of_nat (Suc ?n - i) = (of_nat (?n - i) + 1 :: u64)" if "i < ?n"
      using that by (simp add: Suc_diff_le)
    ultimately show ?thesis
      using False at [OF that] by (simp add: window_at_def sb_enqueue_packet_fields less_Suc_eq)
  qed
  then have "send_window 0 ?b"
    using assms(1) slot(1) by (simp add: send_from_def send_window_def sb_enqueue_packet_fields list_all_update)
  moreover have "send_cursor ?b"
    using assms(1,2) at slot
    by (auto simp: send_from_def send_cursor_def sb_enqueue_packet_fields less_Suc_eq)
  moreover have "send_pool ?b"
    using pool pool.acquire_laws [OF pool(1) assms(4) room(3)] assms(4)
      bodies_ok_acquire [OF pool(1,3) idx _ room(3) assms(3,4), of ?s] room(1) old
    by (simp add: send_pool_def sb_enqueue_packet_fields enqueued_def)
  moreover have "send_tree ?b"
    using assms(1) slot room(2) idx old by (simp add: send_from_def send_tree_def sb_enqueue_packet_fields map_update_same)
  moreover have "send_shape ?b" using assms(1,2) by (simp add: send_from_def send_shape_def sb_enqueue_packet_fields)
  ultimately show ?thesis using sb_enqueue_packet_counts [OF assms] sb_enqueue_packet_expiry [OF assms(1,3,4)]
    by (simp add: send_from_def)
qed

lemma sb_enqueue_packet_entries:
  assumes "send_ok b" "sb_sequence_span b < sb_capacity b" "0 < length payload" "length payload \<le> 1456"
  shows "sb_entries (sb_enqueue_packet b req payload boundary) = sb_entries b @
    [Some (\<lparr>op_header = request_header req (sb_next_sequence b) boundary, op_payload = payload,
            op_sequence_position = sb_next_sequence_position b\<rparr>, False)]"
proof -
  let ?b = "sb_enqueue_packet b req payload boundary"
  have laws: "pl_get (snd (pl_acquire (sb_payloads b) payload)) (fst (pl_acquire (sb_payloads b) payload)) = payload"
    "\<forall>j \<in> pl_live (sb_payloads b). pl_get (snd (pl_acquire (sb_payloads b) payload)) j = pl_get (sb_payloads b) j"
    using pool.acquire_laws [of "sb_payloads b" payload] sb_room(3) [OF assms(1,2)] assms(1,4)
    by (auto simp: send_from_def send_pool_def)
  have "sb_entry ?b i = sb_entry b i" if "i < sb_sequence_span b" for i
    using that assms(2) sb_slot_enqueue [OF assms(2), of i] sb_body_live [OF assms(1), of i] laws(2)
    by (simp add: sb_entry_def sb_outbound_def Let_def sb_enqueue_packet_fields slot_body_ok_def)
  moreover have "sb_entry ?b (sb_sequence_span b) =
      Some (\<lparr>op_header = request_header req (sb_next_sequence b) boundary, op_payload = payload,
            op_sequence_position = sb_next_sequence_position b\<rparr>, False)"
    using sb_slot_enqueue [OF assms(2,2)] laws(1)
    by (simp add: sb_entry_def sb_outbound_def Let_def sb_enqueue_packet_fields) (simp add: enqueued_def)
  ultimately show ?thesis by (simp add: sb_entries_def sb_enqueue_packet_fields)
qed

text \<open>The fragments of a message and the packets that carry them.\<close>

function chunks :: "nat \<Rightarrow> 'a list \<Rightarrow> 'a list list" where
  "chunks n xs = (if xs = [] \<or> n = 0 then [] else take n xs # chunks n (drop n xs))"
  by pat_completeness auto
termination by (relation "measure (\<lambda>(n, xs). length xs)") auto

declare chunks.simps [simp del]

lemma chunks_Nil [simp]: "chunks n [] = []"
  by (simp add: chunks.simps)

lemma concat_chunks: "0 < n \<Longrightarrow> concat (chunks n xs) = xs"
proof (induction n xs rule: chunks.induct)
  case (1 n xs)
  then show ?case by (subst chunks.simps) simp
qed

lemma chunks_sizes: "c \<in> set (chunks n xs) \<Longrightarrow> 0 < length c \<and> length c \<le> n"
proof (induction n xs rule: chunks.induct)
  case (1 n xs)
  then show ?case by (subst (asm) (2) chunks.simps) (auto split: if_splits)
qed

lemma length_chunks: "0 < n \<Longrightarrow> length (chunks n xs) = (length xs + n - 1) div n"
proof (induction n xs rule: chunks.induct)
  case (1 n xs)
  show ?case
  proof (cases "xs = []")
    case False
    then have IH: "length (chunks n (drop n xs)) = (length xs - n + n - 1) div n" using 1 by simp
    have "length (chunks n xs) = Suc (length (chunks n (drop n xs)))"
      using False 1(2) by (simp add: chunks.simps [of n xs])
    also have "\<dots> = (n + (length xs - n + n - 1)) div n" using IH 1(2) by (simp only: div_add_self1)
    also have "n + (length xs - n + n - 1) = (if n \<le> length xs then length xs + n - 1 else n + (n - 1))"
      using 1(2) by (simp add: add.commute)
    also have "\<dots> div n = (length xs + n - 1) div n"
    proof (cases "n \<le> length xs")
      case False
      then have "length xs + n - 1 = n + (length xs - 1)" using \<open>xs \<noteq> []\<close> by (cases xs) simp_all
      moreover have "(n + (n - 1)) div n = (n + (length xs - 1)) div n"
        using False 1(2) div_less [of "n - 1" n] div_less [of "length xs - 1" n] by (simp only: div_add_self1)
      ultimately show ?thesis using False by simp
    qed simp
    finally show ?thesis .
  qed (use 1(2) in simp)
qed

fun message_packets :: "EnqueueRequest \<Rightarrow> SequenceNumber \<Rightarrow> u64 \<Rightarrow> nat \<Rightarrow> bytes list \<Rightarrow> OutboundPacket list" where
  "message_packets req sequence pos n [] = []"
| "message_packets req sequence pos n (c # cs) =
     \<lparr>op_header = request_header req sequence (boundary_of (n = Suc (length cs)) (cs = [])), op_payload = c,
      op_sequence_position = pos\<rparr>
     # message_packets req (seq_next sequence) (pos + 1) n cs"

lemma length_message_packets [simp]: "length (message_packets req q pos n cs) = length cs"
  by (induction cs arbitrary: q pos) simp_all

lemma message_packets_payloads: "map op_payload (message_packets req q pos n cs) = cs"
  by (induction cs arbitrary: q pos) simp_all

lemma message_packets_nth:
  "i < length cs \<Longrightarrow> message_packets req q pos n cs ! i =
     \<lparr>op_header = request_header req (seq_advanced q (of_nat i))
        (boundary_of (n = length cs - i) (Suc i = length cs)),
      op_payload = cs ! i, op_sequence_position = pos + of_nat i\<rparr>"
proof (induction cs arbitrary: q pos i)
  case (Cons c cs)
  show ?case
  proof (cases i)
    case 0
    then show ?thesis by simp
  next
    case (Suc j)
    then show ?thesis
      using Cons by (simp add: seq_next_advanced seq_advanced_advanced add.assoc)
  qed
qed simp

lemma sb_enqueue_packets_ok:
  fixes req :: EnqueueRequest
  assumes "send_ok b" "sb_sequence_span b + remaining \<le> sb_capacity b" "remaining \<le> n"
    "length (chunks (sb_maximum_payload_size b) (drop consumed message)) = remaining"
  defines "b' \<equiv> sb_enqueue_packets b req message n remaining consumed"
    and "ps \<equiv> message_packets req (sb_next_sequence b) (sb_next_sequence_position b) n
      (chunks (sb_maximum_payload_size b) (drop consumed message))"
  shows "send_ok b' \<and> sb_entries b' = sb_entries b @ map (\<lambda>p. Some (p, False)) ps
    \<and> sb_first_sequence b' = sb_first_sequence b \<and> sb_capacity b' = sb_capacity b
    \<and> sb_next_unsent_offset b' = sb_next_unsent_offset b
    \<and> sb_maximum_payload_size b' = sb_maximum_payload_size b
    \<and> sb_next_sequence_position b' = sb_next_sequence_position b + of_nat remaining"
  using assms(1-4) unfolding b'_def ps_def
proof (induction remaining arbitrary: b consumed)
  case (Suc m)
  define mx where "mx = sb_maximum_payload_size b"
  define rest where "rest = drop consumed message"
  define k where "k = min mx (length message - consumed)"
  define body where "body = take k rest"
  define bd where "bd = boundary_of (n - Suc m = 0) (n - Suc m + 1 = n)"
  define b1 where "b1 = sb_enqueue_packet b req body bd"
  have mx: "0 < mx" "mx \<le> 1456" using Suc.prems(1) by (simp_all add: mx_def send_from_def send_shape_def)
  have body: "body = take mx rest" and next_rest: "drop (consumed + k) message = drop mx rest"
    by (auto simp: body_def rest_def k_def min_def add.commute)
  have chunk: "chunks mx rest = body # chunks mx (drop mx rest)" and ne: "rest \<noteq> []"
    using Suc.prems(4) mx body by (auto simp: mx_def [symmetric] rest_def [symmetric] chunks.simps [of mx rest] split: if_splits)
  then have len: "length (chunks mx (drop mx rest)) = m" "0 < length body" "length body \<le> 1456"
    using Suc.prems(4) body mx by (auto simp: mx_def [symmetric] rest_def [symmetric])
  have "n - Suc m = 0 \<longleftrightarrow> n = Suc m" "n - Suc m + 1 = n \<longleftrightarrow> m = 0" using Suc.prems(3) by auto
  moreover have "chunks mx (drop mx rest) = [] \<longleftrightarrow> m = 0" using len(1) by auto
  ultimately have bd: "boundary_of (n = Suc (length (chunks mx (drop mx rest)))) (chunks mx (drop mx rest) = []) = bd"
    by (simp only: bd_def len(1))
  have room: "sb_sequence_span b < sb_capacity b" using Suc.prems(2) by simp
  have b1: "send_ok b1" "sb_sequence_span b1 + m \<le> sb_capacity b1" "sb_maximum_payload_size b1 = mx"
    "sb_first_sequence b1 = sb_first_sequence b" "sb_capacity b1 = sb_capacity b"
    "sb_next_unsent_offset b1 = sb_next_unsent_offset b"
    "sb_next_sequence_position b1 = sb_next_sequence_position b + 1"
    "sb_next_sequence b1 = seq_next (sb_next_sequence b)"
    using sb_enqueue_packet_ok [OF Suc.prems(1) room len(2,3)] Suc.prems(2)
    by (simp_all add: b1_def mx_def sb_enqueue_packet_fields sb_next_sequence_def seq_next_advanced
        seq_advanced_advanced add.commute)
  have eq: "sb_enqueue_packets b req message n (Suc m) consumed = sb_enqueue_packets b1 req message n m (consumed + k)"
    by (simp add: b1_def bd_def body_def k_def rest_def mx_def Let_def)
  note entries = sb_enqueue_packet_entries [OF Suc.prems(1) room len(2,3), of req bd, folded b1_def]
  note IH = Suc.IH [OF b1(1,2), of "consumed + k", unfolded b1(3-) next_rest, OF Suc_leD [OF Suc.prems(3)] len(1)]
  show ?case
    unfolding eq mx_def [symmetric] rest_def [symmetric] chunk
    using IH entries by (simp add: bd)
qed simp

section \<open>Selecting an original packet\<close>

lemma send_ok_skip:
  assumes "send_ok b" "sb_next_unsent_offset b < sb_sequence_span b" "\<not> ss_occupied (sb_slot b (sb_next_unsent_offset b))"
  shows "send_ok (b \<lparr>sb_next_unsent_offset := sb_next_unsent_offset b + 1\<rparr>)"
  using assms
  by (auto simp: send_from_def send_shape_def send_window_def window_at_def send_cursor_def send_counts_def
      send_pool_def send_tree_def send_expiry_def less_Suc_eq)

lemma send_ok_mark_sent:
  fixes now :: u64 and submitted :: bool
  assumes "send_ok b" "sb_next_unsent_offset b < sb_sequence_span b" "ss_occupied (sb_slot b (sb_next_unsent_offset b))"
  defines "s \<equiv> (sb_slot b (sb_next_unsent_offset b)) \<lparr>ss_sent := True, ss_submitted := submitted, ss_first_send_microseconds := now\<rparr>"
  defines "b' \<equiv> (sb_set_slot b (sb_next_unsent_offset b) s)
    \<lparr>sb_next_unsent_offset := sb_next_unsent_offset b + 1, sb_packets_in_flight := sb_packets_in_flight b + 1\<rparr>"
  shows "send_ok b'"
    and "sb_entries b' = (sb_entries b)[sb_next_unsent_offset b := Some (sb_outbound b (sb_next_unsent_offset b) False, True)]"
proof -
  let ?i = "sb_next_unsent_offset b"
  note bounds = send_from_bounds [OF assms(1)]
  have i: "?i < sb_capacity b" using assms(2) bounds by simp
  have idx: "sb_index b ?i < length (sb_slots b)" using i by (intro sb_index_less) simp
  have old: "sb_slots b ! sb_index b ?i = sb_slot b ?i" by (simp add: sb_slot_def)
  have unsent: "\<not> ss_sent (sb_slot b ?i)" using assms(1-3) by (simp add: send_from_def send_cursor_def)
  have slots: "sb_slot b' j = (if ?i = j then s else sb_slot b j)" if "j < sb_capacity b" for j
    using sb_slot_set [OF i that] by (simp add: b'_def)
  have fields: "sb_sequence_span b' = sb_sequence_span b" "sb_first_sequence b' = sb_first_sequence b"
    "sb_next_sequence_position b' = sb_next_sequence_position b" "sb_capacity b' = sb_capacity b"
    "sb_next_unsent_offset b' = Suc ?i" "sb_slots b' = (sb_slots b)[sb_index b ?i := s]"
    "sb_payloads b' = sb_payloads b"
    by (simp_all add: b'_def)
  have standing: "ss_occupied s = ss_occupied (sb_slot b ?i)" "ss_dropped s = ss_dropped (sb_slot b ?i)"
    "ss_header s = ss_header (sb_slot b ?i)" "ss_sequence_position s = ss_sequence_position (sb_slot b ?i)"
    "slot_expires s = slot_expires (sb_slot b ?i)" "slot_bytes s = slot_bytes (sb_slot b ?i)"
    "ss_payload_index s = ss_payload_index (sb_slot b ?i)" "ss_sent s" "slot_ok s"
    "slot_body_ok (sb_payloads b) s = slot_body_ok (sb_payloads b) (sb_slot b ?i)" "ss_metadata s = ss_metadata (sb_slot b ?i)"
    using slot_ok_at [OF assms(1), of ?i] assms(3)
    by (auto simp: s_def slot_ok_def slot_expires_def slot_bytes_def slot_body_ok_def)
  have "window_at 0 b' j = window_at 0 b j" if "j < sb_capacity b" for j
    using slots [OF that] standing(1-4) by (cases "?i = j") (simp_all add: window_at_def fields)
  then have "send_window 0 b'"
    using assms(1) standing(9) by (simp add: send_from_def send_window_def fields list_all_update)
  moreover have "ss_occupied (sb_slot b' j) \<longrightarrow> (ss_sent (sb_slot b' j) \<longleftrightarrow> j < Suc ?i)" if "j < sb_sequence_span b" for j
    using slots [of j] standing(1,8) that bounds(4) assms(1)
    by (cases "?i = j") (auto simp: send_from_def send_cursor_def)
  then have "send_cursor b'" using assms(2) by (simp add: send_cursor_def fields)
  moreover have "send_counts b'"
    using assms(1) standing old idx unsent length_filter_update [OF idx, of ss_sent s] sum_list_map_update [OF idx, of slot_bytes s]
    by (simp add: send_from_def send_counts_def filter_update_same b'_def)
  moreover have "send_pool b'"
    using assms(1) standing old idx sb_body_live [OF assms(1,3)]
    by (auto simp: send_from_def send_pool_def b'_def intro!: bodies_ok_update_same)
  moreover have "send_tree b'"
    using assms(1) standing old idx by (simp add: send_from_def send_tree_def map_update_same b'_def)
  moreover have "send_expiry b'"
    using assms(1) standing bounds(1) sb_slots_mem [of b ?i]
    by (auto simp: send_from_def send_expiry_def b'_def dest!: set_update_subset_insert [THEN subsetD])
  ultimately show "send_ok b'" using assms(1) by (simp add: send_from_def send_shape_def b'_def)
  show "sb_entries b' = (sb_entries b)[?i := Some (sb_outbound b ?i False, True)]"
    using slots bounds(4) standing assms(2,3)
    by (intro nth_equalityI) (auto simp: nth_list_update sb_entry_def sb_outbound_def Let_def fields)
qed

text \<open>On the list of packets, the first unsent one is taken and marked.\<close>

fun take_unsent :: "('p \<times> bool) option list \<Rightarrow> ('p \<times> ('p \<times> bool) option list) option" where
  "take_unsent [] = None"
| "take_unsent (Some (p, False) # es) = Some (p, Some (p, True) # es)"
| "take_unsent (e # es) = map_option (apsnd (Cons e)) (take_unsent es)"

lemma take_unsent_skip: "\<forall>q. e \<noteq> Some (q, False) \<Longrightarrow> take_unsent (e # es) = map_option (apsnd (Cons e)) (take_unsent es)"
  by (cases "e # es" rule: take_unsent.cases) auto

lemma take_unsent_first:
  assumes "i < length es" "es ! i = Some (p, False)" "\<forall>j < i. \<forall>q. es ! j \<noteq> Some (q, False)"
  shows "take_unsent es = Some (p, es[i := Some (p, True)])"
  using assms
proof (induction es arbitrary: i)
  case (Cons e es)
  show ?case
  proof (cases i)
    case 0
    then show ?thesis using Cons.prems by simp
  next
    case (Suc k)
    have "\<forall>q. e \<noteq> Some (q, False)" using Cons.prems(3) Suc by auto
    moreover have "\<forall>j < k. \<forall>q. es ! j \<noteq> Some (q, False)" using Cons.prems(3) Suc by auto
    ultimately show ?thesis using Cons.IH [of k] Cons.prems Suc by (simp add: take_unsent_skip)
  qed
qed simp

lemma take_unsent_none: "(\<forall>j < length es. \<forall>q. es ! j \<noteq> Some (q, False)) \<Longrightarrow> take_unsent es = None"
  by (induction es rule: take_unsent.induct) (force simp: nth_Cons split: nat.splits)+

lemma sent_below_cursor:
  assumes "send_ok b" "j < sb_next_unsent_offset b"
  shows "sb_entry b j \<noteq> Some (q, False)"
  using assms by (auto simp: sb_entry_def send_from_def send_cursor_def)

definition takes_unsent :: "SendBuffer \<Rightarrow> OutboundPacket option \<times> SendBuffer \<Rightarrow> bool" where
  "takes_unsent b r \<longleftrightarrow>
     send_ok (snd r) \<and> sb_first_sequence (snd r) = sb_first_sequence b \<and> sb_capacity (snd r) = sb_capacity b
     \<and> sb_next_sequence_position (snd r) = sb_next_sequence_position b
     \<and> (case fst r of
          None \<Rightarrow> take_unsent (sb_entries b) = None \<and> sb_entries (snd r) = sb_entries b
        | Some p \<Rightarrow> take_unsent (sb_entries b) = Some (p, sb_entries (snd r)))"

lemma sb_set_slot_unsent:
  "sb_set_slot (b \<lparr>sb_next_unsent_offset := n\<rparr>) i s = (sb_set_slot b i s) \<lparr>sb_next_unsent_offset := n\<rparr>"
  by (simp add: sb_set_slot_def)

lemma sb_next_original_ok: "send_ok b \<Longrightarrow> takes_unsent b (sb_next_original b d now)"
proof (induction b d now rule: sb_next_original.induct)
  case (1 b d now)
  note ok = 1(2)
  let ?i = "sb_next_unsent_offset b"
  let ?b1 = "b \<lparr>sb_next_unsent_offset := ?i + 1\<rparr>"
  note bounds = send_from_bounds [OF ok]
  consider (drained) "?i = sb_sequence_span b" | (skip) "?i < sb_sequence_span b" "\<not> ss_occupied (sb_slot b ?i)"
    | (hit) "?i < sb_sequence_span b" "ss_occupied (sb_slot b ?i)" using bounds(5) by linarith
  then show ?case
  proof cases
    case drained
    then have "take_unsent (sb_entries b) = None"
      using sent_below_cursor [OF ok] by (intro take_unsent_none) simp
    then show ?thesis using drained ok by (subst sb_next_original.simps) (simp add: takes_unsent_def)
  next
    case skip
    then have "takes_unsent ?b1 (sb_next_original ?b1 d now)"
      using 1(1) send_ok_skip [OF ok skip] by simp
    then show ?thesis using skip by (subst sb_next_original.simps) (simp add: takes_unsent_def split: option.splits)
  next
    case hit
    have unsent: "\<not> ss_sent (sb_slot b ?i)" using ok hit by (simp add: send_from_def send_cursor_def)
    let ?s = "(sb_slot b ?i) \<lparr>ss_sent := True, ss_submitted := \<not> d, ss_first_send_microseconds := now\<rparr>"
    let ?b2 = "(sb_set_slot b ?i ?s) \<lparr>sb_next_unsent_offset := ?i + 1, sb_packets_in_flight := sb_packets_in_flight b + 1\<rparr>"
    note marked = send_ok_mark_sent [OF ok hit, of now "\<not> d"]
    have out: "sb_outbound ?b2 ?i False = sb_outbound b ?i False"
      using hit(1) bounds(4) by (simp add: sb_outbound_def sb_slot_set Let_def)
    have eq: "sb_next_original b d now = (Some (sb_outbound b ?i False), ?b2)"
      using hit unsent out by (subst sb_next_original.simps) (simp add: Let_def sb_set_slot_unsent)
    have "take_unsent (sb_entries b) = Some (sb_outbound b ?i False, sb_entries ?b2)"
      unfolding marked(2) using hit unsent sent_below_cursor [OF ok] bounds(5)
      by (intro take_unsent_first) (simp_all add: sb_entry_def)
    then show ?thesis unfolding eq using marked(1) by (simp add: takes_unsent_def)
  qed
qed

end
