(* ===== verification/Send_Buffer_Queues.thy ===== *)
theory Send_Buffer_Queues
  imports Send_Buffer_Ops
begin

text \<open>
  The bookkeeping of the send buffer leaves its packets alone: requests for retransmission and for
  drop announcements, submission marks and the choice of a packet to retransmit change neither the
  packets of the window nor which of them have been sent, and they keep the invariant.
\<close>

section \<open>Quiet operations\<close>

definition quiet :: "SendBuffer \<Rightarrow> SendBuffer \<Rightarrow> bool" where
  "quiet b b' \<longleftrightarrow>
     send_ok b' \<and> sb_entries b' = sb_entries b \<and> sb_first_sequence b' = sb_first_sequence b
     \<and> sb_capacity b' = sb_capacity b \<and> sb_next_sequence_position b' = sb_next_sequence_position b"

lemma quiet_refl: "send_ok b \<Longrightarrow> quiet b b"
  by (simp add: quiet_def)

lemma quiet_trans: "quiet a b \<Longrightarrow> quiet b c \<Longrightarrow> quiet a c"
  by (simp add: quiet_def)

lemma quiet_ok: "quiet b b' \<Longrightarrow> send_ok b'"
  by (simp add: quiet_def)

lemma sb_index_mod [simp]: "sb_index b (i mod sb_capacity b) = sb_index b i"
  by (simp add: sb_index_def mod_add_right_eq)

lemma sb_slot_mod [simp]: "sb_slot b (i mod sb_capacity b) = sb_slot b i"
  by (simp add: sb_slot_def)

lemma sb_set_slot_mod: "sb_set_slot b i s = sb_set_slot b (i mod sb_capacity b) s"
  by (simp add: sb_set_slot_def)

lemma quiet_set_slot:
  assumes "send_ok b" "same_standing (sb_slot b i) s" "slot_ok s"
  shows "quiet b (sb_set_slot b i s)"
proof -
  let ?j = "i mod sb_capacity b"
  have j: "?j < sb_capacity b" using send_from_bounds(1) [OF assms(1)] by simp
  have "sb_entries (sb_set_slot b ?j s) = sb_entries b"
    using sb_entry_same_standing [OF j, of _ s] assms(2) send_from_bounds(4) [OF assms(1)]
    by (simp add: sb_entries_def)
  then show ?thesis
    using send_from_same_standing [OF assms(1) j, of s] assms by (subst sb_set_slot_mod) (simp add: quiet_def)
qed

lemma quiet_retransmission_queue:
  assumes "send_ok b" "length q = sb_capacity b" "h < sb_capacity b" "n \<le> sb_capacity b"
  shows "quiet b (b \<lparr>sb_retransmission_queue := q, sb_retransmission_head := h, sb_retransmission_size := n\<rparr>)"
  using assms by (simp add: quiet_def send_from_core send_shape_def)

lemma quiet_drop_request_queue:
  assumes "send_ok b" "length q = sb_capacity b" "h < sb_capacity b" "n \<le> sb_capacity b"
  shows "quiet b (b \<lparr>sb_drop_request_queue := q, sb_drop_request_head := h, sb_drop_request_size := n\<rparr>)"
  using assms by (simp add: quiet_def send_from_core send_shape_def)

lemma quiet_range_drop_queue:
  "send_ok b \<Longrightarrow> dq_ok q \<Longrightarrow> quiet b (b \<lparr>sb_range_drop_request_queue := q\<rparr>)"
  by (simp add: quiet_def send_from_core send_shape_def)

lemma compact_loop_bounds:
  "length (fst (compact_loop wanted h q i k n)) = length q \<and> snd (compact_loop wanted h q i k n) \<le> k + n"
proof (induction n arbitrary: q i k)
  case (Suc n)
  show ?case
    using Suc.IH [of "q[(h + k) mod length q := q ! ((h + i) mod length q)]" "Suc i" "Suc k"] Suc.IH [of q "Suc i" k]
    by (simp add: Let_def)
qed simp

section \<open>Drop requests\<close>

lemma send_queues:
  assumes "send_ok b"
  shows "length (sb_retransmission_queue b) = sb_capacity b" "sb_retransmission_head b < sb_capacity b"
    "sb_retransmission_size b \<le> sb_capacity b" "length (sb_drop_request_queue b) = sb_capacity b"
    "sb_drop_request_head b < sb_capacity b" "sb_drop_request_size b \<le> sb_capacity b"
    "dq_ok (sb_range_drop_request_queue b)"
  using assms by (simp_all add: send_from_def send_shape_def)

lemma sb_compact_drop_request_queue_quiet:
  assumes "send_ok b" shows "quiet b (sb_compact_drop_request_queue b)"
proof -
  let ?r = "compact_loop (sb_drop_wanted b) (sb_drop_request_head b) (sb_drop_request_queue b) 0 0 (sb_drop_request_size b)"
  have "quiet b (b \<lparr>sb_drop_request_queue := fst ?r,
      sb_drop_request_head := (if snd ?r = 0 then 0 else sb_drop_request_head b), sb_drop_request_size := snd ?r\<rparr>)"
    using compact_loop_bounds [of "sb_drop_wanted b" "sb_drop_request_head b" "sb_drop_request_queue b" 0 0 "sb_drop_request_size b"]
      send_queues(4-6) [OF assms] by (intro quiet_drop_request_queue assms) auto
  then show ?thesis by (simp add: sb_compact_drop_request_queue_def split_beta Let_def)
qed

lemma sb_compact_retransmission_queue_quiet:
  assumes "send_ok b" shows "quiet b (sb_compact_retransmission_queue b)"
proof -
  let ?r = "compact_loop (sb_retransmission_wanted b) (sb_retransmission_head b) (sb_retransmission_queue b) 0 0 (sb_retransmission_size b)"
  have "quiet b (b \<lparr>sb_retransmission_queue := fst ?r,
      sb_retransmission_head := sb_retransmission_head b, sb_retransmission_size := snd ?r\<rparr>)"
    using compact_loop_bounds [of "sb_retransmission_wanted b" "sb_retransmission_head b" "sb_retransmission_queue b" 0 0 "sb_retransmission_size b"]
      send_queues(1-3) [OF assms] by (intro quiet_retransmission_queue assms) auto
  then show ?thesis by (simp add: sb_compact_retransmission_queue_def split_beta Let_def)
qed

text \<open>Entering a sequence number at the tail of a queue.\<close>

lemma sb_push_drop_request_quiet:
  assumes "send_ok b" "sb_drop_request_size b \<noteq> sb_capacity b"
  shows "quiet b ((sb_set_slot b i ((sb_slot b i) \<lparr>ss_drop_request_queued := True\<rparr>))
    \<lparr>sb_drop_request_queue := (sb_drop_request_queue b)[t := s], sb_drop_request_size := sb_drop_request_size b + 1\<rparr>)"
proof -
  let ?s = "(sb_slot b i) \<lparr>ss_drop_request_queued := True\<rparr>"
  have one: "quiet b (sb_set_slot b i ?s)"
    using slot_ok_at [OF assms(1), of i] by (intro quiet_set_slot assms) (simp_all add: same_standing_def slot_ok_def)
  have "quiet (sb_set_slot b i ?s) ((sb_set_slot b i ?s)
      \<lparr>sb_drop_request_queue := (sb_drop_request_queue b)[t := s], sb_drop_request_head := sb_drop_request_head b,
       sb_drop_request_size := sb_drop_request_size b + 1\<rparr>)"
    using send_queues(4-6) [OF assms(1)] assms(2) by (intro quiet_drop_request_queue quiet_ok [OF one]) auto
  then show ?thesis using quiet_trans [OF one] by (simp add: sb_set_slot_def)
qed

lemma sb_queue_drop_request_quiet:
  assumes "send_ok b" shows "quiet b (snd (sb_queue_drop_request b q))"
proof (cases "sb_offset b q")
  case (Some offset)
  let ?b = "if sb_drop_request_size b = sb_capacity b then sb_compact_drop_request_queue b else b"
  have one: "quiet b ?b" using assms sb_compact_drop_request_queue_quiet by (simp add: quiet_refl)
  show ?thesis
    using Some quiet_refl [OF assms] one quiet_trans [OF one sb_push_drop_request_quiet [OF quiet_ok [OF one]]]
    by (simp add: sb_queue_drop_request_def Let_def)
qed (simp add: sb_queue_drop_request_def quiet_refl assms)

section \<open>Retransmission requests\<close>

lemma sb_compact_retransmission_slot [simp]: "sb_slot (sb_compact_retransmission_queue b) = sb_slot b"
  by (simp add: sb_compact_retransmission_queue_def split_beta Let_def)

lemma sb_mark_retransmission_quiet:
  assumes "send_ok b" "ss_sent (sb_slot b i)"
  shows "quiet b (sb_set_slot b i ((sb_slot b i) \<lparr>ss_retransmission_queued := r\<rparr>))"
  using slot_ok_at [OF assms(1), of i] assms
  by (intro quiet_set_slot) (auto simp: same_standing_def slot_ok_def)

lemma sb_push_retransmission_quiet:
  assumes "send_ok b" "ss_sent (sb_slot b i)" "sb_retransmission_size b \<noteq> sb_capacity b"
  shows "quiet b ((sb_set_slot b i ((sb_slot b i) \<lparr>ss_retransmission_queued := True\<rparr>))
    \<lparr>sb_retransmission_queue := (sb_retransmission_queue b)[t := s], sb_retransmission_size := sb_retransmission_size b + 1\<rparr>)"
proof -
  let ?s = "(sb_slot b i) \<lparr>ss_retransmission_queued := True\<rparr>"
  note one = sb_mark_retransmission_quiet [OF assms(1,2), of True]
  have "quiet (sb_set_slot b i ?s) ((sb_set_slot b i ?s)
      \<lparr>sb_retransmission_queue := (sb_retransmission_queue b)[t := s], sb_retransmission_head := sb_retransmission_head b,
       sb_retransmission_size := sb_retransmission_size b + 1\<rparr>)"
    using send_queues(1-3) [OF assms(1)] assms(3) by (intro quiet_retransmission_queue quiet_ok [OF one]) auto
  then show ?thesis using quiet_trans [OF one] by (simp add: sb_set_slot_def)
qed

lemma sb_queue_retransmission_quiet:
  assumes "send_ok b" shows "quiet b (snd (sb_queue_retransmission b q))"
proof (cases "sb_offset b q")
  case (Some offset)
  let ?b = "if sb_retransmission_size b = sb_capacity b then sb_compact_retransmission_queue b else b"
  have one: "quiet b ?b" using assms sb_compact_retransmission_queue_quiet by (simp add: quiet_refl)
  have slot: "sb_slot ?b = sb_slot b" by simp
  note push = quiet_trans [OF one sb_push_retransmission_quiet [OF quiet_ok [OF one], of offset], unfolded slot]
  show ?thesis
    using Some quiet_refl [OF assms] one push sb_queue_drop_request_quiet [OF assms, of q]
    by (auto simp: sb_queue_retransmission_def Let_def)
qed (simp add: sb_queue_retransmission_def quiet_refl assms)

text \<open>Taking the head off the queue.\<close>

lemma sb_pop_retransmission_quiet:
  assumes "send_ok b"
  shows "quiet b (b \<lparr>sb_retransmission_head := (sb_retransmission_head b + 1) mod sb_capacity b,
    sb_retransmission_size := sb_retransmission_size b - 1\<rparr>)"
  using assms send_from_bounds(1) [OF assms] by (simp add: quiet_def send_from_core send_shape_def) linarith

lemma sb_pop_drop_request_quiet:
  assumes "send_ok b"
  shows "quiet b (b \<lparr>sb_drop_request_head := (sb_drop_request_head b + 1) mod sb_capacity b,
    sb_drop_request_size := sb_drop_request_size b - 1\<rparr>)"
  using assms send_from_bounds(1) [OF assms] by (simp add: quiet_def send_from_core send_shape_def) linarith

lemma sb_find_occupied: "sb_find b q = Some i \<Longrightarrow> ss_occupied (sb_slot b i)"
  by (simp add: sb_find_def split: option.splits if_splits)

text \<open>
  The packet chosen for retransmission is a packet of the window that has been sent, with the
  retransmission flag of its header set.
\<close>

definition retransmits :: "SendBuffer \<Rightarrow> OutboundPacket option \<Rightarrow> bool" where
  "retransmits b r \<longleftrightarrow>
     (case r of None \<Rightarrow> True
      | Some p \<Rightarrow> \<exists>q. Some (q, True) \<in> set (sb_entries b)
          \<and> p = q \<lparr>op_header := (op_header q) \<lparr>dh_retransmitted := True\<rparr>\<rparr>)"

lemma retransmits_quiet: "quiet b b' \<Longrightarrow> retransmits b' r = retransmits b r"
  by (simp add: retransmits_def quiet_def split: option.split)

lemma sb_outbound_retransmits:
  assumes "send_ok b" "i < sb_sequence_span b" "ss_sent (sb_slot b i)"
  shows "retransmits b (Some (sb_outbound b i True))"
proof -
  have "ss_occupied (sb_slot b i)" using slot_ok_at [OF assms(1), of i] assms(3) by (simp add: slot_ok_def)
  then have "sb_entries b ! i = Some (sb_outbound b i False, True)" using assms(2,3) by (simp add: sb_entry_def)
  then have "Some (sb_outbound b i False, True) \<in> set (sb_entries b)"
    using assms(2) nth_mem [of i "sb_entries b"] by simp
  moreover have "sb_outbound b i True
      = (sb_outbound b i False) \<lparr>op_header := (op_header (sb_outbound b i False)) \<lparr>dh_retransmitted := True\<rparr>\<rparr>"
    by (simp add: sb_outbound_def Let_def)
  ultimately show ?thesis unfolding retransmits_def option.case by blast
qed

lemma sb_find_bound: "sb_find b q = Some i \<Longrightarrow> i < sb_sequence_span b"
  by (auto simp: sb_find_def sb_offset_def Let_def split: option.splits if_splits)

lemma sb_next_retransmission_quiet:
  "send_ok b \<Longrightarrow> quiet b (snd (sb_next_retransmission b d)) \<and> retransmits b (fst (sb_next_retransmission b d))"
proof (induction b d rule: sb_next_retransmission.induct)
  case (1 b d)
  let ?b1 = "b \<lparr>sb_retransmission_head := (sb_retransmission_head b + 1) mod sb_capacity b,
    sb_retransmission_size := sb_retransmission_size b - 1\<rparr>"
  let ?q = "sb_retransmission_queue b ! sb_retransmission_head b"
  note pop = sb_pop_retransmission_quiet [OF 1(3)]
  have rec: "quiet b (snd (sb_next_retransmission ?b1 d)) \<and> retransmits b (fst (sb_next_retransmission ?b1 d))"
    if "sb_retransmission_size b > 0" "sb_find ?b1 ?q = None
      \<or> (\<exists>i. sb_find ?b1 ?q = Some i \<and> \<not> ss_retransmission_queued (sb_slot ?b1 i))"
    using that 1(1,2) [OF that(1) refl refl] quiet_ok [OF pop] quiet_trans [OF pop] retransmits_quiet [OF pop] by blast
  show ?case
  proof (cases "sb_retransmission_size b > 0")
    case False
    then show ?thesis
      using quiet_refl [OF 1(3)] by (subst (1 2) sb_next_retransmission.simps) (simp add: retransmits_def)
  next
    case True
    show ?thesis
    proof (cases "sb_find ?b1 ?q")
      case None
      then show ?thesis using True rec by (subst (1 2) sb_next_retransmission.simps) (simp add: Let_def)
    next
      case (Some i)
      show ?thesis
      proof (cases "ss_retransmission_queued (sb_slot b i)")
        case False
        then show ?thesis using True Some rec by (subst (1 2) sb_next_retransmission.simps) (simp add: Let_def)
      next
        case queued: True
        have sent: "ss_sent (sb_slot ?b1 i)" using slot_ok_at [OF 1(3), of i] queued by (simp add: slot_ok_def)
        note set = sb_mark_retransmission_quiet [OF quiet_ok [OF pop] sent, of d]
        let ?b2 = "sb_set_slot ?b1 i ((sb_slot ?b1 i) \<lparr>ss_retransmission_queued := d\<rparr>)"
        have i: "i < sb_sequence_span b" "i < sb_capacity b"
          using sb_find_bound [OF Some] send_from_bounds(4) [OF 1(3)] by simp_all
        have "sb_outbound ?b2 i True = sb_outbound b i True"
          using i(2) sb_slot_set [of i ?b1 i] by (simp add: sb_outbound_def Let_def)
        moreover have "retransmits b (Some (sb_outbound b i True))"
          using sb_outbound_retransmits [OF 1(3) i(1)] sent by simp
        moreover have "sb_next_retransmission b d = (Some (sb_outbound ?b2 i True), ?b2)"
          using True Some queued by (subst sb_next_retransmission.simps) (simp add: Let_def)
        ultimately show ?thesis using quiet_trans [OF pop set] by simp
      qed
    qed
  qed
qed

lemma sb_peek_retransmission_packet_quiet:
  "send_ok b \<Longrightarrow> quiet b (snd (sb_peek_retransmission_packet b)) \<and> retransmits b (fst (sb_peek_retransmission_packet b))"
proof (induction b rule: sb_peek_retransmission_packet.induct)
  case (1 b)
  let ?b1 = "b \<lparr>sb_retransmission_head := (sb_retransmission_head b + 1) mod sb_capacity b,
    sb_retransmission_size := sb_retransmission_size b - 1\<rparr>"
  let ?q = "sb_retransmission_queue b ! sb_retransmission_head b"
  note pop = sb_pop_retransmission_quiet [OF 1(3)]
  have rec: "quiet b (snd (sb_peek_retransmission_packet ?b1)) \<and> retransmits b (fst (sb_peek_retransmission_packet ?b1))"
    if "sb_retransmission_size b \<noteq> 0" "sb_find b ?q = None
      \<or> (\<exists>i. sb_find b ?q = Some i \<and> \<not> ss_retransmission_queued (sb_slot b i))"
    using that 1(1,2) [OF that(1)] quiet_ok [OF pop] quiet_trans [OF pop] retransmits_quiet [OF pop] by blast
  have hit: "retransmits b (Some (sb_outbound b i True))"
    if "sb_find b ?q = Some i" "ss_retransmission_queued (sb_slot b i)" for i
    using that sb_find_bound slot_ok_at [OF 1(3), of i] by (intro sb_outbound_retransmits 1(3)) (auto simp: slot_ok_def)
  show ?case
    using rec hit quiet_refl [OF 1(3)]
    by (subst (1 2) sb_peek_retransmission_packet.simps) (auto simp: retransmits_def [of _ None] split: option.split)
qed

lemma sb_requeue_quiet: "send_ok b \<Longrightarrow> quiet b (sb_requeue_prepared_retransmission b q)"
proof (cases "sb_find b q")
  case (Some i)
  assume ok: "send_ok b"
  have one: "quiet b (sb_set_slot b i ((sb_slot b i) \<lparr>ss_retransmission_queued := False\<rparr>))"
    using slot_ok_at [OF ok, of i] by (intro quiet_set_slot ok) (auto simp: same_standing_def slot_ok_def)
  show ?thesis
    using Some quiet_trans [OF one sb_queue_retransmission_quiet [OF quiet_ok [OF one]]]
    by (simp add: sb_requeue_prepared_retransmission_def)
qed (simp add: sb_requeue_prepared_retransmission_def quiet_refl)

lemma sb_note_packet_submitted_quiet:
  assumes "send_ok b" shows "quiet b (sb_note_packet_submitted b q)"
proof -
  have "quiet b (sb_set_slot b i ((sb_slot b i) \<lparr>ss_submitted := True\<rparr>))" if "ss_sent (sb_slot b i)" for i
    using slot_ok_at [OF assms, of i] that by (intro quiet_set_slot assms) (auto simp: same_standing_def slot_ok_def)
  then show ?thesis by (simp add: sb_note_packet_submitted_def quiet_refl assms split: option.split)
qed

lemma sb_note_retransmission_sent_quiet:
  assumes "send_ok b" shows "quiet b (sb_note_retransmission_sent b q now)"
proof -
  have "quiet b (sb_set_slot b i ((sb_slot b i) \<lparr>ss_retransmission_queued := False, ss_has_retransmission_send_time := True,
      ss_metadata := LiveMetadata now (expiration_microseconds (ss_metadata (sb_slot b i)))\<rparr>))"
    if "ss_occupied (sb_slot b i)" for i
    using slot_ok_at [OF assms, of i] that by (intro quiet_set_slot assms) (auto simp: same_standing_def slot_ok_def)
  then show ?thesis
    by (simp add: sb_note_retransmission_sent_def quiet_refl assms Let_def split: option.split)
qed

lemma sb_request_loop_quiet:
  "send_ok b \<Longrightarrow> quiet b (snd (snd (snd (sb_request_loop b first now m i n packets byte_count))))"
proof (induction n arbitrary: b i packets byte_count)
  case (Suc n)
  let ?q = "seq_advanced first (of_nat i)"
  note one = sb_queue_retransmission_quiet [OF Suc.prems, of ?q]
  have rec: "quiet b (snd (snd (snd (sb_request_loop (snd (sb_queue_retransmission b ?q)) first now m (Suc i) n k c))))" for k c
    using quiet_trans [OF one Suc.IH [OF quiet_ok [OF one]]] .
  obtain a b1 where res: "sb_queue_retransmission b ?q = (a, b1)" by fastforce
  show ?case
    using Suc.IH [OF Suc.prems] rec one unfolding res by (simp add: Let_def res)
qed (simp add: quiet_refl)

lemma sb_request_retransmission_quiet:
  "send_ok b \<Longrightarrow> quiet b (snd (snd (snd (sb_request_retransmission b r now m))))"
  by (simp add: sb_request_retransmission_def Let_def quiet_refl sb_request_loop_quiet del: sb_request_loop.simps)

lemma sb_request_last_sent_quiet: "send_ok b \<Longrightarrow> quiet b (snd (sb_request_retransmission_of_last_sent b))"
  by (simp add: sb_request_retransmission_of_last_sent_def quiet_refl sb_queue_retransmission_quiet split: option.split)

lemma sb_all_sent_loop_quiet: "send_ok b \<Longrightarrow> quiet b (snd (sb_all_sent_loop b i n queued))"
proof (induction n arbitrary: b i queued)
  case (Suc n)
  let ?q = "dh_sequence (ss_header (sb_slot b i))"
  note one = sb_queue_retransmission_quiet [OF Suc.prems, of ?q]
  obtain a b1 where res: "sb_queue_retransmission b ?q = (a, b1)" by fastforce
  show ?case
    using Suc.IH [OF Suc.prems] quiet_trans [OF one Suc.IH [OF quiet_ok [OF one]]] one unfolding res
    by (simp add: Let_def res)
qed (simp add: quiet_refl)

lemma sb_request_all_sent_quiet: "send_ok b \<Longrightarrow> quiet b (snd (sb_request_retransmission_of_all_sent b))"
  by (simp add: sb_request_retransmission_of_all_sent_def sb_all_sent_loop_quiet)

section \<open>Announcing drops\<close>

lemma dq_next_ok: "dq_ok q \<Longrightarrow> dq_ok (snd (dq_next q))"
  using dq_next_correct [of q] by (cases "dq_next q"; cases "fst (dq_next q)") (auto simp: dq_next_def Let_def split: if_splits)

lemma sb_next_pending_drop_request_quiet: "send_ok b \<Longrightarrow> quiet b (snd (sb_next_pending_drop_request b))"
proof (induction b rule: sb_next_pending_drop_request.induct)
  case (1 b)
  let ?b1 = "b \<lparr>sb_drop_request_head := (sb_drop_request_head b + 1) mod sb_capacity b,
    sb_drop_request_size := sb_drop_request_size b - 1\<rparr>"
  let ?q = "sb_drop_request_queue b ! sb_drop_request_head b"
  note pop = sb_pop_drop_request_quiet [OF 1(3)]
  have clear: "quiet b (sb_set_slot ?b1 i ((sb_slot b i) \<lparr>ss_drop_request_queued := False\<rparr>))" for i
    using slot_ok_at [OF 1(3), of i]
    by (intro quiet_trans [OF pop] quiet_set_slot quiet_ok [OF pop]) (auto simp: same_standing_def slot_ok_def)
  have rec: "quiet b (snd (sb_next_pending_drop_request ?b1))"
    if "sb_drop_request_size b > 0" "sb_offset ?b1 ?q = None
      \<or> (\<exists>i. sb_offset ?b1 ?q = Some i \<and> (\<not> ss_dropped (sb_slot ?b1 i) \<or> \<not> ss_drop_request_queued (sb_slot ?b1 i)))"
    using that 1(1,2) [OF that(1) refl refl] quiet_ok [OF pop] quiet_trans [OF pop] by blast
  have range: "quiet b (b \<lparr>sb_range_drop_request_queue := snd (dq_next (sb_range_drop_request_queue b))\<rparr>)"
    using send_queues(7) [OF 1(3)] by (intro quiet_range_drop_queue 1(3) dq_next_ok)
  show ?case
    using rec clear range
    by (subst sb_next_pending_drop_request.simps) (auto simp: Let_def split_beta split: option.split prod.split)
qed

lemma sb_has_pending_drop_request_quiet: "send_ok b \<Longrightarrow> quiet b (snd (sb_has_pending_drop_request b))"
  by (simp add: sb_has_pending_drop_request_def Let_def quiet_refl sb_compact_drop_request_queue_quiet)

lemma sb_retained_loop_quiet: "send_ok b \<Longrightarrow> quiet b (snd (sb_retained_loop b offset queued))"
proof (induction b offset queued rule: sb_retained_loop.induct)
  case (1 b offset queued)
  let ?q = "seq_advanced (sb_first_sequence b) (of_nat offset)"
  note one = sb_queue_drop_request_quiet [OF 1(3), of ?q]
  show ?case
  proof (cases "offset < sb_sequence_span b \<and> ss_dropped (sb_slot b offset)")
    case True
    then show ?thesis
      using quiet_trans [OF one 1(2) [OF _ refl _ refl refl quiet_ok [OF one]]]
      by (subst sb_retained_loop.simps) (simp add: Let_def)
  next
    case False
    then show ?thesis
      using 1(1) [OF _ refl _ 1(3)] quiet_refl [OF 1(3)] by (subst sb_retained_loop.simps) (auto simp: Let_def)
  qed
qed

lemma sb_queue_retained_quiet: "send_ok b \<Longrightarrow> quiet b (snd (sb_queue_retained_drop_requests b))"
  by (simp add: sb_queue_retained_drop_requests_def sb_retained_loop_quiet)

lemma sb_queue_range_drop_quiet:
  assumes "send_ok b" shows "quiet b (snd (sb_queue_range_drop_requests b ranges))"
proof -
  have "dq_ok (snd (dq_queue (sb_range_drop_request_queue b) ranges))"
    using dq_queue_correct [OF send_queues(7) [OF assms], of ranges] send_queues(7) [OF assms] by metis
  then show ?thesis
    using quiet_range_drop_queue [OF assms] by (simp add: sb_queue_range_drop_requests_def split_beta)
qed

end
