(* ===== verification/Send_Buffer_Retire.thy ===== *)
theory Send_Buffer_Retire
  imports Send_Buffer_Queues
begin

text \<open>
  Construction and synchronisation of the send buffer, the check of a range reported lost with the
  tree of tombstones, and acknowledgement.
\<close>

section \<open>Construction\<close>

lemma make_SendBuffer_ok:
  assumes "make_SendBuffer storage first capacity mx = Some b" "capacity * 1456 \<le> length storage"
  shows "send_ok b" "sb_entries b = []" "sb_first_sequence b = first" "sb_capacity b = capacity"
    "sb_maximum_payload_size b = mx"
proof -
  obtain pool where pool: "make_PayloadPool storage capacity = Some pool"
    and cap: "0 < capacity" "capacity < 1073741824" "0 < mx" "mx \<le> 1456"
    using assms(1) by (auto simp: make_SendBuffer_def checked_send_capacity_def split: option.splits if_splits)
  note pl = make_PayloadPool_ok [OF pool assms(2)]
  have b: "sb_slots b = replicate capacity default_SendSlot" "sb_sequence_span b = 0" "sb_payloads b = pool"
    "sb_head b = 0" "sb_dropped_counts b = replicate (capacity + 1) 0"
    using assms(1) pool by (auto simp: make_SendBuffer_def checked_send_capacity_def split: option.splits if_splits)
  have slot: "sb_slot b i = default_SendSlot" for i using cap(1) by (simp add: sb_slot_def sb_index_def sb_capacity_def b)
  have quiet_slot: "slot_ok default_SendSlot" "\<not> ss_occupied default_SendSlot" "\<not> ss_dropped default_SendSlot"
    "\<not> ss_sent default_SendSlot" "\<not> slot_expires default_SendSlot" "slot_bytes default_SendSlot = 0"
    by (simp_all add: default_SendSlot_def slot_ok_def slot_expires_def slot_bytes_def)
  show "sb_entries b = []" "sb_first_sequence b = first" "sb_capacity b = capacity" "sb_maximum_payload_size b = mx"
    using assms(1) by (auto simp: make_SendBuffer_def checked_send_capacity_def sb_entries_def sb_capacity_def split: option.splits if_splits)
  have "send_counts b"
    using assms(1) pool quiet_slot
    by (auto simp: make_SendBuffer_def checked_send_capacity_def send_counts_def sum_list_replicate split: option.splits if_splits)
  moreover have "send_shape b"
    using assms(1) cap make_RangeDropQueue_ok(1)
    by (auto simp: make_SendBuffer_def checked_send_capacity_def send_shape_def sb_capacity_def split: option.splits if_splits)
  moreover have "send_cursor b"
    using assms(1) by (auto simp: make_SendBuffer_def checked_send_capacity_def send_cursor_def split: option.splits if_splits)
  moreover have "send_window 0 b"
    using quiet_slot by (simp add: send_window_def window_at_def slot b list_all_iff)
  moreover have "send_pool b"
    using pl quiet_slot by (simp add: send_pool_def bodies_ok_def b sb_capacity_def)
  moreover have "send_tree b" "send_expiry b"
    using fenwick_ok_initial [OF cap(2)] quiet_slot by (simp_all add: send_tree_def send_expiry_def b)
  ultimately show "send_ok b" by (simp add: send_from_def)
qed

text \<open>An empty buffer can be moved to any sequence number.\<close>

lemma send_ok_empty:
  assumes "send_ok b" "sb_sequence_span b = 0" "s \<in> set (sb_slots b)"
  shows "\<not> ss_occupied s" "\<not> ss_dropped s" "\<not> ss_sent s" "\<not> slot_expires s" "slot_bytes s = 0"
proof -
  obtain i where "i < sb_capacity b" "s = sb_slot b i"
    using sb_slots_ex_offset [OF send_from_bounds(3) [OF assms(1)] assms(3)] .
  then show "\<not> ss_occupied s" "\<not> ss_dropped s" using send_from_slot(3) [OF assms(1)] assms(2) by auto
  then show "\<not> ss_sent s" "\<not> slot_expires s" "slot_bytes s = 0"
    using slot_ok_at [OF assms(1), of i] \<open>s = sb_slot b i\<close> by (auto simp: slot_ok_def slot_expires_def slot_bytes_def)
qed

lemma sb_synchronize_empty_ok:
  assumes "send_ok b" "sb_synchronize_empty b q = (r, b')"
  shows "send_ok b' \<and> sb_entries b' = sb_entries b \<and> sb_capacity b' = sb_capacity b
    \<and> (r \<longleftrightarrow> sb_next_sequence b' = q)"
proof -
  define skipped where "skipped = (ucast ((seq_value q - seq_value (sb_first_sequence b)) AND seq_mask) :: u64)"
  show ?thesis
  proof (cases "sb_sequence_span b \<noteq> 0 \<or> sb_occupied_count b \<noteq> 0")
    case True
    then show ?thesis using assms by (auto simp: sb_synchronize_empty_def)
  next
    case False
    then have span: "sb_sequence_span b = 0" by simp
    note empty = send_ok_empty [OF assms(1) span]
    show ?thesis
    proof (cases "skipped > 0xffffffffffffffff - sb_next_sequence_position b")
      case True
      then have "skipped \<noteq> 0" by auto
      then have "q \<noteq> sb_first_sequence b" by (auto simp: skipped_def)
      then show ?thesis
        using True False assms by (auto simp: sb_synchronize_empty_def skipped_def sb_next_sequence_def)
    next
      case fits: False
      define b1 where "b1 = b \<lparr>sb_next_sequence_position := sb_next_sequence_position b + skipped,
        sb_first_sequence := q, sb_head := 0, sb_next_unsent_offset := 0, sb_buffered_plaintext_bytes := 0,
        sb_expiring_packet_count := 0, sb_retained_drop_count := 0, sb_first_buffered_enqueue_microseconds := 0,
        sb_last_buffered_enqueue_microseconds := 0\<rparr>"
      have res: "r" "b' = b1"
        using assms(2) False fits by (simp_all add: sb_synchronize_empty_def skipped_def b1_def)
      have fields: "sb_slots b1 = sb_slots b" "sb_sequence_span b1 = 0" "sb_capacity b1 = sb_capacity b"
        "sb_payloads b1 = sb_payloads b" "sb_dropped_counts b1 = sb_dropped_counts b"
        by (simp_all add: b1_def span)
      have "sb_slot b1 i \<in> set (sb_slots b)" for i
        using sb_slots_mem [of b1 i] send_from_bounds(1) [OF assms(1)] by (simp add: fields)
      then have "send_window 0 b1"
        using assms(1) empty by (simp add: send_from_def send_window_def window_at_def fields)
      moreover have "send_counts b1"
      proof -
        have "filter P (sb_slots b) = []" if "\<And>s. s \<in> set (sb_slots b) \<Longrightarrow> \<not> P s" for P
          using that by (simp add: filter_empty_conv)
        moreover have "sum_list (map slot_bytes (sb_slots b)) = 0" using empty(5) by simp
        ultimately show ?thesis
          using assms(1) empty False by (simp add: send_from_def send_counts_def b1_def)
      qed
      moreover have "send_cursor b1" by (simp add: send_cursor_def b1_def span)
      ultimately have "send_ok b1"
        using assms(1) empty
        by (simp add: send_from_def send_shape_def send_pool_def send_tree_def send_expiry_def fields) (simp add: b1_def)
      then show ?thesis using res span by (simp add: sb_entries_def sb_next_sequence_def fields) (simp add: b1_def)
    qed
  qed
qed

section \<open>Checking a range reported lost\<close>

lemma count_between_full:
  assumes "a \<le> c" "c \<le> length flags"
  shows "count_between flags a c \<le> c - a" "count_between flags a c = c - a \<longleftrightarrow> (\<forall>i. a \<le> i \<and> i < c \<longrightarrow> flags ! i)"
proof -
  let ?xs = "take (c - a) (drop a flags)"
  have len: "length ?xs = c - a" using assms by simp
  show "count_between flags a c \<le> c - a" using length_filter_le [of id ?xs] by (simp add: count_between_def len)
  have "count_between flags a c = c - a \<longleftrightarrow> filter id ?xs = ?xs"
    using len by (metis count_between_def filter_id_conv length_filter_less less_irrefl)
  also have "\<dots> \<longleftrightarrow> (\<forall>i < c - a. flags ! (a + i))"
    using len assms by (auto simp: filter_id_conv all_set_conv_all_nth)
  also have "\<dots> \<longleftrightarrow> (\<forall>i. a \<le> i \<and> i < c \<longrightarrow> flags ! i)"
    by (auto simp: le_iff_add)
  finally show "count_between flags a c = c - a \<longleftrightarrow> (\<forall>i. a \<le> i \<and> i < c \<longrightarrow> flags ! i)" .
qed

text \<open>The tombstones of a window range, counted in the two pieces the ring splits it into.\<close>

lemma sb_dropped_run_count:
  assumes "send_ok b" "start + count \<le> sb_capacity b"
  defines "physical \<equiv> (sb_head b + start) mod sb_capacity b"
  defines "first_count \<equiv> min count (sb_capacity b - physical)"
  shows "sb_dropped_prefix b (physical + first_count) - sb_dropped_prefix b physical
      + sb_dropped_prefix b (count - first_count) = count
    \<longleftrightarrow> (\<forall>k. start \<le> k \<and> k < start + count \<longrightarrow> ss_dropped (sb_slot b k))"
proof -
  let ?n = "sb_capacity b" and ?f = "map ss_dropped (sb_slots b)"
  have len: "length (sb_slots b) = ?n" by (simp add: sb_capacity_def)
  have p: "physical < ?n" using send_from_bounds(1) [OF assms(1)] by (simp add: physical_def)
  have fc: "physical + first_count \<le> ?n" "count - first_count \<le> ?n" "first_count \<le> count"
    using p assms(2) by (auto simp: first_count_def)
  have prefix: "sb_dropped_prefix b m = count_between ?f 0 m" if "m \<le> ?n" for m
    using assms(1) dropped_prefix_loop_count [of "sb_dropped_counts b" ?f m 0] that
    by (simp add: sb_dropped_prefix_def send_from_def send_tree_def len)
  have split: "sb_dropped_prefix b (physical + first_count) - sb_dropped_prefix b physical
      = count_between ?f physical (physical + first_count)"
    using prefix fc p count_between_split [of 0 physical "physical + first_count" ?f] by simp
  have one: "count_between ?f physical (physical + first_count) \<le> first_count"
    "count_between ?f physical (physical + first_count) = first_count
      \<longleftrightarrow> (\<forall>i. physical \<le> i \<and> i < physical + first_count \<longrightarrow> ?f ! i)"
    using count_between_full [of physical "physical + first_count" ?f] fc by (simp_all add: len)
  have two: "count_between ?f 0 (count - first_count) \<le> count - first_count"
    "count_between ?f 0 (count - first_count) = count - first_count \<longleftrightarrow> (\<forall>i < count - first_count. ?f ! i)"
    using count_between_full [of 0 "count - first_count" ?f] fc by (simp_all add: len)
  have index: "sb_index b (start + k) = (if k < first_count then physical + k else k - first_count)" if "k < count" for k
  proof -
    have "sb_index b (start + k) = (physical + k) mod ?n"
      by (simp add: sb_index_def physical_def mod_add_left_eq add.assoc)
    then show ?thesis using that p assms(2) by (auto simp: first_count_def min_def mod_if split: if_splits)
  qed
  have "(\<forall>k < count. ?f ! sb_index b (start + k))
      \<longleftrightarrow> (\<forall>i. physical \<le> i \<and> i < physical + first_count \<longrightarrow> ?f ! i) \<and> (\<forall>i < count - first_count. ?f ! i)"
    (is "?all \<longleftrightarrow> ?low \<and> ?high")
  proof
    assume all: ?all
    have ?low
    proof (intro allI impI)
      fix i assume "physical \<le> i \<and> i < physical + first_count"
      then obtain m where "i = physical + m" "m < first_count" by (auto simp: le_iff_add)
      then show "?f ! i" using all [rule_format, of m] index [of m] fc(3) by simp
    qed
    moreover have ?high
    proof (intro allI impI)
      fix i assume "i < count - first_count"
      then show "?f ! i" using all [rule_format, of "i + first_count"] index [of "i + first_count"] by simp
    qed
    ultimately show "?low \<and> ?high" ..
  qed (use index fc(3) in auto)
  moreover have "?f ! sb_index b i = ss_dropped (sb_slot b i)" for i
    using sb_index_less [OF send_from_bounds(1) [OF assms(1)], of i] by (simp add: sb_slot_def)
  moreover have "(\<forall>k. start \<le> k \<and> k < start + count \<longrightarrow> ss_dropped (sb_slot b k))
      \<longleftrightarrow> (\<forall>k < count. ss_dropped (sb_slot b (start + k)))"
    by (auto simp: le_iff_add)
  moreover have "x + y = count \<longleftrightarrow> x = first_count \<and> y = count - first_count"
    if "x \<le> first_count" "y \<le> count - first_count" for x y using that fc(3) by auto
  ultimately show ?thesis using one two by (simp only: split prefix [OF fc(2)])
qed

text \<open>A range may be asked for again when it lies in the window and none of it is yet unsent.\<close>

definition range_requestable :: "SendBuffer \<Rightarrow> SequenceRange \<Rightarrow> bool" where
  "range_requestable b r \<longleftrightarrow>
     (\<exists>i j. i \<le> j \<and> j < sb_sequence_span b
        \<and> sr_first r = seq_advanced (sb_first_sequence b) (of_nat i)
        \<and> sr_last r = seq_advanced (sb_first_sequence b) (of_nat j)
        \<and> (\<forall>k p. i \<le> k \<and> k \<le> j \<longrightarrow> sb_entries b ! k \<noteq> Some (p, False)))"

lemma sb_unsent_iff:
  assumes "send_ok b" "k < sb_sequence_span b"
  shows "(\<forall>p. sb_entries b ! k \<noteq> Some (p, False)) \<longleftrightarrow> k < sb_next_unsent_offset b \<or> ss_dropped (sb_slot b k)"
proof -
  have "ss_occupied (sb_slot b k) \<noteq> ss_dropped (sb_slot b k)"
    using send_from_slot(1) [OF assms(1), of k] assms(2) send_from_bounds(4) [OF assms(1)] by simp
  moreover have "ss_occupied (sb_slot b k) \<Longrightarrow> ss_sent (sb_slot b k) \<longleftrightarrow> k < sb_next_unsent_offset b"
    using assms by (simp add: send_from_def send_cursor_def)
  ultimately show ?thesis using assms(2) by (auto simp: sb_entry_def)
qed

lemma sb_validate_range_offsets:
  assumes "send_ok b" "0 \<le> seq_distance (sr_first r) (sb_first_sequence b)"
    "seq_distance (sr_first r) (sb_first_sequence b) \<le> seq_distance (sr_last r) (sb_first_sequence b)"
    "nat (seq_distance (sr_last r) (sb_first_sequence b)) < sb_sequence_span b"
    "0 \<le> seq_distance (sr_last r) (sr_first r)"
  defines "i \<equiv> nat (seq_distance (sr_first r) (sb_first_sequence b))"
    and "j \<equiv> nat (seq_distance (sr_last r) (sb_first_sequence b))"
  shows "sb_validate_retransmission_range b r = Error_none
    \<longleftrightarrow> (\<forall>k p. i \<le> k \<and> k \<le> j \<longrightarrow> sb_entries b ! k \<noteq> Some (p, False))"
proof -
  define lo where "lo = max i (sb_next_unsent_offset b)"
  have j: "j < sb_sequence_span b" using assms(4) by (simp add: j_def)
  have unsent: "(\<forall>k p. i \<le> k \<and> k \<le> j \<longrightarrow> sb_entries b ! k \<noteq> Some (p, False))
      \<longleftrightarrow> (\<forall>k. lo \<le> k \<and> k < Suc j \<longrightarrow> ss_dropped (sb_slot b k))"
    using sb_unsent_iff [OF assms(1)] j by (auto simp: less_Suc_eq_le lo_def)
  have guards: "\<not> (seq_distance (sr_last r) (sr_first r) < 0 \<or> seq_distance (sr_first r) (sb_first_sequence b) < 0
      \<or> seq_distance (sr_last r) (sb_first_sequence b) < seq_distance (sr_first r) (sb_first_sequence b)
      \<or> nat (seq_distance (sr_last r) (sb_first_sequence b)) \<ge> sb_sequence_span b)"
    using assms(2-5) by linarith
  show ?thesis
  proof (cases "lo < Suc j")
    case True
    then have "lo + (Suc j - lo) \<le> sb_capacity b" using j send_from_bounds(4) [OF assms(1)] by simp
    from sb_dropped_run_count [OF assms(1) this] show ?thesis
      unfolding sb_validate_retransmission_range_def Let_def if_not_P [OF guards]
      unfolding unsent i_def [symmetric] j_def [symmetric] lo_def [symmetric] using True by simp
  next
    case False
    then show ?thesis
      unfolding sb_validate_retransmission_range_def Let_def if_not_P [OF guards]
      unfolding unsent i_def [symmetric] j_def [symmetric] lo_def [symmetric] by auto
  qed
qed

lemma sb_validate_range_requestable:
  assumes "send_ok b"
  shows "sb_validate_retransmission_range b r = (if range_requestable b r then Error_none else invalid_control_payload)"
proof -
  let ?f = "seq_distance (sr_first r) (sb_first_sequence b)" and ?l = "seq_distance (sr_last r) (sb_first_sequence b)"
  note bounds = send_from_bounds [OF assms]
  have two: "sb_validate_retransmission_range b r \<in> {Error_none, invalid_control_payload}"
    by (simp add: sb_validate_retransmission_range_def Let_def)
  show ?thesis
  proof (cases "0 \<le> ?f \<and> ?f \<le> ?l \<and> nat ?l < sb_sequence_span b")
    case True
    have "0 \<le> seq_distance (sr_last r) (sr_first r)" using sn.dist_window [of "sr_last r" "sb_first_sequence b" "sr_first r"] True by simp
    note exact = sb_validate_range_offsets [OF assms _ _ _ this]
    have num: "seq_advanced (sb_first_sequence b) (of_nat (nat ?f)) = sr_first r"
      "seq_advanced (sb_first_sequence b) (of_nat (nat ?l)) = sr_last r"
      using True by (intro seq_advanced_distance; linarith)+
    have offs: "q = seq_advanced (sb_first_sequence b) (of_nat i) \<Longrightarrow> i = nat (seq_distance q (sb_first_sequence b))"
      if "i < sb_sequence_span b" for i q
      using that bounds(2,4) seq_distance_advanced [of i "sb_first_sequence b"] by simp
    have le: "nat ?f \<le> nat ?l" "nat ?l < sb_sequence_span b" using True by auto
    have "range_requestable b r \<longleftrightarrow> (\<forall>k p. nat ?f \<le> k \<and> k \<le> nat ?l \<longrightarrow> sb_entries b ! k \<noteq> Some (p, False))"
      (is "_ \<longleftrightarrow> ?sent (nat ?f) (nat ?l)")
    proof
      assume "range_requestable b r"
      then obtain i j where "i \<le> j" "j < sb_sequence_span b" "?sent i j"
        "sr_first r = seq_advanced (sb_first_sequence b) (of_nat i)" "sr_last r = seq_advanced (sb_first_sequence b) (of_nat j)"
        unfolding range_requestable_def by blast
      then show "?sent (nat ?f) (nat ?l)" using offs [of i "sr_first r"] offs [of j "sr_last r"] by simp
    next
      assume "?sent (nat ?f) (nat ?l)"
      then show "range_requestable b r"
        unfolding range_requestable_def using num le by (intro exI [of _ "nat ?f"] exI [of _ "nat ?l"]) simp
    qed
    then show ?thesis using exact True two by auto
  next
    case False
    have "\<not> range_requestable b r"
      unfolding range_requestable_def
      using False bounds(2,4) seq_distance_advanced [of _ "sb_first_sequence b"] by auto
    then show ?thesis using False by (auto simp: sb_validate_retransmission_range_def Let_def)
  qed
qed

section \<open>Acknowledgement\<close>

text \<open>What retiring everything before a sequence number means for the list of packets.\<close>

definition acknowledges :: "SendBuffer \<Rightarrow> SequenceNumber \<Rightarrow> Error \<times> SendBuffer \<Rightarrow> bool" where
  "acknowledges b q res \<longleftrightarrow>
     (let d = seq_distance q (sb_first_sequence b)
      in if d < 0 then res = (Error_none, b)
         else if nat d > sb_sequence_span b then res = (invalid_control_payload, b)
         else fst res = Error_none \<and> send_ok (snd res)
           \<and> sb_entries (snd res) = drop (nat d) (sb_entries b) \<and> sb_first_sequence (snd res) = q
           \<and> sb_capacity (snd res) = sb_capacity b
           \<and> sb_next_sequence_position (snd res) = sb_next_sequence_position b)"

lemma sb_acknowledge_before_ok:
  assumes "send_ok b" shows "acknowledges b q (sb_acknowledge_before b q)"
proof -
  let ?d = "seq_distance q (sb_first_sequence b)"
  show ?thesis
  proof (cases "?d < 0 \<or> nat ?d > sb_sequence_span b")
    case True
    then show ?thesis by (auto simp: acknowledges_def sb_acknowledge_before_def Let_def)
  next
    case False
    have "q = seq_advanced (sb_first_sequence b) (of_nat (nat ?d))" using False seq_advanced_distance by simp
    note retire = sb_retire_prefix [OF assms _ this]
    show ?thesis
      using False retire by (auto simp: acknowledges_def sb_acknowledge_before_def Let_def sb_refresh_first_frame)
  qed
qed

lemma sb_acknowledge_submitted_eq:
  "sb_acknowledge_submitted_before b q =
     (if \<exists>i. int i < seq_distance q (sb_first_sequence b) \<and> ss_occupied (sb_slot b i) \<and> \<not> ss_submitted (sb_slot b i)
      then (invalid_control_payload, b) else sb_acknowledge_before b q)"
proof -
  let ?d = "seq_distance q (sb_first_sequence b)"
  have "list_ex (\<lambda>i. ss_occupied (sb_slot b i) \<and> \<not> ss_submitted (sb_slot b i)) [0..<nat ?d]
      \<longleftrightarrow> (\<exists>i. int i < ?d \<and> ss_occupied (sb_slot b i) \<and> \<not> ss_submitted (sb_slot b i))"
    by (auto simp: list_ex_iff zless_nat_eq_int_zless)
  then show ?thesis by (auto simp: sb_acknowledge_submitted_before_def sb_acknowledge_before_def Let_def)
qed

end
