(* ===== verification/Send_Buffer_Drops.thy ===== *)
theory Send_Buffer_Drops
  imports Send_Buffer_Retire
begin

text \<open>
  Operations of the send buffer that change the packets of the window in place: replacing a body
  by its protected form, dropping the messages that are too old from the front of the window, and
  turning the packets of an expired message into tombstones.
\<close>

section \<open>Protecting a body\<close>

lemma bodies_ok_store:
  assumes "pool_ok p" "bodies_ok p xs" "i < length xs" "ss_occupied (xs ! i)" "ss_occupied x"
    "ss_payload_index x = ss_payload_index (xs ! i)" "length body \<le> 1456" "ss_payload_size x = length body"
    "ss_plaintext_size x = ss_plaintext_size (xs ! i)"
  shows "bodies_ok (pl_store p (ss_payload_index (xs ! i)) body) (xs[i := x])"
proof -
  let ?k = "ss_payload_index (xs ! i)"
  have here: "slot_body_ok p (xs ! i)" using bodies_ok_nth [OF assms(2-4)] .
  then have laws: "pl_live (pl_store p ?k body) = pl_live p" "pl_get (pl_store p ?k body) ?k = body"
    "\<And>j. j \<in> pl_live p \<Longrightarrow> j \<noteq> ?k \<Longrightarrow> pl_get (pl_store p ?k body) j = pl_get p j"
    using pool.store_laws [of p ?k body] assms(1,7) by (auto simp: slot_body_ok_def)
  have other: "slot_body_ok (pl_store p ?k body) (xs ! j)" if "j < length xs" "j \<noteq> i" "ss_occupied (xs ! j)" for j
  proof -
    have "ss_payload_index (xs ! j) \<noteq> ?k" using that assms(2-4) by (auto simp: bodies_ok_def)
    then show ?thesis using bodies_ok_nth [OF assms(2) that(1,3)] laws by (simp add: slot_body_ok_def)
  qed
  have "slot_body_ok (pl_store p ?k body) x" using here laws assms(6,8,9) by (simp add: slot_body_ok_def)
  then show ?thesis
    using assms(2-6) other laws(1) unfolding bodies_ok_def
    by (auto simp: all_set_conv_all_nth nth_list_update filter_update_same)
qed

lemma sb_store_body_ok:
  fixes mode :: CryptoMode and key :: EncryptionKey
  assumes "send_ok b" "i < sb_sequence_span b" "ss_sent (sb_slot b i)" "length body \<le> 1456"
  defines "s \<equiv> (sb_slot b i) \<lparr>ss_payload_size := length body mod 65536, ss_protection_mode := mode,
      ss_header := (ss_header (sb_slot b i)) \<lparr>dh_encryption_key := key\<rparr>\<rparr>"
  defines "b' \<equiv> (sb_set_slot b i s) \<lparr>sb_payloads := pl_store (sb_payloads b) (ss_payload_index (sb_slot b i)) body\<rparr>"
  shows "send_ok b'"
    and "sb_entries b' = (sb_entries b)[i := Some ((sb_outbound b i False)
      \<lparr>op_header := (ss_header (sb_slot b i)) \<lparr>dh_encryption_key := key\<rparr>, op_payload := body\<rparr>, True)]"
proof -
  note bounds = send_from_bounds [OF assms(1)]
  have i: "i < sb_capacity b" using assms(2) bounds by simp
  have idx: "sb_index b i < length (sb_slots b)" using i by (intro sb_index_less) simp
  have old: "sb_slots b ! sb_index b i = sb_slot b i" by (simp add: sb_slot_def)
  have occ: "ss_occupied (sb_slot b i)" using slot_ok_at [OF assms(1), of i] assms(3) by (simp add: slot_ok_def)
  have slots: "sb_slot b' j = (if i = j then s else sb_slot b j)" if "j < sb_capacity b" for j
    using sb_slot_set [OF i that] by (simp add: b'_def)
  have standing: "ss_occupied s" "ss_dropped s = ss_dropped (sb_slot b i)" "ss_sent s"
    "dh_sequence (ss_header s) = dh_sequence (ss_header (sb_slot b i))"
    "ss_sequence_position s = ss_sequence_position (sb_slot b i)" "slot_expires s = slot_expires (sb_slot b i)"
    "slot_bytes s = slot_bytes (sb_slot b i)" "ss_metadata s = ss_metadata (sb_slot b i)" "slot_ok s"
    "ss_payload_index s = ss_payload_index (sb_slot b i)" "ss_plaintext_size s = ss_plaintext_size (sb_slot b i)"
    "ss_payload_size s = length body"
    using slot_ok_at [OF assms(1), of i] occ assms(3,4)
    by (auto simp: s_def slot_ok_def slot_expires_def slot_bytes_def)
  have fields: "sb_sequence_span b' = sb_sequence_span b" "sb_first_sequence b' = sb_first_sequence b"
    "sb_next_sequence_position b' = sb_next_sequence_position b" "sb_capacity b' = sb_capacity b"
    "sb_next_unsent_offset b' = sb_next_unsent_offset b" "sb_slots b' = (sb_slots b)[sb_index b i := s]"
    by (simp_all add: b'_def)
  have "window_at 0 b' j = window_at 0 b j" if "j < sb_capacity b" for j
    using slots [OF that] standing(1,2,4,5) occ by (cases "i = j") (simp_all add: window_at_def fields)
  then have "send_window 0 b'"
    using assms(1) standing(9) by (simp add: send_from_def send_window_def fields list_all_update)
  moreover have "send_cursor b'"
    using assms(1,2,3) slots bounds(4) standing(3) occ by (auto simp: send_from_def send_cursor_def fields)
  moreover have "send_counts b'"
    using assms(1,3) standing old idx occ sum_list_map_update [OF idx, of slot_bytes s]
    by (simp add: send_from_def send_counts_def filter_update_same b'_def)
  moreover have pool: "pool_ok (sb_payloads b)" "bodies_ok (sb_payloads b) (sb_slots b)"
    using assms(1) by (simp_all add: send_from_def send_pool_def)
  then have "send_pool b'"
    using assms(1,4) pool.store_laws [OF pool(1), of "ss_payload_index (sb_slot b i)" body] sb_body_live [OF assms(1) occ]
      bodies_ok_store [OF pool idx, of s body] standing occ old
    by (simp add: send_from_def send_pool_def slot_body_ok_def) (simp add: b'_def)
  moreover have "send_tree b'"
    using assms(1) standing(2) old idx by (simp add: send_from_def send_tree_def map_update_same b'_def)
  moreover have "send_expiry b'"
    using assms(1) standing(6,8) bounds(1) sb_slots_mem [of b i]
    by (auto simp: send_from_def send_expiry_def b'_def dest!: set_update_subset_insert [THEN subsetD])
  ultimately show "send_ok b'" using assms(1) by (simp add: send_from_def send_shape_def b'_def)
  have "sb_entry b' j = sb_entry b j" if "j < sb_sequence_span b" "j \<noteq> i" for j
  proof -
    have j: "j < sb_capacity b" using that bounds by simp
    show ?thesis
      using that slots [OF j] sb_bodies_apart [OF assms(1) i j _ occ] sb_body_live [OF assms(1), of j] occ
        pool.store_laws [OF pool(1), of "ss_payload_index (sb_slot b i)" body] sb_body_live [OF assms(1) occ] assms(4)
      by (auto simp: sb_entry_def sb_outbound_def Let_def slot_body_ok_def b'_def)
  qed
  moreover have "sb_entry b' i = Some ((sb_outbound b i False)
      \<lparr>op_header := (ss_header (sb_slot b i)) \<lparr>dh_encryption_key := key\<rparr>, op_payload := body\<rparr>, True)"
    using slots [OF i] standing pool.store_laws [OF pool(1), of "ss_payload_index (sb_slot b i)" body]
      sb_body_live [OF assms(1) occ] assms(4)
    by (simp add: sb_entry_def sb_outbound_def Let_def slot_body_ok_def) (simp add: s_def b'_def)
  ultimately show "sb_entries b' = (sb_entries b)[i := Some ((sb_outbound b i False)
      \<lparr>op_header := (ss_header (sb_slot b i)) \<lparr>dh_encryption_key := key\<rparr>, op_payload := body\<rparr>, True)]"
    using assms(2) by (intro nth_equalityI) (auto simp: fields nth_list_update)
qed

text \<open>A sent packet can be replaced by its protected form once; any failure changes nothing.\<close>

definition protects :: "SendBuffer \<Rightarrow> SequenceNumber \<Rightarrow> EncryptionKey \<Rightarrow> bytes \<Rightarrow> Error \<times> SendBuffer \<Rightarrow> bool" where
  "protects b q key body res \<longleftrightarrow>
     send_ok (snd res)
     \<and> (if fst res \<noteq> Error_none then snd res = b
        else \<exists>i p. sb_find b q = Some i \<and> i < sb_sequence_span b \<and> sb_entries b ! i = Some (p, True)
          \<and> sb_entries (snd res) = (sb_entries b)[i := Some (p
              \<lparr>op_header := (op_header p) \<lparr>dh_encryption_key := key\<rparr>, op_payload := body\<rparr>, True)])"

lemma protects_error: "send_ok b \<Longrightarrow> e \<noteq> Error_none \<Longrightarrow> protects b q key body (e, b)"
  by (simp add: protects_def)

lemma protects_if:
  "(c \<Longrightarrow> protects b q key body x) \<Longrightarrow> (\<not> c \<Longrightarrow> protects b q key body y) \<Longrightarrow> protects b q key body (if c then x else y)"
  by simp

lemma sb_preserve_protected_payload_ok:
  assumes "send_ok b" shows "protects b q key body (sb_preserve_protected_payload b q key mode body)"
proof (cases "sb_find b q")
  case None
  then show ?thesis using assms by (simp add: sb_preserve_protected_payload_def protects_error)
next
  case (Some i)
  show ?thesis
  proof (cases "crypto_suite_for_mode mode")
    case None
    then show ?thesis using Some assms by (simp add: sb_preserve_protected_payload_def protects_error)
  next
    case (Some suite)
    let ?s = "sb_slot b i"
    have i: "i < sb_sequence_span b" using sb_find_bound [OF \<open>sb_find b q = Some i\<close>] .
    have occ: "ss_occupied ?s" using sb_find_occupied [OF \<open>sb_find b q = Some i\<close>] .
    have entry: "sb_entries b ! i = Some (sb_outbound b i False, True)" if "ss_sent ?s"
      using that i occ by (simp add: sb_entry_def)
    have header: "op_header (sb_outbound b i False) = ss_header ?s" by (simp add: sb_outbound_def Let_def)
    have fresh: "protects b q key body (Error_none,
        (sb_set_slot b i (?s \<lparr>ss_payload_size := length body mod 65536, ss_protection_mode := mode,
           ss_header := (ss_header ?s) \<lparr>dh_encryption_key := key\<rparr>\<rparr>))
        \<lparr>sb_payloads := pl_store (sb_payloads b) (ss_payload_index ?s) body\<rparr>)"
      if "ss_sent ?s" "length body \<le> 1456"
      using sb_store_body_ok [OF assms i that, where mode = mode and key = key] entry [OF that(1)] i header \<open>sb_find b q = Some i\<close>
      by (auto simp: protects_def)
    have again: "protects b q key body (Error_none, b)"
      if "ss_sent ?s" "dh_encryption_key (ss_header ?s) = key" "ss_payload_size ?s = length body"
        "body = take (length body) (pl_get (sb_payloads b) (ss_payload_index ?s))"
    proof -
      have "length (pl_get (sb_payloads b) (ss_payload_index ?s)) = length body"
        using sb_body_live [OF assms occ] that(3) by (simp add: slot_body_ok_def)
      then have "pl_get (sb_payloads b) (ss_payload_index ?s) = body" using that(4) by simp
      then have "(sb_outbound b i False) \<lparr>op_header := (ss_header ?s) \<lparr>dh_encryption_key := key\<rparr>, op_payload := body\<rparr>
          = sb_outbound b i False"
        using that(2) by (simp add: sb_outbound_def Let_def)
      then have "(sb_entries b)[i := Some ((sb_outbound b i False)
          \<lparr>op_header := (op_header (sb_outbound b i False)) \<lparr>dh_encryption_key := key\<rparr>, op_payload := body\<rparr>, True)] = sb_entries b"
        using list_update_id [of "sb_entries b" i] by (simp only: header entry [OF that(1)])
      then show ?thesis
        unfolding protects_def using entry [OF that(1)] i assms \<open>sb_find b q = Some i\<close> by (metis fst_conv snd_conv)
    qed
    have len: "length body \<le> 1456" if "\<not> 1456 - cs_authentication_tag_size suite < ss_plaintext_size ?s"
      "length body = ss_plaintext_size ?s + cs_authentication_tag_size suite"
      using that sb_body_live [OF assms occ] unfolding slot_body_ok_def by linarith
    define stored where "stored = (Error_none,
        (sb_set_slot b i (?s \<lparr>ss_payload_size := length body mod 65536, ss_protection_mode := mode,
           ss_header := (ss_header ?s) \<lparr>dh_encryption_key := key\<rparr>\<rparr>))
        \<lparr>sb_payloads := pl_store (sb_payloads b) (ss_payload_index ?s) body\<rparr>)"
    note fresh' = fresh [folded stored_def]
    show ?thesis
      unfolding sb_preserve_protected_payload_def \<open>sb_find b q = Some i\<close> Some option.case prod.case Let_def stored_def [symmetric]
    proof (intro protects_if, goal_cases)
      case 4
      let ?same = "dh_encryption_key (ss_header ?s) = key \<and> ss_protection_mode ?s = mode
          \<and> ss_payload_size ?s = length body
          \<and> body = take (length body) (pl_get (sb_payloads b) (ss_payload_index ?s))"
      show ?case
      proof (cases ?same)
        case True
        then have "protects b q key body (Error_none, b)" using again 4(1) by blast
        then show ?thesis unfolding if_P [OF True] .
      next
        case False
        then show ?thesis unfolding if_not_P [OF False] by (intro protects_error [OF assms]) simp
      qed
    next
      case 5
      then show ?case using fresh' len by simp
    qed (simp_all add: protects_error assms)
  qed
qed

section \<open>Dropping old messages from the front\<close>

lemma sb_discard_bytes:
  assumes "send_from k b" "i < sb_capacity b" "ss_occupied (sb_slot b i)"
  shows "sb_buffered_plaintext_bytes (sb_discard_slot b i r) + ss_plaintext_size (sb_slot b i) = sb_buffered_plaintext_bytes b"
proof -
  have "slot_bytes (sb_slot b i) \<le> sum_list (map slot_bytes (sb_slots b))"
    using sb_slots_mem [OF send_from_bounds(1) [OF assms(1)], of i] by (intro member_le_sum_list) simp_all
  then show ?thesis
    using assms by (simp add: sb_discard_slot_counters send_from_def send_counts_def slot_bytes_def)
qed

text \<open>
  The loop retires a prefix, up to a tombstone or to a packet that starts a message the cutoff
  does not reach. The bytes it reports are those that leave the buffer.
\<close>

lemma sb_drop_older_loop_ok:
  assumes "send_from k b" "k + remaining = sb_sequence_span b"
    "sb_drop_older_loop b cutoff m k c remaining = (n, c', b')"
  shows "k \<le> n \<and> n \<le> sb_sequence_span b \<and> send_from n b'
    \<and> sb_sequence_span b' = sb_sequence_span b \<and> sb_first_sequence b' = sb_first_sequence b
    \<and> sb_capacity b' = sb_capacity b \<and> sb_next_sequence_position b' = sb_next_sequence_position b
    \<and> c' + sb_buffered_plaintext_bytes b' = c + sb_buffered_plaintext_bytes b
    \<and> (\<forall>j. n \<le> j \<longrightarrow> j < sb_capacity b \<longrightarrow> sb_entry b' j = sb_entry b j)
    \<and> (\<forall>j. k \<le> j \<longrightarrow> j < n \<longrightarrow> ss_occupied (sb_slot b j))"
  using assms
proof (induction remaining arbitrary: b k c m)
  case (Suc r)
  let ?s = "sb_slot b k" and ?b = "sb_discard_slot b k False"
  have k: "k < sb_sequence_span b" "k < sb_capacity b" using Suc.prems send_from_bounds(4) [OF Suc.prems(1)] by simp_all
  show ?case
  proof (cases "\<not> ss_occupied ?s \<or> (\<not> (k \<noteq> 0 \<and> continues_message m (ss_header ?s))
      \<and> (\<not> ss_sent ?s \<or> ss_first_send_microseconds ?s > cutoff))")
    case True
    then have "sb_drop_older_loop b cutoff m k c (Suc r) = (k, c, b)" by (auto simp: Let_def)
    then show ?thesis using Suc.prems k by simp
  next
    case False
    have ok: "send_from (Suc k) ?b" using send_from_discard [OF Suc.prems(1) order_refl k(1), of False] by simp
    have span: "Suc k + r = sb_sequence_span ?b" using Suc.prems(2) by (simp add: sb_discard_slot_fields)
    have eq: "sb_drop_older_loop b cutoff m k c (Suc r)
        = sb_drop_older_loop ?b cutoff (dh_message_number (ss_header ?s)) (Suc k) (c + ss_plaintext_size ?s) r"
      using False by (auto simp: Let_def)
    have slots: "sb_slot ?b j = sb_slot b j" "sb_entry ?b j = sb_entry b j" if "Suc k \<le> j" "j < sb_capacity b" for j
      using that sb_slot_discard [OF k(2) that(2)] sb_entry_discard [OF Suc.prems(1) k(2) that(2)] by simp_all
    have bytes: "sb_buffered_plaintext_bytes ?b + ss_plaintext_size ?s = sb_buffered_plaintext_bytes b"
      using sb_discard_bytes [OF Suc.prems(1) k(2)] False by simp
    note IH = Suc.IH [OF ok span Suc.prems(3) [unfolded eq]]
    have "ss_occupied (sb_slot b j)" if "k \<le> j" "j < n" for j
    proof (cases "j = k")
      case False
      then have j: "Suc k \<le> j" using that by simp
      then have "ss_occupied (sb_slot ?b j)" "n \<le> sb_sequence_span ?b" using IH that by blast+
      then show ?thesis
        using slots(1) [OF j] that send_from_bounds(4) [OF Suc.prems(1)] by (simp add: sb_discard_slot_fields)
    qed (use \<open>\<not> (_ \<or> _)\<close> in simp)
    then show ?thesis using IH bytes slots by (simp add: sb_discard_slot_fields)
  qed
qed simp

lemma sb_drop_older_loop_boundary:
  assumes "send_from k b" "k + remaining = sb_sequence_span b"
    "sb_drop_older_loop b cutoff m k c remaining = (n, c', b')" "n < sb_sequence_span b" "ss_occupied (sb_slot b n)" "n \<noteq> 0"
  shows "\<not> continues_message (if n = k then m else dh_message_number (ss_header (sb_slot b (n - 1)))) (ss_header (sb_slot b n))"
  using assms
proof (induction remaining arbitrary: b k c m)
  case (Suc r)
  let ?s = "sb_slot b k" and ?b = "sb_discard_slot b k False"
  have k: "k < sb_sequence_span b" "k < sb_capacity b" using Suc.prems(1,2) send_from_bounds(4) [OF Suc.prems(1)] by simp_all
  show ?case
  proof (cases "\<not> ss_occupied ?s \<or> (\<not> (k \<noteq> 0 \<and> continues_message m (ss_header ?s))
      \<and> (\<not> ss_sent ?s \<or> ss_first_send_microseconds ?s > cutoff))")
    case True
    then have "sb_drop_older_loop b cutoff m k c (Suc r) = (k, c, b)" by (auto simp: Let_def)
    then show ?thesis using Suc.prems True by auto
  next
    case False
    have ok: "send_from (Suc k) ?b" using send_from_discard [OF Suc.prems(1) order_refl k(1), of False] by simp
    have span: "Suc k + r = sb_sequence_span ?b" using Suc.prems(2) by (simp add: sb_discard_slot_fields)
    have loop: "sb_drop_older_loop ?b cutoff (dh_message_number (ss_header ?s)) (Suc k) (c + ss_plaintext_size ?s) r = (n, c', b')"
      using False Suc.prems(3) by (auto simp: Let_def)
    have n: "Suc k \<le> n" "n < sb_capacity b"
      using sb_drop_older_loop_ok [OF ok span loop] Suc.prems(4) send_from_bounds(4) [OF Suc.prems(1)] by simp_all
    have slots: "sb_slot ?b j = sb_slot b j" if "Suc k \<le> j" "j < sb_capacity b" for j
      using that sb_slot_discard [OF k(2) that(2)] by simp
    have "\<not> continues_message (if n = Suc k then dh_message_number (ss_header ?s)
        else dh_message_number (ss_header (sb_slot ?b (n - 1)))) (ss_header (sb_slot ?b n))"
      using Suc.IH [OF ok span loop] Suc.prems(4-6) slots [OF n] by (simp add: sb_discard_slot_fields)
    moreover have "sb_slot ?b n = sb_slot b n" "n \<noteq> Suc k \<Longrightarrow> sb_slot ?b (n - 1) = sb_slot b (n - 1)"
      using n slots by simp_all
    ultimately show ?thesis using n(1) by (cases "n = Suc k") simp_all
  qed
qed simp

lemma sb_entry_advance: "sb_entry (sb_advance_window b n q) i = sb_entry b (n + i)"
  by (simp add: sb_entry_def sb_outbound_def sb_advance_slot sb_advance_fields)

lemma sb_bytes_frame:
  "sb_buffered_plaintext_bytes (sb_refresh_first_buffered_enqueue_time b) = sb_buffered_plaintext_bytes b"
  "sb_buffered_plaintext_bytes (sb_refresh_buffered_enqueue_time_bounds b) = sb_buffered_plaintext_bytes b"
  "sb_buffered_plaintext_bytes (sb_advance_window b n q) = sb_buffered_plaintext_bytes b"
  by (simp_all add: sb_refresh_first_buffered_enqueue_time_def sb_refresh_buffered_enqueue_time_bounds_def
      sb_advance_window_def Let_def split: option.split)

lemma sb_drop_messages_older_than_ok:
  assumes "send_ok b" "sb_drop_messages_older_than b cutoff = (r, b')"
  shows "send_ok b' \<and> sb_entries b' = drop (sd_packets r) (sb_entries b) \<and> sd_packets r \<le> sb_sequence_span b
    \<and> sb_first_sequence b' = seq_advanced (sb_first_sequence b) (of_nat (sd_packets r))
    \<and> sb_capacity b' = sb_capacity b \<and> sb_next_sequence_position b' = sb_next_sequence_position b
    \<and> sd_bytes r + sb_buffered_plaintext_bytes b' = sb_buffered_plaintext_bytes b"
proof (cases "sb_sequence_span b = 0 \<or> \<not> ss_sent (sb_slots b ! sb_head b)
    \<or> ss_first_send_microseconds (sb_slots b ! sb_head b) > cutoff")
  case True
  then have "sb_drop_messages_older_than b cutoff = (default_SendDropResult, b)"
    by (auto simp: sb_drop_messages_older_than_def Let_def)
  then show ?thesis using assms by (simp add: default_SendDropResult_def)
next
  case False
  define number where "number = dh_message_number (ss_header (sb_slots b ! sb_head b))"
  have head: "sb_slot b 0 = sb_slots b ! sb_head b"
    using send_from_bounds(3) [OF assms(1)] by (simp add: sb_slot_def sb_index_def)
  obtain m where span: "sb_sequence_span b = Suc m" using False by (cases "sb_sequence_span b") auto
  obtain n c b1 where loop: "sb_drop_older_loop b cutoff number 0 0 (sb_sequence_span b) = (n, c, b1)"
    by (metis prod_cases3)
  have occ: "ss_occupied (sb_slot b 0)" using False slot_ok_at [OF assms(1), of 0] by (simp add: head slot_ok_def)
  have "sb_drop_older_loop (sb_discard_slot b 0 False) cutoff number 1 (ss_plaintext_size (sb_slot b 0)) m = (n, c, b1)"
    using loop False occ by (simp add: span head [symmetric] number_def Let_def)
  from sb_drop_older_loop_ok [OF _ _ this] have "n \<noteq> 0"
    using send_from_discard [OF assms(1), of 0 False] span by (simp add: sb_discard_slot_fields)
  then obtain k where n: "n = Suc k" by (cases n) auto
  let ?final = "seq_advanced (sb_first_sequence b) (of_nat k)"
  have res: "r = \<lparr>sd_packets = n, sd_bytes = c, sd_first_message_number = number,
      sd_sequences = make_range (sb_first_sequence b) ?final\<rparr>"
    "b' = sb_refresh_first_buffered_enqueue_time (sb_advance_window b1 n (seq_next ?final))"
    using assms(2) False loop n by (auto simp: sb_drop_messages_older_than_def Let_def number_def [symmetric])
  note ok = sb_drop_older_loop_ok [OF assms(1) _ loop, simplified]
  have next_q: "seq_next ?final = seq_advanced (sb_first_sequence b) (of_nat n)"
    by (simp add: seq_next_advanced seq_advanced_advanced n add.commute)
  have adv: "send_ok (sb_advance_window b1 n (seq_next ?final))"
    using ok next_q by (intro sb_advance_window_ok) simp_all
  have "sb_entry (sb_advance_window b1 n (seq_next ?final)) i = sb_entry b (n + i)" if "n + i < sb_sequence_span b" for i
    using ok that send_from_bounds(4) [OF assms(1)] by (simp add: sb_entry_advance)
  then have "sb_entries (sb_advance_window b1 n (seq_next ?final)) = drop n (sb_entries b)"
    using ok by (intro nth_equalityI) (simp_all add: sb_advance_fields)
  then show ?thesis
    using ok adv next_q res by (simp add: sb_refresh_first_frame sb_advance_fields sb_bytes_frame)
qed

section \<open>Expiring a message\<close>

lemma sb_refresh_bounds_quiet:
  assumes "send_ok b" shows "quiet b (sb_refresh_buffered_enqueue_time_bounds b)"
proof -
  have "quiet b (sb_refresh_first_buffered_enqueue_time b)"
    using assms by (simp add: quiet_def sb_refresh_first_frame)
  moreover have "quiet c (c \<lparr>sb_last_buffered_enqueue_microseconds := t\<rparr>)" if "send_ok c" for c t
    using that by (simp add: quiet_def send_from_core send_shape_def)
  ultimately show ?thesis
    using quiet_trans quiet_ok by (auto simp: sb_refresh_buffered_enqueue_time_bounds_def Let_def split: option.split)
qed

text \<open>Turning one packet into a tombstone that records where its message starts.\<close>

lemma sb_tombstone_ok:
  fixes q :: SequenceNumber
  assumes "send_ok b" "i < sb_sequence_span b" "ss_occupied (sb_slot b i)"
  defines "b1 \<equiv> sb_discard_slot b i True"
  defines "d \<equiv> sb_slot b1 i"
  defines "b2 \<equiv> sb_set_slot b1 i (d \<lparr>ss_metadata := DropMetadata q (message_last (ss_metadata d)) (remaining_bytes (ss_metadata d))\<rparr>)"
  shows "send_ok b2" "sb_sequence_span b2 = sb_sequence_span b" "sb_first_sequence b2 = sb_first_sequence b"
    "sb_capacity b2 = sb_capacity b" "sb_next_sequence_position b2 = sb_next_sequence_position b"
    "sb_buffered_plaintext_bytes b2 + ss_plaintext_size (sb_slot b i) = sb_buffered_plaintext_bytes b"
    "j < sb_capacity b \<Longrightarrow> sb_entry b2 j = (if i = j then None else sb_entry b j)"
    "j < sb_capacity b \<Longrightarrow> i \<noteq> j \<Longrightarrow> sb_slot b2 j = sb_slot b j" "\<not> ss_occupied (sb_slot b2 i)"
proof -
  have i: "i < sb_capacity b" using assms(2) send_from_bounds(4) [OF assms(1)] by simp
  have ok1: "send_ok b1" using send_from_discard [OF assms(1) _ assms(2), of True] by (simp add: b1_def)
  have d: "d = discarded True (sb_slot b i)" using sb_slot_discard [OF i i] by (simp add: d_def b1_def)
  have q: "quiet b1 b2" unfolding b2_def
    using slot_ok_at [OF ok1, of i] d
    by (intro quiet_set_slot ok1) (auto simp: d_def [symmetric] same_standing_def slot_ok_def)
  then show "send_ok b2" by (rule quiet_ok)
  have span: "sb_sequence_span b1 = sb_sequence_span b" "sb_capacity b1 = sb_capacity b"
    by (simp_all add: b1_def sb_discard_slot_fields)
  then show "sb_sequence_span b2 = sb_sequence_span b" "sb_first_sequence b2 = sb_first_sequence b"
    "sb_capacity b2 = sb_capacity b" "sb_next_sequence_position b2 = sb_next_sequence_position b"
    by (simp_all add: b2_def b1_def sb_discard_slot_fields)
  show "sb_buffered_plaintext_bytes b2 + ss_plaintext_size (sb_slot b i) = sb_buffered_plaintext_bytes b"
    using sb_discard_bytes [OF assms(1) i assms(3), of True] by (simp add: b2_def b1_def)
  have slot: "sb_slot b2 j = (if i = j then d \<lparr>ss_metadata := DropMetadata q (message_last (ss_metadata d)) (remaining_bytes (ss_metadata d))\<rparr>
      else sb_slot b j)" if "j < sb_capacity b" for j
    using sb_slot_set [of i b1 j] i that span(2) sb_slot_discard [OF i that, of True] by (simp add: b2_def b1_def)
  then show "\<not> ss_occupied (sb_slot b2 i)" "j < sb_capacity b \<Longrightarrow> i \<noteq> j \<Longrightarrow> sb_slot b2 j = sb_slot b j"
    using i d by simp_all
  have "same_standing (sb_slot b1 i) (d \<lparr>ss_metadata := DropMetadata q (message_last (ss_metadata d)) (remaining_bytes (ss_metadata d))\<rparr>)"
    using d by (simp add: d_def [symmetric] same_standing_def)
  then show "sb_entry b2 j = (if i = j then None else sb_entry b j)" if "j < sb_capacity b"
    using sb_entry_same_standing [of i b1 j] i that span(2) sb_entry_discard [OF assms(1) i that, of True]
    by (simp add: b2_def b1_def)
qed

lemma sb_drop_message_loop_ok:
  assumes "send_ok b" "k + remaining = sb_sequence_span b" "sb_drop_message_loop b q m k c remaining = (n, c', b')"
  shows "k \<le> n \<and> n \<le> sb_sequence_span b \<and> send_ok b'
    \<and> sb_sequence_span b' = sb_sequence_span b \<and> sb_first_sequence b' = sb_first_sequence b
    \<and> sb_capacity b' = sb_capacity b \<and> sb_next_sequence_position b' = sb_next_sequence_position b
    \<and> c' + sb_buffered_plaintext_bytes b' = c + sb_buffered_plaintext_bytes b
    \<and> (\<forall>j < sb_capacity b. sb_entry b' j = (if k \<le> j \<and> j < n then None else sb_entry b j))
    \<and> (\<forall>j. k \<le> j \<longrightarrow> j < n \<longrightarrow> ss_occupied (sb_slot b j) \<and> dh_message_number (ss_header (sb_slot b j)) = m)
    \<and> (\<forall>j. k \<le> j \<longrightarrow> j < n \<longrightarrow> \<not> ss_occupied (sb_slot b' j))
    \<and> (\<forall>j < k. sb_slot b' j = sb_slot b j)
    \<and> (n < sb_sequence_span b \<longrightarrow> \<not> ss_occupied (sb_slot b n) \<or> dh_message_number (ss_header (sb_slot b n)) \<noteq> m)"
  using assms
proof (induction remaining arbitrary: b k c)
  case (Suc r)
  let ?s = "sb_slot b k"
  have k: "k < sb_sequence_span b" "k < sb_capacity b" using Suc.prems(2) send_from_bounds(4) [OF Suc.prems(1)] by simp_all
  show ?case
  proof (cases "\<not> ss_occupied ?s \<or> dh_message_number (ss_header ?s) \<noteq> m")
    case True
    then have "sb_drop_message_loop b q m k c (Suc r) = (k, c, b)" by (auto simp: Let_def)
    then show ?thesis using Suc.prems True k by auto
  next
    case False
    then have occ: "ss_occupied ?s" and num: "dh_message_number (ss_header ?s) = m" by auto
    define b2 where "b2 = (let b1 = sb_discard_slot b k True; d = sb_slot b1 k in sb_set_slot b1 k
      (d \<lparr>ss_metadata := DropMetadata q (message_last (ss_metadata d)) (remaining_bytes (ss_metadata d))\<rparr>))"
    note tomb = sb_tombstone_ok [OF Suc.prems(1) k(1) occ, where q = q, folded b2_def [unfolded Let_def]]
    have loop: "sb_drop_message_loop b2 q m (Suc k) (c + ss_plaintext_size ?s) r = (n, c', b')"
      using False Suc.prems(3) by (simp add: b2_def Let_def)
    have "Suc k + r = sb_sequence_span b2" using Suc.prems(2) tomb(2) by simp
    note IH = Suc.IH [OF tomb(1) this loop, unfolded tomb(2-5)]
    have n: "Suc k \<le> n" "n \<le> sb_sequence_span b" using IH by blast+
    have cap: "n \<le> sb_capacity b" using n send_from_bounds(4) [OF Suc.prems(1)] by simp
    have "ss_occupied (sb_slot b j) \<and> dh_message_number (ss_header (sb_slot b j)) = m" if "k \<le> j" "j < n" for j
    proof (cases "j = k")
      case False
      then have "Suc k \<le> j" using that by simp
      then have "ss_occupied (sb_slot b2 j) \<and> dh_message_number (ss_header (sb_slot b2 j)) = m" using IH that by blast
      then show ?thesis using tomb(8) [of j] that cap False by simp
    qed (simp add: occ num)
    moreover have "\<not> ss_occupied (sb_slot b' j)" if "k \<le> j" "j < n" for j
    proof (cases "j = k")
      case True
      then have "sb_slot b' j = sb_slot b2 k" using IH by blast
      then show ?thesis using tomb(9) by simp
    next
      case False
      then have "Suc k \<le> j" using that by simp
      then show ?thesis using IH that by blast
    qed
    moreover have "sb_slot b' j = sb_slot b j" if "j < k" for j
    proof -
      have "sb_slot b' j = sb_slot b2 j" using IH that by (meson less_SucI)
      then show ?thesis using tomb(8) [of j] that k by simp
    qed
    moreover have "sb_entry b' j = (if k \<le> j \<and> j < n then None else sb_entry b j)" if "j < sb_capacity b" for j
      using IH tomb(7) [OF that] that n(1) by (cases "j = k") (simp_all add: Suc_le_eq)
    moreover have "c' + sb_buffered_plaintext_bytes b' = c + sb_buffered_plaintext_bytes b" using IH tomb(6) by linarith
    moreover have "\<not> ss_occupied (sb_slot b n) \<or> dh_message_number (ss_header (sb_slot b n)) \<noteq> m" if "n < sb_sequence_span b"
    proof -
      have "sb_slot b2 n = sb_slot b n" using tomb(8) [of n] n that send_from_bounds(4) [OF Suc.prems(1)] by simp
      then show ?thesis using IH that by metis
    qed
    ultimately show ?thesis using IH n by (simp add: Suc_leD)
  qed
qed auto

lemma sb_record_drop_loop_quiet:
  assumes "send_ok b" "\<forall>j. k \<le> j \<longrightarrow> j < k + n \<longrightarrow> \<not> ss_occupied (sb_slot b j)" "k + n \<le> sb_capacity b"
  shows "quiet b (sb_record_drop_loop b q k t n)
    \<and> sb_buffered_plaintext_bytes (sb_record_drop_loop b q k t n) = sb_buffered_plaintext_bytes b"
  using assms
proof (induction n arbitrary: b t)
  case (Suc n)
  let ?s = "(sb_slot b (k + n)) \<lparr>ss_metadata := DropMetadata (message_first (ss_metadata (sb_slot b (k + n)))) q
    (t + ss_plaintext_size (sb_slot b (k + n)))\<rparr>"
  let ?b = "sb_set_slot b (k + n) ?s"
  have free: "\<not> ss_occupied (sb_slot b (k + n))" using Suc.prems(2) by simp
  have one: "quiet b ?b"
    using slot_ok_at [OF Suc.prems(1), of "k + n"] free
    by (intro quiet_set_slot Suc.prems(1)) (auto simp: same_standing_def slot_ok_def)
  have rest: "\<forall>j. k \<le> j \<longrightarrow> j < k + n \<longrightarrow> \<not> ss_occupied (sb_slot ?b j)"
    using Suc.prems(2,3) sb_slot_set [of "k + n" b _ ?s] by simp
  show ?case
    using quiet_trans [OF one] Suc.IH [OF quiet_ok [OF one] rest] Suc.prems(3) by (simp add: Let_def)
qed (simp add: quiet_refl)

text \<open>Expiry replaces exactly the run of packets of the message by gaps.\<close>

definition expires_run :: "SendBuffer \<Rightarrow> nat \<Rightarrow> SendDropResult \<times> SendBuffer \<Rightarrow> bool" where
  "expires_run b i res \<longleftrightarrow>
     (let n = sd_packets (fst res); m = dh_message_number (ss_header (sb_slot b i))
      in send_ok (snd res) \<and> 0 < n \<and> i + n \<le> sb_sequence_span b
         \<and> sb_entries (snd res) = take i (sb_entries b) @ replicate n None @ drop (i + n) (sb_entries b)
         \<and> sb_first_sequence (snd res) = sb_first_sequence b \<and> sb_capacity (snd res) = sb_capacity b
         \<and> sb_next_sequence_position (snd res) = sb_next_sequence_position b
         \<and> sd_bytes (fst res) + sb_buffered_plaintext_bytes (snd res) = sb_buffered_plaintext_bytes b
         \<and> sd_first_message_number (fst res) = m
         \<and> sd_sequences (fst res) = make_range (seq_advanced (sb_first_sequence b) (of_nat i))
             (seq_advanced (sb_first_sequence b) (of_nat (i + n - 1)))
         \<and> (\<forall>j < n. \<exists>p s. sb_entries b ! (i + j) = Some (p, s) \<and> dh_message_number (op_header p) = m)
         \<and> (\<forall>p s. i + n < sb_sequence_span b \<longrightarrow> sb_entries b ! (i + n) = Some (p, s) \<longrightarrow> dh_message_number (op_header p) \<noteq> m))"

lemma nth_replace_run:
  "i + m \<le> length xs \<Longrightarrow> j < length xs \<Longrightarrow>
     (take i xs @ replicate m y @ drop (i + m) xs) ! j = (if i \<le> j \<and> j < i + m then y else xs ! j)"
  by (auto simp: nth_append)

lemma sb_expire_message_ok:
  assumes "send_ok b" "i < sb_sequence_span b" "ss_occupied (sb_slot b i)"
  shows "expires_run b i (sb_expire_message b i)"
proof -
  let ?m = "dh_message_number (ss_header (sb_slot b i))" and ?q = "seq_advanced (sb_first_sequence b) (of_nat i)"
  obtain k c b1 where loop: "sb_drop_message_loop b ?q ?m i 0 (sb_sequence_span b - i) = (k, c, b1)"
    by (metis prod_cases3)
  note ok = sb_drop_message_loop_ok [OF assms(1) _ loop]
  have sum: "i + (sb_sequence_span b - i) = sb_sequence_span b" using assms(2) by simp
  note facts = ok [OF sum]
  have k: "i \<le> k" "k \<le> sb_sequence_span b" using facts by blast+
  have "k \<noteq> i" using facts assms by metis
  then obtain n where n: "k = i + Suc n" using k by (metis add_Suc_right less_iff_Suc_add le_neq_implies_less)
  let ?last = "seq_advanced ?q (of_nat n)"
  let ?b2 = "sb_record_drop_loop b1 ?last i 0 (Suc n)"
  have cap: "k \<le> sb_capacity b1" using facts k send_from_bounds(4) [OF assms(1)] by simp
  have rec: "quiet b1 ?b2" "sb_buffered_plaintext_bytes ?b2 = sb_buffered_plaintext_bytes b1"
    using sb_record_drop_loop_quiet [of b1 i "Suc n" ?last 0] facts n cap by auto
  note fin = quiet_trans [OF rec(1) sb_refresh_bounds_quiet [OF quiet_ok [OF rec(1)]]]
  have res: "sb_expire_message b i = (\<lparr>sd_packets = Suc n, sd_bytes = c, sd_first_message_number = ?m,
      sd_sequences = make_range ?q ?last\<rparr>, sb_refresh_buffered_enqueue_time_bounds ?b2)"
    using loop n by (simp add: sb_expire_message_def Let_def)
  have entries: "sb_entries b1 = take i (sb_entries b) @ replicate (Suc n) None @ drop (i + Suc n) (sb_entries b)"
  proof (rule nth_equalityI)
    have span: "sb_sequence_span b1 = sb_sequence_span b" using facts by blast
    show "length (sb_entries b1) = length (take i (sb_entries b) @ replicate (Suc n) None @ drop (i + Suc n) (sb_entries b))"
      using span n k by simp
    fix j assume "j < length (sb_entries b1)"
    then have j: "j < sb_sequence_span b" "j < sb_capacity b" using span send_from_bounds(4) [OF assms(1)] by simp_all
    have "sb_entry b1 j = (if i \<le> j \<and> j < i + Suc n then None else sb_entry b j)" using facts j(2) n by metis
    then show "sb_entries b1 ! j = (take i (sb_entries b) @ replicate (Suc n) None @ drop (i + Suc n) (sb_entries b)) ! j"
      using j(1) span n k nth_replace_run [of i "Suc n" "sb_entries b" j None] by (simp only: length_sb_entries sb_entries_nth)
  qed
  have header: "sb_entries b ! j = Some (p, s) \<Longrightarrow> op_header p = ss_header (sb_slot b j) \<and> ss_occupied (sb_slot b j)"
    if "j < sb_sequence_span b" for j p s
    using that by (auto simp: sb_entry_def sb_outbound_def Let_def split: if_splits)
  have "\<exists>p s. sb_entries b ! (i + j) = Some (p, s) \<and> dh_message_number (op_header p) = ?m" if "j < Suc n" for j
  proof -
    have "ss_occupied (sb_slot b (i + j)) \<and> dh_message_number (ss_header (sb_slot b (i + j))) = ?m"
      using facts that n by (metis add_less_cancel_left le_add1)
    then show ?thesis using that n k by (simp add: sb_entry_def sb_outbound_def Let_def)
  qed
  moreover have "dh_message_number (op_header p) \<noteq> ?m"
    if "i + Suc n < sb_sequence_span b" "sb_entries b ! (i + Suc n) = Some (p, s)" for p s
    using facts n header [OF that] that(1) by metis
  moreover have "?last = seq_advanced (sb_first_sequence b) (of_nat (i + Suc n - 1))"
    by (simp add: seq_advanced_advanced)
  moreover have "sb_first_sequence b1 = sb_first_sequence b" "sb_capacity b1 = sb_capacity b"
    "sb_next_sequence_position b1 = sb_next_sequence_position b" "c + sb_buffered_plaintext_bytes b1 = sb_buffered_plaintext_bytes b"
    using facts by simp_all
  ultimately show ?thesis
    unfolding expires_run_def res Let_def
    using fin rec(2) entries n k by (simp add: quiet_def sb_bytes_frame del: replicate_Suc)
qed

definition overdue :: "SendBuffer \<Rightarrow> u64 \<Rightarrow> nat \<Rightarrow> bool" where
  "overdue b now i \<longleftrightarrow>
     i < sb_sequence_span b \<and> slot_expires (sb_slot b i) \<and> expiration_microseconds (ss_metadata (sb_slot b i)) < now"

lemma sb_scan_expired_ok:
  assumes "k + remaining = sb_sequence_span b"
  shows "case sb_scan_expired b now k e remaining of
      Inl i \<Rightarrow> k \<le> i \<and> overdue b now i \<and> (\<forall>j. k \<le> j \<longrightarrow> j < i \<longrightarrow> \<not> overdue b now j)
    | Inr e' \<Rightarrow> e' \<le> e \<and> (\<forall>j. k \<le> j \<longrightarrow> j < sb_sequence_span b \<longrightarrow> slot_expires (sb_slot b j) \<longrightarrow>
        now \<le> expiration_microseconds (ss_metadata (sb_slot b j)) \<and> e' \<le> expiration_microseconds (ss_metadata (sb_slot b j)))"
  using assms
proof (induction remaining arbitrary: k e)
  case (Suc r)
  let ?s = "sb_slot b k" and ?x = "expiration_microseconds (ss_metadata (sb_slot b k))"
  have span: "Suc k + r = sb_sequence_span b" using Suc.prems by simp
  have split: "k \<le> j \<longleftrightarrow> j = k \<or> Suc k \<le> j" for j by auto
  consider (skip) "\<not> slot_expires ?s" | (keep) "slot_expires ?s" "now \<le> ?x" | (hit) "slot_expires ?s" "?x < now"
    by fastforce
  then show ?case
  proof cases
    case skip
    then have "sb_scan_expired b now k e (Suc r) = sb_scan_expired b now (Suc k) e r"
      by (simp add: slot_expires_def Let_def)
    then show ?thesis using Suc.IH [OF span, of e] skip by (auto simp: split overdue_def split: sum.splits)
  next
    case keep
    then have "sb_scan_expired b now k e (Suc r) = sb_scan_expired b now (Suc k) (min e ?x) r"
      by (simp add: slot_expires_def Let_def)
    then show ?thesis
      using Suc.IH [OF span, of "min e ?x"] keep by (auto simp: split overdue_def split: sum.splits)
  next
    case hit
    then have "sb_scan_expired b now k e (Suc r) = Inl k" by (auto simp: slot_expires_def Let_def)
    then show ?thesis using hit span by (auto simp: overdue_def)
  qed
qed simp

text \<open>
  The recorded bound is sound: when it has not passed, no packet is overdue, so the early return
  misses nothing. Otherwise the first overdue packet decides which message goes.
\<close>

lemma sb_no_overdue:
  assumes "send_ok b" "sb_expiring_packet_count b = 0 \<or> now \<le> sb_earliest_expiration_microseconds b"
  shows "\<not> overdue b now i"
proof
  assume late: "overdue b now i"
  have mem: "sb_slot b i \<in> set (sb_slots b)" using sb_slots_mem [OF send_from_bounds(1) [OF assms(1)]] .
  have "sb_expiring_packet_count b \<noteq> 0"
    using assms(1) mem late by (auto simp: send_from_def send_counts_def overdue_def filter_empty_conv)
  moreover have "sb_earliest_expiration_microseconds b \<le> expiration_microseconds (ss_metadata (sb_slot b i))"
    using assms(1) mem late by (simp add: send_from_def send_expiry_def overdue_def)
  ultimately show False using assms(2) late by (auto simp: overdue_def)
qed

lemma sb_drop_expired_message_ok:
  assumes "send_ok b"
  shows "if \<exists>i. overdue b now i then expires_run b (LEAST i. overdue b now i) (sb_drop_expired_message b now)
      else fst (sb_drop_expired_message b now) = default_SendDropResult \<and> quiet b (snd (sb_drop_expired_message b now))"
proof (cases "sb_expiring_packet_count b = 0 \<or> now \<le> sb_earliest_expiration_microseconds b")
  case True
  then show ?thesis using sb_no_overdue [OF assms True] quiet_refl [OF assms] by (simp add: sb_drop_expired_message_def)
next
  case False
  let ?r = "sb_scan_expired b now 0 0xffffffffffffffff (sb_sequence_span b)"
  note scan = sb_scan_expired_ok [of 0 "sb_sequence_span b" b now "0xffffffffffffffff"]
  have eq: "sb_drop_expired_message b now = (case ?r of Inl offset \<Rightarrow> sb_expire_message b offset
      | Inr e \<Rightarrow> (default_SendDropResult, b \<lparr>sb_earliest_expiration_microseconds := e\<rparr>))"
    unfolding sb_drop_expired_message_def if_not_P [OF False] ..
  show ?thesis
  proof (cases ?r)
    case (Inl i)
    with scan have i: "overdue b now i" "\<forall>j < i. \<not> overdue b now j" by simp_all
    then have "(LEAST i. overdue b now i) = i" by (intro Least_equality) (auto simp: not_le [symmetric])
    moreover have "expires_run b i (sb_expire_message b i)"
      using i(1) by (intro sb_expire_message_ok assms) (simp_all add: overdue_def slot_expires_def)
    ultimately show ?thesis using i(1) Inl eq by auto
  next
    case (Inr e)
    with scan have e: "\<forall>j < sb_sequence_span b. slot_expires (sb_slot b j) \<longrightarrow>
        now \<le> expiration_microseconds (ss_metadata (sb_slot b j)) \<and> e \<le> expiration_microseconds (ss_metadata (sb_slot b j))"
      by simp
    then have none: "\<not> overdue b now i" for i by (auto simp: overdue_def not_less [symmetric])
    have "e \<le> expiration_microseconds (ss_metadata s)" if s: "s \<in> set (sb_slots b)" "slot_expires s" for s
    proof -
      obtain i where i: "i < sb_capacity b" "s = sb_slot b i"
        using sb_slots_ex_offset [OF send_from_bounds(3) [OF assms] s(1)] .
      then have "i < sb_sequence_span b" using send_from_slot(3) [OF assms] s(2) by (auto simp: slot_expires_def)
      then show ?thesis using e i s(2) by blast
    qed
    then have "send_ok (b \<lparr>sb_earliest_expiration_microseconds := e\<rparr>)"
      using assms by (simp add: send_from_def send_shape_def send_window_def window_at_def send_cursor_def
          send_counts_def send_pool_def send_tree_def send_expiry_def)
    then show ?thesis using none Inr eq by (simp add: quiet_def)
  qed
qed

end
