(* ===== verification/Send_Buffer_Properties.thy ===== *)
theory Send_Buffer_Properties
  imports Send_Buffer_Drops "HOL-Library.Multiset"
begin

text \<open>
  The send buffers a client can reach with any sequence of operations, and the properties of the
  send buffer: its invariant seen from outside, the round trip of a message through fragmentation
  and selection, the check of loss reports, acknowledgement and expiry.
\<close>

section \<open>Messages\<close>

lemma send_max: "send_ok b \<Longrightarrow> 0 < sb_maximum_payload_size b \<and> sb_maximum_payload_size b \<le> 1456"
  by (simp add: send_from_def send_shape_def)

text \<open>A message is refused without a change, or its packets are appended to the window.\<close>

definition appends :: "SendBuffer \<Rightarrow> bytes \<Rightarrow> EnqueueRequest \<Rightarrow> SendBuffer \<Rightarrow> bool" where
  "appends b message req b' \<longleftrightarrow>
     (let cs = chunks (sb_maximum_payload_size b) message
      in send_ok b' \<and> sb_entries b' = sb_entries b @ map (\<lambda>p. Some (p, False))
             (message_packets req (sb_next_sequence b) (sb_next_sequence_position b) (length cs) cs)
         \<and> sb_first_sequence b' = sb_first_sequence b \<and> sb_capacity b' = sb_capacity b
         \<and> sb_maximum_payload_size b' = sb_maximum_payload_size b
         \<and> sb_next_sequence_position b' = sb_next_sequence_position b + of_nat (length cs))"

lemma sb_enqueue_message_ok:
  assumes "send_ok b" "sb_enqueue_message b message req = (e, b')"
  shows "if e = Error_none then appends b message req b' else b' = b"
    and "e = Error_none \<longleftrightarrow> message \<noteq> [] \<and> length (chunks (sb_maximum_payload_size b) message) \<le> sb_available b
      \<and> length (chunks (sb_maximum_payload_size b) message) + unat (sb_next_sequence_position b) < 2 ^ 64"
proof -
  define n where "n = length (chunks (sb_maximum_payload_size b) message)"
  have count: "(length message + sb_maximum_payload_size b - 1) div sb_maximum_payload_size b = n"
    unfolding n_def by (rule length_chunks [symmetric]) (use send_max [OF assms(1)] in simp)
  have pos: "n > 18446744073709551615 - unat (sb_next_sequence_position b) \<longleftrightarrow> \<not> n + unat (sb_next_sequence_position b) < 2 ^ 64"
    using unat_lt64 [of "sb_next_sequence_position b"] by auto
  have res: "sb_enqueue_message b message req =
      (if message = [] then (invalid_state, b)
       else if n > sb_available b then (buffer_too_small, b)
       else if \<not> n + unat (sb_next_sequence_position b) < 2 ^ 64 then (invalid_state, b)
       else (Error_none, sb_enqueue_packets b req message n n 0))"
    unfolding sb_enqueue_message_def Let_def count pos ..
  then show "e = Error_none \<longleftrightarrow> message \<noteq> [] \<and> n \<le> sb_available b \<and> n + unat (sb_next_sequence_position b) < 2 ^ 64"
    using assms(2) by (auto split: if_splits)
  have "appends b message req (sb_enqueue_packets b req message n n 0)" if "n \<le> sb_available b"
    using sb_enqueue_packets_ok [OF assms(1), of n n 0 message req] that send_from_bounds(4) [OF assms(1)]
    by (simp add: appends_def n_def sb_available_def Let_def)
  then show "if e = Error_none then appends b message req b' else b' = b"
    using assms(2) res by (auto split: if_splits)
qed

lemma sb_enqueue_message_send_ok:
  "send_ok b \<Longrightarrow> send_ok (snd (sb_enqueue_message b message req))"
  using sb_enqueue_message_ok(1) [of b message req "fst (sb_enqueue_message b message req)" "snd (sb_enqueue_message b message req)"]
  by (auto simp: appends_def Let_def split: if_splits)

lemma sb_enqueue_stream_send_ok: "send_ok b \<Longrightarrow> send_ok (snd (sb_enqueue_stream b src m t d u))"
  by (auto simp: sb_enqueue_stream_def Let_def split_beta sb_enqueue_message_send_ok)

section \<open>Reachable buffers\<close>

lemma acknowledges_send_ok: "send_ok b \<Longrightarrow> acknowledges b q res \<Longrightarrow> send_ok (snd res)"
  by (auto simp: acknowledges_def Let_def split: if_splits)

lemma sb_release_retired_prefix_ok: "send_ok b \<Longrightarrow> send_ok (sb_release_retired_prefix b)"
  using acknowledges_send_ok [OF _ sb_acknowledge_before_ok]
  by (simp add: sb_release_retired_prefix_def split: option.split)

lemma takes_unsent_quiet: "quiet b c \<Longrightarrow> takes_unsent c r = takes_unsent b r"
  by (simp add: takes_unsent_def quiet_def split: option.split)

lemma sb_next_packet_ok:
  assumes "send_ok b"
  shows "quiet b (snd (sb_next_packet b d allow now)) \<and> fst (sb_next_packet b d allow now) \<noteq> None
      \<and> retransmits b (fst (sb_next_packet b d allow now))
    \<or> takes_unsent b (sb_next_packet b d allow now)"
proof (cases "allow \<and> fst (sb_next_retransmission b d) \<noteq> None")
  case True
  then show ?thesis
    using sb_next_retransmission_quiet [OF assms, of d] by (auto simp: sb_next_packet_def split: prod.splits option.splits)
next
  case False
  let ?b = "if allow then snd (sb_next_retransmission b d) else b"
  have q: "quiet b ?b" using sb_next_retransmission_quiet [OF assms, of d] quiet_refl [OF assms] by simp
  have "sb_next_packet b d allow now = sb_next_original ?b d now"
    using False by (auto simp: sb_next_packet_def split: prod.splits option.splits)
  moreover have "takes_unsent ?b (sb_next_original ?b d now)" by (rule sb_next_original_ok [OF quiet_ok [OF q]])
  ultimately show ?thesis using takes_unsent_quiet [OF q] by simp
qed

lemma sb_next_packet_send_ok: "send_ok b \<Longrightarrow> send_ok (snd (sb_next_packet b d allow now))"
  using sb_next_packet_ok [of b d allow now] by (auto simp: takes_unsent_def quiet_def)

inductive send_reachable :: "SendBuffer \<Rightarrow> bool" where
  make: "make_SendBuffer storage first capacity mx = Some b \<Longrightarrow> capacity * 1456 \<le> length storage \<Longrightarrow> send_reachable b"
| synchronize: "send_reachable b \<Longrightarrow> send_reachable (snd (sb_synchronize_empty b q))"
| enqueue_message: "send_reachable b \<Longrightarrow> send_reachable (snd (sb_enqueue_message b message req))"
| enqueue_stream: "send_reachable b \<Longrightarrow> send_reachable (snd (sb_enqueue_stream b source m t d now))"
| next_packet: "send_reachable b \<Longrightarrow> send_reachable (snd (sb_next_packet b defer allow now))"
| peek: "send_reachable b \<Longrightarrow> send_reachable (snd (sb_peek_retransmission_packet b))"
| requeue: "send_reachable b \<Longrightarrow> send_reachable (sb_requeue_prepared_retransmission b q)"
| protect: "send_reachable b \<Longrightarrow> send_reachable (snd (sb_preserve_protected_payload b q key mode body))"
| submitted: "send_reachable b \<Longrightarrow> send_reachable (sb_note_packet_submitted b q)"
| acknowledge: "send_reachable b \<Longrightarrow> send_reachable (snd (sb_acknowledge_before b q))"
| acknowledge_submitted: "send_reachable b \<Longrightarrow> send_reachable (snd (sb_acknowledge_submitted_before b q))"
| request: "send_reachable b \<Longrightarrow> send_reachable (snd (snd (snd (sb_request_retransmission b r now minimum_repeat))))"
| request_last: "send_reachable b \<Longrightarrow> send_reachable (snd (sb_request_retransmission_of_last_sent b))"
| request_all: "send_reachable b \<Longrightarrow> send_reachable (snd (sb_request_retransmission_of_all_sent b))"
| retransmitted: "send_reachable b \<Longrightarrow> send_reachable (sb_note_retransmission_sent b q now)"
| pending_drop: "send_reachable b \<Longrightarrow> send_reachable (snd (sb_next_pending_drop_request b))"
| has_pending_drop: "send_reachable b \<Longrightarrow> send_reachable (snd (sb_has_pending_drop_request b))"
| queue_retained: "send_reachable b \<Longrightarrow> send_reachable (snd (sb_queue_retained_drop_requests b))"
| queue_ranges: "send_reachable b \<Longrightarrow> send_reachable (snd (sb_queue_range_drop_requests b ranges))"
| release_retired: "send_reachable b \<Longrightarrow> send_reachable (sb_release_retired_prefix b)"
| drop_older: "send_reachable b \<Longrightarrow> send_reachable (snd (sb_drop_messages_older_than b cutoff))"
| drop_expired: "send_reachable b \<Longrightarrow> send_reachable (snd (sb_drop_expired_message b now))"

lemma sb_drop_expired_send_ok: "send_ok b \<Longrightarrow> send_ok (snd (sb_drop_expired_message b now))"
  using sb_drop_expired_message_ok [of b now] by (auto simp: expires_run_def quiet_def Let_def split: if_splits)

lemma send_reachable_ok: "send_reachable b \<Longrightarrow> send_ok b"
proof (induction rule: send_reachable.induct)
  case (make storage first capacity mx b)
  then show ?case by (rule make_SendBuffer_ok(1))
next
  case (synchronize b q)
  then show ?case using sb_synchronize_empty_ok [of b q] by (metis prod.collapse)
next
  case (protect b q key mode body)
  then show ?case using sb_preserve_protected_payload_ok [of b q key body mode] by (simp add: protects_def)
next
  case (acknowledge_submitted b q)
  then show ?case
    using acknowledges_send_ok [OF _ sb_acknowledge_before_ok, of b q] by (simp add: sb_acknowledge_submitted_eq)
next
  case (drop_older b cutoff)
  then show ?case using sb_drop_messages_older_than_ok [of b cutoff] by (metis prod.collapse)
qed (simp_all add: sb_enqueue_message_send_ok sb_enqueue_stream_send_ok sb_next_packet_send_ok
    sb_peek_retransmission_packet_quiet [THEN conjunct1, THEN quiet_ok] sb_requeue_quiet [THEN quiet_ok]
    sb_note_packet_submitted_quiet [THEN quiet_ok] acknowledges_send_ok [OF _ sb_acknowledge_before_ok]
    sb_request_retransmission_quiet [THEN quiet_ok] sb_request_last_sent_quiet [THEN quiet_ok]
    sb_request_all_sent_quiet [THEN quiet_ok] sb_note_retransmission_sent_quiet [THEN quiet_ok]
    sb_next_pending_drop_request_quiet [THEN quiet_ok] sb_has_pending_drop_request_quiet [THEN quiet_ok]
    sb_queue_retained_quiet [THEN quiet_ok] sb_queue_range_drop_quiet [THEN quiet_ok]
    sb_release_retired_prefix_ok sb_drop_expired_send_ok)

section \<open>The counters seen from outside\<close>

lemma sb_slots_rotated:
  assumes "send_ok b" shows "mset (map (sb_slot b) [0..<sb_capacity b]) = mset (sb_slots b)"
proof -
  have "map (sb_slot b) [0..<sb_capacity b] = rotate (sb_head b) (sb_slots b)"
    by (intro nth_equalityI) (simp_all add: sb_capacity_def sb_slot_def sb_index_def nth_rotate)
  then have "mset (map (sb_slot b) [0..<sb_capacity b]) = mset (rotate (sb_head b) (sb_slots b))" by (rule arg_cong)
  also have "\<dots> = mset (sb_slots b)"
    by (metis append_take_drop_id mset_append rotate_drop_take union_commute)
  finally show ?thesis .
qed

lemma sb_count_window:
  assumes "send_ok b" "\<And>i. P (sb_slot b i) \<Longrightarrow> ss_occupied (sb_slot b i) \<or> ss_dropped (sb_slot b i)"
  shows "length (filter P (sb_slots b)) = length (filter (\<lambda>i. P (sb_slot b i)) [0..<sb_sequence_span b])"
proof -
  have "length (filter P (sb_slots b)) = length (filter P (map (sb_slot b) [0..<sb_capacity b]))"
    by (metis sb_slots_rotated [OF assms(1)] mset_filter size_mset)
  also have "\<dots> = length (filter (\<lambda>i. P (sb_slot b i)) [0..<sb_capacity b])"
    by (simp add: filter_map o_def)
  also have "[0..<sb_capacity b] = [0..<sb_sequence_span b] @ [sb_sequence_span b..<sb_capacity b]"
    using send_from_bounds(4) [OF assms(1)] upt_add_eq_append [of 0 "sb_sequence_span b" "sb_capacity b - sb_sequence_span b"] by simp
  also have "length (filter (\<lambda>i. P (sb_slot b i)) \<dots>) = length (filter (\<lambda>i. P (sb_slot b i)) [0..<sb_sequence_span b])"
    using send_from_slot(3) [OF assms(1)] assms(2) by (fastforce simp: filter_empty_conv)
  finally show ?thesis .
qed

lemma pl_get_size: "pool_ok p \<Longrightarrow> i \<in> pl_live p \<Longrightarrow> length (pl_get p i) \<le> 1456"
  using pool_ok_sizes [of p i] pl_live_bound [of p i] by (simp add: pl_get_def min.coboundedI2)

definition entry_sent :: "(OutboundPacket \<times> bool) option \<Rightarrow> bool" where
  "entry_sent e \<longleftrightarrow> (\<exists>p. e = Some (p, True))"

lemma sb_entry_cases:
  "sb_entry b i \<noteq> None \<longleftrightarrow> ss_occupied (sb_slot b i)"
  "slot_ok (sb_slot b i) \<Longrightarrow> entry_sent (sb_entry b i) \<longleftrightarrow> ss_sent (sb_slot b i)"
  by (auto simp: sb_entry_def entry_sent_def slot_ok_def)

lemma send_counters:
  assumes "send_ok b"
  shows "sb_occupied_count b = length (filter (\<lambda>e. e \<noteq> None) (sb_entries b))"
    "sb_packets_in_flight b = length (filter entry_sent (sb_entries b))"
    "sb_retained_drop_count b = length (filter (\<lambda>e. e = None) (sb_entries b))"
proof -
  have counts: "sb_occupied_count b = length (filter ss_occupied (sb_slots b))"
    "sb_retained_drop_count b = length (filter ss_dropped (sb_slots b))"
    "sb_packets_in_flight b = length (filter ss_sent (sb_slots b))"
    using assms by (simp_all add: send_from_def send_counts_def)
  have sent: "ss_sent (sb_slot b i) \<Longrightarrow> ss_occupied (sb_slot b i)" for i
    using slot_ok_at [OF assms, of i] by (simp add: slot_ok_def)
  have window: "length (filter P (sb_entries b)) = length (filter (\<lambda>i. P (sb_entry b i)) [0..<sb_sequence_span b])" for P
    by (simp add: sb_entries_def filter_map o_def)
  have cong: "length (filter (\<lambda>i. P (sb_slot b i)) [0..<sb_sequence_span b])
      = length (filter (\<lambda>i. Q (sb_entry b i)) [0..<sb_sequence_span b])"
    if "\<And>i. i < sb_sequence_span b \<Longrightarrow> P (sb_slot b i) \<longleftrightarrow> Q (sb_entry b i)" for P Q
    using that by (intro arg_cong [of _ _ length] filter_cong) auto
  have gap: "ss_dropped (sb_slot b i) \<longleftrightarrow> sb_entry b i = None" if "i < sb_sequence_span b" for i
    using send_from_slot(1) [OF assms, of i] that send_from_bounds(4) [OF assms] by (auto simp: sb_entry_def)
  show "sb_occupied_count b = length (filter (\<lambda>e. e \<noteq> None) (sb_entries b))"
    unfolding counts window by (subst sb_count_window [OF assms], blast, rule cong, simp only: sb_entry_cases)
  show "sb_packets_in_flight b = length (filter entry_sent (sb_entries b))"
    unfolding counts window using sent sb_entry_cases(2) [OF slot_ok_at [OF assms]]
    by (subst sb_count_window [OF assms], blast, intro cong, simp)
  show "sb_retained_drop_count b = length (filter (\<lambda>e. e = None) (sb_entries b))"
    unfolding counts window using gap by (subst sb_count_window [OF assms], blast, intro cong, simp)
qed

lemma sb_bytes_window:
  assumes "send_ok b"
  shows "sb_buffered_plaintext_bytes b = (\<Sum>i \<leftarrow> [0..<sb_sequence_span b]. slot_bytes (sb_slot b i))"
proof -
  have "sb_buffered_plaintext_bytes b = sum_list (map slot_bytes (sb_slots b))"
    using assms by (simp add: send_from_def send_counts_def)
  also have "\<dots> = sum_list (map slot_bytes (map (sb_slot b) [0..<sb_capacity b]))"
    by (metis sb_slots_rotated [OF assms] mset_map sum_mset_sum_list)
  also have "[0..<sb_capacity b] = [0..<sb_sequence_span b] @ [sb_sequence_span b..<sb_capacity b]"
    using send_from_bounds(4) [OF assms] upt_add_eq_append [of 0 "sb_sequence_span b" "sb_capacity b - sb_sequence_span b"] by simp
  also have "sum_list (map slot_bytes (map (sb_slot b) \<dots>)) =
      (\<Sum>i \<leftarrow> [0..<sb_sequence_span b]. slot_bytes (sb_slot b i)) + (\<Sum>i \<leftarrow> [sb_sequence_span b..<sb_capacity b]. slot_bytes (sb_slot b i))"
    by (simp add: o_def)
  also have "(\<Sum>i \<leftarrow> [sb_sequence_span b..<sb_capacity b]. slot_bytes (sb_slot b i)) = 0"
    using send_from_slot(3) [OF assms] by (fastforce simp: slot_bytes_def not_less [symmetric])
  finally show ?thesis by simp
qed

lemma sb_expiring_window:
  assumes "send_ok b"
  shows "sb_expiring_packet_count b = length (filter (\<lambda>i. slot_expires (sb_slot b i)) [0..<sb_sequence_span b])"
proof -
  have "sb_expiring_packet_count b = length (filter slot_expires (sb_slots b))"
    using assms by (simp add: send_from_def send_counts_def)
  then show ?thesis using sb_count_window [OF assms, of slot_expires] by (simp add: slot_expires_def)
qed

text \<open>
  C2. In every send buffer that any sequence of operations produces, the window holds packets with
  consecutive sequence numbers and positions, no body exceeds the maximum, and no packet in front
  of a sent one still waits to be sent. The counters are exact: the buffered packets, the packets
  in flight, the retained tombstones, the free space, the packets of the window with an
  expiration, and the plaintext bytes of the buffered packets of the window.
\<close>

theorem send_buffer_invariant:
  assumes "send_reachable b"
  shows "sb_occupied_count b = length (filter (\<lambda>e. e \<noteq> None) (sb_entries b))
    \<and> sb_packets_in_flight b = length (filter entry_sent (sb_entries b))
    \<and> sb_retained_drop_count b = length (filter (\<lambda>e. e = None) (sb_entries b))
    \<and> sb_available b + length (sb_entries b) = sb_capacity b
    \<and> sb_expiring_packet_count b = length (filter (\<lambda>i. ss_occupied (sb_slot b i)
        \<and> expiration_microseconds (ss_metadata (sb_slot b i)) \<noteq> 0) [0..<length (sb_entries b)])
    \<and> sb_buffered_plaintext_bytes b = (\<Sum>i \<leftarrow> [0..<length (sb_entries b)].
        if ss_occupied (sb_slot b i) then ss_plaintext_size (sb_slot b i) else 0)
    \<and> (\<forall>i p s. i < length (sb_entries b) \<longrightarrow> sb_entries b ! i = Some (p, s) \<longrightarrow>
        dh_sequence (op_header p) = seq_advanced (sb_first_sequence b) (of_nat i)
        \<and> op_sequence_position p + of_nat (length (sb_entries b) - i) = sb_next_sequence_position b
        \<and> length (op_payload p) \<le> 1456)
    \<and> (\<forall>i j p q. i < j \<longrightarrow> j < length (sb_entries b) \<longrightarrow> sb_entries b ! j = Some (p, True) \<longrightarrow>
        sb_entries b ! i \<noteq> Some (q, False))"
proof -
  have ok: "send_ok b" using send_reachable_ok [OF assms] .
  have "dh_sequence (op_header p) = seq_advanced (sb_first_sequence b) (of_nat i)
      \<and> op_sequence_position p + of_nat (length (sb_entries b) - i) = sb_next_sequence_position b
      \<and> length (op_payload p) \<le> 1456" if "i < sb_sequence_span b" "sb_entries b ! i = Some (p, s)" for i p s
  proof -
    have occ: "ss_occupied (sb_slot b i)" and p: "p = sb_outbound b i False"
      using that by (auto simp: sb_entry_def split: if_splits)
    have "window_at 0 b i" using ok that(1) by (simp add: send_from_def send_window_def send_shape_def)
    moreover have "length (pl_get (sb_payloads b) (ss_payload_index (sb_slot b i))) \<le> 1456"
      using sb_body_live [OF ok occ] ok
      by (intro pl_get_size) (simp_all add: send_from_def send_pool_def slot_body_ok_def)
    ultimately show ?thesis using that(1) by (simp add: p sb_outbound_def Let_def window_at_def)
  qed
  moreover have "sb_entries b ! i \<noteq> Some (q, False)"
    if "i < j" "j < sb_sequence_span b" "sb_entries b ! j = Some (p, True)" for i j p q
  proof -
    have "j < sb_next_unsent_offset b"
      using that(2,3) ok by (auto simp: sb_entry_def send_from_def send_cursor_def split: if_splits)
    then show ?thesis using sent_below_cursor [OF ok, of i] that by simp
  qed
  ultimately show ?thesis
    using send_counters [OF ok] send_from_bounds(4) [OF ok] sb_expiring_window [OF ok] sb_bytes_window [OF ok]
    by (simp add: sb_available_def slot_expires_def slot_bytes_def)
qed

text \<open>A buffer of two packets of at most two bytes for the witnesses.\<close>

abbreviation (input) small_buffer :: SendBuffer where
  "small_buffer \<equiv> the (make_SendBuffer (replicate 2912 0) (SequenceNumber 0x7fffffff) 2 2)"

abbreviation (input) small_request :: EnqueueRequest where
  "small_request \<equiv> \<lparr>er_message_number = 1, er_timestamp = PacketTimestamp 0, er_destination_socket_id = 9,
     er_in_order = True, er_enqueue_microseconds = 0, er_expiration_microseconds = 0\<rparr>"

lemma small_buffer_reachable: "send_reachable small_buffer"
proof -
  have "make_SendBuffer (replicate 2912 0) (SequenceNumber 0x7fffffff) 2 2 = Some small_buffer"
    by (simp add: make_SendBuffer_def checked_send_capacity_def make_PayloadPool_def pl_checked_bytes_def)
  then show ?thesis by (rule send_reachable.make) simp
qed

lemma small_buffer_fields:
  "sb_entries small_buffer = []" "sb_maximum_payload_size small_buffer = 2" "sb_available small_buffer = 2"
  "sb_next_sequence_position small_buffer = 0" "sb_next_sequence small_buffer = SequenceNumber 0x7fffffff"
  "sb_first_sequence small_buffer = SequenceNumber 0x7fffffff"
  by (simp_all add: make_SendBuffer_def checked_send_capacity_def make_PayloadPool_def pl_checked_bytes_def
      sb_entries_def sb_available_def sb_capacity_def sb_next_sequence_def)

theorem send_buffer_invariant_witness:
  "let b = snd (sb_enqueue_message small_buffer [1, 2, 3] small_request)
   in sb_occupied_count b = length (filter (\<lambda>e. e \<noteq> None) (sb_entries b))
      \<and> sb_available b + length (sb_entries b) = sb_capacity b
      \<and> sb_buffered_plaintext_bytes b = (\<Sum>i \<leftarrow> [0..<length (sb_entries b)].
          if ss_occupied (sb_slot b i) then ss_plaintext_size (sb_slot b i) else 0)"
  using send_buffer_invariant [OF send_reachable.enqueue_message [OF small_buffer_reachable, of "[1, 2, 3]" small_request]]
  by (simp add: Let_def)

section \<open>From a message to its packets and back\<close>

text \<open>Taking \<open>n\<close> packets without retransmissions in between.\<close>

fun sb_send_originals :: "nat \<Rightarrow> SendBuffer \<Rightarrow> u64 \<Rightarrow> OutboundPacket list \<times> SendBuffer" where
  "sb_send_originals 0 b now = ([], b)"
| "sb_send_originals (Suc n) b now =
     (case sb_next_packet b False False now of
        (None, b) \<Rightarrow> ([], b)
      | (Some p, b) \<Rightarrow> let (ps, b) = sb_send_originals n b now in (p # ps, b))"

lemma take_unsent_append:
  "take_unsent es = None \<Longrightarrow> take_unsent (es @ Some (p, False) # fs) = Some (p, es @ Some (p, True) # fs)"
  by (induction es rule: take_unsent.induct) auto

lemma take_unsent_sent:
  "take_unsent es = None \<Longrightarrow> take_unsent (es @ [Some (p, True)]) = None"
  by (induction es rule: take_unsent.induct) auto

lemma sb_next_packet_originals: "sb_next_packet b d False now = sb_next_original b d now"
  by (simp add: sb_next_packet_def)

lemma sb_send_originals_ok:
  assumes "send_ok b" "take_unsent es = None" "sb_entries b = es @ map (\<lambda>p. Some (p, False)) ps"
  shows "fst (sb_send_originals (length ps) b now) = ps \<and> send_ok (snd (sb_send_originals (length ps) b now))
    \<and> sb_entries (snd (sb_send_originals (length ps) b now)) = es @ map (\<lambda>p. Some (p, True)) ps"
  using assms
proof (induction ps arbitrary: b es)
  case (Cons p ps)
  note step = sb_next_original_ok [OF Cons.prems(1), of False now]
  have take: "take_unsent (sb_entries b) = Some (p, es @ Some (p, True) # map (\<lambda>p. Some (p, False)) ps)"
    using take_unsent_append [OF Cons.prems(2)] by (simp add: Cons.prems(3))
  obtain r b1 where res: "sb_next_original b False now = (r, b1)" by fastforce
  have r: "r = Some p" "sb_entries b1 = (es @ [Some (p, True)]) @ map (\<lambda>p. Some (p, False)) ps" "send_ok b1"
    using step take by (auto simp: takes_unsent_def res split: option.splits)
  show ?case
    using Cons.IH [OF r(3) take_unsent_sent [OF Cons.prems(2)] r(2)] r(1)
    by (simp add: sb_next_packet_originals res Let_def split_beta)
qed simp

text \<open>
  C3. A message is accepted exactly when it is not empty, its packets fit the free space and the
  64-bit positions do not overflow; a refusal changes nothing. Once accepted, the packets selected
  next (when nothing older waits) carry the message: their bodies concatenate to it, none is
  larger than the maximum, their sequence numbers and positions are consecutive, and the boundary
  flags mark the first and the last.
\<close>

theorem message_fragments_round_trip:
  assumes "send_reachable b" "take_unsent (sb_entries b) = None" "sb_enqueue_message b message req = (e, b')"
  defines "mx \<equiv> sb_maximum_payload_size b"
  defines "n \<equiv> (length message + mx - 1) div mx"
  shows "(e = Error_none \<longleftrightarrow>
        message \<noteq> [] \<and> n \<le> sb_available b \<and> n + unat (sb_next_sequence_position b) < 2 ^ 64)
    \<and> (e \<noteq> Error_none \<longrightarrow> b' = b)
    \<and> (e = Error_none \<longrightarrow> (let ps = fst (sb_send_originals n b' now)
        in length ps = n \<and> concat (map op_payload ps) = message
           \<and> (\<forall>i < n. length (op_payload (ps ! i)) \<le> mx
                \<and> op_header (ps ! i) = request_header req (seq_advanced (sb_next_sequence b) (of_nat i))
                    (boundary_of (i = 0) (Suc i = n))
                \<and> op_sequence_position (ps ! i) = sb_next_sequence_position b + of_nat i)))"
proof -
  have ok: "send_ok b" using send_reachable_ok [OF assms(1)] .
  define cs where "cs = chunks mx message"
  define ps where "ps = message_packets req (sb_next_sequence b) (sb_next_sequence_position b) n cs"
  have mx: "0 < mx" using send_max [OF ok] by (simp add: mx_def)
  have n: "length cs = n" using length_chunks [OF mx] by (simp add: cs_def n_def)
  have sent: "fst (sb_send_originals n b' now) = ps" if "e = Error_none"
  proof -
    have "appends b message req b'" using sb_enqueue_message_ok(1) [OF ok assms(3)] that by simp
    then have "send_ok b'" "sb_entries b' = sb_entries b @ map (\<lambda>p. Some (p, False)) ps"
      by (simp_all add: appends_def Let_def mx_def [symmetric] cs_def [symmetric] n ps_def)
    from sb_send_originals_ok [OF this(1) assms(2) this(2)] show ?thesis by (simp add: ps_def n)
  qed
  have "concat (map op_payload ps) = message" by (simp add: ps_def message_packets_payloads cs_def concat_chunks mx)
  moreover have "length (op_payload (ps ! i)) \<le> mx
      \<and> op_header (ps ! i) = request_header req (seq_advanced (sb_next_sequence b) (of_nat i)) (boundary_of (i = 0) (Suc i = n))
      \<and> op_sequence_position (ps ! i) = sb_next_sequence_position b + of_nat i" if "i < n" for i
  proof -
    have "n = n - i \<longleftrightarrow> i = 0" using that by auto
    moreover have "length (cs ! i) \<le> mx" using chunks_sizes [of "cs ! i" mx message] that n by (simp add: cs_def)
    ultimately show ?thesis using that message_packets_nth [of i cs req] n by (simp add: ps_def)
  qed
  ultimately show ?thesis
    using sb_enqueue_message_ok [OF ok assms(3)] sent n ps_def
    by (simp add: Let_def mx_def [symmetric] cs_def [symmetric] split: if_splits)
qed

theorem message_fragments_round_trip_witness:
  "let r = sb_enqueue_message small_buffer [1, 2, 3] small_request; ps = fst (sb_send_originals 2 (snd r) 0)
   in fst r = Error_none \<and> concat (map op_payload ps) = [1, 2, 3] \<and> map (dh_boundary \<circ> op_header) ps
      = [MessageBoundary_first, MessageBoundary_last]"
proof -
  define r where "r = sb_enqueue_message small_buffer [1, 2, 3] small_request"
  have "sb_enqueue_message small_buffer [1, 2, 3] small_request = (fst r, snd r)" by (simp add: r_def)
  note trip = message_fragments_round_trip [OF small_buffer_reachable _ this, of 0]
  have n: "(length [1, 2, 3 :: u8] + sb_maximum_payload_size small_buffer - 1) div sb_maximum_payload_size small_buffer = 2"
    by (simp add: small_buffer_fields)
  have free: "take_unsent (sb_entries small_buffer) = None" by (simp add: small_buffer_fields)
  from trip [OF free, unfolded n, unfolded small_buffer_fields Let_def]
  have ok: "fst r = Error_none" and ps: "length (fst (sb_send_originals 2 (snd r) 0)) = 2"
    "concat (map op_payload (fst (sb_send_originals 2 (snd r) 0))) = [1, 2, 3]"
    "\<forall>i < 2. dh_boundary (op_header (fst (sb_send_originals 2 (snd r) 0) ! i)) = boundary_of (i = 0) (Suc i = 2)"
    by (simp_all add: request_header_def del: sb_send_originals.simps)
  have "map (dh_boundary \<circ> op_header) (fst (sb_send_originals 2 (snd r) 0)) = [MessageBoundary_first, MessageBoundary_last]"
    using ps(1,3) by (intro nth_equalityI) (auto simp: boundary_of_def less_Suc_eq numeral_2_eq_2)
  then show ?thesis using ok ps(2) unfolding r_def Let_def by simp
qed

section \<open>Loss reports, acknowledgements and expiry\<close>

text \<open>
  C10. The check of a reported range, which counts tombstones with the binary indexed tree, is
  equivalent to its reference: the range is accepted exactly when its ends lie in the window in
  order and no packet between them is still unsent. Anything else is rejected as an invalid
  report, and a rejected report queues nothing.
\<close>

theorem retransmission_range_check:
  assumes "send_reachable b"
  shows "(sb_validate_retransmission_range b r = Error_none \<longleftrightarrow> range_requestable b r)
    \<and> (\<not> range_requestable b r \<longrightarrow>
        sb_request_retransmission b r now minimum_repeat = (invalid_control_payload, 0, 0, b))"
  using sb_validate_range_requestable [OF send_reachable_ok [OF assms], of r]
  by (simp add: sb_request_retransmission_def Let_def)

theorem retransmission_range_check_witness:
  "sb_request_retransmission small_buffer (make_range (SequenceNumber 0) (SequenceNumber 1)) 0 0
     = (invalid_control_payload, 0, 0, small_buffer)"
proof -
  have "\<not> range_requestable small_buffer (make_range (SequenceNumber 0) (SequenceNumber 1))"
    using small_buffer_fields(1) by (auto simp: range_requestable_def simp flip: length_sb_entries)
  with retransmission_range_check [OF small_buffer_reachable] show ?thesis by blast
qed

text \<open>
  C11. Acknowledging retires exactly the packets before the acknowledged number: the window starts
  there and the others keep their place and state. A number behind the window changes nothing; one
  beyond it is rejected without a change. An acknowledgement from the network is also rejected,
  without a change, when it covers a packet that was never handed to the network.
\<close>

theorem acknowledge_exact:
  fixes q :: SequenceNumber
  assumes "send_reachable b"
  defines "d \<equiv> seq_distance q (sb_first_sequence b)"
  shows "(d < 0 \<longrightarrow> sb_acknowledge_before b q = (Error_none, b))
    \<and> (d > int (length (sb_entries b)) \<longrightarrow> sb_acknowledge_before b q = (invalid_control_payload, b))
    \<and> (0 \<le> d \<and> d \<le> int (length (sb_entries b)) \<longrightarrow> fst (sb_acknowledge_before b q) = Error_none
        \<and> sb_entries (snd (sb_acknowledge_before b q)) = drop (nat d) (sb_entries b)
        \<and> sb_first_sequence (snd (sb_acknowledge_before b q)) = q)
    \<and> sb_acknowledge_submitted_before b q =
        (if \<exists>i. int i < d \<and> ss_occupied (sb_slot b i) \<and> \<not> ss_submitted (sb_slot b i)
         then (invalid_control_payload, b) else sb_acknowledge_before b q)"
proof -
  have ok: "send_ok b" using send_reachable_ok [OF assms(1)] .
  have "sb_acknowledge_submitted_before b q =
      (if \<exists>i. int i < d \<and> ss_occupied (sb_slot b i) \<and> \<not> ss_submitted (sb_slot b i)
       then (invalid_control_payload, b) else sb_acknowledge_before b q)"
    using sb_acknowledge_submitted_eq [of b q] by (simp add: d_def)
  then show ?thesis
    using sb_acknowledge_before_ok [OF ok, of q]
    by (auto simp: acknowledges_def Let_def d_def [symmetric] split: if_splits)
qed

theorem acknowledge_exact_witness:
  "let b = snd (sb_enqueue_message small_buffer [1, 2, 3] small_request)
   in sb_acknowledge_submitted_before b (SequenceNumber 0) = (invalid_control_payload, b)
      \<and> sb_entries (snd (sb_acknowledge_before b (SequenceNumber 0))) = tl (sb_entries b)"
proof -
  define b where "b = snd (sb_enqueue_message small_buffer [1, 2, 3] small_request)"
  have reach: "send_reachable b" unfolding b_def by (rule send_reachable.enqueue_message [OF small_buffer_reachable])
  have two: "chunks 2 [1, 2, 3 :: u8] = [[1, 2], [3]]" by (simp add: chunks.simps)
  have "sb_enqueue_message small_buffer [1, 2, 3] small_request = (Error_none, b)"
    using sb_enqueue_message_ok(2) [OF send_reachable_ok [OF small_buffer_reachable], of "[1, 2, 3]" small_request]
    by (simp add: b_def small_buffer_fields two) (metis prod.collapse)
  from sb_enqueue_message_ok(1) [OF send_reachable_ok [OF small_buffer_reachable] this]
  have app: "appends small_buffer [1, 2, 3] small_request b" by simp
  then have first: "sb_first_sequence b = SequenceNumber 0x7fffffff" and len: "length (sb_entries b) = 2"
    by (simp_all only: appends_def Let_def small_buffer_fields two) simp_all
  have e0: "sb_entries b ! 0 \<noteq> None" "sb_entries b \<noteq> []"
    using app by (simp_all add: appends_def Let_def small_buffer_fields two)
  have d: "seq_distance (SequenceNumber 0) (SequenceNumber 0x7fffffff) = 1" by code_simp
  have occ: "ss_occupied (sb_slot b 0)" using e0 len sb_entry_cases(1) [of b 0] by simp
  have "\<not> ss_submitted (sb_slot b 0)"
  proof -
    have "\<not> entry_sent (sb_entries b ! 0)" using app by (simp add: appends_def Let_def small_buffer_fields two entry_sent_def)
    then show ?thesis
      using len slot_ok_at [OF send_reachable_ok [OF reach], of 0] sb_entry_cases(2) [of b 0] by (simp add: slot_ok_def)
  qed
  then have bad: "\<exists>i. int i < 1 \<and> ss_occupied (sb_slot b i) \<and> \<not> ss_submitted (sb_slot b i)" using occ by (intro exI [of _ 0]) simp
  note ack = acknowledge_exact [OF reach, of "SequenceNumber 0", unfolded first d len]
  show ?thesis
    unfolding b_def [symmetric] Let_def using ack bad by (simp add: drop_Suc)
qed

text \<open>
  C17. Expiry drops exactly one message, and only when it is due. If no packet in the window is
  overdue nothing is dropped, whatever the cached bound says. Otherwise the first overdue packet
  decides: it and the packets of the same message that follow it without a gap become tombstones,
  everything else keeps its place and state, and the reported range, message number and bytes are
  exactly those dropped.
\<close>

theorem expired_message_dropped:
  assumes "send_reachable b"
  shows "((\<forall>i. \<not> overdue b now i) \<longrightarrow> fst (sb_drop_expired_message b now) = default_SendDropResult
        \<and> sb_entries (snd (sb_drop_expired_message b now)) = sb_entries b)
    \<and> (overdue b now i \<and> (\<forall>j < i. \<not> overdue b now j) \<longrightarrow> expires_run b i (sb_drop_expired_message b now))"
proof -
  note drop = sb_drop_expired_message_ok [OF send_reachable_ok [OF assms], of now]
  have "(LEAST i. overdue b now i) = i" if "overdue b now i" "\<forall>j < i. \<not> overdue b now j"
    using that by (intro Least_equality) (auto simp: not_le [symmetric])
  with drop show ?thesis by (auto simp: quiet_def split: if_splits)
qed

theorem expired_message_dropped_witness:
  "let b = snd (sb_enqueue_message small_buffer [1] (small_request \<lparr>er_expiration_microseconds := 5\<rparr>))
   in overdue b 6 0 \<and> expires_run b 0 (sb_drop_expired_message b 6)"
proof -
  define req where "req = small_request \<lparr>er_expiration_microseconds := 5\<rparr>"
  define b where "b = sb_enqueue_packet small_buffer req [1] MessageBoundary_solo"
  have b: "snd (sb_enqueue_message small_buffer [1] req) = b"
    by (simp add: sb_enqueue_message_def small_buffer_fields boundary_of_def b_def)
  have reach: "send_reachable b"
    using send_reachable.enqueue_message [OF small_buffer_reachable, of "[1]" req] by (simp only: b)
  have span: "sb_sequence_span small_buffer = 0" "sb_capacity small_buffer = 2"
    by (simp_all add: make_SendBuffer_def checked_send_capacity_def make_PayloadPool_def pl_checked_bytes_def sb_capacity_def)
  have "sb_slot b 0 = enqueued small_buffer req [1] MessageBoundary_solo"
    using sb_slot_enqueue [of small_buffer 0 req "[1]" MessageBoundary_solo] span by (simp add: b_def)
  then have due: "overdue b 6 0"
    using span(1) by (simp add: overdue_def slot_expires_def b_def sb_enqueue_packet_fields) (simp add: enqueued_def req_def)
  then have "expires_run b 0 (sb_drop_expired_message b 6)" using expired_message_dropped [OF reach, of 6 0] by simp
  with due show ?thesis unfolding req_def [symmetric] b Let_def ..
qed

end
