(* ===== verification/Bit_Index.thy ===== *)
theory Bit_Index
  imports SRT_Prelude
begin

text \<open>
  The occupancy index of \<^verbatim>\<open>receive_buffer.cpp\<close>: one leaf bit for every slot of the ring and, on
  each further level, one bit for every word of the level below that is not zero. All levels lie
  in one array of 64-bit words. The searches skip empty regions by climbing the levels; the
  theorems show that they find exactly what a linear scan finds.
\<close>

section \<open>Layout\<close>

text \<open>
  The loop of the constructor that lays out the levels. The source stops at \<open>words = 1\<close>; a
  capacity of at least one slot never gives fewer words.
\<close>

function level_offsets :: "nat \<Rightarrow> nat \<Rightarrow> nat list \<times> nat" where
  "level_offsets words total_words =
     (if words \<le> 1 then ([total_words], total_words + words)
      else let (offsets, words_used) = level_offsets ((words + 63) div 64) (total_words + words)
           in (total_words # offsets, words_used))"
  by pat_completeness auto
termination by (relation "measure fst") auto

declare level_offsets.simps [simp del]

section \<open>Operations\<close>

text \<open>\<^verbatim>\<open>std::countr_zero\<close> and \<^verbatim>\<open>std::countl_zero\<close>.\<close>

definition countr_zero :: "u64 \<Rightarrow> nat" where
  "countr_zero w = length (takeWhile (\<lambda>i. \<not> bit w i) [0..<64])"

definition countl_zero :: "u64 \<Rightarrow> nat" where
  "countl_zero w = length (takeWhile (\<lambda>i. \<not> bit w (63 - i)) [0..<64])"

text \<open>The loop of \<open>index_occupied\<close> over the levels.\<close>

function index_loop :: "nat list \<Rightarrow> u64 list \<Rightarrow> nat \<Rightarrow> nat \<Rightarrow> bool \<Rightarrow> u64 list" where
  "index_loop offsets index level position occupied =
     (if level < length offsets then
        let word_position = position div 64;
            word = index ! (offsets ! level + word_position);
            was_nonempty = (word \<noteq> 0);
            b = push_bit (position mod 64) 1 :: u64;
            word' = (if occupied then or word b else and word (not b));
            index' = index[offsets ! level + word_position := word'];
            nonempty = (word' \<noteq> 0)
        in if was_nonempty = nonempty then index'
           else index_loop offsets index' (level + 1) word_position nonempty
      else index)"
  by pat_completeness auto
termination by (relation "measure (\<lambda>(offsets, index, level, position, occupied). length offsets - level)") auto

declare index_loop.simps [simp del]

function next_occupied_bit :: "nat list \<Rightarrow> u64 list \<Rightarrow> nat \<Rightarrow> nat \<Rightarrow> nat \<Rightarrow> nat option" where
  "next_occupied_bit offsets index level from to =
     (if from \<ge> to then None
      else
        let word_position = from div 64;
            word = and (index ! (offsets ! level + word_position)) (push_bit (from mod 64) (- 1))
        in if word \<noteq> 0 then
             let found = word_position * 64 + countr_zero word in if found < to then Some found else None
           else if level + 1 \<ge> length offsets then None
           else
             case next_occupied_bit offsets index (level + 1) (word_position + 1) ((to + 63) div 64) of
               None \<Rightarrow> None
             | Some next_word \<Rightarrow>
                 let found = next_word * 64 + countr_zero (index ! (offsets ! level + next_word))
                 in if found < to then Some found else None)"
  by pat_completeness auto
termination by (relation "measure (\<lambda>(offsets, index, level, from, to). length offsets - level)") auto

function previous_storage_bit :: "nat list \<Rightarrow> u64 list \<Rightarrow> nat \<Rightarrow> nat \<Rightarrow> nat \<Rightarrow> nat option" where
  "previous_storage_bit offsets index level from to =
     (if from \<ge> to then None
      else
        let position = (to - 1) div 64;
            word = and (index ! (offsets ! level + position)) (drop_bit (63 - (to - 1) mod 64) (- 1))
        in if word \<noteq> 0 then
             let found = position * 64 + 63 - countl_zero word in if found \<ge> from then Some found else None
           else if level + 1 \<ge> length offsets then None
           else
             case previous_storage_bit offsets index (level + 1) (from div 64) position of
               None \<Rightarrow> None
             | Some previous \<Rightarrow>
                 let found = previous * 64 + 63 - countl_zero (index ! (offsets ! level + previous))
                 in if found \<ge> from then Some found else None)"
  by pat_completeness auto
termination by (relation "measure (\<lambda>(offsets, index, level, from, to). length offsets - level)") auto

declare next_occupied_bit.simps [simp del] previous_storage_bit.simps [simp del]

section \<open>Bits of a word\<close>

lemma length_takeWhile_least:
  assumes "\<exists>i < n. P i"
  shows "length (takeWhile (\<lambda>i. \<not> P i) [0..<n]) = (LEAST i. P i)"
proof -
  let ?k = "length (takeWhile (\<lambda>i. \<not> P i) [0..<n])"
  have k: "?k < n"
    using assms by (metis atLeastLessThan_iff length_upt minus_nat.diff_0 le0 nat_less_le length_takeWhile_le
        set_upt takeWhile_eq_all_conv takeWhile_eq_take take_all_iff)
  then have "P ?k" using nth_length_takeWhile [of "\<lambda>i. \<not> P i" "[0..<n]"] by simp
  moreover have "\<not> P i" if "i < ?k" for i
    using that k nth_mem [of i "takeWhile (\<lambda>i. \<not> P i) [0..<n]"] takeWhile_nth [OF that]
    by (auto dest: set_takeWhileD)
  ultimately show ?thesis by (intro Least_equality [symmetric]) (auto simp: not_le [symmetric])
qed

lemma word_bit_ex:
  assumes "w \<noteq> 0"
  shows "\<exists>i < 64. bit (w :: u64) i"
proof (rule ccontr)
  assume "\<not> ?thesis"
  then have "w = 0" by (intro bit_word_eqI) simp
  with assms show False by simp
qed

lemma word_nonzero_iff: "(w :: u64) \<noteq> 0 \<longleftrightarrow> (\<exists>i < 64. bit w i)"
  using word_bit_ex by auto

lemma countr_zero_least: "w \<noteq> 0 \<Longrightarrow> countr_zero w = (LEAST i. bit w i)"
  unfolding countr_zero_def by (rule length_takeWhile_least) (rule word_bit_ex)

lemma countr_zero_bit:
  assumes "w \<noteq> 0"
  shows "bit w (countr_zero w)" "countr_zero w < 64" "\<And>i. i < countr_zero w \<Longrightarrow> \<not> bit w i"
proof -
  show b: "bit w (countr_zero w)"
    unfolding countr_zero_least [OF assms] using word_bit_ex [OF assms] by (metis LeastI)
  then show "countr_zero w < 64" using bit_imp_le_length by fastforce
  show "\<not> bit w i" if "i < countr_zero w" for i
    using that not_less_Least unfolding countr_zero_least [OF assms] by blast
qed

lemma countl_zero_bit:
  assumes "w \<noteq> 0"
  shows "bit w (63 - countl_zero w)" "countl_zero w < 64" "\<And>i. 63 - countl_zero w < i \<Longrightarrow> \<not> bit w i"
proof -
  obtain j where j: "j < 64" "bit w j" using word_bit_ex [OF assms] by blast
  then have ex: "\<exists>i < 64. bit w (63 - i)" by (intro exI [of _ "63 - j"]) simp
  then have eq: "countl_zero w = (LEAST i. bit w (63 - i))"
    unfolding countl_zero_def by (rule length_takeWhile_least)
  show b: "bit w (63 - countl_zero w)" unfolding eq using ex by (metis LeastI)
  have "countl_zero w \<le> 63 - j" unfolding eq using j by (intro Least_le) simp
  then show "countl_zero w < 64" by simp
  show "\<not> bit w i" if "63 - countl_zero w < i" for i
  proof (cases "i < 64")
    case True
    then have "63 - i < countl_zero w" using that by simp
    then have "\<not> bit w (63 - (63 - i))" unfolding eq using not_less_Least by blast
    then show ?thesis using True by simp
  next
    case False
    then show ?thesis using bit_imp_le_length by fastforce
  qed
qed

lemma bit_set_word: "i < 64 \<Longrightarrow> bit (or w (2 ^ k) :: u64) i \<longleftrightarrow> bit w i \<or> i = k"
  by (auto simp: bit_simps)

lemma bit_clear_word: "i < 64 \<Longrightarrow> bit (and w (not (2 ^ k)) :: u64) i \<longleftrightarrow> bit w i \<and> i \<noteq> k"
  by (auto simp: bit_simps)

lemma bit_from_word: "bit (and w (push_bit k (- 1)) :: u64) i \<longleftrightarrow> bit w i \<and> k \<le> i"
  using bit_imp_le_length [of w i] by (auto simp: bit_simps)

lemma bit_to_word: "k < 64 \<Longrightarrow> bit (and w (drop_bit (63 - k) (- 1)) :: u64) i \<longleftrightarrow> bit w i \<and> i \<le> k"
  using bit_imp_le_length [of w i] by (auto simp: bit_simps)

section \<open>The index represents a set of positions\<close>

text \<open>
  \<open>level_bits n l\<close> is the number of bits level \<open>l\<close> needs for \<open>n\<close> positions; it is also the number
  of words of the level below.
\<close>

primrec level_bits :: "nat \<Rightarrow> nat \<Rightarrow> nat" where
  "level_bits n 0 = n"
| "level_bits n (Suc l) = (level_bits n l + 63) div 64"

text \<open>A word of level \<open>l\<close>, and what its bits have to be: the ancestors of the members.\<close>

definition index_word :: "nat list \<Rightarrow> u64 list \<Rightarrow> nat \<Rightarrow> nat \<Rightarrow> u64" where
  "index_word offsets index l w = index ! (offsets ! l + w)"

definition ancestor :: "nat set \<Rightarrow> nat \<Rightarrow> nat \<Rightarrow> bool" where
  "ancestor S l i \<longleftrightarrow> (\<exists>s \<in> S. s div 64 ^ l = i)"

definition level_shows :: "nat \<Rightarrow> nat list \<Rightarrow> u64 list \<Rightarrow> nat set \<Rightarrow> nat \<Rightarrow> bool" where
  "level_shows n offsets index S l \<longleftrightarrow>
     (\<forall>w < level_bits n (Suc l). \<forall>k < 64. bit (index_word offsets index l w) k \<longleftrightarrow> ancestor S l (w * 64 + k))"

definition index_layout :: "nat \<Rightarrow> nat list \<Rightarrow> nat \<Rightarrow> bool" where
  "index_layout n offsets words \<longleftrightarrow>
     offsets \<noteq> [] \<and> 0 < n \<and> level_bits n (length offsets) = 1 \<and>
     (\<forall>l < length offsets. offsets ! l + level_bits n (Suc l)
        \<le> (if Suc l < length offsets then offsets ! Suc l else words))"

definition index_shows :: "nat \<Rightarrow> nat list \<Rightarrow> u64 list \<Rightarrow> nat set \<Rightarrow> bool" where
  "index_shows n offsets index S \<longleftrightarrow>
     index_layout n offsets (length index) \<and> S \<subseteq> {..<n} \<and>
     (\<forall>l < length offsets. level_shows n offsets index S l)"

lemma ancestor_0 [simp]: "ancestor S 0 i \<longleftrightarrow> i \<in> S"
  by (auto simp: ancestor_def)

lemma ancestor_Suc: "ancestor S (Suc l) w \<longleftrightarrow> (\<exists>k < 64. ancestor S l (w * 64 + k))"
proof
  assume "ancestor S (Suc l) w"
  then obtain s where s: "s \<in> S" "s div 64 ^ Suc l = w" by (auto simp: ancestor_def)
  then have "s div 64 ^ l div 64 = w" by (simp add: div_mult2_eq [symmetric] mult.commute)
  then have "s div 64 ^ l = w * 64 + s div 64 ^ l mod 64" by (metis div_mult_mod_eq)
  then show "\<exists>k < 64. ancestor S l (w * 64 + k)"
    using s by (intro exI [of _ "s div 64 ^ l mod 64"]) (auto simp: ancestor_def)
next
  assume "\<exists>k < 64. ancestor S l (w * 64 + k)"
  then obtain s k where "s \<in> S" "s div 64 ^ l = w * 64 + k" "k < 64" by (auto simp: ancestor_def)
  then show "ancestor S (Suc l) w"
    by (auto simp: ancestor_def div_mult2_eq power_Suc2 simp del: power_Suc intro!: bexI [of _ s])
qed

lemma level_bits_ancestor: "S \<subseteq> {..<n} \<Longrightarrow> ancestor S l i \<Longrightarrow> i < level_bits n l"
proof (induction l arbitrary: i)
  case (Suc l)
  then obtain k where "k < 64" "ancestor S l (i * 64 + k)" by (auto simp: ancestor_Suc)
  with Suc have "i * 64 + k < level_bits n l" by blast
  then show ?case by simp
qed auto

lemma level_shows_bit:
  assumes "level_shows n offsets index S l" "i < 64 * level_bits n (Suc l)"
  shows "bit (index_word offsets index l (i div 64)) (i mod 64) \<longleftrightarrow> ancestor S l i"
proof -
  have "i div 64 < level_bits n (Suc l)" using assms(2) by (simp only: less_mult_imp_div_less mult.commute)
  then show ?thesis using assms(1) unfolding level_shows_def by (metis div_mult_mod_eq mod_less_divisor zero_less_numeral)
qed

lemma level_shows_nonzero:
  assumes "level_shows n offsets index S l" "w < level_bits n (Suc l)"
  shows "index_word offsets index l w \<noteq> 0 \<longleftrightarrow> ancestor S (Suc l) w"
  using assms unfolding level_shows_def ancestor_Suc word_nonzero_iff by blast

section \<open>Layout and updates\<close>

lemma level_bits_Suc_shift: "level_bits ((n + 63) div 64) l = level_bits n (Suc l)"
  by (induction l) auto

lemma level_offsets_shape:
  "0 < words \<Longrightarrow> level_offsets words base = (offsets, used) \<Longrightarrow>
   offsets \<noteq> [] \<and> offsets ! 0 = base \<and> level_bits words (length offsets - 1) = 1 \<and>
   (\<forall>l < length offsets. offsets ! l + level_bits words l
      \<le> (if Suc l < length offsets then offsets ! Suc l else used))"
proof (induction words base arbitrary: offsets used rule: level_offsets.induct)
  case (1 words base)
  show ?case
  proof (cases "words \<le> 1")
    case True
    with 1 show ?thesis by (auto simp: level_offsets.simps [of words])
  next
    case False
    obtain rest where rest: "level_offsets ((words + 63) div 64) (base + words) = (rest, used)" "offsets = base # rest"
      using 1(3) False by (auto simp: level_offsets.simps [of words base] split: prod.splits)
    have "0 < (words + 63) div 64" using False by simp
    note ih = 1(1) [OF False this rest(1), unfolded level_bits_Suc_shift]
    then have ne: "rest \<noteq> []" "rest ! 0 = base + words"
      and top: "level_bits words (Suc (length rest - 1)) = 1"
      and steps: "\<And>l. l < length rest \<Longrightarrow>
        rest ! l + level_bits words (Suc l) \<le> (if Suc l < length rest then rest ! Suc l else used)"
      by blast+
    have "(base # rest) ! l + level_bits words l
        \<le> (if Suc l < length (base # rest) then (base # rest) ! Suc l else used)"
      if "l < length (base # rest)" for l
    proof (cases l)
      case (Suc k)
      then show ?thesis using that steps [of k] by (simp del: level_bits.simps(2) split: if_splits)
    qed (use ne in simp)
    then show ?thesis using ne top unfolding rest(2) by simp
  qed
qed

lemma level_offsets_layout:
  assumes "0 < n" "level_offsets ((n + 63) div 64) 0 = (offsets, used)"
  shows "index_layout n offsets used"
proof -
  have "0 < (n + 63) div 64" using assms(1) by simp
  note level_offsets_shape [OF this assms(2)]
  then show ?thesis
    using assms(1) unfolding index_layout_def level_bits_Suc_shift by (auto simp del: level_bits.simps(2))
qed

lemma layout_apart:
  assumes "index_layout n offsets used"
  shows "l < l' \<Longrightarrow> l' < length offsets \<Longrightarrow> offsets ! l + level_bits n (Suc l) \<le> offsets ! l'"
proof (induction l')
  case (Suc l')
  have step: "offsets ! l' + level_bits n (Suc l') \<le> offsets ! Suc l'"
    using assms Suc.prems(2) unfolding index_layout_def by (metis Suc_lessD)
  show ?case
  proof (cases "l = l'")
    case True
    then show ?thesis using step by simp
  next
    case False
    then have "offsets ! l + level_bits n (Suc l) \<le> offsets ! l'" using Suc by simp
    then show ?thesis using step by linarith
  qed
qed simp

lemma layout_within:
  assumes "index_layout n offsets used" "l < length offsets" "w < level_bits n (Suc l)"
  shows "offsets ! l + w < used"
proof -
  define k where "k = length offsets - 1"
  have k: "k < length offsets" "l \<le> k" using assms(2) by (auto simp: k_def)
  have top: "offsets ! k + level_bits n (Suc k) \<le> used"
  proof -
    have "\<not> Suc k < length offsets" by (simp add: k_def)
    then show ?thesis using assms(1) k(1) unfolding index_layout_def by metis
  qed
  show ?thesis
  proof (cases "l = k")
    case False
    then have "offsets ! l + level_bits n (Suc l) \<le> offsets ! k"
      using layout_apart [OF assms(1), of l k] k by simp
    then show ?thesis using top assms(3) by linarith
  next
    case True
    then show ?thesis using top assms(3) by (simp del: level_bits.simps(2))
  qed
qed

lemma layout_distinct:
  assumes "index_layout n offsets used" "l < length offsets" "l' < length offsets"
    "w < level_bits n (Suc l)" "w' < level_bits n (Suc l')" "offsets ! l + w = offsets ! l' + w'"
  shows "l = l' \<and> w = w'"
proof -
  have "\<not> l < l'" "\<not> l' < l"
    using layout_apart [OF assms(1), of l l'] layout_apart [OF assms(1), of l' l] assms(2-) by linarith+
  then show ?thesis using assms(6) by simp
qed

lemma index_shows_empty:
  assumes "index_layout n offsets used"
  shows "index_shows n offsets (replicate used 0) {}"
  using layout_within [OF assms] assms
  unfolding index_shows_def level_shows_def index_word_def ancestor_def by simp

lemma index_word_update:
  assumes "index_layout n offsets (length index)" "l < length offsets" "l' < length offsets"
    "w < level_bits n (Suc l)" "w' < level_bits n (Suc l')"
  shows "index_word offsets (index[offsets ! l + w := v]) l' w' =
    (if l = l' \<and> w = w' then v else index_word offsets index l' w')"
  using layout_distinct [OF assms] layout_within [OF assms(1,2,4)]
  unfolding index_word_def by (auto simp: nth_list_update)

lemma ancestor_agree_above:
  assumes "\<And>i. ancestor S l i \<longleftrightarrow> ancestor S' l i" "l \<le> k"
  shows "ancestor S k i \<longleftrightarrow> ancestor S' k i"
  using assms(2) by (induction k arbitrary: i rule: dec_induct) (auto simp: assms(1) ancestor_Suc)

text \<open>One level of the update: the word at the position, and what becomes of the level.\<close>

lemma level_shows_update:
  assumes lay: "index_layout n offsets (length index)" and l: "l < length offsets" and p: "p < level_bits n l"
    and old: "level_shows n offsets index S l"
    and other: "\<And>i. i \<noteq> p \<Longrightarrow> ancestor S' l i \<longleftrightarrow> ancestor S l i"
    and bit: "occupied \<longleftrightarrow> ancestor S' l p"
    and word: "word' = (let w = index_word offsets index l (p div 64); b = push_bit (p mod 64) 1
      in if occupied then or w b else and w (not b))"
  shows "level_shows n offsets (index[offsets ! l + p div 64 := word']) S' l"
  unfolding level_shows_def
proof (intro allI impI)
  fix w k assume w: "w < level_bits n (Suc l)" and k: "k < (64::nat)"
  have pw: "p div 64 < level_bits n (Suc l)" using p by simp
  have p_eq: "p div 64 = w \<and> p mod 64 = k \<longleftrightarrow> w * 64 + k = p" using k by auto
  have olds: "bit (index_word offsets index l w) k \<longleftrightarrow> ancestor S l (w * 64 + k)"
    using old w k unfolding level_shows_def by blast
  show "bit (index_word offsets (index[offsets ! l + p div 64 := word']) l w) k \<longleftrightarrow> ancestor S' l (w * 64 + k)"
    unfolding index_word_update [OF lay l l pw w]
    using p_eq olds other bit k
    by (cases "w * 64 + k = p"; cases occupied) (auto simp: word Let_def bit_set_word bit_clear_word)
qed

lemma level_shows_other:
  assumes lay: "index_layout n offsets (length index)" and l: "l < length offsets" and p: "w < level_bits n (Suc l)"
    and k: "k < length offsets" "k \<noteq> l"
  shows "level_shows n offsets (index[offsets ! l + w := v]) S k \<longleftrightarrow> level_shows n offsets index S k"
  unfolding level_shows_def using k by (auto simp del: level_bits.simps(2) simp: index_word_update [OF lay l k(1) p])

lemma length_index_loop [simp]: "length (index_loop offsets index l p occupied) = length index"
proof (induction offsets index l p occupied rule: index_loop.induct)
  case (1 offsets index l p occupied)
  then show ?case by (subst index_loop.simps) (simp add: Let_def)
qed

text \<open>
  The loop of the update: the levels below \<open>l\<close> already show the new set, the others still the old
  one, and the bit that is written is the only one of level \<open>l\<close> that may differ.
\<close>

definition index_mid ::
    "nat \<Rightarrow> nat list \<Rightarrow> u64 list \<Rightarrow> nat set \<Rightarrow> nat set \<Rightarrow> nat \<Rightarrow> nat \<Rightarrow> bool \<Rightarrow> bool" where
  "index_mid n offsets index S S' l p occupied \<longleftrightarrow>
     index_layout n offsets (length index) \<and> p < level_bits n l \<and>
     (\<forall>k < length offsets. level_shows n offsets index (if k < l then S' else S) k) \<and>
     (\<forall>i. i \<noteq> p \<longrightarrow> ancestor S' l i = ancestor S l i) \<and> occupied = ancestor S' l p"

lemma index_mid_step:
  assumes mid: "index_mid n offsets index S S' l p occupied" and l: "l < length offsets"
  obtains (stop) index' where "index_loop offsets index l p occupied = index'"
      "\<forall>k < length offsets. level_shows n offsets index' S' k"
  | (climb) index' nonempty where
      "index_loop offsets index l p occupied = index_loop offsets index' (Suc l) (p div 64) nonempty"
      "index_mid n offsets index' S S' (Suc l) (p div 64) nonempty"
proof -
  define w where "w = index_word offsets index l (p div 64)"
  define w' where "w' = (let b = push_bit (p mod 64) 1 in if occupied then or w b else and w (not b))"
  define index' where "index' = index[offsets ! l + p div 64 := w']"
  note m = mid [unfolded index_mid_def]
  have lay: "index_layout n offsets (length index)" and p: "p < level_bits n l"
    and old: "level_shows n offsets index S l" using m l by auto
  have pw: "p div 64 < level_bits n (Suc l)" using p by simp
  have here: "level_shows n offsets index' S' l"
    unfolding index'_def by (rule level_shows_update [OF lay l p old]) (use m in \<open>auto simp: w'_def w_def Let_def\<close>)
  have elsewhere: "level_shows n offsets index' T j \<longleftrightarrow> level_shows n offsets index T j"
    if "j < length offsets" "j \<noteq> l" for j T
    unfolding index'_def by (rule level_shows_other [OF lay l pw that])
  have below: "level_shows n offsets index' (if j < Suc l then S' else S) j" if "j < length offsets" for j
    using here elsewhere [OF that] m that by (cases j l rule: linorder_cases) auto
  have above: "ancestor S' (Suc l) i \<longleftrightarrow> ancestor S (Suc l) i" if "i \<noteq> p div 64" for i
  proof -
    have "i * 64 + k \<noteq> p" if "k < 64" for k using \<open>i \<noteq> p div 64\<close> that by auto
    then show ?thesis unfolding ancestor_Suc using m by blast
  qed
  have was: "w \<noteq> 0 \<longleftrightarrow> ancestor S (Suc l) (p div 64)"
    unfolding w_def by (rule level_shows_nonzero [OF old pw])
  have now: "w' \<noteq> 0 \<longleftrightarrow> ancestor S' (Suc l) (p div 64)"
    using level_shows_nonzero [OF here pw] index_word_update [OF lay l l pw pw] by (simp add: index'_def)
  have unfold: "index_loop offsets index l p occupied =
      (if (w \<noteq> 0) = (w' \<noteq> 0) then index' else index_loop offsets index' (Suc l) (p div 64) (w' \<noteq> 0))"
    by (subst index_loop.simps) (simp add: l Let_def w_def w'_def index'_def index_word_def)
  show thesis
  proof (cases "(w \<noteq> 0) = (w' \<noteq> 0)")
    case True
    have "ancestor S (Suc l) i = ancestor S' (Suc l) i" for i
      using above [of i] True was now by (cases "i = p div 64") auto
    then have "ancestor S j i \<longleftrightarrow> ancestor S' j i" if "l < j" for i j
      using ancestor_agree_above [of S "Suc l" S' j i] that by simp
    then have "level_shows n offsets index' S' k" if "k < length offsets" for k
      using below [OF that] unfolding level_shows_def by (cases "k < Suc l") simp_all
    then show thesis using stop [of index'] unfold True by simp
  next
    case False
    have next_mid: "index_mid n offsets index' S S' (Suc l) (p div 64) (w' \<noteq> 0)"
      unfolding index_mid_def using below pw above now lay by (simp add: index'_def)
    show thesis using climb [OF _ next_mid] unfold False by simp
  qed
qed

lemma index_loop_shows:
  assumes "index_mid n offsets index S S' l p occupied" "k < length offsets"
  shows "level_shows n offsets (index_loop offsets index l p occupied) S' k"
  using assms(1)
proof (induction "length offsets - l" arbitrary: index l p occupied)
  case 0
  then show ?case using assms(2) by (subst index_loop.simps) (auto simp: index_mid_def)
next
  case (Suc d)
  then have "l < length offsets" by simp
  with Suc.prems show ?case
  proof (cases rule: index_mid_step)
    case (climb index' nonempty)
    then show ?thesis using Suc.hyps(1) [of "Suc l"] Suc.hyps(2) by simp
  qed (use assms(2) in simp)
qed

theorem index_loop_update:
  assumes "index_shows n offsets index S" "p < n"
  shows "index_shows n offsets (index_loop offsets index 0 p occupied) (if occupied then insert p S else S - {p})"
proof -
  have "index_mid n offsets index S (if occupied then insert p S else S - {p}) 0 p occupied"
    using assms unfolding index_mid_def index_shows_def by simp
  then show ?thesis using index_loop_shows assms unfolding index_shows_def by auto
qed

section \<open>Searches\<close>

text \<open>What a search over the bits of a level has to return.\<close>

definition least_in :: "(nat \<Rightarrow> bool) \<Rightarrow> nat \<Rightarrow> nat \<Rightarrow> nat option \<Rightarrow> bool" where
  "least_in P from to r \<longleftrightarrow>
     (case r of None \<Rightarrow> \<forall>i. from \<le> i \<and> i < to \<longrightarrow> \<not> P i
      | Some j \<Rightarrow> from \<le> j \<and> j < to \<and> P j \<and> (\<forall>i. from \<le> i \<and> i < j \<longrightarrow> \<not> P i))"

definition greatest_in :: "(nat \<Rightarrow> bool) \<Rightarrow> nat \<Rightarrow> nat \<Rightarrow> nat option \<Rightarrow> bool" where
  "greatest_in P from to r \<longleftrightarrow>
     (case r of None \<Rightarrow> \<forall>i. from \<le> i \<and> i < to \<longrightarrow> \<not> P i
      | Some j \<Rightarrow> from \<le> j \<and> j < to \<and> P j \<and> (\<forall>i. j < i \<and> i < to \<longrightarrow> \<not> P i))"

lemma least_in_clip:
  "from \<le> j \<Longrightarrow> P j \<Longrightarrow> (\<And>i. from \<le> i \<Longrightarrow> i < j \<Longrightarrow> \<not> P i) \<Longrightarrow>
   least_in P from to (if j < to then Some j else None)"
  by (auto simp: least_in_def)

lemma greatest_in_clip:
  "j < to \<Longrightarrow> P j \<Longrightarrow> (\<And>i. j < i \<Longrightarrow> i < to \<Longrightarrow> \<not> P i) \<Longrightarrow>
   greatest_in P from to (if from \<le> j then Some j else None)"
  by (auto simp: greatest_in_def)

text \<open>The first bit of a word from a position on, and the last one up to a position.\<close>

lemma word_first:
  assumes "level_shows n offsets index S l" "w < level_bits n (Suc l)"
    "word = and (index_word offsets index l w) (push_bit k (- 1))" "word \<noteq> 0" "j = w * 64 + countr_zero word"
  shows "w * 64 + k \<le> j \<and> j < w * 64 + 64 \<and> ancestor S l j \<and> (\<forall>i. w * 64 + k \<le> i \<and> i < j \<longrightarrow> \<not> ancestor S l i)"
proof -
  have bits: "bit (index_word offsets index l w) i \<longleftrightarrow> ancestor S l (w * 64 + i)" if "i < 64" for i
    using assms(1,2) that unfolding level_shows_def by blast
  have masked: "bit word i \<longleftrightarrow> bit (index_word offsets index l w) i \<and> k \<le> i" for i
    unfolding assms(3) by (rule bit_from_word)
  note c = countr_zero_bit [OF assms(4)]
  have "\<not> ancestor S l i" if "w * 64 + k \<le> i" "i < j" for i
  proof -
    have r: "i - w * 64 < countr_zero word" "k \<le> i - w * 64" "w * 64 + (i - w * 64) = i"
      using that assms(5) by simp_all
    then show ?thesis using c(2) c(3) [of "i - w * 64"] bits [of "i - w * 64"] masked by simp
  qed
  then show ?thesis using c(1,2) bits [of "countr_zero word"] assms(5) masked by auto
qed

lemma word_last:
  assumes "level_shows n offsets index S l" "w < level_bits n (Suc l)" "k < 64"
    "word = and (index_word offsets index l w) (drop_bit (63 - k) (- 1))" "word \<noteq> 0" "j = w * 64 + 63 - countl_zero word"
  shows "w * 64 \<le> j \<and> j \<le> w * 64 + k \<and> ancestor S l j \<and> (\<forall>i. j < i \<and> i \<le> w * 64 + k \<longrightarrow> \<not> ancestor S l i)"
proof -
  have bits: "bit (index_word offsets index l w) i \<longleftrightarrow> ancestor S l (w * 64 + i)" if "i < 64" for i
    using assms(1,2) that unfolding level_shows_def by blast
  have masked: "bit word i \<longleftrightarrow> bit (index_word offsets index l w) i \<and> i \<le> k" for i
    unfolding assms(4) by (rule bit_to_word [OF assms(3)])
  note c = countl_zero_bit [OF assms(5)]
  have j: "j = w * 64 + (63 - countl_zero word)" using c(2) assms(6) by simp
  have "\<not> ancestor S l i" if "j < i" "i \<le> w * 64 + k" for i
  proof -
    have r: "63 - countl_zero word < i - w * 64" "i - w * 64 \<le> k" "w * 64 + (i - w * 64) = i"
      using that j by simp_all
    then show ?thesis using c(3) [of "i - w * 64"] bits [of "i - w * 64"] masked assms(3) by simp
  qed
  then show ?thesis using c(1) bits [of "63 - countl_zero word"] j masked by auto
qed

lemma word_none:
  assumes "level_shows n offsets index S l" "w < level_bits n (Suc l)" "and (index_word offsets index l w) m = 0"
    "w * 64 \<le> i" "i < w * 64 + 64" "bit m (i - w * 64)"
  shows "\<not> ancestor S l i"
proof -
  have "bit (index_word offsets index l w) (i - w * 64) \<longleftrightarrow> ancestor S l (w * 64 + (i - w * 64))"
    using assms(1,2,5) unfolding level_shows_def by simp
  moreover have "\<not> (bit (index_word offsets index l w) (i - w * 64) \<and> bit m (i - w * 64))"
    using assms(3) by (metis bit_and_iff bit_0_eq bot_fun_def bot_bool_def)
  ultimately show ?thesis using assms(4,6) by simp
qed

lemma empty_word:
  assumes "\<not> ancestor S (Suc l) (i div 64)"
  shows "\<not> ancestor S l i"
  using assms unfolding ancestor_Suc by (metis div_mult_mod_eq mod_less_divisor zero_less_numeral)

lemma top_level:
  assumes "index_shows n offsets index S" "l < length offsets" "length offsets \<le> Suc l"
  shows "level_bits n (Suc l) = 1"
  using assms unfolding index_shows_def index_layout_def by (metis le_antisym Suc_leI)

lemma words_cover: "i < to \<Longrightarrow> i div 64 < (to + 63) div (64 :: nat)"
  using div_le_mono [of "i + 64" "to + 63" 64] by simp

lemma least_in_climb:
  assumes "least_in (ancestor S (Suc l)) (Suc w) ((to + 63) div 64) r"
    and "\<And>i. w * 64 + k \<le> i \<Longrightarrow> i < w * 64 + 64 \<Longrightarrow> \<not> ancestor S l i" and "k < 64"
    and "\<And>v. r = Some v \<Longrightarrow> found v < v * 64 + 64 \<and> v * 64 \<le> found v \<and> ancestor S l (found v) \<and>
      (\<forall>i. v * 64 \<le> i \<and> i < found v \<longrightarrow> \<not> ancestor S l i)"
  shows "least_in (ancestor S l) (w * 64 + k) to
    (case r of None \<Rightarrow> None | Some v \<Rightarrow> if found v < to then Some (found v) else None)"
proof (cases r)
  case None
  have "\<not> ancestor S l i" if "w * 64 + k \<le> i" "i < to" for i
  proof (cases "i < w * 64 + 64")
    case False
    then have "Suc w \<le> i div 64" by (simp add: less_eq_div_iff_mult_less_eq)
    moreover have "i div 64 < (to + 63) div 64" by (rule words_cover [OF that(2)])
    ultimately have "\<not> ancestor S (Suc l) (i div 64)" using assms(1) None by (simp add: least_in_def)
    then show ?thesis by (rule empty_word)
  qed (use assms(2) that in blast)
  then show ?thesis using None by (simp add: least_in_def)
next
  case (Some v)
  have v: "Suc w \<le> v" and gap: "\<And>u. Suc w \<le> u \<Longrightarrow> u < v \<Longrightarrow> \<not> ancestor S (Suc l) u"
    using assms(1) Some unfolding least_in_def by auto
  have "\<not> ancestor S l i" if "w * 64 + k \<le> i" "i < found v" for i
  proof -
    consider "i < w * 64 + 64" | "Suc w \<le> i div 64" "i div 64 < v" | "v * 64 \<le> i"
      by (cases "i < w * 64 + 64"; cases "v * 64 \<le> i")
        (auto simp: less_eq_div_iff_mult_less_eq not_less not_le less_mult_imp_div_less)
    then show ?thesis
    proof cases
      case 2
      show ?thesis by (rule empty_word) (rule gap [OF 2])
    qed (use assms(2) [OF that(1)] assms(4) [OF Some] that(2) in blast)+
  qed
  moreover have "w * 64 + k \<le> found v" using assms(3) assms(4) [OF Some] v by linarith
  ultimately show ?thesis using least_in_clip [of _ "found v"] assms(4) [OF Some] Some by simp
qed

lemma next_occupied_bit_least:
  assumes "index_shows n offsets index S" "l < length offsets" "to \<le> 64 * level_bits n (Suc l)"
  shows "least_in (ancestor S l) from to (next_occupied_bit offsets index l from to)"
  using assms(2,3)
proof (induction "length offsets - l" arbitrary: l "from" to)
  case (Suc d)
  have lev: "level_shows n offsets index S l" using assms(1) Suc.prems by (simp add: index_shows_def)
  define p where "p = from div 64"
  define k where "k = from mod 64"
  define w where "w = and (index_word offsets index l p) (push_bit k (- 1))"
  have from_eq: "from = p * 64 + k" and k: "k < 64" by (simp_all add: p_def k_def)
  define found where "found v = v * 64 + countr_zero (index_word offsets index l v)" for v
  have eq: "next_occupied_bit offsets index l from to =
      (if from \<ge> to then None
       else if w \<noteq> 0 then (if p * 64 + countr_zero w < to then Some (p * 64 + countr_zero w) else None)
       else if Suc l \<ge> length offsets then None
       else case next_occupied_bit offsets index (Suc l) (Suc p) ((to + 63) div 64) of
              None \<Rightarrow> None | Some v \<Rightarrow> if found v < to then Some (found v) else None)"
    by (subst next_occupied_bit.simps) (simp only: Let_def w_def p_def k_def index_word_def found_def Suc_eq_plus1)
  have p: "p < level_bits n (Suc l)" if "from < to" 
    unfolding p_def by (rule less_mult_imp_div_less) (use that Suc.prems(2) in \<open>simp add: mult.commute\<close>)
  have none: "\<not> ancestor S l i" if "w = 0" "from < to" "p * 64 + k \<le> i" "i < p * 64 + 64" for i
    by (rule word_none [OF lev p that(1) [unfolded w_def]]) (use that in \<open>auto simp: bit_simps\<close>)
  consider "to \<le> from" | "from < to" "w \<noteq> 0" | "from < to" "w = 0" "length offsets \<le> Suc l"
    | "from < to" "w = 0" "Suc l < length offsets" by linarith
  then show ?case
  proof cases
    case 2
    note j = word_first [OF lev p [OF 2(1)] w_def 2(2) refl]
    have res: "next_occupied_bit offsets index l from to =
        (if p * 64 + countr_zero w < to then Some (p * 64 + countr_zero w) else None)" using eq 2 by simp
    show ?thesis unfolding res by (rule least_in_clip) (use j from_eq in blast)+
  next
    case 3
    then have "i < p * 64 + 64" if "i < to" for i
      using top_level [OF assms(1)] Suc.prems p that by simp
    moreover have "next_occupied_bit offsets index l from to = None" using eq 3 by simp
    ultimately show ?thesis using none [OF 3(2,1)] from_eq by (simp add: least_in_def)
  next
    case 4
    have "(to + 63) div 64 \<le> 64 * level_bits n (Suc (Suc l))" using Suc.prems(2) by simp
    then have r: "least_in (ancestor S (Suc l)) (Suc p) ((to + 63) div 64)
        (next_occupied_bit offsets index (Suc l) (Suc p) ((to + 63) div 64))" (is "least_in _ _ _ ?r")
      using Suc.hyps(1) [of "Suc l"] Suc.hyps(2) 4 by simp
    have found: "found v < v * 64 + 64 \<and> v * 64 \<le> found v \<and> ancestor S l (found v) \<and>
        (\<forall>i. v * 64 \<le> i \<and> i < found v \<longrightarrow> \<not> ancestor S l i)" if v: "?r = Some v" for v
    proof -
      have "v < (to + 63) div 64" "ancestor S (Suc l) v" using r v by (auto simp: least_in_def)
      moreover have "v < level_bits n (Suc l)" using calculation(1) Suc.prems(2) div_le_mono [of "to + 63" _ 64] by fastforce
      ultimately show ?thesis
        using word_first [OF lev, of v _ 0 "found v"] level_shows_nonzero [OF lev, of v] by (simp add: found_def)
    qed
    have "least_in (ancestor S l) (p * 64 + k) to
        (case ?r of None \<Rightarrow> None | Some v \<Rightarrow> if found v < to then Some (found v) else None)"
      by (rule least_in_climb [OF r none [OF 4(2,1)] k found])
    then show ?thesis using eq 4 from_eq by simp
  qed (auto simp: eq least_in_def)
qed simp

lemma greatest_in_climb:
  assumes "greatest_in (ancestor S (Suc l)) (from div 64) w r"
    and "\<And>i. w * 64 \<le> i \<Longrightarrow> i < to \<Longrightarrow> \<not> ancestor S l i" and "w * 64 < to"
    and "\<And>v. r = Some v \<Longrightarrow> found v < v * 64 + 64 \<and> v * 64 \<le> found v \<and> ancestor S l (found v) \<and>
      (\<forall>i. found v < i \<and> i < v * 64 + 64 \<longrightarrow> \<not> ancestor S l i)"
  shows "greatest_in (ancestor S l) from to
    (case r of None \<Rightarrow> None | Some v \<Rightarrow> if from \<le> found v then Some (found v) else None)"
proof (cases r)
  case None
  have "\<not> ancestor S l i" if "from \<le> i" "i < to" for i
  proof (cases "i < w * 64")
    case True
    then have "i div 64 < w" by (rule less_mult_imp_div_less)
    moreover have "from div 64 \<le> i div 64" using that by (intro div_le_mono) simp
    ultimately have "\<not> ancestor S (Suc l) (i div 64)" using assms(1) None by (simp add: greatest_in_def)
    then show ?thesis by (rule empty_word)
  qed (use assms(2) that in simp)
  then show ?thesis using None by (simp add: greatest_in_def)
next
  case (Some v)
  have v: "v < w" and gap: "\<And>u. v < u \<Longrightarrow> u < w \<Longrightarrow> \<not> ancestor S (Suc l) u"
    using assms(1) Some unfolding greatest_in_def by auto
  have "\<not> ancestor S l i" if "found v < i" "i < to" for i
  proof -
    consider "i < v * 64 + 64" | "v < i div 64" "i div 64 < w" | "w * 64 \<le> i"
      by (cases "i < v * 64 + 64"; cases "w * 64 \<le> i")
        (auto simp: Suc_le_eq [symmetric] less_eq_div_iff_mult_less_eq not_less not_le less_mult_imp_div_less)
    then show ?thesis
    proof cases
      case 2
      show ?thesis by (rule empty_word) (rule gap [OF 2])
    qed (use assms(2) [OF _ that(2)] assms(4) [OF Some] that(1) in blast)+
  qed
  moreover have "found v < to"
  proof -
    have "v * 64 + 64 \<le> w * 64" using mult_le_mono [of "Suc v" w 64 64] v by simp
    then show ?thesis using assms(3) assms(4) [OF Some, THEN conjunct1] by linarith
  qed
  ultimately show ?thesis using greatest_in_clip [of "found v"] assms(4) [OF Some] Some by simp
qed

lemma previous_storage_bit_greatest:
  assumes "index_shows n offsets index S" "l < length offsets" "to \<le> 64 * level_bits n (Suc l)"
  shows "greatest_in (ancestor S l) from to (previous_storage_bit offsets index l from to)"
  using assms(2,3)
proof (induction "length offsets - l" arbitrary: l "from" to)
  case (Suc d)
  have lev: "level_shows n offsets index S l" using assms(1) Suc.prems by (simp add: index_shows_def)
  define p where "p = (to - 1) div 64"
  define k where "k = (to - 1) mod 64"
  define w where "w = and (index_word offsets index l p) (drop_bit (63 - k) (- 1))"
  have to_eq: "to = p * 64 + k + 1" if "from < to" using that by (simp add: p_def k_def)
  have k: "k < 64" by (simp add: k_def)
  define found where "found v = v * 64 + 63 - countl_zero (index_word offsets index l v)" for v
  have eq: "previous_storage_bit offsets index l from to =
      (if from \<ge> to then None
       else if w \<noteq> 0 then (if from \<le> p * 64 + 63 - countl_zero w then Some (p * 64 + 63 - countl_zero w) else None)
       else if Suc l \<ge> length offsets then None
       else case previous_storage_bit offsets index (Suc l) (from div 64) p of
              None \<Rightarrow> None | Some v \<Rightarrow> if from \<le> found v then Some (found v) else None)"
    by (subst previous_storage_bit.simps)
      (simp only: Let_def w_def p_def k_def index_word_def found_def Suc_eq_plus1)
  have p: "p < level_bits n (Suc l)" if "from < to"
    unfolding p_def by (rule less_mult_imp_div_less) (use that Suc.prems(2) in \<open>simp add: mult.commute\<close>)
  have none: "\<not> ancestor S l i" if "w = 0" "from < to" "p * 64 \<le> i" "i < to" for i
    by (rule word_none [OF lev p that(1) [unfolded w_def]]) (use that k to_eq in \<open>auto simp: bit_simps\<close>)
  consider "to \<le> from" | "from < to" "w \<noteq> 0" | "from < to" "w = 0" "length offsets \<le> Suc l"
    | "from < to" "w = 0" "Suc l < length offsets" by linarith
  then show ?case
  proof cases
    case 2
    note j = word_last [OF lev p [OF 2(1)] k w_def 2(2) refl]
    have res: "previous_storage_bit offsets index l from to =
        (if from \<le> p * 64 + 63 - countl_zero w then Some (p * 64 + 63 - countl_zero w) else None)" using eq 2 by simp
    show ?thesis unfolding res by (rule greatest_in_clip) (use j to_eq [OF 2(1)] in auto)
  next
    case 3
    then have "p = 0" using top_level [OF assms(1)] Suc.prems p by simp
    moreover have "previous_storage_bit offsets index l from to = None" using eq 3 by simp
    ultimately show ?thesis using none [OF 3(2,1)] by (simp add: greatest_in_def)
  next
    case 4
    have "p \<le> 64 * level_bits n (Suc (Suc l))" using p [OF 4(1)] by simp
    then have r: "greatest_in (ancestor S (Suc l)) (from div 64) p
        (previous_storage_bit offsets index (Suc l) (from div 64) p)" (is "greatest_in _ _ _ ?r")
      using Suc.hyps(1) [of "Suc l"] Suc.hyps(2) 4 by simp
    have found: "found v < v * 64 + 64 \<and> v * 64 \<le> found v \<and> ancestor S l (found v) \<and>
        (\<forall>i. found v < i \<and> i < v * 64 + 64 \<longrightarrow> \<not> ancestor S l i)" if v: "?r = Some v" for v
    proof -
      have "v < p" "ancestor S (Suc l) v" using r v by (auto simp: greatest_in_def)
      then show ?thesis
        using word_last [OF lev, of v 63 _ "found v"] level_shows_nonzero [OF lev, of v] p [OF 4(1)]
        by (simp add: found_def less_Suc_eq_le [symmetric])
    qed
    have "greatest_in (ancestor S l) from to
        (case ?r of None \<Rightarrow> None | Some v \<Rightarrow> if from \<le> found v then Some (found v) else None)"
      by (rule greatest_in_climb [OF r none [OF 4(2,1)] _ found]) (use to_eq [OF 4(1)] in simp_all)
    then show ?thesis using eq 4 by simp
  qed (auto simp: eq greatest_in_def)
qed simp

section \<open>The searches are linear scans\<close>

lemma least_in_find: "least_in P from to r \<longleftrightarrow> r = find P [from..<to]"
proof (induction "to - from" arbitrary: "from")
  case 0
  then show ?case by (auto simp: least_in_def split: option.splits)
next
  case (Suc d)
  then have le: "from < to" by simp
  show ?case
  proof (cases "P from")
    case True
    then show ?thesis using le by (cases r) (auto simp: least_in_def upt_conv_Cons dest: le_neq_implies_less)
  next
    case False
    then have "least_in P from to r \<longleftrightarrow> least_in P (Suc from) to r"
      unfolding least_in_def Suc_le_eq by (cases r) (simp, metis le_less, simp, metis le_less)
    then show ?thesis using Suc False le by (simp add: upt_conv_Cons)
  qed
qed

definition find_last :: "(nat \<Rightarrow> bool) \<Rightarrow> nat \<Rightarrow> nat \<Rightarrow> nat option" where
  "find_last P from to = find P (rev [from..<to])"

lemma find_last_Suc:
  "find_last P from (Suc to) = (if from \<le> to then if P to then Some to else find_last P from to else None)"
  by (simp add: find_last_def)

lemma greatest_in_find_last: "greatest_in P from to r \<longleftrightarrow> r = find_last P from to"
proof (induction to)
  case 0
  then show ?case by (auto simp: find_last_def greatest_in_def split: option.splits)
next
  case (Suc to)
  show ?case
  proof (cases "from \<le> to \<and> \<not> P to")
    case True
    then have "greatest_in P from (Suc to) r \<longleftrightarrow> greatest_in P from to r"
      by (auto simp: greatest_in_def less_Suc_eq split: option.splits)
    then show ?thesis using Suc True by (simp add: find_last_Suc)
  next
    case False
    then show ?thesis
      by (cases r) (auto simp: find_last_Suc greatest_in_def less_Suc_eq)
  qed
qed

theorem next_occupied_bit_find:
  assumes "index_shows n offsets index S" "to \<le> n"
  shows "next_occupied_bit offsets index 0 from to = find (\<lambda>i. i \<in> S) [from..<to]"
proof -
  have "0 < length offsets" using assms(1) by (simp add: index_shows_def index_layout_def)
  moreover have "to \<le> 64 * level_bits n (Suc 0)" using assms(2) by simp
  ultimately have "least_in (ancestor S 0) from to (next_occupied_bit offsets index 0 from to)"
    by (rule next_occupied_bit_least [OF assms(1)])
  then show ?thesis unfolding least_in_find ancestor_0 .
qed

theorem previous_storage_bit_find:
  assumes "index_shows n offsets index S" "to \<le> n"
  shows "previous_storage_bit offsets index 0 from to = find_last (\<lambda>i. i \<in> S) from to"
proof -
  have "0 < length offsets" using assms(1) by (simp add: index_shows_def index_layout_def)
  moreover have "to \<le> 64 * level_bits n (Suc 0)" using assms(2) by simp
  ultimately have "greatest_in (ancestor S 0) from to (previous_storage_bit offsets index 0 from to)"
    by (rule previous_storage_bit_greatest [OF assms(1)])
  then show ?thesis unfolding greatest_in_find_last ancestor_0 .
qed

section \<open>Properties\<close>

text \<open>The index and the set of positions after a sequence of updates of the empty index.\<close>

definition index_after :: "nat \<Rightarrow> (nat \<times> bool) list \<Rightarrow> nat list \<times> u64 list" where
  "index_after n updates =
     (let (offsets, used) = level_offsets ((n + 63) div 64) 0
      in (offsets, fold (\<lambda>(position, occupied) index. index_loop offsets index 0 position occupied) updates
            (replicate used 0)))"

definition occupied_after :: "(nat \<times> bool) list \<Rightarrow> nat set" where
  "occupied_after updates =
     fold (\<lambda>(position, occupied) S. if occupied then insert position S else S - {position}) updates {}"

lemma index_after_shows:
  assumes "0 < n" "\<forall>u \<in> set updates. fst u < n" "index_after n updates = (offsets, index)"
  shows "index_shows n offsets index (occupied_after updates)"
proof -
  obtain used where used: "level_offsets ((n + 63) div 64) 0 = (offsets, used)"
    using assms(3) by (auto simp: index_after_def split: prod.splits)
  have "index_shows n offsets (fold (\<lambda>(position, occupied) index. index_loop offsets index 0 position occupied) updates index0)
      (fold (\<lambda>(position, occupied) S. if occupied then insert position S else S - {position}) updates S)"
    if "index_shows n offsets index0 S" "\<forall>u \<in> set updates. fst u < n" for index0 S
    using that
  proof (induction updates arbitrary: index0 S)
    case (Cons u updates)
    obtain p occupied where u: "u = (p, occupied)" by fastforce
    show ?case using Cons.IH [OF index_loop_update [OF Cons.prems(1), of p occupied]] Cons.prems(2) u by simp
  qed simp
  from this [OF index_shows_empty [OF level_offsets_layout [OF assms(1) used]] assms(2)] show ?thesis
    using assms(3) used by (simp add: index_after_def occupied_after_def)
qed

text \<open>
  C13. The hierarchical occupancy index answers like a linear scan. Whatever positions were set
  and cleared before, the forward search returns the first occupied position of the range it is
  given and the backward search the last one, and each returns nothing exactly when the range
  holds no occupied position, for every capacity and any number of levels.
\<close>

theorem occupancy_index_search:
  assumes "0 < n" "\<forall>u \<in> set updates. fst u < n" "index_after n updates = (offsets, index)" "to \<le> n"
  shows "next_occupied_bit offsets index 0 from to = find (\<lambda>i. i \<in> occupied_after updates) [from..<to] \<and>
    previous_storage_bit offsets index 0 from to = find_last (\<lambda>i. i \<in> occupied_after updates) from to"
  using next_occupied_bit_find [OF index_after_shows [OF assms(1-3)] assms(4)]
    previous_storage_bit_find [OF index_after_shows [OF assms(1-3)] assms(4)] by blast

theorem occupancy_index_search_witness:
  "(case index_after 200 [(3, True), (150, True), (70, True), (70, False)] of (offsets, index) \<Rightarrow>
      next_occupied_bit offsets index 0 4 200 = Some 150 \<and> previous_storage_bit offsets index 0 0 150 = Some 3)"
proof -
  obtain offsets index where i: "index_after 200 [(3, True), (150, True), (70, True), (70, False)] = (offsets, index)"
    by fastforce
  have "occupied_after [(3, True), (150, True), (70, True), (70, False)] = {3, 150}"
    by (auto simp: occupied_after_def)
  moreover have "find (\<lambda>i. i \<in> {3, 150}) [4..<200] = Some 150" "find_last (\<lambda>i. i \<in> {3, 150}) 0 150 = Some 3"
    by code_simp+
  ultimately show ?thesis
    using occupancy_index_search [OF _ _ i, of 200 4] occupancy_index_search [OF _ _ i, of 150 0] i by simp
qed

end
