(* ===== verification/Rejected_Messages.thy ===== *)
theory Rejected_Messages
  imports Bit_Index "HOL-Library.Multiset"
begin

text \<open>
  The rejected-message index of \<^verbatim>\<open>receive_buffer.cpp\<close>: a multiset of message numbers kept as a
  compressed binary trie whose nodes live in one array, with a free list threaded through the
  unused nodes. A node with \<open>bit = 32\<close> is a leaf; every other node branches on one bit of the
  message number. The walks of the source follow links until a leaf; \<open>bit\<close> falls at every step,
  so 33 steps always reach it, and the theorems show that they do.
\<close>

section \<open>Nodes and links\<close>

record RejectedMessageNode =
  rn_child0 :: nat
  rn_child1 :: nat
  rn_message :: u32
  rn_count :: nat
  rn_bit :: nat

definition default_RejectedMessageNode :: RejectedMessageNode where
  "default_RejectedMessageNode =
     \<lparr>rn_child0 = 0, rn_child1 = 0, rn_message = 0, rn_count = 0, rn_bit = 32\<rparr>"

definition no_rejected_node :: nat where
  "no_rejected_node = 0xffffffff"

text \<open>The three members of the receive buffer that make up the trie.\<close>

record RejectedMessages =
  rj_nodes :: "RejectedMessageNode list"
  rj_root :: nat
  rj_free :: nat

text \<open>\<open>children[(message >> bit) & 1]\<close>: the direction is the bit itself.\<close>

definition rn_child :: "RejectedMessageNode \<Rightarrow> bool \<Rightarrow> nat" where
  "rn_child node direction = (if direction then rn_child1 node else rn_child0 node)"

definition rn_set_child :: "RejectedMessageNode \<Rightarrow> bool \<Rightarrow> nat \<Rightarrow> RejectedMessageNode" where
  "rn_set_child node direction target =
     (if direction then node \<lparr>rn_child1 := target\<rparr> else node \<lparr>rn_child0 := target\<rparr>)"

text \<open>What the pointer \<open>link\<close> of the source points to: the root or a child of a node.\<close>

datatype RejectedLink = RootLink | ChildLink nat bool

fun link_target :: "RejectedMessages \<Rightarrow> RejectedLink \<Rightarrow> nat" where
  "link_target r RootLink = rj_root r"
| "link_target r (ChildLink node direction) = rn_child (rj_nodes r ! node) direction"

fun set_link :: "RejectedMessages \<Rightarrow> RejectedLink \<Rightarrow> nat \<Rightarrow> RejectedMessages" where
  "set_link r RootLink target = r \<lparr>rj_root := target\<rparr>"
| "set_link r (ChildLink node direction) target =
     r \<lparr>rj_nodes := (rj_nodes r)[node := rn_set_child (rj_nodes r ! node) direction target]\<rparr>"

definition set_node :: "RejectedMessages \<Rightarrow> nat \<Rightarrow> RejectedMessageNode \<Rightarrow> RejectedMessages" where
  "set_node r index node = r \<lparr>rj_nodes := (rj_nodes r)[index := node]\<rparr>"

section \<open>Operations\<close>

definition make_RejectedMessages :: "nat \<Rightarrow> RejectedMessages" where
  "make_RejectedMessages n =
     \<lparr>rj_nodes = map (\<lambda>i. default_RejectedMessageNode
        \<lparr>rn_child0 := if i + 1 < n then i + 1 else no_rejected_node\<rparr>) [0..<n],
      rj_root = no_rejected_node, rj_free = 0\<rparr>"

fun rejected_walk :: "nat \<Rightarrow> RejectedMessages \<Rightarrow> u32 \<Rightarrow> nat \<Rightarrow> nat" where
  "rejected_walk 0 r message node = node"
| "rejected_walk (Suc steps) r message node =
     (if node = no_rejected_node \<or> rn_bit (rj_nodes r ! node) = 32 then node
      else rejected_walk steps r message
             (rn_child (rj_nodes r ! node) (bit message (rn_bit (rj_nodes r ! node)))))"

definition message_rejected :: "RejectedMessages \<Rightarrow> u32 \<Rightarrow> bool" where
  "message_rejected r message =
     (let node = rejected_walk 33 r message (rj_root r)
      in node \<noteq> no_rejected_node \<and> rn_message (rj_nodes r ! node) = message)"

text \<open>The walk of the insertion, to the first link below which only lower bits branch.\<close>

fun rejected_link :: "nat \<Rightarrow> RejectedMessages \<Rightarrow> u32 \<Rightarrow> nat \<Rightarrow> RejectedLink \<Rightarrow> RejectedLink" where
  "rejected_link 0 r message b link = link"
| "rejected_link (Suc steps) r message b link =
     (let node = link_target r link; entry = rj_nodes r ! node
      in if rn_bit entry \<noteq> 32 \<and> rn_bit entry > b
         then rejected_link steps r message b (ChildLink node (bit message (rn_bit entry)))
         else link)"

text \<open>\<open>31 - countl_zero\<close>: the highest bit set.\<close>

definition highest_bit :: "u32 \<Rightarrow> nat" where
  "highest_bit w = 31 - length (takeWhile (\<lambda>i. \<not> bit w (31 - i)) [0..<32])"

definition add_rejected_message :: "RejectedMessages \<Rightarrow> u32 \<Rightarrow> RejectedMessages" where
  "add_rejected_message r message =
     (let node = rejected_walk 33 r message (rj_root r) in
      if node \<noteq> no_rejected_node \<and> rn_message (rj_nodes r ! node) = message
      then set_node r node ((rj_nodes r ! node) \<lparr>rn_count := rn_count (rj_nodes r ! node) + 1\<rparr>)
      else
        let leaf = rj_free r;
            r = r \<lparr>rj_free := rn_child0 (rj_nodes r ! leaf)\<rparr>;
            r = set_node r leaf (default_RejectedMessageNode \<lparr>rn_message := message, rn_count := 1\<rparr>)
        in if node = no_rejected_node then r \<lparr>rj_root := leaf\<rparr>
           else
             let b = highest_bit (xor message (rn_message (rj_nodes r ! node)));
                 link = rejected_link 33 r message b RootLink;
                 branch = rj_free r;
                 r = r \<lparr>rj_free := rn_child0 (rj_nodes r ! branch)\<rparr>;
                 entry = default_RejectedMessageNode \<lparr>rn_bit := b\<rparr>;
                 direction = bit message b;
                 entry = rn_set_child entry direction leaf;
                 entry = rn_set_child entry (\<not> direction) (link_target r link);
                 r = set_node r branch entry
             in set_link r link branch)"

text \<open>
  The walk of the removal, to the link of the leaf; it also yields the link of the branch above
  it, which is absent when the leaf is the root.
\<close>

fun rejected_leaf_link ::
    "nat \<Rightarrow> RejectedMessages \<Rightarrow> u32 \<Rightarrow> RejectedLink option \<Rightarrow> RejectedLink \<Rightarrow> RejectedLink option \<times> RejectedLink" where
  "rejected_leaf_link 0 r message parent_link link = (parent_link, link)"
| "rejected_leaf_link (Suc steps) r message parent_link link =
     (let node = link_target r link; entry = rj_nodes r ! node
      in if rn_bit entry \<noteq> 32
         then rejected_leaf_link steps r message (Some link) (ChildLink node (bit message (rn_bit entry)))
         else (parent_link, link))"

definition remove_rejected_message :: "RejectedMessages \<Rightarrow> u32 \<Rightarrow> RejectedMessages" where
  "remove_rejected_message r message =
     (let (parent_link, link) = rejected_leaf_link 33 r message None RootLink;
          leaf = link_target r link;
          left = rn_count (rj_nodes r ! leaf) - 1;
          r = set_node r leaf ((rj_nodes r ! leaf) \<lparr>rn_count := left\<rparr>)
      in if left \<noteq> 0 then r
         else
           let r = (case (parent_link, link) of
                      (Some parent_link, ChildLink parent direction) \<Rightarrow>
                        let r = set_link r parent_link (rn_child (rj_nodes r ! parent) (\<not> direction));
                            r = set_node r parent ((rj_nodes r ! parent) \<lparr>rn_child0 := rj_free r\<rparr>)
                        in r \<lparr>rj_free := parent\<rparr>
                    | _ \<Rightarrow> r \<lparr>rj_root := no_rejected_node\<rparr>);
               r = set_node r leaf ((rj_nodes r ! leaf) \<lparr>rn_child0 := rj_free r\<rparr>)
           in r \<lparr>rj_free := leaf\<rparr>)"

section \<open>The tree in the array\<close>

text \<open>The tree the nodes spell out, with the index of each node.\<close>

datatype trie = is_TLeaf: TLeaf nat u32 nat | TBranch nat nat trie trie

primrec t_nodes :: "trie \<Rightarrow> nat list" where
  "t_nodes (TLeaf i m c) = [i]"
| "t_nodes (TBranch i b l r) = i # t_nodes l @ t_nodes r"

primrec t_keys :: "trie \<Rightarrow> u32 set" where
  "t_keys (TLeaf i m c) = {m}"
| "t_keys (TBranch i b l r) = t_keys l \<union> t_keys r"

primrec t_bag :: "trie \<Rightarrow> u32 multiset" where
  "t_bag (TLeaf i m c) = replicate_mset c m"
| "t_bag (TBranch i b l r) = t_bag l + t_bag r"

primrec t_holds :: "RejectedMessageNode list \<Rightarrow> trie \<Rightarrow> nat \<Rightarrow> bool" where
  "t_holds ns (TLeaf i m c) p \<longleftrightarrow>
     p = i \<and> i < length ns \<and> rn_bit (ns ! i) = 32 \<and> rn_message (ns ! i) = m \<and> rn_count (ns ! i) = c \<and> 0 < c"
| "t_holds ns (TBranch i b l r) p \<longleftrightarrow>
     p = i \<and> i < length ns \<and> rn_bit (ns ! i) = b \<and> b < 32 \<and>
     t_holds ns l (rn_child (ns ! i) False) \<and> t_holds ns r (rn_child (ns ! i) True)"

text \<open>
  Each branch tells the keys on its two sides apart by its bit; above that bit all keys below
  the branch agree.
\<close>

primrec t_ok :: "nat \<Rightarrow> trie \<Rightarrow> bool" where
  "t_ok k (TLeaf i m c) \<longleftrightarrow> True"
| "t_ok k (TBranch i b l r) \<longleftrightarrow>
     b < k \<and> t_ok b l \<and> t_ok b r \<and> (\<forall>m \<in> t_keys l. \<not> bit m b) \<and> (\<forall>m \<in> t_keys r. bit m b) \<and>
     (\<forall>m \<in> t_keys l. \<forall>m' \<in> t_keys r. \<forall>j > b. bit m j = bit m' j)"

text \<open>The unused nodes, linked through their first child.\<close>

fun free_chain :: "RejectedMessageNode list \<Rightarrow> nat list \<Rightarrow> nat \<Rightarrow> bool" where
  "free_chain ns [] p \<longleftrightarrow> p = no_rejected_node"
| "free_chain ns (i # is) p \<longleftrightarrow> p = i \<and> i < length ns \<and> free_chain ns is (rn_child0 (ns ! i))"

definition opt_nodes :: "trie option \<Rightarrow> nat list" where
  "opt_nodes t = (case t of None \<Rightarrow> [] | Some t \<Rightarrow> t_nodes t)"

definition opt_bag :: "trie option \<Rightarrow> u32 multiset" where
  "opt_bag t = (case t of None \<Rightarrow> {#} | Some t \<Rightarrow> t_bag t)"

definition trie_is :: "RejectedMessages \<Rightarrow> trie option \<Rightarrow> nat list \<Rightarrow> bool" where
  "trie_is r t free \<longleftrightarrow>
     (case t of None \<Rightarrow> rj_root r = no_rejected_node
      | Some t \<Rightarrow> t_holds (rj_nodes r) t (rj_root r) \<and> t_ok 32 t) \<and>
     free_chain (rj_nodes r) free (rj_free r) \<and> distinct (opt_nodes t @ free) \<and>
     length (opt_nodes t @ free) = length (rj_nodes r) \<and> length (rj_nodes r) \<le> no_rejected_node"

section \<open>Walks\<close>

lemma t_keys_nonempty [simp]: "t_keys t \<noteq> {}"
  by (induction t) auto

lemma t_bag_keys: "t_holds ns t p \<Longrightarrow> set_mset (t_bag t) = t_keys t"
  by (induction t arbitrary: p) (auto simp: in_replicate_mset)

lemma t_holds_bound: "t_holds ns t p \<Longrightarrow> n \<in> set (t_nodes t) \<Longrightarrow> n < length ns"
  by (induction t arbitrary: p) auto

lemma t_holds_root: "t_holds ns t p \<Longrightarrow> p \<in> set (t_nodes t)"
  by (cases t) auto

lemma t_holds_cong:
  "t_holds ns t p \<Longrightarrow> length ns' = length ns \<Longrightarrow> (\<And>n. n \<in> set (t_nodes t) \<Longrightarrow> ns' ! n = ns ! n) \<Longrightarrow> t_holds ns' t p"
  by (induction t arbitrary: p) auto

lemma free_chain_cong:
  "free_chain ns is p \<Longrightarrow> length ns' = length ns \<Longrightarrow> (\<And>n. n \<in> set is \<Longrightarrow> ns' ! n = ns ! n) \<Longrightarrow> free_chain ns' is p"
  by (induction "is" arbitrary: p) auto

text \<open>The leaf a message leads to.\<close>

primrec t_leaf :: "u32 \<Rightarrow> trie \<Rightarrow> nat \<times> u32 \<times> nat" where
  "t_leaf m (TLeaf i m' c) = (i, m', c)"
| "t_leaf m (TBranch i b l r) = (if bit m b then t_leaf m r else t_leaf m l)"

lemma t_leaf_key: "fst (snd (t_leaf m t)) \<in> t_keys t"
  by (induction t) auto

lemma t_leaf_member: "t_ok k t \<Longrightarrow> m \<in> t_keys t \<Longrightarrow> fst (snd (t_leaf m t)) = m"
  by (induction t arbitrary: k) auto

lemma t_leaf_holds:
  "t_holds ns t p \<Longrightarrow> t_leaf m t = (i, m', c) \<Longrightarrow>
   i < length ns \<and> i \<in> set (t_nodes t) \<and> rn_bit (ns ! i) = 32 \<and> rn_message (ns ! i) = m' \<and> rn_count (ns ! i) = c"
  by (induction t arbitrary: p) (auto split: if_splits)

lemma rejected_walk_leaf:
  "t_holds (rj_nodes r) t p \<Longrightarrow> t_ok k t \<Longrightarrow> k < steps \<Longrightarrow> length (rj_nodes r) \<le> no_rejected_node \<Longrightarrow>
   rejected_walk steps r m p = fst (t_leaf m t)"
proof (induction t arbitrary: p k steps)
  case (TLeaf i m' c)
  then obtain s where "steps = Suc s" by (cases steps) auto
  with TLeaf show ?case by auto
next
  case (TBranch i b lt rt)
  then obtain s where s: "steps = Suc s" "b < s" by (cases steps) auto
  show ?case using TBranch.prems s TBranch.IH(1) [of _ b s] TBranch.IH(2) [of _ b s] by simp
qed

lemma rejected_walk_none [simp]: "rejected_walk steps r m no_rejected_node = no_rejected_node"
  by (cases steps) auto

lemma message_rejected_trie:
  assumes "trie_is r t free"
  shows "message_rejected r m \<longleftrightarrow> m \<in># opt_bag t"
proof (cases t)
  case None
  then show ?thesis using assms by (simp add: trie_is_def message_rejected_def opt_bag_def Let_def)
next
  case (Some t')
  have t: "t_holds (rj_nodes r) t' (rj_root r)" "t_ok 32 t'" "length (rj_nodes r) \<le> no_rejected_node"
    using assms Some by (auto simp: trie_is_def)
  obtain i m' c where leaf: "t_leaf m t' = (i, m', c)" by (cases "t_leaf m t'")
  have walk: "rejected_walk 33 r m (rj_root r) = i" using rejected_walk_leaf [OF t(1,2) _ t(3)] leaf by simp
  have "i \<noteq> no_rejected_node" "rn_message (rj_nodes r ! i) = m'"
    using t_leaf_holds [OF t(1) leaf] t(3) by simp_all
  then have "message_rejected r m \<longleftrightarrow> m' = m" by (simp only: message_rejected_def walk Let_def simp_thms)
  moreover have "m' \<in> t_keys t'" "m \<in> t_keys t' \<Longrightarrow> m' = m"
    using t_leaf_key [of m t'] t_leaf_member [OF t(2), of m] leaf by simp_all
  moreover have "set_mset (opt_bag t) = t_keys t'" using t_bag_keys [OF t(1)] Some by (simp add: opt_bag_def)
  ultimately show ?thesis by blast
qed

section \<open>Adding a message\<close>

lemma highest_bit_bit:
  assumes "w \<noteq> 0"
  shows "bit w (highest_bit w)" "\<And>i. highest_bit w < i \<Longrightarrow> \<not> bit w i"
proof -
  have "\<exists>j < 32. bit w j"
  proof (rule ccontr)
    assume "\<not> ?thesis"
    then have "w = 0" by (intro bit_word_eqI) simp
    with assms show False by simp
  qed
  then obtain j where j: "j < 32" "bit w j" by blast
  then have ex: "\<exists>i < 32. bit w (31 - i)" by (intro exI [of _ "31 - j"]) simp
  then have eq: "highest_bit w = 31 - (LEAST i. bit w (31 - i))"
    unfolding highest_bit_def by (simp only: length_takeWhile_least)
  show "bit w (highest_bit w)" unfolding eq using ex by (metis (mono_tags, lifting) LeastI)
  have "(LEAST i. bit w (31 - i)) \<le> 31 - j" using j by (intro Least_le) simp
  show "\<not> bit w i" if "highest_bit w < i" for i
  proof (cases "i < 32")
    case True
    then have "31 - i < (LEAST i. bit w (31 - i))" using that eq by simp
    then have "\<not> bit w (31 - (31 - i))" by (rule not_less_Least)
    then show ?thesis using True by simp
  next
    case False
    then show ?thesis using bit_imp_le_length by fastforce
  qed
qed

lemma highest_bit_xor:
  assumes "m \<noteq> m'"
  shows "highest_bit (xor m m') < 32" "bit m (highest_bit (xor m m')) \<noteq> bit m' (highest_bit (xor m m'))"
    "\<And>j. highest_bit (xor m m') < j \<Longrightarrow> bit m j = bit m' j"
proof -
  have w: "xor m m' \<noteq> 0"
  proof
    assume "xor m m' = 0"
    then have "bit m i = bit m' i" for i by (metis bit_xor_iff bit_0_eq bot_fun_def bot_bool_def)
    then show False using assms by (simp add: bit_eq_iff)
  qed
  show "highest_bit (xor m m') < 32" by (simp add: highest_bit_def)
  show "bit m (highest_bit (xor m m')) \<noteq> bit m' (highest_bit (xor m m'))"
    using highest_bit_bit(1) [OF w] unfolding bit_xor_iff by blast
  show "bit m j = bit m' j" if "highest_bit (xor m m') < j" for j
    using highest_bit_bit(2) [OF w that] unfolding bit_xor_iff by blast
qed

text \<open>The new leaf and the new branch, spliced in above the first branch on a lower bit.\<close>

definition t_splice :: "nat \<Rightarrow> nat \<Rightarrow> u32 \<Rightarrow> nat \<Rightarrow> trie \<Rightarrow> trie" where
  "t_splice leaf branch m b t =
     (if bit m b then TBranch branch b t (TLeaf leaf m 1) else TBranch branch b (TLeaf leaf m 1) t)"

primrec t_add :: "nat \<Rightarrow> nat \<Rightarrow> u32 \<Rightarrow> nat \<Rightarrow> trie \<Rightarrow> trie" where
  "t_add leaf branch m b (TLeaf i m' c) = t_splice leaf branch m b (TLeaf i m' c)"
| "t_add leaf branch m b (TBranch i b' l r) =
     (if b' > b
      then if bit m b' then TBranch i b' l (t_add leaf branch m b r) else TBranch i b' (t_add leaf branch m b l) r
      else t_splice leaf branch m b (TBranch i b' l r))"

lemma t_splice_sets [simp]:
  "set (t_nodes (t_splice leaf branch m b t)) = {leaf, branch} \<union> set (t_nodes t)"
  "t_keys (t_splice leaf branch m b t) = insert m (t_keys t)"
  "t_bag (t_splice leaf branch m b t) = add_mset m (t_bag t)"
  "length (t_nodes (t_splice leaf branch m b t)) = length (t_nodes t) + 2"
  by (auto simp: t_splice_def)

lemma t_add_sets [simp]:
  "set (t_nodes (t_add leaf branch m b t)) = {leaf, branch} \<union> set (t_nodes t)"
  "t_keys (t_add leaf branch m b t) = insert m (t_keys t)"
  "t_bag (t_add leaf branch m b t) = add_mset m (t_bag t)"
  "length (t_nodes (t_add leaf branch m b t)) = length (t_nodes t) + 2"
  by (induction t) auto

lemma t_add_distinct:
  "distinct (t_nodes t) \<Longrightarrow> leaf \<noteq> branch \<Longrightarrow> leaf \<notin> set (t_nodes t) \<Longrightarrow> branch \<notin> set (t_nodes t) \<Longrightarrow>
   distinct (t_nodes (t_add leaf branch m b t))"
  by (induction t) (auto simp: t_splice_def)

lemma t_ok_agree: "t_ok k t \<Longrightarrow> x \<in> t_keys t \<Longrightarrow> y \<in> t_keys t \<Longrightarrow> k \<le> j \<Longrightarrow> bit x j = bit y j"
proof (induction t arbitrary: k)
  case (TBranch i b l r)
  from TBranch.prems have b: "b < j" "t_ok b l" "t_ok b r"
    and lr: "\<And>m m'. m \<in> t_keys l \<Longrightarrow> m' \<in> t_keys r \<Longrightarrow> bit m j = bit m' j" by auto
  show ?case using TBranch.IH(1) [OF b(2)] TBranch.IH(2) [OF b(3)] lr TBranch.prems(2,3) b(1)
    by (auto simp: le_less)
qed simp

lemma t_ok_mono: "t_ok k t \<Longrightarrow> k \<le> k' \<Longrightarrow> t_ok k' t"
  by (cases t) auto

lemma t_splice_ok:
  assumes "t_ok b t" "b < k" "\<And>x. x \<in> t_keys t \<Longrightarrow> bit x b \<noteq> bit m b"
    "\<And>x j. x \<in> t_keys t \<Longrightarrow> b < j \<Longrightarrow> bit x j = bit m j"
  shows "t_ok k (t_splice leaf branch m b t)"
  using assms by (auto simp: t_splice_def)

lemma t_add_ok:
  assumes "t_ok k t" "fst (snd (t_leaf m t)) = m'" "b < k"
    "bit m b \<noteq> bit m' b" "\<And>j. b < j \<Longrightarrow> bit m j = bit m' j"
  shows "t_ok k (t_add leaf branch m b t)"
  using assms(1-3)
proof (induction t arbitrary: k)
  case (TLeaf i x c)
  then show ?case using assms(4,5) by (auto simp: t_splice_def)
next
  case (TBranch i b' l r)
  show ?case
  proof (cases "b < b'")
    case True
    have "m' \<in> t_keys (if bit m b' then r else l)"
      using TBranch.prems(2) t_leaf_key [of m l] t_leaf_key [of m r] by auto
    then show ?thesis using TBranch True assms(5) by (auto simp: less_imp_le)
  next
    case False
    have m': "m' \<in> t_keys (TBranch i b' l r)" using TBranch.prems(2) t_leaf_key [of m "TBranch i b' l r"] by simp
    have "b' \<noteq> b"
    proof
      assume "b' = b"
      then show False using TBranch.prems(1,2) t_leaf_key [of m l] t_leaf_key [of m r] assms(4)
        by (auto split: if_splits)
    qed
    then have "t_ok b (TBranch i b' l r)" using TBranch.prems(1) False by simp
    then have "bit x j = bit m' j" if "x \<in> t_keys (TBranch i b' l r)" "b \<le> j" for x j
      using t_ok_agree that m' by blast
    then have "t_ok k (t_splice leaf branch m b (TBranch i b' l r))"
      using \<open>t_ok b (TBranch i b' l r)\<close> TBranch.prems(3) assms(4,5) by (intro t_splice_ok) (auto simp: less_imp_le)
    then show ?thesis using False by simp
  qed
qed

text \<open>
  Writing through a link, seen from the tree that hangs below it: only nodes of that tree, the
  new branch and the link itself change.
\<close>

fun link_node :: "RejectedLink \<Rightarrow> nat set" where
  "link_node RootLink = {}"
| "link_node (ChildLink n d) = {n}"

definition link_only :: "RejectedLink \<Rightarrow> nat set \<Rightarrow> RejectedMessages \<Rightarrow> RejectedMessages \<Rightarrow> bool" where
  "link_only link changed r r' \<longleftrightarrow>
     length (rj_nodes r') = length (rj_nodes r) \<and> rj_free r' = rj_free r \<and>
     (\<forall>n. n \<notin> changed \<longrightarrow> n \<notin> link_node link \<longrightarrow> rj_nodes r' ! n = rj_nodes r ! n) \<and>
     (case link of RootLink \<Rightarrow> True
      | ChildLink n d \<Rightarrow> rj_root r' = rj_root r \<and> (\<exists>x. rj_nodes r' ! n = rn_set_child (rj_nodes r ! n) d x))"

lemma rn_child_set [simp]:
  "rn_child (rn_set_child node d x) d' = (if d = d' then x else rn_child node d')"
  "rn_bit (rn_set_child node d x) = rn_bit node"
  "rn_message (rn_set_child node d x) = rn_message node"
  "rn_count (rn_set_child node d x) = rn_count node"
  by (auto simp: rn_child_def rn_set_child_def)

lemma link_target_set_node:
  "n \<notin> link_node link \<Longrightarrow> link_target (set_node r n node) link = link_target r link"
  by (cases link) (auto simp: set_node_def)

lemma rj_nodes_set_node [simp]: "rj_nodes (set_node r n node) = (rj_nodes r)[n := node]" "rj_root (set_node r n node) = rj_root r"
  "rj_free (set_node r n node) = rj_free r"
  by (simp_all add: set_node_def)

definition branch_node :: "nat \<Rightarrow> u32 \<Rightarrow> nat \<Rightarrow> nat \<Rightarrow> RejectedMessageNode" where
  "branch_node leaf m b other =
     rn_set_child (rn_set_child (default_RejectedMessageNode \<lparr>rn_bit := b\<rparr>) (bit m b) leaf) (\<not> bit m b) other"

definition add_below :: "nat \<Rightarrow> nat \<Rightarrow> u32 \<Rightarrow> nat \<Rightarrow> RejectedMessages \<Rightarrow> RejectedLink \<Rightarrow> RejectedMessages" where
  "add_below leaf branch m b r link =
     set_link (set_node r branch (branch_node leaf m b (link_target r link))) link branch"

text \<open>What the walk carries along: the tree below the link, and two nodes outside it.\<close>

definition hangs :: "RejectedMessages \<Rightarrow> trie \<Rightarrow> RejectedLink \<Rightarrow> nat set \<Rightarrow> bool" where
  "hangs r t link outside \<longleftrightarrow>
     t_holds (rj_nodes r) t (link_target r link) \<and> distinct (t_nodes t) \<and>
     link_node link \<inter> set (t_nodes t) = {} \<and> link_node link \<subseteq> {..<length (rj_nodes r)} \<and>
     outside \<inter> (set (t_nodes t) \<union> link_node link) = {}"

lemma hangs_child:
  assumes "hangs r (TBranch i b lt rt) link outside"
  shows "hangs r (if d then rt else lt) (ChildLink i d) outside"
  using assms by (auto simp: hangs_def)

lemma link_only_other:
  assumes "link_only link changed r r'" "t_holds (rj_nodes r) t p" "(changed \<union> link_node link) \<inter> set (t_nodes t) = {}"
  shows "t_holds (rj_nodes r') t p"
  using assms by (intro t_holds_cong [OF assms(2)]) (auto simp: link_only_def)

text \<open>A change below one child of a node, seen from the link of the node.\<close>

lemma link_only_climb:
  assumes hang: "hangs r (TBranch i b lt rt) link outside" and new: "changed' \<subseteq> outside"
    and only: "link_only (ChildLink i d) (changed' \<union> set (t_nodes (if d then rt else lt))) r r'"
    and sub: "t_holds (rj_nodes r') t' (link_target r' (ChildLink i d))"
  shows "t_holds (rj_nodes r') (if d then TBranch i b lt t' else TBranch i b t' rt) (link_target r' link) \<and>
    link_only link (changed' \<union> set (t_nodes (TBranch i b lt rt))) r r'"
proof -
  define other where "other = (if d then lt else rt)"
  have i: "link_target r link = i" "i < length (rj_nodes r)" "rn_bit (rj_nodes r ! i) = b" "b < 32" "i \<notin> link_node link"
    using hang by (auto simp: hangs_def)
  obtain x where x: "rj_nodes r' ! i = rn_set_child (rj_nodes r ! i) d x" "rj_root r' = rj_root r"
    using only by (auto simp: link_only_def)
  have "t_holds (rj_nodes r) other (rn_child (rj_nodes r ! i) (\<not> d))"
    using hang by (cases d) (auto simp: hangs_def other_def)
  moreover have "(changed' \<union> set (t_nodes (if d then rt else lt)) \<union> link_node (ChildLink i d)) \<inter> set (t_nodes other) = {}"
    using hang new by (cases d) (auto simp: hangs_def other_def)
  ultimately have "t_holds (rj_nodes r') other (rn_child (rj_nodes r ! i) (\<not> d))" by (intro link_only_other [OF only])
  moreover have target: "link_target r' link = i"
  proof (cases link)
    case (ChildLink n e)
    then have "n \<notin> changed' \<union> set (t_nodes (if d then rt else lt))" "n \<noteq> i" using hang new by (auto simp: hangs_def)
    then have "rj_nodes r' ! n = rj_nodes r ! n" using only by (simp add: link_only_def)
    then show ?thesis using ChildLink i(1) by simp
  qed (use i x in simp)
  ultimately have "t_holds (rj_nodes r') (if d then TBranch i b lt t' else TBranch i b t' rt) (link_target r' link)"
    using sub i x only by (cases d) (simp_all add: other_def link_only_def)
  moreover have "link_only link (changed' \<union> set (t_nodes (TBranch i b lt rt))) r r'"
  proof -
    have "rj_nodes r' ! n = rj_nodes r ! n" if "n \<notin> changed' \<union> set (t_nodes (TBranch i b lt rt))" for n
      using that only by (simp add: link_only_def split: if_splits)
    moreover have "\<exists>x. rj_nodes r' ! n = rn_set_child (rj_nodes r ! n) e x" if "link = ChildLink n e" for n e
    proof -
      have "rj_nodes r' ! n = rj_nodes r ! n" using calculation [of n] hang new that by (auto simp: hangs_def)
      then show ?thesis by (intro exI [of _ "rn_child (rj_nodes r ! n) e"]) (simp add: rn_set_child_def rn_child_def)
    qed
    ultimately show ?thesis using only x by (auto simp: link_only_def split: RejectedLink.splits)
  qed
  ultimately show ?thesis by blast
qed

lemma add_below_here:
  assumes "hangs r t link {leaf, branch}" "t_holds (rj_nodes r) (TLeaf leaf m 1) leaf" "b < 32"
    "branch \<noteq> leaf" "branch < length (rj_nodes r)"
  shows "t_holds (rj_nodes (add_below leaf branch m b r link)) (t_splice leaf branch m b t)
           (link_target (add_below leaf branch m b r link) link) \<and>
         link_only link {branch} r (add_below leaf branch m b r link)"
proof -
  define ns where "ns = rj_nodes (add_below leaf branch m b r link)"
  have len: "length ns = length (rj_nodes r)" by (cases link) (auto simp: ns_def add_below_def)
  have same: "ns ! n = rj_nodes r ! n" if "n \<noteq> branch" "n \<notin> link_node link" for n
    using that by (cases link) (auto simp: ns_def add_below_def)
  have out: "branch \<notin> link_node link" "leaf \<notin> link_node link" "branch \<notin> set (t_nodes t)" "link_node link \<inter> set (t_nodes t) = {}"
    "link_node link \<subseteq> {..<length (rj_nodes r)}" using assms(1) by (auto simp: hangs_def)
  have here: "ns ! branch = branch_node leaf m b (link_target r link)"
    using assms(5) out by (cases link) (auto simp: ns_def add_below_def)
  have below: "t_holds (rj_nodes r) t (link_target r link)" using assms(1) by (simp add: hangs_def)
  have "t_holds ns t (link_target r link)" by (rule t_holds_cong [OF below len], rule same) (use out in blast)+
  moreover have "t_holds ns (TLeaf leaf m 1) leaf"
    by (rule t_holds_cong [OF assms(2) len], rule same) (use assms(4) out in auto)
  moreover have "link_target (add_below leaf branch m b r link) link = branch"
    using out by (cases link) (auto simp: add_below_def)
  ultimately have "t_holds ns (t_splice leaf branch m b t) (link_target (add_below leaf branch m b r link) link)"
    using here assms(3,5) len by (auto simp: t_splice_def branch_node_def default_RejectedMessageNode_def)
  moreover have "link_only link {branch} r (add_below leaf branch m b r link)"
    using out by (cases link) (auto simp: link_only_def add_below_def)
  ultimately show ?thesis by (simp add: ns_def)
qed

lemma link_only_mono: "link_only link A r r' \<Longrightarrow> A \<subseteq> B \<Longrightarrow> link_only link B r r'"
  by (auto simp: link_only_def split: RejectedLink.splits)

lemma add_below_tree:
  assumes "hangs r t link {leaf, branch}" "t_ok k t" "k < steps"
    "t_holds (rj_nodes r) (TLeaf leaf m 1) leaf" "b < 32" "branch \<noteq> leaf" "branch < length (rj_nodes r)"
    "r' = add_below leaf branch m b r (rejected_link steps r m b link)"
  shows "t_holds (rj_nodes r') (t_add leaf branch m b t) (link_target r' link) \<and>
    link_only link ({branch} \<union> set (t_nodes t)) r r'"
  using assms(1-3,8)
proof (induction t arbitrary: link k steps)
  case (TLeaf i x c)
  then obtain s where "steps = Suc s" by (cases steps) auto
  then have "rejected_link steps r m b link = link" using TLeaf.prems(1) by (simp add: Let_def hangs_def)
  then show ?case using add_below_here [OF TLeaf.prems(1) assms(4-7)] TLeaf.prems(4)
    by (auto intro: link_only_mono)
next
  case (TBranch i b' lt rt)
  obtain s where s: "steps = Suc s" "b' < s" using TBranch.prems(2,3) by (cases steps) auto
  have i: "link_target r link = i" "rn_bit (rj_nodes r ! i) = b'" "b' < 32"
    using TBranch.prems(1) by (auto simp: hangs_def)
  show ?case
  proof (cases "b < b'")
    case False
    then have "rejected_link steps r m b link = link" using i s by (simp add: Let_def)
    then show ?thesis using add_below_here [OF TBranch.prems(1) assms(4-7)] TBranch.prems(4) False
      by (auto intro: link_only_mono)
  next
    case True
    define d where "d = bit m b'"
    define child where "child = (if d then rt else lt)"
    have "rejected_link steps r m b link = rejected_link s r m b (ChildLink i d)"
      using i s True by (simp add: Let_def d_def)
    then have "t_holds (rj_nodes r') (t_add leaf branch m b child) (link_target r' (ChildLink i d)) \<and>
        link_only (ChildLink i d) ({branch} \<union> set (t_nodes child)) r r'"
      using TBranch.IH [of "ChildLink i d" b' s] hangs_child [OF TBranch.prems(1), of d] s TBranch.prems(2,4)
      unfolding child_def by (cases d) simp_all
    then show ?thesis
      using link_only_climb [OF TBranch.prems(1), of "{branch}" d r' "t_add leaf branch m b child"] True
      unfolding child_def d_def by (cases "bit m b'") simp_all
  qed
qed

text \<open>A leaf whose count changes.\<close>

primrec t_recount :: "nat \<Rightarrow> u32 \<Rightarrow> trie \<Rightarrow> trie" where
  "t_recount c m (TLeaf i m' c') = TLeaf i m' c"
| "t_recount c m (TBranch i b l r) =
     (if bit m b then TBranch i b l (t_recount c m r) else TBranch i b (t_recount c m l) r)"

lemma t_recount_same [simp]: "t_nodes (t_recount c m t) = t_nodes t" "t_keys (t_recount c m t) = t_keys t"
  "t_ok k (t_recount c m t) = t_ok k t"
  by (induction t arbitrary: k) auto

lemma t_recount_bag:
  "t_leaf m t = (i, m', c') \<Longrightarrow> t_bag (t_recount c m t) + replicate_mset c' m' = t_bag t + replicate_mset c m'"
  by (induction t) (auto simp: ac_simps split: if_splits)

lemma t_recount_holds:
  "t_holds ns t p \<Longrightarrow> distinct (t_nodes t) \<Longrightarrow> t_leaf m t = (i, m', c') \<Longrightarrow> 0 < c \<Longrightarrow>
   t_holds (ns[i := (ns ! i) \<lparr>rn_count := c\<rparr>]) (t_recount c m t) p"
proof (induction t arbitrary: p)
  case (TBranch j b lt rt)
  define ns' where "ns' = ns[i := (ns ! i) \<lparr>rn_count := c\<rparr>]"
  define d where "d = bit m b"
  have d: "t_leaf m (if d then rt else lt) = (i, m', c')" using TBranch.prems(3) by (simp add: d_def split: if_splits)
  have i: "i \<in> set (t_nodes (if d then rt else lt))"
    using t_leaf_holds [OF _ d] TBranch.prems(1) by (cases d) auto
  have "i \<noteq> j" using i TBranch.prems(2) by (auto split: if_splits)
  then have j: "ns' ! j = ns ! j" by (simp add: ns'_def)
  have "i \<notin> set (t_nodes (if d then lt else rt))" using i TBranch.prems(2) by (auto split: if_splits)
  then have "ns' ! n = ns ! n" if "n \<in> set (t_nodes (if d then lt else rt))" for n
    using that by (metis ns'_def nth_list_update_neq)
  then have other: "t_holds ns' (if d then lt else rt) q" if "t_holds ns (if d then lt else rt) q" for q
    by (intro t_holds_cong [OF that]) (simp_all add: ns'_def)
  have "t_holds ns' (t_recount c m (if d then rt else lt)) (rn_child (ns ! j) d)"
    using TBranch.IH TBranch.prems d unfolding ns'_def by (cases d) simp_all
  then show ?case using TBranch.prems(1) j other [of "rn_child (ns ! j) (\<not> d)"] unfolding ns'_def [symmetric]
    by (cases d) (simp_all add: d_def ns'_def)
qed auto

lemma trie_is_Some:
  "trie_is r (Some t) free \<longleftrightarrow>
     hangs r t RootLink (set free) \<and> t_ok 32 t \<and> free_chain (rj_nodes r) free (rj_free r) \<and> distinct free \<and>
     length (t_nodes t) + length free = length (rj_nodes r) \<and> length (rj_nodes r) \<le> no_rejected_node"
  by (auto simp: trie_is_def hangs_def opt_nodes_def)

lemma t_bag_room: "t_holds ns t p \<Longrightarrow> length (t_nodes t) + 1 \<le> 2 * size (t_bag t)"
proof (induction t arbitrary: p)
  case (TBranch i b l r)
  then have "length (t_nodes l) + 1 \<le> 2 * size (t_bag l)" "length (t_nodes r) + 1 \<le> 2 * size (t_bag r)" by auto
  then show ?case by simp
qed auto

definition trie_shows :: "RejectedMessages \<Rightarrow> u32 multiset \<Rightarrow> bool" where
  "trie_shows r M \<longleftrightarrow> (\<exists>t free. trie_is r t free \<and> opt_bag t = M)"

lemma nth_update_outside: "i \<notin> S \<Longrightarrow> n \<in> S \<Longrightarrow> xs[i := v] ! n = xs ! n"
  by (metis nth_list_update_neq)

lemma trie_recount:
  assumes "trie_is r (Some t) free" "t_leaf m t = (i, m', c')" "0 < c"
  shows "trie_is (set_node r i ((rj_nodes r ! i) \<lparr>rn_count := c\<rparr>)) (Some (t_recount c m t)) free"
proof -
  have t: "t_holds (rj_nodes r) t (rj_root r)" "distinct (t_nodes t)" "i \<in> set (t_nodes t)" "i \<notin> set free"
    using assms(1) t_leaf_holds [OF _ assms(2)] by (auto simp: trie_is_Some hangs_def)
  have "free_chain (rj_nodes (set_node r i ((rj_nodes r ! i) \<lparr>rn_count := c\<rparr>))) free (rj_free r)"
    by (rule free_chain_cong [of "rj_nodes r"]) (use assms(1) t(4) in \<open>simp_all add: trie_is_Some nth_update_outside\<close>)
  then show ?thesis using assms(1) t_recount_holds [OF t(1,2) assms(2,3)] by (auto simp: trie_is_Some hangs_def)
qed

lemma link_target_free [simp]: "link_target (r \<lparr>rj_free := f\<rparr>) link = link_target r link"
  by (cases link) auto

lemma rejected_link_cong:
  "rj_nodes r = rj_nodes r' \<Longrightarrow> rj_root r = rj_root r' \<Longrightarrow> rejected_link s r m b link = rejected_link s r' m b link"
proof (induction s arbitrary: link)
  case (Suc s)
  have "link_target r link = link_target r' link" using Suc.prems by (cases link) simp_all
  then show ?case using Suc by (simp add: Let_def)
qed simp

lemma rejected_link_free [simp]: "rejected_link s (r \<lparr>rj_free := f\<rparr>) m b link = rejected_link s r m b link"
  by (rule rejected_link_cong) simp_all

lemma trie_add_first:
  assumes "trie_is r None (leaf # free)"
  shows "trie_is ((set_node (r \<lparr>rj_free := rn_child0 (rj_nodes r ! leaf)\<rparr>) leaf
      (default_RejectedMessageNode \<lparr>rn_message := m, rn_count := 1\<rparr>)) \<lparr>rj_root := leaf\<rparr>) (Some (TLeaf leaf m 1)) free"
proof -
  let ?ns = "(rj_nodes r)[leaf := default_RejectedMessageNode \<lparr>rn_message := m, rn_count := 1\<rparr>]"
  have r: "leaf < length (rj_nodes r)" "leaf \<notin> set free" "distinct free"
    "free_chain (rj_nodes r) free (rn_child0 (rj_nodes r ! leaf))" "Suc (length free) = length (rj_nodes r)"
    "length (rj_nodes r) \<le> no_rejected_node" using assms by (auto simp: trie_is_def opt_nodes_def)
  have "free_chain ?ns free (rn_child0 (rj_nodes r ! leaf))"
    by (rule free_chain_cong [OF r(4)]) (use r(2) in \<open>simp_all add: nth_update_outside\<close>)
  then show ?thesis using r by (auto simp: trie_is_Some hangs_def default_RejectedMessageNode_def)
qed

lemma trie_add_other:
  assumes "trie_is r (Some t) (leaf # branch # free)" "t_leaf m t = (i, m', c)" "m' \<noteq> m"
    "r2 = (set_node r leaf (default_RejectedMessageNode \<lparr>rn_message := m, rn_count := 1\<rparr>)) \<lparr>rj_free := rn_child0 (rj_nodes r ! branch)\<rparr>"
    "b = highest_bit (xor m m')"
  shows "trie_is (add_below leaf branch m b r2 (rejected_link 33 r2 m b RootLink)) (Some (t_add leaf branch m b t)) free"
proof -
  define r3 where "r3 = add_below leaf branch m b r2 (rejected_link 33 r2 m b RootLink)"
  have r: "hangs r t RootLink (set (leaf # branch # free))" "t_ok 32 t" "leaf < length (rj_nodes r)" "branch < length (rj_nodes r)"
    "distinct (leaf # branch # free)" "free_chain (rj_nodes r) free (rn_child0 (rj_nodes r ! branch))"
    "length (t_nodes t) + length free + 2 = length (rj_nodes r)" "length (rj_nodes r) \<le> no_rejected_node"
    using assms(1) by (auto simp: trie_is_Some)
  have nodes: "rj_nodes r2 ! n = rj_nodes r ! n" if "n \<noteq> leaf" for n using that by (simp add: assms(4))
  have t: "t_holds (rj_nodes r) t (rj_root r)" "leaf \<notin> set (t_nodes t)" "branch \<notin> set (t_nodes t)"
    "set free \<inter> set (t_nodes t) = {}" "distinct (t_nodes t)"
    using r(1) by (auto simp: hangs_def)
  have "t_holds (rj_nodes r2) t (rj_root r2)"
    using t_holds_cong [OF t(1), of "rj_nodes r2"] nodes t(2) by (auto simp: assms(4) nth_update_outside)
  then have hang: "hangs r2 t RootLink {leaf, branch}" using t by (simp add: hangs_def)
  have leaf: "t_holds (rj_nodes r2) (TLeaf leaf m 1) leaf"
    using r(3) by (simp add: assms(4) default_RejectedMessageNode_def)
  have hb: "b < 32" "bit m b \<noteq> bit m' b" "\<And>j. b < j \<Longrightarrow> bit m j = bit m' j"
    using highest_bit_xor [of m m'] assms(3,5) by auto
  have tree: "t_holds (rj_nodes r3) (t_add leaf branch m b t) (link_target r3 RootLink)"
    and only: "link_only RootLink ({branch} \<union> set (t_nodes t)) r2 r3"
    using add_below_tree [OF hang r(2) _ leaf hb(1) _ _ r3_def] r(4,5) by (auto simp: assms(4))
  have "free_chain (rj_nodes r3) free (rn_child0 (rj_nodes r ! branch))"
  proof (rule free_chain_cong [OF r(6)])
    show "rj_nodes r3 ! n = rj_nodes r ! n" if "n \<in> set free" for n
    proof -
      have "n \<noteq> leaf" "n \<notin> {branch} \<union> set (t_nodes t)" using that r(5) t(4) by auto
      then show ?thesis using only nodes [of n] unfolding link_only_def by simp
    qed
  qed (use only in \<open>simp add: link_only_def assms(4)\<close>)
  moreover have "distinct (t_nodes (t_add leaf branch m b t))" using t r(5) by (simp add: t_add_distinct)
  ultimately show ?thesis using tree only r t t_add_ok [OF r(2) _ hb, of leaf branch] assms(2)
    unfolding r3_def [symmetric] by (auto simp: trie_is_Some hangs_def link_only_def assms(4))
qed

lemma trie_room:
  assumes "trie_is r t free" "2 * (size (opt_bag t) + 1) \<le> length (rj_nodes r)"
  obtains leaf branch rest where "free = leaf # branch # rest"
proof -
  have "length (opt_nodes t) \<le> 2 * size (opt_bag t)"
    using assms(1) t_bag_room [of "rj_nodes r" _ "rj_root r"]
    by (fastforce simp: trie_is_def opt_nodes_def opt_bag_def split: option.splits)
  then have "2 \<le> length free" using assms by (simp add: trie_is_def)
  then show thesis using that by (cases free; cases "tl free") auto
qed

lemma trie_add_eq:
  assumes "rejected_walk 33 r m (rj_root r) = i" "i \<noteq> no_rejected_node" "rn_message (rj_nodes r ! i) = m'"
    "rj_free r = leaf" "rn_child0 (rj_nodes r ! leaf) = branch" "leaf \<noteq> branch" "i \<noteq> leaf" "branch \<noteq> leaf"
  shows "add_rejected_message r m =
    (if m' = m then set_node r i ((rj_nodes r ! i) \<lparr>rn_count := rn_count (rj_nodes r ! i) + 1\<rparr>)
     else let r2 = (set_node r leaf (default_RejectedMessageNode \<lparr>rn_message := m, rn_count := 1\<rparr>))
                \<lparr>rj_free := rn_child0 (rj_nodes r ! branch)\<rparr>;
              b = highest_bit (xor m m')
          in add_below leaf branch m b r2 (rejected_link 33 r2 m b RootLink))"
proof -
  have swap: "rejected_link 33 (r \<lparr>rj_free := f, rj_nodes := ns\<rparr>) m b RootLink =
      rejected_link 33 (r \<lparr>rj_nodes := ns\<rparr>) m b RootLink" for f ns b
    by (rule rejected_link_cong) simp_all
  show ?thesis
    unfolding add_rejected_message_def Let_def assms(1)
    using assms(2-8) swap
    by (simp add: add_below_def branch_node_def set_node_def del: rejected_link.simps)
qed

theorem add_rejected_message_shows:
  assumes "trie_shows r M" "2 * (size M + 1) \<le> length (rj_nodes r)"
  shows "trie_shows (add_rejected_message r m) (add_mset m M) \<and>
    length (rj_nodes (add_rejected_message r m)) = length (rj_nodes r)"
proof -
  obtain t free where t: "trie_is r t free" "opt_bag t = M" using assms(1) by (auto simp: trie_shows_def)
  obtain leaf branch rest where f: "free = leaf # branch # rest" using trie_room [OF t(1)] assms(2) t(2) by blast
  have head: "rj_free r = leaf" "leaf < length (rj_nodes r)" "leaf \<noteq> branch" "rn_child0 (rj_nodes r ! leaf) = branch"
    using t(1) f by (auto simp: trie_is_def)
  show ?thesis
  proof (cases t)
    case None
    then have root: "rj_root r = no_rejected_node" using t(1) by (simp add: trie_is_def)
    have "trie_is (add_rejected_message r m) (Some (TLeaf leaf m 1)) (branch # rest)"
      using trie_add_first [of r leaf "branch # rest" m] t(1) f None root head
      by (simp add: add_rejected_message_def Let_def)
    moreover have "length (rj_nodes (add_rejected_message r m)) = length (rj_nodes r)"
      using root by (simp add: add_rejected_message_def Let_def)
    ultimately show ?thesis using t(2) None by (auto simp: trie_shows_def opt_bag_def)
  next
    case (Some t')
    obtain i m' c where leaf: "t_leaf m t' = (i, m', c)" by (cases "t_leaf m t'")
    have h: "t_holds (rj_nodes r) t' (rj_root r)" "t_ok 32 t'" "length (rj_nodes r) \<le> no_rejected_node"
      "leaf \<notin> set (t_nodes t')" using t(1) Some f by (auto simp: trie_is_def opt_nodes_def)
    have walk: "rejected_walk 33 r m (rj_root r) = i" using rejected_walk_leaf [OF h(1,2) _ h(3)] leaf by simp
    note found = t_leaf_holds [OF h(1) leaf]
    have i: "i \<noteq> no_rejected_node" "rn_message (rj_nodes r ! i) = m'" "i \<noteq> leaf" "rn_count (rj_nodes r ! i) = c"
      using found h(3,4) by auto
    note eq = trie_add_eq [OF walk i(1,2) head(1,4,3) i(3) head(3) [symmetric], unfolded i(4)]
    have *: "\<exists>t2 free2. trie_is (add_rejected_message r m) (Some t2) free2 \<and> t_bag t2 = add_mset m M"
    proof (cases "m' = m")
      case True
      then show ?thesis
        using eq trie_recount [OF t(1) [unfolded Some] leaf, of "c + 1"] t_recount_bag [OF leaf, of "c + 1"] t(2) Some
        by (intro exI [of _ "t_recount (c + 1) m t'"] exI [of _ free]) (simp add: opt_bag_def)
    next
      case False
      note trie_add_other [OF t(1) [unfolded Some f] leaf False refl refl]
      then show ?thesis using eq False t(2) Some by (auto simp: Let_def opt_bag_def)
    qed
    moreover have "length (rj_nodes (add_rejected_message r m)) = length (rj_nodes r)"
      unfolding eq add_below_def Let_def by (cases "rejected_link 33 ((set_node r leaf (default_RejectedMessageNode \<lparr>rn_message := m, rn_count := 1\<rparr>))
                \<lparr>rj_free := rn_child0 (rj_nodes r ! branch)\<rparr>) m (highest_bit (xor m m')) RootLink") simp_all
    ultimately show ?thesis unfolding trie_shows_def by (metis (no_types, lifting) opt_bag_def option.simps(5))
  qed
qed

section \<open>Removing a message\<close>

text \<open>The tree without the leaf of a message and the branch above it.\<close>

primrec t_del :: "u32 \<Rightarrow> trie \<Rightarrow> trie" where
  "t_del m (TLeaf i m' c) = TLeaf i m' c"
| "t_del m (TBranch i b l r) =
     (if bit m b then if is_TLeaf r then l else TBranch i b l (t_del m r)
      else if is_TLeaf l then r else TBranch i b (t_del m l) r)"

lemma t_del_keys: "t_keys (t_del m t) \<subseteq> t_keys t"
  by (induction t) auto

lemma t_del_ok: "t_ok k t \<Longrightarrow> t_ok k (t_del m t)"
proof (induction t arbitrary: k)
  case (TBranch i b l r)
  then show ?case using t_del_keys [of m l] t_del_keys [of m r] by (auto intro: t_ok_mono)
qed simp

lemma t_del_bag: "t_leaf m t = (j, m', c) \<Longrightarrow> \<not> is_TLeaf t \<Longrightarrow> t_bag (t_del m t) + replicate_mset c m' = t_bag t"
  by (induction t) (auto simp: ac_simps is_TLeaf_def)

text \<open>The walk to the leaf of a tree with a branch, and unlinking the branch above the leaf.\<close>

lemma link_target_set_link:
  "link_node link \<subseteq> {..<length (rj_nodes r)} \<Longrightarrow> link_target (set_link r link x) link = x"
  by (cases link) auto

lemma link_only_set_link: "link_node link \<subseteq> {..<length (rj_nodes r)} \<Longrightarrow> link_only link {} r (set_link r link x)"
  by (cases link) (auto simp: link_only_def)

definition unlinked :: "RejectedMessages \<Rightarrow> trie \<Rightarrow> RejectedLink \<Rightarrow> u32 \<Rightarrow> nat \<Rightarrow> RejectedLink \<Rightarrow> nat \<Rightarrow> bool \<Rightarrow> bool" where
  "unlinked r t link m i parent_link parent d \<longleftrightarrow>
    rn_child (rj_nodes r ! parent) d = i \<and> link_node parent_link \<inter> {i, parent} = {} \<and>
    link_node parent_link \<subseteq> {..<length (rj_nodes r)} \<and>
    mset (t_nodes t) = add_mset parent (add_mset i (mset (t_nodes (t_del m t)))) \<and>
    (let r' = set_link r parent_link (rn_child (rj_nodes r ! parent) (\<not> d)) in
     t_holds (rj_nodes r') (t_del m t) (link_target r' link) \<and> link_only link (set (t_nodes t)) r r')"

lemma unlinked_here:
  assumes hang: "hangs r (TBranch j b lt rt) link outside" and d: "d = bit m b"
    and child: "(if d then rt else lt) = TLeaf i m' c"
  shows "unlinked r (TBranch j b lt rt) link m i link j d"
proof -
  define other where "other = (if d then lt else rt)"
  define r' where "r' = set_link r link (rn_child (rj_nodes r ! j) (\<not> d))"
  have link: "link_node link \<subseteq> {..<length (rj_nodes r)}" using hang by (simp add: hangs_def)
  have "t_holds (rj_nodes r) other (rn_child (rj_nodes r ! j) (\<not> d))" "link_node link \<inter> set (t_nodes other) = {}"
    using hang by (cases d; auto simp: hangs_def other_def)+
  then have "t_holds (rj_nodes r') other (rn_child (rj_nodes r ! j) (\<not> d))"
    unfolding r'_def by (intro link_only_other [OF link_only_set_link [OF link]]) auto
  moreover have "link_target r' link = rn_child (rj_nodes r ! j) (\<not> d)"
    unfolding r'_def by (rule link_target_set_link [OF link])
  moreover have "link_only link (set (t_nodes (TBranch j b lt rt))) r r'"
    unfolding r'_def by (rule link_only_mono [OF link_only_set_link [OF link]]) simp
  moreover have "t_del m (TBranch j b lt rt) = other" using child d by (auto simp: other_def split: if_splits)
  moreover have "rn_child (rj_nodes r ! j) d = i" "link_node link \<inter> {i, j} = {}"
    using hang child by (cases d; auto simp: hangs_def)+
  moreover have "mset (t_nodes (TBranch j b lt rt)) = add_mset j (add_mset i (mset (t_nodes other)))"
    using child by (auto simp: other_def split: if_splits)
  ultimately show ?thesis using link unfolding unlinked_def r'_def [symmetric] Let_def by simp
qed

lemma unlinked_climb:
  assumes hang: "hangs r (TBranch j b lt rt) link outside" and d: "d = bit m b"
    and child: "\<not> is_TLeaf (if d then rt else lt)"
    and ih: "unlinked r (if d then rt else lt) (ChildLink j d) m i parent_link parent e"
  shows "unlinked r (TBranch j b lt rt) link m i parent_link parent e"
proof -
  define r' where "r' = set_link r parent_link (rn_child (rj_nodes r ! parent) (\<not> e))"
  have sub: "t_holds (rj_nodes r') (t_del m (if d then rt else lt)) (link_target r' (ChildLink j d))"
    and only: "link_only (ChildLink j d) ({} \<union> set (t_nodes (if d then rt else lt))) r r'"
    and rest: "rn_child (rj_nodes r ! parent) e = i"
      "link_node parent_link \<inter> {i, parent} = {} \<and> link_node parent_link \<subseteq> {..<length (rj_nodes r)}"
      "mset (t_nodes (if d then rt else lt)) = add_mset parent (add_mset i (mset (t_nodes (t_del m (if d then rt else lt)))))"
    using ih unfolding unlinked_def r'_def [symmetric] Let_def by auto
  have "t_del m (TBranch j b lt rt) =
      (if d then TBranch j b lt (t_del m (if d then rt else lt)) else TBranch j b (t_del m (if d then rt else lt)) rt)"
    using child d by auto
  moreover have "mset (t_nodes (TBranch j b lt rt)) = add_mset parent (add_mset i (mset (t_nodes (t_del m (TBranch j b lt rt)))))"
    using rest(3) child d by (cases d) auto
  ultimately show ?thesis
    using link_only_climb [OF hang empty_subsetI only sub] rest unfolding unlinked_def r'_def [symmetric] Let_def by simp
qed

lemma unlink_tree:
  assumes "hangs r t link outside" "t_ok k t" "k < steps" "\<not> is_TLeaf t" "t_leaf m t = (i, m', c)"
  shows "\<exists>parent_link parent d.
    rejected_leaf_link steps r m up link = (Some parent_link, ChildLink parent d) \<and>
    unlinked r t link m i parent_link parent d"
  using assms
proof (induction t arbitrary: link k steps up)
  case (TBranch j b lt rt)
  obtain s where s: "steps = Suc s" "b < s" using TBranch.prems(2,3) by (cases steps) auto
  define d where "d = bit m b"
  define child where "child = (if d then rt else lt)"
  have j: "link_target r link = j" "rn_bit (rj_nodes r ! j) = b" "b < 32" using TBranch.prems(1) by (auto simp: hangs_def)
  have step: "rejected_leaf_link steps r m up link = rejected_leaf_link s r m (Some link) (ChildLink j d)"
    using j s by (simp add: Let_def d_def)
  have hang: "hangs r child (ChildLink j d) outside" unfolding child_def by (rule hangs_child [OF TBranch.prems(1)])
  have leaf: "t_leaf m child = (i, m', c)" using TBranch.prems(5) by (auto simp: child_def d_def split: if_splits)
  show ?case
  proof (cases "is_TLeaf child")
    case True
    then have c: "child = TLeaf i m' c" using leaf by (auto simp: is_TLeaf_def)
    obtain s' where "s = Suc s'" using s by (cases s) auto
    then have "rejected_leaf_link steps r m up link = (Some link, ChildLink j d)"
      using step hang c by (simp add: Let_def hangs_def)
    then show ?thesis using unlinked_here [OF TBranch.prems(1) d_def] c unfolding child_def by blast
  next
    case False
    have "t_ok b child" using TBranch.prems(2) by (auto simp: child_def)
    then have "\<exists>parent_link parent e. rejected_leaf_link s r m (Some link) (ChildLink j d) = (Some parent_link, ChildLink parent e) \<and>
        unlinked r child (ChildLink j d) m i parent_link parent e"
      using TBranch.IH hang s(2) False leaf unfolding child_def by (cases d) simp_all
    then show ?thesis using unlinked_climb [OF TBranch.prems(1) d_def] False step unfolding child_def by metis
  qed
qed simp

text \<open>What the removal leaves when it retires a leaf and the branch above it.\<close>

lemma remove_rejected_nodes:
  assumes "rejected_leaf_link 33 r m None RootLink = (Some pl, ChildLink parent d)"
    "rn_child (rj_nodes r ! parent) d = i" "rn_count (rj_nodes r ! i) = 1" "link_node pl \<inter> {i, parent} = {}" "parent \<noteq> i"
    "i < length (rj_nodes r)" "parent < length (rj_nodes r)" "link_node pl \<subseteq> {..<length (rj_nodes r)}"
    "r' = set_link r pl (rn_child (rj_nodes r ! parent) (\<not> d))" "r4 = remove_rejected_message r m"
  shows "length (rj_nodes r4) = length (rj_nodes r) \<and> rj_root r4 = rj_root r' \<and> rj_free r4 = i \<and>
    rn_child0 (rj_nodes r4 ! i) = parent \<and> rn_child0 (rj_nodes r4 ! parent) = rj_free r \<and>
    (\<forall>n. n \<notin> {i, parent} \<longrightarrow> rj_nodes r4 ! n = rj_nodes r' ! n)"
proof -
  have "r4 = (let r1 = set_link (set_node r i ((rj_nodes r ! i) \<lparr>rn_count := 0\<rparr>)) pl (rn_child (rj_nodes r ! parent) (\<not> d));
                r2 = (set_node r1 parent ((rj_nodes r1 ! parent) \<lparr>rn_child0 := rj_free r1\<rparr>)) \<lparr>rj_free := parent\<rparr>
            in (set_node r2 i ((rj_nodes r2 ! i) \<lparr>rn_child0 := rj_free r2\<rparr>)) \<lparr>rj_free := i\<rparr>)"
    unfolding assms(10) remove_rejected_message_def assms(1) using assms(2,3,5) by (simp add: Let_def)
  then show ?thesis using assms(2-9) by (cases pl) (auto simp: Let_def nth_list_update)
qed

text \<open>The leaf and its branch go back to the free list.\<close>

lemma trie_remove_leaf:
  assumes "trie_is r (Some t) free" "t_leaf m t = (i, m', 1)" "\<not> is_TLeaf t"
  shows "\<exists>parent. trie_is (remove_rejected_message r m) (Some (t_del m t)) (i # parent # free)"
proof -
  have r: "hangs r t RootLink (set free)" "t_ok 32 t" "free_chain (rj_nodes r) free (rj_free r)" "distinct free"
    "length (t_nodes t) + length free = length (rj_nodes r)" "length (rj_nodes r) \<le> no_rejected_node"
    using assms(1) by (auto simp: trie_is_Some)
  obtain pl parent d where walk: "rejected_leaf_link 33 r m None RootLink = (Some pl, ChildLink parent d)"
    and un: "unlinked r t RootLink m i pl parent d"
    using unlink_tree [OF r(1,2) _ assms(3,2), of 33 None] by auto
  define x where "x = rn_child (rj_nodes r ! parent) (\<not> d)"
  define r' where "r' = set_link r pl x"
  have u: "rn_child (rj_nodes r ! parent) d = i" "link_node pl \<inter> {i, parent} = {}"
    "mset (t_nodes t) = add_mset parent (add_mset i (mset (t_nodes (t_del m t))))"
    "t_holds (rj_nodes r') (t_del m t) (rj_root r')" "link_only RootLink (set (t_nodes t)) r r'"
    "link_node pl \<subseteq> {..<length (rj_nodes r)}"
    using un unfolding unlinked_def r'_def x_def Let_def by auto
  have nodes: "distinct (t_nodes t)" "set (t_nodes t) \<inter> set free = {}" "t_holds (rj_nodes r) t (rj_root r)"
    using r(1) by (auto simp: hangs_def)
  have set_eq: "set (t_nodes t) = {parent, i} \<union> set (t_nodes (t_del m t))"
    using arg_cong [OF u(3), of set_mset] by auto
  have "distinct (parent # i # t_nodes (t_del m t))"
    using nodes(1) u(3) by (metis mset.simps(2) mset_eq_imp_distinct_iff)
  then have dist: "parent \<noteq> i" "parent \<notin> set (t_nodes (t_del m t))" "i \<notin> set (t_nodes (t_del m t))" "distinct (t_nodes (t_del m t))"
    by auto
  have bounds: "i < length (rj_nodes r)" "parent < length (rj_nodes r)" using t_holds_bound [OF nodes(3)] set_eq by auto
  have cnt: "rn_count (rj_nodes r ! i) = 1" using t_leaf_holds [OF nodes(3) assms(2)] by simp
  define r4 where "r4 = remove_rejected_message r m"
  note r4 = remove_rejected_nodes [OF walk u(1) cnt u(2) dist(1) bounds u(6) r'_def [unfolded x_def] r4_def]
  have same: "rj_nodes r4 ! n = rj_nodes r' ! n" if "n \<noteq> i" "n \<noteq> parent" for n using r4 that by blast
  have "t_holds (rj_nodes r4) (t_del m t) (rj_root r4)"
    using r4 t_holds_cong [OF u(4), of "rj_nodes r4"] same dist(2,3) u(5) by (metis link_only_def)
  moreover have "free_chain (rj_nodes r4) (i # parent # free) (rj_free r4)"
  proof -
    have "rj_nodes r4 ! n = rj_nodes r ! n" if "n \<in> set free" for n
    proof -
      have "n \<notin> set (t_nodes t)" using that nodes(2) by blast
      then show ?thesis using same [of n] u(5) set_eq by (simp add: link_only_def)
    qed
    then have "free_chain (rj_nodes r4) free (rj_free r)" using free_chain_cong [OF r(3)] r4 by blast
    then show ?thesis using r4 bounds by simp
  qed
  moreover have "length (t_nodes t) = Suc (Suc (length (t_nodes (t_del m t))))" using arg_cong [OF u(3), of size] by simp
  ultimately have "trie_is r4 (Some (t_del m t)) (i # parent # free)"
    using r4 r t_del_ok [OF r(2)] dist nodes(2) set_eq by (auto simp: trie_is_Some hangs_def)
  then show ?thesis unfolding r4_def by blast
qed

lemma leaf_link_leaf:
  assumes "hangs r (TLeaf i m' c) RootLink outside"
  shows "rejected_leaf_link (Suc steps) r m None RootLink = (None, RootLink)"
  using assms by (simp add: hangs_def Let_def)

lemma leaf_link_target:
  assumes "trie_is r (Some t) free" "t_leaf m t = (i, m', c)"
  shows "link_target r (snd (rejected_leaf_link 33 r m None RootLink)) = i"
proof (cases "is_TLeaf t")
  case True
  then show ?thesis using assms leaf_link_leaf [of r _ _ _ "set free" 32 m]
    by (auto simp: is_TLeaf_def trie_is_Some hangs_def)
next
  case False
  then show ?thesis using unlink_tree [of r t RootLink "set free" 32 33 m i m' c None] assms
    by (auto simp: trie_is_Some unlinked_def)
qed

lemma length_set_link [simp]: "length (rj_nodes (set_link r link x)) = length (rj_nodes r)"
  by (cases link) auto

lemma length_remove_rejected [simp]: "length (rj_nodes (remove_rejected_message r m)) = length (rj_nodes r)"
  by (simp add: remove_rejected_message_def Let_def split: prod.splits option.splits RejectedLink.splits)

lemma t_leaf_count: "t_holds ns t p \<Longrightarrow> t_leaf m t = (i, m', c) \<Longrightarrow> 0 < c"
  by (induction t arbitrary: p) (auto split: if_splits)

lemma trie_remove_cases:
  assumes "trie_is r (Some t) free" "t_leaf m t = (i, m', c)"
  shows "\<exists>t' free'. trie_is (remove_rejected_message r m) t' free' \<and> opt_bag t' + {#m'#} = t_bag t"
proof -
  have h: "t_holds (rj_nodes r) t (rj_root r)" "hangs r t RootLink (set free)" using assms(1) by (auto simp: trie_is_Some hangs_def)
  have c: "rn_count (rj_nodes r ! i) = c" "0 < c"
    using t_leaf_holds [OF h(1) assms(2)] t_leaf_count [OF h(1) assms(2)] by auto
  obtain pl link where walk: "rejected_leaf_link 33 r m None RootLink = (pl, link)" by fastforce
  have target: "link_target r link = i" using leaf_link_target [OF assms] walk by simp
  consider "c \<noteq> 1" | "c = 1" "is_TLeaf t" | "c = 1" "\<not> is_TLeaf t" by blast
  then show ?thesis
  proof cases
    case 1
    then have "0 < c - 1" using c by simp
    have "remove_rejected_message r m = set_node r i ((rj_nodes r ! i) \<lparr>rn_count := c - 1\<rparr>)"
      using \<open>0 < c - 1\<close> walk target c by (simp add: remove_rejected_message_def Let_def)
    moreover have "t_bag (t_recount (c - 1) m t) + {#m'#} + replicate_mset (c - 1) m' = t_bag t + replicate_mset (c - 1) m'"
      using t_recount_bag [OF assms(2), of "c - 1"] c(2) by (cases c) auto
    ultimately show ?thesis using trie_recount [OF assms \<open>0 < c - 1\<close>]
      by (intro exI [of _ "Some (t_recount (c - 1) m t)"] exI [of _ free]) (simp add: opt_bag_def)
  next
    case 2
    then have t: "t = TLeaf i m' 1" using assms(2) by (auto simp: is_TLeaf_def)
    then have i: "i < length (rj_nodes r)" "i \<notin> set free" "rj_root r = i"
      using h by (auto simp: hangs_def)
    have eq: "remove_rejected_message r m =
        (set_node (set_node r i ((rj_nodes r ! i) \<lparr>rn_count := 0\<rparr>)) i ((rj_nodes r ! i) \<lparr>rn_count := 0, rn_child0 := rj_free r\<rparr>))
          \<lparr>rj_root := no_rejected_node, rj_free := i\<rparr>"
      using leaf_link_leaf [of r i m' 1 "set free" 32 m] h(2) t i c 2 by (simp add: remove_rejected_message_def Let_def set_node_def)
    have "free_chain (rj_nodes (remove_rejected_message r m)) free (rj_free r)"
      by (rule free_chain_cong [of "rj_nodes r"]) (use assms(1) i(2) in \<open>simp_all add: trie_is_Some eq nth_update_outside\<close>)
    then have "trie_is (remove_rejected_message r m) None (i # free)"
      using assms(1) t i eq by (auto simp: trie_is_def opt_nodes_def)
    then show ?thesis using t by (intro exI [of _ None] exI [of _ "i # free"]) (simp add: opt_bag_def)
  next
    case 3
    then show ?thesis using trie_remove_leaf [OF assms(1) assms(2) [unfolded 3]] t_del_bag [OF assms(2) 3(2)]
      by (auto simp: opt_bag_def intro!: exI [of _ "Some (t_del m t)"])
  qed
qed

theorem remove_rejected_message_shows:
  assumes "trie_shows r M" "m \<in># M"
  shows "trie_shows (remove_rejected_message r m) (M - {#m#}) \<and>
    length (rj_nodes (remove_rejected_message r m)) = length (rj_nodes r)"
proof -
  obtain t0 free where t0: "trie_is r t0 free" "opt_bag t0 = M" using assms(1) by (auto simp: trie_shows_def)
  then obtain t where t: "trie_is r (Some t) free" "t_bag t = M" using assms(2) by (cases t0) (auto simp: opt_bag_def)
  then have h: "t_holds (rj_nodes r) t (rj_root r)" "t_ok 32 t" by (auto simp: trie_is_Some hangs_def)
  obtain i m' c where leaf: "t_leaf m t = (i, m', c)" by (cases "t_leaf m t")
  have "m' = m" using t_leaf_member [OF h(2), of m] t_bag_keys [OF h(1)] assms(2) t(2) leaf by simp
  then obtain t' free' where "trie_is (remove_rejected_message r m) t' free'" "opt_bag t' + {#m#} = M"
    using trie_remove_cases [OF t(1) leaf] t(2) by auto
  then show ?thesis unfolding trie_shows_def by auto
qed

lemma make_RejectedMessages_shows:
  assumes "n \<le> no_rejected_node" "0 < n"
  shows "trie_shows (make_RejectedMessages n) {#}"
proof -
  have "free_chain (rj_nodes (make_RejectedMessages n)) [i..<n] (if i < n then i else no_rejected_node)" if "i \<le> n" for i
    using that
  proof (induction "n - i" arbitrary: i)
    case (Suc d)
    then have "free_chain (rj_nodes (make_RejectedMessages n)) [Suc i..<n] (if Suc i < n then Suc i else no_rejected_node)"
      using Suc.hyps(1) [of "Suc i"] by simp
    moreover have "i < n" "[i..<n] = i # [Suc i..<n]" using Suc.hyps(2) by (simp_all add: upt_conv_Cons)
    ultimately show ?case by (simp add: make_RejectedMessages_def split: if_splits)
  qed simp
  from this [of 0] assms have "trie_is (make_RejectedMessages n) None [0..<n]"
    by (simp add: trie_is_def opt_nodes_def make_RejectedMessages_def)
  then show ?thesis by (auto simp: trie_shows_def opt_bag_def)
qed

section \<open>The interface of a message multiset\<close>

text \<open>What the receive buffer relies on: membership, and adding and removing one occurrence.\<close>

locale message_bag =
  fixes bag_shows :: "'r \<Rightarrow> 'k multiset \<Rightarrow> bool" and bag_room :: "'r \<Rightarrow> nat"
    and member :: "'r \<Rightarrow> 'k \<Rightarrow> bool" and add :: "'r \<Rightarrow> 'k \<Rightarrow> 'r" and remove :: "'r \<Rightarrow> 'k \<Rightarrow> 'r"
  assumes member_iff: "bag_shows r M \<Longrightarrow> member r k \<longleftrightarrow> k \<in># M"
    and add_shows: "bag_shows r M \<Longrightarrow> size M < bag_room r \<Longrightarrow> bag_shows (add r k) (add_mset k M)"
    and remove_shows: "bag_shows r M \<Longrightarrow> k \<in># M \<Longrightarrow> bag_shows (remove r k) (M - {#k#})"
    and add_room: "bag_shows r M \<Longrightarrow> size M < bag_room r \<Longrightarrow> bag_room (add r k) = bag_room r"
    and remove_room: "bag_shows r M \<Longrightarrow> k \<in># M \<Longrightarrow> bag_room (remove r k) = bag_room r"
begin

text \<open>Any sequence of additions within the room and removals of members.\<close>

inductive bag_run :: "'r \<Rightarrow> 'r \<Rightarrow> 'k multiset \<Rightarrow> bool" for r0 where
  start: "bag_run r0 r0 {#}"
| add: "bag_run r0 r M \<Longrightarrow> size M < bag_room r0 \<Longrightarrow> bag_run r0 (add r k) (add_mset k M)"
| remove: "bag_run r0 r M \<Longrightarrow> k \<in># M \<Longrightarrow> bag_run r0 (remove r k) (M - {#k#})"

lemma bag_run_shows:
  assumes "bag_run r0 r M" "bag_shows r0 {#}"
  shows "bag_shows r M \<and> bag_room r = bag_room r0"
  using assms by (induction rule: bag_run.induct) (auto simp: add_shows remove_shows add_room remove_room)

lemma bag_run_member: "bag_run r0 r M \<Longrightarrow> bag_shows r0 {#} \<Longrightarrow> member r k \<longleftrightarrow> k \<in># M"
  using bag_run_shows member_iff by blast

end

interpretation rejected: message_bag trie_shows "\<lambda>r. length (rj_nodes r) div 2" message_rejected add_rejected_message
    remove_rejected_message
proof unfold_locales
  fix r M m
  assume shows_M: "trie_shows r M"
  then obtain t free where t: "trie_is r t free" "opt_bag t = M" by (auto simp: trie_shows_def)
  show "message_rejected r m \<longleftrightarrow> m \<in># M" using message_rejected_trie [OF t(1)] t(2) by simp
  show "trie_shows (add_rejected_message r m) (add_mset m M)"
    and "length (rj_nodes (add_rejected_message r m)) div 2 = length (rj_nodes r) div 2"
    if "size M < length (rj_nodes r) div 2"
    using add_rejected_message_shows [OF shows_M] that by simp_all
  show "trie_shows (remove_rejected_message r m) (M - {#m#})"
    and "length (rj_nodes (remove_rejected_message r m)) div 2 = length (rj_nodes r) div 2" if "m \<in># M"
    using remove_rejected_message_shows [OF shows_M that] by simp_all
qed

section \<open>Properties\<close>

text \<open>
  C12. The rejected-message trie is a multiset of message numbers. After any sequence of additions
  (at most one per slot of the ring) and removals of messages that are present, a message is
  reported as rejected exactly when it has been added more often than removed. The walks are
  bounded by 33 steps, the node array is never exhausted, and no insertion or removal disturbs
  another message.
\<close>

theorem rejected_messages_multiset:
  assumes "0 < capacity" "capacity < 0x40000000"
    and "rejected.bag_run (make_RejectedMessages (capacity * 2)) r M"
  shows "message_rejected r m \<longleftrightarrow> m \<in># M"
proof (rule rejected.bag_run_member [OF assms(3)])
  show "trie_shows (make_RejectedMessages (capacity * 2)) {#}"
    by (rule make_RejectedMessages_shows) (use assms(1,2) in \<open>simp_all add: no_rejected_node_def\<close>)
qed

lemma rejected_run_sample:
  "rejected.bag_run (make_RejectedMessages (4 * 2))
     (remove_rejected_message (add_rejected_message (add_rejected_message (add_rejected_message
        (make_RejectedMessages (4 * 2)) 5) 7) 5) 7) {#5, 5#}"
proof -
  let ?r0 = "make_RejectedMessages (4 * 2)"
  have "rejected.bag_run ?r0 (add_rejected_message (add_rejected_message (add_rejected_message ?r0 5) 7) 5) {#5, 7, 5#}"
    by (intro rejected.bag_run.start rejected.bag_run.add) (simp_all add: make_RejectedMessages_def)
  from rejected.bag_run.remove [OF this, of 7] show ?thesis by simp
qed

theorem rejected_messages_multiset_witness:
  "message_rejected (remove_rejected_message (add_rejected_message (add_rejected_message (add_rejected_message
     (make_RejectedMessages (4 * 2)) 5) 7) 5) 7) 5 \<and>
   \<not> message_rejected (remove_rejected_message (add_rejected_message (add_rejected_message (add_rejected_message
     (make_RejectedMessages (4 * 2)) 5) 7) 5) 7) 7"
  using rejected_messages_multiset [OF _ _ rejected_run_sample] by simp

end
