(* ===== verification/Receive_Buffer.thy ===== *)
theory Receive_Buffer
  imports Packet_Codec Receive_Window Payload_Pool Range_Drop_Queue Bit_Index Rejected_Messages
begin

text \<open>
  \<^verbatim>\<open>receive_buffer.hpp\<close> and \<^verbatim>\<open>receive_buffer.cpp\<close>: the receiver's packet store. Packets live in a
  ring of slots that covers a window of sequence numbers; their bodies are in the payload pool;
  two occupancy indexes find the next readable and the next stored slot; a trie counts rejected
  messages; the cumulative acknowledgement runs ahead of the window. This theory holds the
  definitions, one for every member function and loop, in the order of the source. A pointer to
  a slot is the offset of the slot from the head of the window. The counters \<open>inspected\<close> and
  \<open>word_reads\<close> are test instrumentation and are left out.
\<close>

section \<open>Data\<close>

record ReceiveInsert =
  ri_status :: ReceiveStatus
  ri_gap_before_packet :: SequenceRange
  ri_has_gap :: bool
  ri_contiguous_advance :: u32

record ReceivedMessage =
  rm_bytes_written :: nat
  rm_message_number :: u32
  rm_first_sequence :: SequenceNumber
  rm_timestamp :: PacketTimestamp
  rm_delivery_time_microseconds :: "u64 option"

record BufferedMessageInfo =
  bi_first_sequence :: SequenceNumber
  bi_last_sequence :: SequenceNumber
  bi_timestamp :: PacketTimestamp

record BufferedMessageCopy =
  bc_first_sequence :: SequenceNumber
  bc_next_sequence :: SequenceNumber
  bc_timestamp :: PacketTimestamp
  bc_message_number :: u32
  bc_payload :: bytes

datatype DropPreservation =
  DropPreservation_none | DropPreservation_complete_messages | DropPreservation_received_packets

record ReceiveSlot =
  rs_header :: DataHeader
  rs_payload_index :: nat
  rs_payload_size :: nat
  rs_payload_offset :: nat
  rs_rejected_payload :: bool
  rs_occupied :: bool
  rs_dropped :: bool
  rs_gap_deadline_microseconds :: u64

definition default_ReceiveSlot :: ReceiveSlot where
  "default_ReceiveSlot =
     \<lparr>rs_header = default_DataHeader, rs_payload_index = 0, rs_payload_size = 0, rs_payload_offset = 0,
      rs_rejected_payload = False, rs_occupied = False, rs_dropped = False, rs_gap_deadline_microseconds = 0\<rparr>"

record ReceiveBuffer =
  rb_defer_drop_timestamp_refresh :: bool
  rb_drop_timestamp_refresh_pending :: bool
  rb_message_query_valid :: bool
  rb_packet_query_valid :: bool
  rb_message_query :: "BufferedMessageInfo option"
  rb_packet_query :: "BufferedMessageInfo option"
  rb_rejected :: RejectedMessages
  rb_discarding_message :: "u32 option"
  rb_payloads :: PayloadPool
  rb_slots :: "ReceiveSlot list"
  rb_occupied_index :: "u64 list"
  rb_storage_index :: "u64 list"
  rb_level_offsets :: "nat list"
  rb_first_stored_sequence :: SequenceNumber
  rb_next_ack_sequence :: SequenceNumber
  rb_head :: nat
  rb_classified_loss_prefix :: nat
  rb_occupied :: nat
  rb_buffered_payload_bytes :: nat
  rb_first_buffered_sequence :: SequenceNumber
  rb_last_buffered_sequence :: SequenceNumber
  rb_first_buffered_timestamp :: PacketTimestamp
  rb_last_buffered_timestamp :: PacketTimestamp

section \<open>Construction and the occupancy index\<close>

definition make_ReceiveBuffer :: "bytes \<Rightarrow> SequenceNumber \<Rightarrow> nat \<Rightarrow> ReceiveBuffer option" where
  "make_ReceiveBuffer storage initial_sequence capacity_packets =
     (case make_PayloadPool storage capacity_packets of
        None \<Rightarrow> None
      | Some pool \<Rightarrow>
          if capacity_packets = 0 \<or> capacity_packets \<ge> 0x40000000 then None
          else
            let (offsets, total_words) = level_offsets ((capacity_packets + 63) div 64) 0
            in Some
              \<lparr>rb_defer_drop_timestamp_refresh = False, rb_drop_timestamp_refresh_pending = False,
               rb_message_query_valid = False, rb_packet_query_valid = False,
               rb_message_query = None, rb_packet_query = None,
               rb_rejected = make_RejectedMessages (capacity_packets * 2), rb_discarding_message = None,
               rb_payloads = pool, rb_slots = replicate capacity_packets default_ReceiveSlot,
               rb_occupied_index = replicate total_words 0, rb_storage_index = replicate total_words 0,
               rb_level_offsets = offsets, rb_first_stored_sequence = initial_sequence,
               rb_next_ack_sequence = initial_sequence, rb_head = 0, rb_classified_loss_prefix = 0,
               rb_occupied = 0, rb_buffered_payload_bytes = 0,
               rb_first_buffered_sequence = SequenceNumber 0, rb_last_buffered_sequence = SequenceNumber 0,
               rb_first_buffered_timestamp = PacketTimestamp 0, rb_last_buffered_timestamp = PacketTimestamp 0\<rparr>)"

definition rb_capacity :: "ReceiveBuffer \<Rightarrow> nat" where
  "rb_capacity b = length (rb_slots b)"

definition rb_available :: "ReceiveBuffer \<Rightarrow> nat" where
  "rb_available b = rb_capacity b - rb_occupied b"

text \<open>Slots are addressed by their offset from the head of the window.\<close>

definition rb_index :: "ReceiveBuffer \<Rightarrow> nat \<Rightarrow> nat" where
  "rb_index b offset = (rb_head b + offset) mod rb_capacity b"

definition rb_slot :: "ReceiveBuffer \<Rightarrow> nat \<Rightarrow> ReceiveSlot" where
  "rb_slot b offset = rb_slots b ! rb_index b offset"

definition rb_set_slot :: "ReceiveBuffer \<Rightarrow> nat \<Rightarrow> ReceiveSlot \<Rightarrow> ReceiveBuffer" where
  "rb_set_slot b offset slot = b \<lparr>rb_slots := (rb_slots b)[rb_index b offset := slot]\<rparr>"

definition rb_invalidate_delivery_queries :: "ReceiveBuffer \<Rightarrow> ReceiveBuffer" where
  "rb_invalidate_delivery_queries b = b \<lparr>rb_message_query_valid := False, rb_packet_query_valid := False\<rparr>"

text \<open>The source updates the storage index by swapping it with the occupied one.\<close>

definition rb_index_occupied :: "ReceiveBuffer \<Rightarrow> nat \<Rightarrow> bool \<Rightarrow> bool \<Rightarrow> ReceiveBuffer" where
  "rb_index_occupied b position occupied storage =
     (let b = (if storage
               then b \<lparr>rb_storage_index := index_loop (rb_level_offsets b) (rb_storage_index b) 0 position occupied\<rparr>
               else b)
      in b \<lparr>rb_occupied_index := index_loop (rb_level_offsets b) (rb_occupied_index b) 0 position occupied\<rparr>)"

definition rb_advance_frontier :: "ReceiveBuffer \<Rightarrow> nat \<Rightarrow> ReceiveBuffer" where
  "rb_advance_frontier b packets =
     b \<lparr>rb_head := (rb_head b + packets) mod rb_capacity b,
        rb_first_stored_sequence := seq_advanced (rb_first_stored_sequence b) (of_nat packets),
        rb_classified_loss_prefix := rb_classified_loss_prefix b - min packets (rb_classified_loss_prefix b)\<rparr>"

definition rb_next_occupied_offset :: "ReceiveBuffer \<Rightarrow> nat \<Rightarrow> nat option" where
  "rb_next_occupied_offset b begin =
     (if begin \<ge> rb_capacity b then None
      else
        let position = (rb_head b + begin) mod rb_capacity b;
            stop = min (rb_capacity b) (position + rb_capacity b - begin);
            found = next_occupied_bit (rb_level_offsets b) (rb_occupied_index b) 0 position stop;
            found = (if found = None \<and> position \<ge> rb_head b \<and> rb_head b \<noteq> 0
                     then next_occupied_bit (rb_level_offsets b) (rb_occupied_index b) 0 0 (rb_head b)
                     else found)
        in case found of
             None \<Rightarrow> None
           | Some position \<Rightarrow> Some ((position + rb_capacity b - rb_head b) mod rb_capacity b))"

section \<open>Lookups\<close>

definition rb_find :: "ReceiveBuffer \<Rightarrow> SequenceNumber \<Rightarrow> nat option" where
  "rb_find b sequence =
     (let signed_offset = seq_distance sequence (rb_first_stored_sequence b)
      in if signed_offset < 0 \<or> nat signed_offset \<ge> rb_capacity b then None
         else
           let slot = rb_slot b (nat signed_offset)
           in if rs_occupied slot \<and> \<not> rs_rejected_payload slot \<and> dh_sequence (rs_header slot) = sequence
              then Some (nat signed_offset) else None)"

definition rb_contains_data :: "ReceiveBuffer \<Rightarrow> SequenceNumber \<Rightarrow> bool" where
  "rb_contains_data b sequence = (rb_find b sequence \<noteq> None)"

definition rb_has_stream_data :: "ReceiveBuffer \<Rightarrow> bool" where
  "rb_has_stream_data b = (rb_find b (rb_first_stored_sequence b) \<noteq> None)"

definition rb_is_settled :: "ReceiveBuffer \<Rightarrow> SequenceNumber \<Rightarrow> bool" where
  "rb_is_settled b sequence =
     (let offset = seq_distance sequence (rb_first_stored_sequence b)
      in if offset < 0 \<or> nat offset \<ge> rb_capacity b then False
         else
           let slot = rb_slot b (nat offset)
           in rs_dropped slot \<or> (rs_occupied slot \<and> dh_sequence (rs_header slot) = sequence))"

section \<open>The bounds of the buffered timestamps\<close>

definition rb_refresh_first_buffered_timestamp :: "ReceiveBuffer \<Rightarrow> ReceiveBuffer" where
  "rb_refresh_first_buffered_timestamp b =
     (if rb_occupied b = 0
      then b \<lparr>rb_first_buffered_sequence := SequenceNumber 0, rb_last_buffered_sequence := SequenceNumber 0,
              rb_first_buffered_timestamp := PacketTimestamp 0, rb_last_buffered_timestamp := PacketTimestamp 0\<rparr>
      else
        let found = next_occupied_bit (rb_level_offsets b) (rb_storage_index b) 0 (rb_head b) (rb_capacity b);
            found = (if found = None
                     then next_occupied_bit (rb_level_offsets b) (rb_storage_index b) 0 0 (rb_head b) else found)
        in case found of
             None \<Rightarrow> b
           | Some position \<Rightarrow>
               b \<lparr>rb_first_buffered_sequence := dh_sequence (rs_header (rb_slots b ! position)),
                  rb_first_buffered_timestamp := dh_timestamp (rs_header (rb_slots b ! position))\<rparr>)"

definition rb_refresh_buffered_timestamp_bounds :: "ReceiveBuffer \<Rightarrow> ReceiveBuffer" where
  "rb_refresh_buffered_timestamp_bounds b =
     (let b = rb_refresh_first_buffered_timestamp b
      in if rb_occupied b = 0 then b
         else
           let found = previous_storage_bit (rb_level_offsets b) (rb_storage_index b) 0 0 (rb_head b);
               found = (if found = None
                        then previous_storage_bit (rb_level_offsets b) (rb_storage_index b) 0 (rb_head b) (rb_capacity b)
                        else found)
           in case found of
                None \<Rightarrow> b
              | Some position \<Rightarrow>
                  b \<lparr>rb_last_buffered_sequence := dh_sequence (rs_header (rb_slots b ! position)),
                     rb_last_buffered_timestamp := dh_timestamp (rs_header (rb_slots b ! position))\<rparr>)"

section \<open>Rejection, acknowledgement and trimming\<close>

text \<open>\<open>remove_rejected_message\<close> on a slot: its flag, and its occurrence in the trie.\<close>

definition rb_remove_rejected :: "ReceiveBuffer \<Rightarrow> nat \<Rightarrow> ReceiveBuffer" where
  "rb_remove_rejected b offset =
     (let slot = rb_slot b offset
      in if \<not> rs_rejected_payload slot then b
         else (rb_set_slot b offset (slot \<lparr>rs_rejected_payload := False\<rparr>))
                \<lparr>rb_rejected := remove_rejected_message (rb_rejected b) (dh_message_number (rs_header slot))\<rparr>)"

text \<open>
  The loop of \<open>advance_acknowledgement\<close>. Every round moves the acknowledgement one slot further
  into the window, so \<open>capacity\<close> rounds leave it behind the window at the latest.
\<close>

primrec rb_advance_ack_loop :: "nat \<Rightarrow> ReceiveBuffer \<Rightarrow> ReceiveBuffer" where
  "rb_advance_ack_loop 0 b = b"
| "rb_advance_ack_loop (Suc n) b =
     (let signed_offset = seq_distance (rb_next_ack_sequence b) (rb_first_stored_sequence b)
      in if signed_offset < 0 \<or> nat signed_offset \<ge> rb_capacity b then b
         else
           let slot = rb_slot b (nat signed_offset)
           in if \<not> rs_dropped slot
                 \<and> \<not> (rs_occupied slot \<and> dh_sequence (rs_header slot) = rb_next_ack_sequence b) then b
              else rb_advance_ack_loop n (b \<lparr>rb_next_ack_sequence := seq_next (rb_next_ack_sequence b)\<rparr>))"

definition rb_advance_acknowledgement :: "ReceiveBuffer \<Rightarrow> ReceiveBuffer" where
  "rb_advance_acknowledgement b = rb_advance_ack_loop (rb_capacity b) b"

text \<open>The end of a round of \<open>trim_dropped_prefix\<close>: the head slot leaves the window.\<close>

definition rb_retire_head :: "ReceiveBuffer \<Rightarrow> ReceiveBuffer" where
  "rb_retire_head b =
     (let b = rb_index_occupied b (rb_head b) False True;
          b = rb_invalidate_delivery_queries b;
          b = rb_remove_rejected b 0;
          b = rb_set_slot b 0 ((rb_slot b 0)
                \<lparr>rs_payload_size := 0, rs_payload_offset := 0, rs_gap_deadline_microseconds := 0\<rparr>)
      in rb_advance_frontier b 1)"

text \<open>A packet of a discarded message gives up its body.\<close>

definition rb_release_head :: "ReceiveBuffer \<Rightarrow> ReceiveBuffer" where
  "rb_release_head b =
     (let slot = rb_slot b 0;
          b = b \<lparr>rb_buffered_payload_bytes :=
                   rb_buffered_payload_bytes b - (rs_payload_size slot - rs_payload_offset slot),
                 rb_payloads := pl_release (rb_payloads b) (rs_payload_index slot)\<rparr>;
          b = rb_set_slot b 0 (slot \<lparr>rs_occupied := False\<rparr>)
      in b \<lparr>rb_occupied := rb_occupied b - 1\<rparr>)"

text \<open>
  One round of \<open>trim_dropped_prefix\<close>: the left value when the loop returns, otherwise the buffer
  after the head slot is retired. Every round empties a slot, so \<open>capacity\<close> rounds are enough.
\<close>

definition rb_trim_step :: "ReceiveBuffer \<Rightarrow> ReceiveBuffer + ReceiveBuffer" where
  "rb_trim_step b =
     (let slot = rb_slot b 0
      in if rs_dropped slot then Inr (rb_retire_head (rb_set_slot b 0 (slot \<lparr>rs_dropped := False\<rparr>)))
         else if \<not> rs_occupied slot then Inl b
         else
           let number = dh_message_number (rs_header slot);
               b = (if rb_discarding_message b \<noteq> None \<and> rb_discarding_message b \<noteq> Some number
                    then b \<lparr>rb_discarding_message := None\<rparr> else b);
               b = (if rb_discarding_message b = None \<and> message_rejected (rb_rejected b) number
                    then b \<lparr>rb_discarding_message := Some number\<rparr> else b)
           in if rb_discarding_message b = None then Inl b
              else
                let b = rb_release_head b;
                    b = (if dh_boundary (rs_header slot) = MessageBoundary_last
                            \<or> dh_boundary (rs_header slot) = MessageBoundary_solo
                         then b \<lparr>rb_discarding_message := None\<rparr> else b)
                in Inr (rb_retire_head b))"

primrec rb_trim_loop :: "nat \<Rightarrow> ReceiveBuffer \<Rightarrow> ReceiveBuffer" where
  "rb_trim_loop 0 b = b"
| "rb_trim_loop (Suc n) b = (case rb_trim_step b of Inl b \<Rightarrow> b | Inr b \<Rightarrow> rb_trim_loop n b)"

definition rb_trim_dropped_prefix :: "ReceiveBuffer \<Rightarrow> ReceiveBuffer" where
  "rb_trim_dropped_prefix b = rb_trim_loop (rb_capacity b + 1) b"

definition rb_discard_message_payload :: "ReceiveBuffer \<Rightarrow> SequenceNumber \<Rightarrow> ReceiveBuffer" where
  "rb_discard_message_payload b sequence =
     (case rb_find b sequence of
        None \<Rightarrow> b
      | Some offset \<Rightarrow>
          let b = rb_invalidate_delivery_queries b;
              b = rb_index_occupied b (rb_index b offset) False False;
              b = rb_set_slot b offset ((rb_slot b offset) \<lparr>rs_rejected_payload := True\<rparr>);
              b = b \<lparr>rb_rejected := add_rejected_message (rb_rejected b)
                                      (dh_message_number (rs_header (rb_slot b offset)))\<rparr>;
              b = rb_trim_dropped_prefix b
          in rb_refresh_buffered_timestamp_bounds b)"

section \<open>Insertion\<close>

definition receive_insert_of :: "ReceiveStatus \<Rightarrow> ReceiveInsert" where
  "receive_insert_of status =
     \<lparr>ri_status = status, ri_gap_before_packet = make_range (SequenceNumber 0) (SequenceNumber 0),
      ri_has_gap = False, ri_contiguous_advance = 0\<rparr>"

text \<open>The slot of an accepted packet, the indexes, the bounds and the counters.\<close>

definition rb_store_packet :: "ReceiveBuffer \<Rightarrow> nat \<Rightarrow> PacketView \<Rightarrow> ReceiveBuffer" where
  "rb_store_packet b offset packet =
     (let sequence = dh_sequence (pv_data packet);
          b = rb_invalidate_delivery_queries b;
          (payload_index, pool) = pl_acquire (rb_payloads b) (pv_payload packet);
          b = b \<lparr>rb_payloads := pool\<rparr>;
          b = rb_set_slot b offset ((rb_slot b offset)
                \<lparr>rs_header := pv_data packet, rs_payload_index := payload_index,
                 rs_payload_size := length (pv_payload packet) mod 65536, rs_payload_offset := 0,
                 rs_rejected_payload := False, rs_occupied := True, rs_dropped := False,
                 rs_gap_deadline_microseconds := 0\<rparr>);
          b = rb_index_occupied b (rb_index b offset) True True;
          b = (if rb_occupied b = 0
               then b \<lparr>rb_first_buffered_sequence := sequence, rb_last_buffered_sequence := sequence,
                       rb_first_buffered_timestamp := dh_timestamp (pv_data packet),
                       rb_last_buffered_timestamp := dh_timestamp (pv_data packet)\<rparr>
               else
                 let b = (if seq_distance sequence (rb_first_buffered_sequence b) < 0
                          then b \<lparr>rb_first_buffered_sequence := sequence,
                                  rb_first_buffered_timestamp := dh_timestamp (pv_data packet)\<rparr> else b)
                 in if seq_distance sequence (rb_last_buffered_sequence b) > 0
                    then b \<lparr>rb_last_buffered_sequence := sequence,
                            rb_last_buffered_timestamp := dh_timestamp (pv_data packet)\<rparr> else b)
      in b \<lparr>rb_occupied := rb_occupied b + 1,
            rb_buffered_payload_bytes := rb_buffered_payload_bytes b + length (pv_payload packet)\<rparr>)"

definition rb_insert :: "ReceiveBuffer \<Rightarrow> PacketView \<Rightarrow> (Error + ReceiveInsert) \<times> ReceiveBuffer" where
  "rb_insert b packet =
     (if pv_kind packet \<noteq> PacketKind_data \<or> length (pv_payload packet) > maximum_data_payload_size
      then (Inl invalid_packet_type, b)
      else
        let sequence = dh_sequence (pv_data packet);
            signed_offset = seq_distance sequence (rb_first_stored_sequence b)
        in if signed_offset < 0 then (Inr (receive_insert_of ReceiveStatus_older_than_window), b)
           else if nat signed_offset \<ge> rb_capacity b then (Inr (receive_insert_of ReceiveStatus_beyond_window), b)
           else if rs_occupied (rb_slot b (nat signed_offset)) \<or> rs_dropped (rb_slot b (nat signed_offset))
           then (Inr (receive_insert_of ReceiveStatus_duplicate), b)
           else
             let b = rb_store_packet b (nat signed_offset) packet;
                 ack_offset = seq_distance sequence (rb_next_ack_sequence b);
                 result = receive_insert_of (if ack_offset = 0 then ReceiveStatus_accepted_in_order
                                             else ReceiveStatus_accepted_out_of_order);
                 result = (if ack_offset > 0
                           then result \<lparr>ri_has_gap := True,
                                        ri_gap_before_packet := make_range (rb_next_ack_sequence b) (seq_advanced sequence seq_mask)\<rparr>
                           else result);
                 previous_ack = rb_next_ack_sequence b;
                 b = rb_advance_acknowledgement b;
                 ack_advance = seq_distance (rb_next_ack_sequence b) previous_ack;
                 result = result \<lparr>ri_contiguous_advance := if ack_advance > 0 then word_of_int ack_advance else 0\<rparr>;
                 b = (if rj_root (rb_rejected b) \<noteq> no_rejected_node \<or> rb_discarding_message b \<noteq> None
                      then rb_refresh_buffered_timestamp_bounds (rb_trim_dropped_prefix b) else b)
             in (Inr result, b))"

definition rb_next_message_timestamp :: "ReceiveBuffer \<Rightarrow> PacketTimestamp option" where
  "rb_next_message_timestamp b =
     (case rb_find b (rb_first_stored_sequence b) of
        None \<Rightarrow> None
      | Some offset \<Rightarrow> Some (dh_timestamp (rs_header (rb_slot b offset))))"

section \<open>Queries\<close>

text \<open>The fragments of a message behind its first packet: the offset of the last one.\<close>

primrec rb_fragments_loop :: "nat \<Rightarrow> ReceiveBuffer \<Rightarrow> u32 \<Rightarrow> SequenceNumber \<Rightarrow> SequenceNumber option" where
  "rb_fragments_loop 0 b message_number sequence = None"
| "rb_fragments_loop (Suc remaining) b message_number sequence =
     (case rb_find b sequence of
        None \<Rightarrow> None
      | Some offset \<Rightarrow>
          let header = rs_header (rb_slot b offset)
          in if dh_message_number header \<noteq> message_number
                \<or> (dh_boundary header \<noteq> MessageBoundary_subsequent \<and> dh_boundary header \<noteq> MessageBoundary_last)
             then None
             else if dh_boundary header = MessageBoundary_last then Some sequence
             else rb_fragments_loop remaining b message_number (seq_next sequence))"

text \<open>
  The walk over the occupied offsets. Each round goes to a later offset, so \<open>capacity\<close> rounds are
  enough.
\<close>

primrec rb_message_loop :: "nat \<Rightarrow> ReceiveBuffer \<Rightarrow> nat option \<Rightarrow> BufferedMessageInfo option" where
  "rb_message_loop 0 b found = None"
| "rb_message_loop (Suc n) b found =
     (case found of
        None \<Rightarrow> None
      | Some offset \<Rightarrow>
          let candidate = seq_advanced (rb_first_stored_sequence b) (of_nat offset);
              continue = rb_message_loop n b (rb_next_occupied_offset b (offset + 1))
          in case rb_find b candidate of
               None \<Rightarrow> continue
             | Some first \<Rightarrow>
                 let header = rs_header (rb_slot b first)
                 in if dh_boundary header \<noteq> MessageBoundary_solo \<and> dh_boundary header \<noteq> MessageBoundary_first
                    then continue
                    else if dh_boundary header = MessageBoundary_solo
                    then Some \<lparr>bi_first_sequence = candidate, bi_last_sequence = candidate,
                               bi_timestamp = dh_timestamp header\<rparr>
                    else
                      case rb_fragments_loop (rb_capacity b - offset - 1) b (dh_message_number header)
                             (seq_next candidate) of
                        None \<Rightarrow> continue
                      | Some last_sequence \<Rightarrow>
                          Some \<lparr>bi_first_sequence = candidate, bi_last_sequence = last_sequence,
                                bi_timestamp = dh_timestamp header\<rparr>)"

definition rb_first_complete_message :: "ReceiveBuffer \<Rightarrow> BufferedMessageInfo option \<times> ReceiveBuffer" where
  "rb_first_complete_message b =
     (if rb_message_query_valid b then (rb_message_query b, b)
      else
        let message = (if rb_occupied b = 0 then None
                       else rb_message_loop (rb_capacity b + 1) b (rb_next_occupied_offset b 0))
        in (message, b \<lparr>rb_message_query := message, rb_message_query_valid := True\<rparr>))"

definition rb_first_buffered_packet :: "ReceiveBuffer \<Rightarrow> BufferedMessageInfo option \<times> ReceiveBuffer" where
  "rb_first_buffered_packet b =
     (if rb_packet_query_valid b then (rb_packet_query b, b)
      else
        let packet =
              (if rb_occupied b = 0 then None
               else case rb_next_occupied_offset b 0 of
                      None \<Rightarrow> None
                    | Some offset \<Rightarrow>
                        let candidate = seq_advanced (rb_first_stored_sequence b) (of_nat offset)
                        in case rb_find b candidate of
                             None \<Rightarrow> None
                           | Some slot \<Rightarrow>
                               Some \<lparr>bi_first_sequence = candidate, bi_last_sequence = candidate,
                                     bi_timestamp = dh_timestamp (rs_header (rb_slot b slot))\<rparr>)
        in (packet, b \<lparr>rb_packet_query := packet, rb_packet_query_valid := True\<rparr>))"

definition rb_has_complete_message :: "ReceiveBuffer \<Rightarrow> bool \<times> ReceiveBuffer" where
  "rb_has_complete_message b =
     (case rb_find b (rb_first_stored_sequence b) of
        None \<Rightarrow> (False, b)
      | Some offset \<Rightarrow>
          let boundary = dh_boundary (rs_header (rb_slot b offset))
          in if boundary \<noteq> MessageBoundary_solo \<and> boundary \<noteq> MessageBoundary_first then (False, b)
             else
               let (message, b) = rb_first_complete_message b
               in (case message of None \<Rightarrow> False
                   | Some message \<Rightarrow> bi_first_sequence message = rb_first_stored_sequence b, b))"

section \<open>Delivery\<close>

text \<open>
  The scan of \<open>pop_message\<close> over the packets of the message at the head: the number of packets
  and bytes of the complete message, or the error.
\<close>

primrec rb_scan_message ::
    "nat \<Rightarrow> ReceiveBuffer \<Rightarrow> u32 \<Rightarrow> SequenceNumber \<Rightarrow> nat \<Rightarrow> nat \<Rightarrow> Error + (nat \<times> nat)" where
  "rb_scan_message 0 b message_number sequence packet_count total_size = Inl invalid_state"
| "rb_scan_message (Suc n) b message_number sequence packet_count total_size =
     (case rb_find b sequence of
        None \<Rightarrow> Inl would_block
      | Some offset \<Rightarrow>
          let slot = rb_slot b offset; boundary = dh_boundary (rs_header slot)
          in if dh_message_number (rs_header slot) \<noteq> message_number \<or> rs_payload_offset slot \<noteq> 0
                \<or> (packet_count > 0 \<and> boundary \<noteq> MessageBoundary_subsequent \<and> boundary \<noteq> MessageBoundary_last)
             then Inl invalid_state
             else
               let total_size = total_size + rs_payload_size slot; packet_count = packet_count + 1
               in if boundary = MessageBoundary_solo \<or> boundary = MessageBoundary_last
                  then Inr (packet_count, total_size)
                  else if packet_count \<ge> rb_capacity b then Inl invalid_state
                  else rb_scan_message n b message_number (seq_next sequence) packet_count total_size)"

text \<open>The second loop: copy the packets out and empty their slots.\<close>

definition rb_empty_slot :: "ReceiveSlot \<Rightarrow> ReceiveSlot" where
  "rb_empty_slot slot =
     slot \<lparr>rs_occupied := False, rs_dropped := False, rs_payload_size := 0, rs_payload_offset := 0,
           rs_gap_deadline_microseconds := 0\<rparr>"

primrec rb_copy_out :: "nat \<Rightarrow> nat \<Rightarrow> ReceiveBuffer \<Rightarrow> nat \<Rightarrow> bytes \<Rightarrow> nat \<times> bytes \<times> ReceiveBuffer" where
  "rb_copy_out 0 index b written destination = (written, destination, b)"
| "rb_copy_out (Suc n) index b written destination =
     (let slot = rb_slot b index;
          destination = copy_to (take (rs_payload_size slot) (pl_get (rb_payloads b) (rs_payload_index slot)))
                          destination written;
          written = written + rs_payload_size slot;
          b = b \<lparr>rb_buffered_payload_bytes := rb_buffered_payload_bytes b - rs_payload_size slot,
                 rb_payloads := pl_release (rb_payloads b) (rs_payload_index slot)\<rparr>;
          b = rb_index_occupied b (rb_index b index) False True;
          b = rb_set_slot b index (rb_empty_slot (rb_slot b index))
      in rb_copy_out n (index + 1) b written destination)"

definition rb_pop_message ::
    "ReceiveBuffer \<Rightarrow> bytes \<Rightarrow> (Error + ReceivedMessage) \<times> bytes \<times> ReceiveBuffer" where
  "rb_pop_message b destination =
     (case rb_find b (rb_first_stored_sequence b) of
        None \<Rightarrow> (Inl would_block, destination, b)
      | Some offset \<Rightarrow>
          let first = rb_slot b offset; boundary = dh_boundary (rs_header first)
          in if boundary \<noteq> MessageBoundary_solo \<and> boundary \<noteq> MessageBoundary_first
             then (Inl invalid_state, destination, b)
             else if rs_payload_offset first \<noteq> 0 then (Inl invalid_state, destination, b)
             else
               let message_number = dh_message_number (rs_header first);
                   message_first_sequence = rb_first_stored_sequence b;
                   timestamp = dh_timestamp (rs_header first)
               in case rb_scan_message (rb_capacity b) b message_number (rb_first_stored_sequence b) 0 0 of
                    Inl error \<Rightarrow> (Inl error, destination, b)
                  | Inr (packet_count, total_size) \<Rightarrow>
                      if length destination < total_size then (Inl buffer_too_small, destination, b)
                      else
                        let b = rb_invalidate_delivery_queries b;
                            (written, destination, b) = rb_copy_out packet_count 0 b 0 destination;
                            b = rb_advance_frontier b packet_count;
                            b = b \<lparr>rb_occupied := rb_occupied b - packet_count\<rparr>;
                            b = rb_trim_dropped_prefix b;
                            b = rb_refresh_first_buffered_timestamp b
                        in (Inr \<lparr>rm_bytes_written = written, rm_message_number = message_number,
                                 rm_first_sequence = message_first_sequence, rm_timestamp = timestamp,
                                 rm_delivery_time_microseconds = None\<rparr>, destination, b))"

definition rb_pop_message_unordered ::
    "ReceiveBuffer \<Rightarrow> bytes \<Rightarrow> (Error + ReceivedMessage) \<times> bytes \<times> ReceiveBuffer" where
  "rb_pop_message_unordered b destination =
     (let (message, b) = rb_first_complete_message b
      in case message of
           None \<Rightarrow> (Inl would_block, destination, b)
         | Some message \<Rightarrow>
             if bi_first_sequence message = rb_first_stored_sequence b then rb_pop_message b destination
             else if bi_first_sequence message \<noteq> bi_last_sequence message then (Inl invalid_state, destination, b)
             else
               case rb_find b (bi_first_sequence message) of
                 None \<Rightarrow> (Inl invalid_state, destination, b)
               | Some offset \<Rightarrow>
                   let slot = rb_slot b offset
                   in if dh_boundary (rs_header slot) \<noteq> MessageBoundary_solo \<or> rs_payload_offset slot \<noteq> 0
                      then (Inl invalid_state, destination, b)
                      else if length destination < rs_payload_size slot then (Inl buffer_too_small, destination, b)
                      else
                        let b = rb_invalidate_delivery_queries b;
                            bytes_written = rs_payload_size slot;
                            destination = copy_to (take bytes_written (pl_get (rb_payloads b) (rs_payload_index slot)))
                                            destination 0;
                            b = b \<lparr>rb_payloads := pl_release (rb_payloads b) (rs_payload_index slot),
                                   rb_buffered_payload_bytes := rb_buffered_payload_bytes b - bytes_written,
                                   rb_occupied := rb_occupied b - 1\<rparr>;
                            b = rb_index_occupied b
                                  (rb_index b (nat (seq_distance (bi_first_sequence message) (rb_first_stored_sequence b))))
                                  False True;
                            b = rb_set_slot b offset ((rb_empty_slot (rb_slot b offset)) \<lparr>rs_dropped := True\<rparr>);
                            b = rb_advance_acknowledgement b;
                            b = rb_trim_dropped_prefix b;
                            b = rb_refresh_buffered_timestamp_bounds b
                        in (Inr \<lparr>rm_bytes_written = bytes_written,
                                 rm_message_number = dh_message_number (rs_header slot),
                                 rm_first_sequence = bi_first_sequence message,
                                 rm_timestamp = dh_timestamp (rs_header slot),
                                 rm_delivery_time_microseconds = None\<rparr>, destination, b))"

text \<open>
  The loop of \<open>pop_stream\<close>; \<open>due\<close> is the optional predicate of the caller. Each full round
  removes a packet, so \<open>capacity\<close> rounds empty the buffer.
\<close>

primrec rb_stream_loop ::
    "nat \<Rightarrow> (PacketTimestamp \<Rightarrow> bool) option \<Rightarrow> ReceiveBuffer \<Rightarrow> nat \<Rightarrow> bytes \<Rightarrow> bool \<Rightarrow> nat \<times> bytes \<times> bool \<times> ReceiveBuffer" where
  "rb_stream_loop 0 due b written destination removed_packet = (written, destination, removed_packet, b)"
| "rb_stream_loop (Suc n) due b written destination removed_packet =
     (if written \<ge> length destination then (written, destination, removed_packet, b)
      else
        case rb_find b (rb_first_stored_sequence b) of
          None \<Rightarrow> (written, destination, removed_packet, b)
        | Some offset \<Rightarrow>
            let slot = rb_slot b offset
            in if (case due of None \<Rightarrow> False | Some due \<Rightarrow> \<not> due (dh_timestamp (rs_header slot)))
               then (written, destination, removed_packet, b)
               else
                 let remaining = rs_payload_size slot - rs_payload_offset slot;
                     copied = min remaining (length destination - written);
                     destination = copy_to (take copied (drop (rs_payload_offset slot)
                                              (pl_get (rb_payloads b) (rs_payload_index slot)))) destination written;
                     written = written + copied;
                     b = b \<lparr>rb_buffered_payload_bytes := rb_buffered_payload_bytes b - copied\<rparr>;
                     slot = slot \<lparr>rs_payload_offset := (rs_payload_offset slot + copied) mod 65536\<rparr>;
                     b = rb_set_slot b offset slot
                 in if rs_payload_offset slot \<noteq> rs_payload_size slot then (written, destination, removed_packet, b)
                    else
                      let b = rb_invalidate_delivery_queries b;
                          b = b \<lparr>rb_payloads := pl_release (rb_payloads b) (rs_payload_index slot)\<rparr>;
                          b = rb_index_occupied b (rb_head b) False True;
                          b = rb_set_slot b offset (rb_empty_slot slot);
                          b = rb_advance_frontier b 1;
                          b = b \<lparr>rb_occupied := rb_occupied b - 1\<rparr>;
                          b = rb_trim_dropped_prefix b
                      in rb_stream_loop n due b written destination True)"

definition rb_pop_stream ::
    "ReceiveBuffer \<Rightarrow> bytes \<Rightarrow> (PacketTimestamp \<Rightarrow> bool) option \<Rightarrow> (Error + ReceivedMessage) \<times> bytes \<times> ReceiveBuffer" where
  "rb_pop_stream b destination due =
     (if destination = [] then (Inl invalid_state, destination, b)
      else
        case rb_find b (rb_first_stored_sequence b) of
          None \<Rightarrow> (Inl would_block, destination, b)
        | Some offset \<Rightarrow>
            let first = rb_slot b offset
            in if (case due of None \<Rightarrow> False | Some due \<Rightarrow> \<not> due (dh_timestamp (rs_header first)))
               then (Inl would_block, destination, b)
               else
                 let first_sequence = rb_first_stored_sequence b;
                     (written, destination, removed_packet, b) =
                       rb_stream_loop (rb_capacity b + 1) due b 0 destination False;
                     b = (if removed_packet then rb_refresh_first_buffered_timestamp b else b)
                 in (Inr \<lparr>rm_bytes_written = written, rm_message_number = dh_message_number (rs_header first),
                          rm_first_sequence = first_sequence, rm_timestamp = dh_timestamp (rs_header first),
                          rm_delivery_time_microseconds = None\<rparr>, destination, b))"

section \<open>The window and its gaps\<close>

primrec rb_window_loop :: "nat \<Rightarrow> ReceiveBuffer \<Rightarrow> nat" where
  "rb_window_loop 0 b = rb_capacity b"
| "rb_window_loop (Suc offset) b =
     (if rs_occupied (rb_slot b offset) \<or> rs_dropped (rb_slot b offset) then rb_capacity b - Suc offset
      else rb_window_loop offset b)"

definition rb_window_available :: "ReceiveBuffer \<Rightarrow> nat" where
  "rb_window_available b = rb_window_loop (rb_capacity b) b"

text \<open>The loop of \<open>mark_gap\<close> ends at \<open>range.last\<close>, which is \<open>distance\<close> steps after \<open>range.first\<close>.\<close>

primrec rb_mark_gap_loop :: "nat \<Rightarrow> ReceiveBuffer \<Rightarrow> SequenceNumber \<Rightarrow> SequenceNumber \<Rightarrow> u64 \<Rightarrow> ReceiveBuffer" where
  "rb_mark_gap_loop 0 b sequence final deadline = b"
| "rb_mark_gap_loop (Suc n) b sequence final deadline =
     (let signed_offset = seq_distance sequence (rb_first_stored_sequence b);
          b = (if signed_offset \<ge> 0 \<and> nat signed_offset < rb_capacity b
               then
                 let slot = rb_slot b (nat signed_offset)
                 in if \<not> rs_occupied slot \<and> \<not> rs_dropped slot \<and> rs_gap_deadline_microseconds slot = 0
                    then rb_set_slot b (nat signed_offset) (slot \<lparr>rs_gap_deadline_microseconds := deadline\<rparr>)
                    else b
               else b)
      in if sequence = final then b else rb_mark_gap_loop n b (seq_next sequence) final deadline)"

definition rb_mark_gap :: "ReceiveBuffer \<Rightarrow> SequenceRange \<Rightarrow> u64 \<Rightarrow> ReceiveBuffer" where
  "rb_mark_gap b interval deadline =
     (let distance = seq_distance (sr_last interval) (sr_first interval)
      in if deadline = 0 \<or> distance < 0 then b
         else rb_mark_gap_loop (nat distance + 1) b (sr_first interval) (sr_last interval) deadline)"

definition rb_next_gap_deadline :: "ReceiveBuffer \<Rightarrow> u64 option" where
  "rb_next_gap_deadline b =
     fold (\<lambda>slot earliest.
       if rs_gap_deadline_microseconds slot \<noteq> 0
          \<and> (case earliest of None \<Rightarrow> True | Some e \<Rightarrow> rs_gap_deadline_microseconds slot < e)
       then Some (rs_gap_deadline_microseconds slot) else earliest) (rb_slots b) None"

text \<open>The scan with a cursor: the sequence found, the cursor and the inspections left.\<close>

primrec rb_expired_gap_loop ::
    "nat \<Rightarrow> ReceiveBuffer \<Rightarrow> u64 \<Rightarrow> SequenceNumber \<Rightarrow> SequenceNumber option \<times> SequenceNumber \<times> nat" where
  "rb_expired_gap_loop 0 b now cursor = (None, cursor, 0)"
| "rb_expired_gap_loop (Suc remaining) b now cursor =
     (let offset = seq_distance cursor (rb_first_stored_sequence b)
      in if offset < 0 \<or> nat offset \<ge> rb_capacity b then (None, cursor, Suc remaining)
         else
           let slot = rb_slot b (nat offset)
           in if \<not> rs_occupied slot \<and> \<not> rs_dropped slot \<and> rs_gap_deadline_microseconds slot \<noteq> 0
                 \<and> rs_gap_deadline_microseconds slot \<le> now
              then (Some cursor, seq_next cursor, remaining)
              else rb_expired_gap_loop remaining b now (seq_next cursor))"

definition rb_next_expired_gap_from ::
    "ReceiveBuffer \<Rightarrow> u64 \<Rightarrow> SequenceNumber \<Rightarrow> nat \<Rightarrow> SequenceNumber option \<times> SequenceNumber \<times> nat" where
  "rb_next_expired_gap_from b now cursor remaining_inspections =
     (let cursor = (if seq_distance cursor (rb_first_stored_sequence b) < 0
                    then rb_first_stored_sequence b else cursor)
      in rb_expired_gap_loop remaining_inspections b now cursor)"

definition rb_next_expired_gap :: "ReceiveBuffer \<Rightarrow> u64 \<Rightarrow> SequenceNumber option" where
  "rb_next_expired_gap b now =
     fst (rb_next_expired_gap_from b now (rb_first_stored_sequence b) (rb_capacity b))"

section \<open>Discarding and dropping\<close>

primrec rb_discard_loop :: "nat \<Rightarrow> nat \<Rightarrow> ReceiveBuffer \<Rightarrow> ReceiveBuffer" where
  "rb_discard_loop 0 index b = b"
| "rb_discard_loop (Suc n) index b =
     (let slot = rb_slot b index;
          b = (if rs_occupied slot
               then b \<lparr>rb_buffered_payload_bytes :=
                         rb_buffered_payload_bytes b - (rs_payload_size slot - rs_payload_offset slot),
                       rb_payloads := pl_release (rb_payloads b) (rs_payload_index slot),
                       rb_occupied := rb_occupied b - 1\<rparr>
               else b);
          b = rb_index_occupied b (rb_index b index) False True;
          b = rb_remove_rejected b index;
          b = rb_set_slot b index default_ReceiveSlot
      in rb_discard_loop n (index + 1) b)"

definition rb_discard_before :: "ReceiveBuffer \<Rightarrow> SequenceNumber \<Rightarrow> Error \<times> ReceiveBuffer" where
  "rb_discard_before b next_sequence =
     (let distance = seq_distance next_sequence (rb_first_stored_sequence b)
      in if distance \<le> 0 then (Error_none, b)
         else if nat distance \<ge> 0x40000000 then (invalid_state, b)
         else
           let b = rb_invalidate_delivery_queries b;
               n = nat distance;
               b = rb_discard_loop (min n (length (rb_slots b))) 0 b;
               b = (if n \<ge> length (rb_slots b)
                    then b \<lparr>rb_slots := replicate (length (rb_slots b)) default_ReceiveSlot,
                            rb_occupied := 0, rb_buffered_payload_bytes := 0\<rparr>
                    else b);
               b = rb_advance_frontier b n;
               b = (if seq_distance (rb_next_ack_sequence b) next_sequence < 0
                    then b \<lparr>rb_next_ack_sequence := next_sequence\<rparr> else b)
           in (Error_none, rb_refresh_first_buffered_timestamp b))"

definition rb_buffered_span_milliseconds :: "ReceiveBuffer \<Rightarrow> nat" where
  "rb_buffered_span_milliseconds b =
     (if rb_occupied b = 0 then 0
      else
        let span = timestamp_distance (rb_last_buffered_timestamp b) (rb_first_buffered_timestamp b)
        in if span \<ge> 0 then nat span div 1000 + 1 else 0)"

definition rb_acknowledge_peer_drop_range :: "ReceiveBuffer \<Rightarrow> SequenceRange \<Rightarrow> bool \<times> ReceiveBuffer" where
  "rb_acknowledge_peer_drop_range b interval =
     (if seq_distance (sr_last interval) (sr_first interval) < 0
         \<or> seq_distance (sr_first interval) (rb_next_ack_sequence b) > 0
         \<or> seq_distance (sr_last interval) (rb_next_ack_sequence b) < 0
      then (False, b)
      else (True, rb_advance_acknowledgement (b \<lparr>rb_next_ack_sequence := seq_next (sr_last interval)\<rparr>)))"

text \<open>\<open>complete_message_last_offset\<close>: the walk back to the first fragment, and the walk forward.\<close>

definition rb_slot_at :: "ReceiveBuffer \<Rightarrow> nat \<Rightarrow> ReceiveSlot option" where
  "rb_slot_at b index =
     (let slot = rb_slot b index
      in if rs_occupied slot
            \<and> dh_sequence (rs_header slot) = seq_advanced (rb_first_stored_sequence b) (of_nat index)
         then Some slot else None)"

primrec rb_message_start :: "nat \<Rightarrow> ReceiveBuffer \<Rightarrow> nat \<Rightarrow> u32 \<Rightarrow> nat option" where
  "rb_message_start 0 b offset message_number = Some 0"
| "rb_message_start (Suc n) b offset message_number =
     (case rb_slot_at b (Suc n) of
        None \<Rightarrow> None
      | Some current \<Rightarrow>
          let boundary = dh_boundary (rs_header current)
          in if dh_message_number (rs_header current) \<noteq> message_number then None
             else if boundary = MessageBoundary_first then Some (Suc n)
             else if Suc n \<noteq> offset \<and> boundary \<noteq> MessageBoundary_subsequent then None
             else if Suc n = offset \<and> boundary \<noteq> MessageBoundary_subsequent \<and> boundary \<noteq> MessageBoundary_last then None
             else rb_message_start n b offset message_number)"

primrec rb_message_last :: "nat \<Rightarrow> ReceiveBuffer \<Rightarrow> nat \<Rightarrow> u32 \<Rightarrow> nat option" where
  "rb_message_last 0 b index message_number = None"
| "rb_message_last (Suc n) b index message_number =
     (case rb_slot_at b index of
        None \<Rightarrow> None
      | Some fragment \<Rightarrow>
          let boundary = dh_boundary (rs_header fragment)
          in if rs_payload_offset fragment \<noteq> 0 \<or> dh_message_number (rs_header fragment) \<noteq> message_number then None
             else if boundary = MessageBoundary_last then Some index
             else if boundary \<noteq> MessageBoundary_subsequent then None
             else rb_message_last n b (index + 1) message_number)"

definition rb_complete_message_last_offset :: "ReceiveBuffer \<Rightarrow> nat \<Rightarrow> nat option" where
  "rb_complete_message_last_offset b offset =
     (case rb_slot_at b offset of
        None \<Rightarrow> None
      | Some member \<Rightarrow>
          if rs_payload_offset member \<noteq> 0 then None
          else if dh_boundary (rs_header member) = MessageBoundary_solo then Some offset
          else
            let message_number = dh_message_number (rs_header member)
            in case rb_message_start offset b offset message_number of
                 None \<Rightarrow> None
               | Some first \<Rightarrow>
                   (case rb_slot_at b first of
                      None \<Rightarrow> None
                    | Some start \<Rightarrow>
                        if dh_boundary (rs_header start) \<noteq> MessageBoundary_first
                           \<or> dh_message_number (rs_header start) \<noteq> message_number then None
                        else rb_message_last (rb_capacity b - (first + 1)) b (first + 1) message_number))"

text \<open>One offset of the loop of \<open>drop_range_impl\<close>.\<close>

record DropState =
  ds_buffer :: ReceiveBuffer
  ds_newly_dropped_packets :: nat
  ds_first_preserved_sequence :: "SequenceNumber option"
  ds_preserve_through_offset :: "nat option"

definition rb_drop_slot :: "ReceiveBuffer \<Rightarrow> nat \<Rightarrow> ReceiveBuffer" where
  "rb_drop_slot b offset =
     (let slot = rb_slot b offset;
          b = (if rs_occupied slot
               then
                 let b = rb_invalidate_delivery_queries b;
                     b = b \<lparr>rb_buffered_payload_bytes :=
                              rb_buffered_payload_bytes b - (rs_payload_size slot - rs_payload_offset slot),
                            rb_payloads := pl_release (rb_payloads b) (rs_payload_index slot)\<rparr>;
                     b = rb_index_occupied b (rb_index b offset) False True;
                     b = rb_remove_rejected b offset;
                     b = rb_set_slot b offset ((rb_slot b offset)
                           \<lparr>rs_occupied := False, rs_payload_size := 0, rs_payload_offset := 0\<rparr>)
                 in b \<lparr>rb_occupied := rb_occupied b - 1\<rparr>
               else b)
      in rb_set_slot b offset ((rb_slot b offset) \<lparr>rs_dropped := True, rs_gap_deadline_microseconds := 0\<rparr>))"

definition rb_drop_offset :: "DropPreservation \<Rightarrow> nat \<Rightarrow> DropState \<Rightarrow> DropState" where
  "rb_drop_offset preservation offset d =
     (let b = ds_buffer d; slot = rb_slot b offset;
          preserve = (\<lambda>d. if ds_first_preserved_sequence d = None
                          then d \<lparr>ds_first_preserved_sequence := Some (dh_sequence (rs_header slot))\<rparr> else d);
          complete = (if preservation = DropPreservation_complete_messages
                      then rb_complete_message_last_offset b offset else None)
      in if preservation = DropPreservation_received_packets \<and> rs_occupied slot \<and> \<not> rs_rejected_payload slot
            \<and> dh_sequence (rs_header slot) = seq_advanced (rb_first_stored_sequence b) (of_nat offset)
         then preserve d
         else if preservation = DropPreservation_complete_messages
                 \<and> (case ds_preserve_through_offset d of None \<Rightarrow> False | Some through \<Rightarrow> offset \<le> through)
         then d
         else case complete of
                Some final \<Rightarrow> (preserve d) \<lparr>ds_preserve_through_offset := Some final\<rparr>
              | None \<Rightarrow>
                  d \<lparr>ds_newly_dropped_packets :=
                       (if rs_dropped slot then ds_newly_dropped_packets d else ds_newly_dropped_packets d + 1),
                     ds_buffer := rb_drop_slot b offset\<rparr>)"

primrec rb_drop_loop :: "nat \<Rightarrow> DropPreservation \<Rightarrow> nat \<Rightarrow> DropState \<Rightarrow> DropState" where
  "rb_drop_loop 0 preservation offset d = d"
| "rb_drop_loop (Suc n) preservation offset d =
     rb_drop_loop n preservation (offset + 1) (rb_drop_offset preservation offset d)"

text \<open>
  The part behind the loop that moves the frontier over the rest of a range that reaches beyond
  the slots. The source converts the advance to \<^verbatim>\<open>std::size_t\<close>.
\<close>

definition rb_drop_target :: "ReceiveBuffer \<Rightarrow> SequenceRange \<Rightarrow> SequenceNumber option \<Rightarrow> SequenceNumber" where
  "rb_drop_target b interval first_preserved =
     (let target = seq_next (sr_last interval)
      in case first_preserved of
           None \<Rightarrow> target
         | Some preserved \<Rightarrow>
             if seq_distance preserved (rb_first_stored_sequence b) \<ge> 0 \<and> seq_distance target preserved > 0
             then preserved else target)"

definition rb_drop_range_impl ::
    "ReceiveBuffer \<Rightarrow> SequenceRange \<Rightarrow> DropPreservation \<Rightarrow> Error \<times> nat \<times> ReceiveBuffer" where
  "rb_drop_range_impl b interval preservation =
     (let start_offset = seq_distance (sr_first interval) (rb_first_stored_sequence b);
          end_offset = seq_distance (sr_last interval) (rb_first_stored_sequence b)
      in if seq_distance (sr_last interval) (sr_first interval) < 0 then (invalid_control_payload, 0, b)
         else if end_offset < 0 then (Error_none, 0, b)
         else
           let occupied_before = rb_occupied b;
               first_offset = (if start_offset > 0 then nat start_offset else 0);
               final_offset = min (nat end_offset) (rb_capacity b - 1);
               d = rb_drop_loop (final_offset + 1 - first_offset) preservation first_offset
                     \<lparr>ds_buffer = b, ds_newly_dropped_packets = 0, ds_first_preserved_sequence = None,
                      ds_preserve_through_offset = None\<rparr>;
               b = rb_trim_dropped_prefix (rb_advance_acknowledgement (ds_buffer d));
               (newly, b) =
                 (if start_offset \<le> 0 \<and> seq_distance (sr_last interval) (rb_first_stored_sequence b) \<ge> 0
                  then
                    let target = rb_drop_target b interval (ds_first_preserved_sequence d);
                        additional_advance = nat (seq_distance target (rb_first_stored_sequence b) mod 2 ^ 64);
                        b = (if additional_advance \<noteq> 0 then rb_invalidate_delivery_queries b else b)
                    in ((ds_newly_dropped_packets d + additional_advance) mod 2 ^ 64, rb_advance_frontier b additional_advance)
                  else (ds_newly_dropped_packets d, b));
               b = (if seq_distance (rb_first_stored_sequence b) (rb_next_ack_sequence b) > 0
                    then rb_advance_acknowledgement (b \<lparr>rb_next_ack_sequence := rb_first_stored_sequence b\<rparr>)
                    else b);
               b = (if rb_occupied b \<noteq> occupied_before
                    then if rb_defer_drop_timestamp_refresh b then b \<lparr>rb_drop_timestamp_refresh_pending := True\<rparr>
                         else rb_refresh_buffered_timestamp_bounds b
                    else b)
           in (Error_none, newly, b))"

definition rb_drop_range :: "ReceiveBuffer \<Rightarrow> SequenceRange \<Rightarrow> Error \<times> nat \<times> ReceiveBuffer" where
  "rb_drop_range b interval = rb_drop_range_impl b interval DropPreservation_none"

definition rb_drop_peer_requested_range :: "ReceiveBuffer \<Rightarrow> SequenceRange \<Rightarrow> Error \<times> nat \<times> ReceiveBuffer" where
  "rb_drop_peer_requested_range b interval = rb_drop_range_impl b interval DropPreservation_complete_messages"

definition rb_drop_peer_requested_stream_range :: "ReceiveBuffer \<Rightarrow> SequenceRange \<Rightarrow> Error \<times> nat \<times> ReceiveBuffer" where
  "rb_drop_peer_requested_stream_range b interval = rb_drop_range_impl b interval DropPreservation_received_packets"

section \<open>Copying complete messages\<close>

text \<open>The message found at an offset does not end before it, so the scan always moves on.\<close>

lemma rb_message_last_ge: "rb_message_last n b index m = Some l \<Longrightarrow> index \<le> l"
  by (induction n arbitrary: index) (auto simp: Let_def split: option.splits if_splits dest: Suc_leD)

lemma rb_message_last_through:
  "rb_message_last n b index m = Some final \<Longrightarrow>
   (\<And>k fragment. index \<le> k \<Longrightarrow> k < offset \<Longrightarrow> rb_slot_at b k = Some fragment \<Longrightarrow>
      dh_boundary (rs_header fragment) \<noteq> MessageBoundary_last) \<Longrightarrow> offset \<le> final"
proof (induction n arbitrary: index)
  case (Suc n)
  show ?case
  proof (cases "offset \<le> index")
    case True
    then show ?thesis using rb_message_last_ge [OF Suc.prems(1)] by simp
  next
    case False
    have here: "dh_boundary (rs_header fragment) \<noteq> MessageBoundary_last" if "rb_slot_at b index = Some fragment" for fragment
      using Suc.prems(2) [of index fragment] False that by simp
    have further: "offset \<le> final" if "rb_message_last n b (Suc index) m = Some final"
      by (rule Suc.IH [OF that], rule Suc.prems(2)) simp_all
    show ?thesis using Suc.prems(1) here further
      by (auto simp: Let_def split: option.splits if_splits)
  qed
qed simp

lemma rb_message_start_walk:
  "rb_message_start n b offset m = Some first \<Longrightarrow> first < k \<Longrightarrow> k \<le> n \<Longrightarrow> k \<noteq> offset \<Longrightarrow>
   rb_slot_at b k = Some fragment \<Longrightarrow> dh_boundary (rs_header fragment) = MessageBoundary_subsequent"
  by (induction n) (auto simp: Let_def le_Suc_eq split: option.splits if_splits)

lemma rb_complete_last_ge:
  assumes "rb_complete_message_last_offset b offset = Some final"
  shows "offset \<le> final"
proof -
  have "offset \<le> final" if "rb_message_start offset b offset m = Some first"
    "rb_message_last n b (first + 1) m = Some final" for m n first
  proof (rule rb_message_last_through [OF that(2)])
    fix k fragment
    assume "first + 1 \<le> k" "k < offset" "rb_slot_at b k = Some fragment"
    then show "dh_boundary (rs_header fragment) \<noteq> MessageBoundary_last"
      using rb_message_start_walk [OF that(1), of k fragment] by simp
  qed
  then show ?thesis using assms
    by (auto simp: rb_complete_message_last_offset_def Let_def split: option.splits if_splits)
qed

text \<open>The sizes of the fragments: the sum, None when it exceeds the budget, or the error.\<close>

primrec rb_copy_sizes :: "nat \<Rightarrow> ReceiveBuffer \<Rightarrow> nat \<Rightarrow> nat \<Rightarrow> nat \<Rightarrow> Error + nat option" where
  "rb_copy_sizes 0 b index maximum_bytes message_bytes = Inr (Some message_bytes)"
| "rb_copy_sizes (Suc n) b index maximum_bytes message_bytes =
     (case rb_find b (seq_advanced (rb_first_stored_sequence b) (of_nat index)) of
        None \<Rightarrow> Inl invalid_state
      | Some offset \<Rightarrow>
          let slot = rb_slot b offset
          in if rs_payload_offset slot \<noteq> 0 then Inl invalid_state
             else if rs_payload_size slot > maximum_bytes - message_bytes then Inr None
             else rb_copy_sizes n b (index + 1) maximum_bytes (message_bytes + rs_payload_size slot))"

primrec rb_copy_payload :: "nat \<Rightarrow> ReceiveBuffer \<Rightarrow> nat \<Rightarrow> nat \<Rightarrow> bytes \<Rightarrow> Error + bytes" where
  "rb_copy_payload 0 b index written payload = Inr payload"
| "rb_copy_payload (Suc n) b index written payload =
     (case rb_find b (seq_advanced (rb_first_stored_sequence b) (of_nat index)) of
        None \<Rightarrow> Inl invalid_state
      | Some offset \<Rightarrow>
          let slot = rb_slot b offset
          in rb_copy_payload n b (index + 1) (written + rs_payload_size slot)
               (copy_to (take (rs_payload_size slot) (pl_get (rb_payloads b) (rs_payload_index slot))) payload written))"

text \<open>
  The scan of \<open>copy_complete_messages\<close>. The failure of an allocation, which
  discards the copies, is the operating system's and is left out.
\<close>

function rb_copy_loop ::
    "ReceiveBuffer \<Rightarrow> nat \<Rightarrow> nat \<Rightarrow> nat \<Rightarrow> nat \<Rightarrow> nat \<Rightarrow> BufferedMessageCopy list \<Rightarrow> Error + BufferedMessageCopy list" where
  "rb_copy_loop b maximum_packets maximum_bytes offset packets bytes_used messages =
     (if \<not> (offset < rb_capacity b \<and> rb_occupied b \<noteq> 0) then Inr messages
      else
        let first_sequence = seq_advanced (rb_first_stored_sequence b) (of_nat offset)
        in case rb_find b first_sequence of
             None \<Rightarrow> rb_copy_loop b maximum_packets maximum_bytes (offset + 1) packets bytes_used messages
           | Some found \<Rightarrow>
               let first = rb_slot b found; boundary = dh_boundary (rs_header first)
               in if rs_payload_offset first \<noteq> 0 \<or> (boundary \<noteq> MessageBoundary_solo \<and> boundary \<noteq> MessageBoundary_first)
                  then rb_copy_loop b maximum_packets maximum_bytes (offset + 1) packets bytes_used messages
                  else case rb_complete_message_last_offset b offset of
                         None \<Rightarrow> rb_copy_loop b maximum_packets maximum_bytes (offset + 1) packets bytes_used messages
                       | Some final \<Rightarrow>
                           let packet_count = final - offset + 1
                           in if packet_count > maximum_packets then rb_copy_loop b maximum_packets maximum_bytes (final + 1) packets bytes_used messages
                              else case rb_copy_sizes packet_count b offset maximum_bytes 0 of
                                     Inl error \<Rightarrow> Inl error
                                   | Inr None \<Rightarrow> rb_copy_loop b maximum_packets maximum_bytes (final + 1) packets bytes_used messages
                                   | Inr (Some message_bytes) \<Rightarrow>
                                       if packet_count > maximum_packets - packets
                                          \<or> message_bytes > maximum_bytes - bytes_used then Inr messages
                                       else case rb_copy_payload packet_count b offset 0 (replicate message_bytes 0) of
                                              Inl error \<Rightarrow> Inl error
                                            | Inr payload \<Rightarrow>
                                                rb_copy_loop b maximum_packets maximum_bytes (final + 1)
                                                  (packets + packet_count) (bytes_used + message_bytes)
                                                  (messages @ [\<lparr>bc_first_sequence = first_sequence,
                                                     bc_next_sequence = seq_advanced (rb_first_stored_sequence b) (of_nat (final + 1)),
                                                     bc_timestamp = dh_timestamp (rs_header first),
                                                     bc_message_number = dh_message_number (rs_header first),
                                                     bc_payload = payload\<rparr>]))"
  by pat_completeness auto
termination
  by (relation "measure (\<lambda>(b, mp, mb, offset, p, u, ms). rb_capacity b - offset)") (auto dest: rb_complete_last_ge)

declare rb_copy_loop.simps [simp del]

definition rb_copy_complete_messages :: "ReceiveBuffer \<Rightarrow> nat \<Rightarrow> nat \<Rightarrow> Error + BufferedMessageCopy list" where
  "rb_copy_complete_messages b maximum_packets maximum_bytes = rb_copy_loop b maximum_packets maximum_bytes 0 0 0 []"

end
