(* ===== verification/Receive_Buffer_Inv.thy ===== *)
theory Receive_Buffer_Inv
  imports Receive_Buffer
begin

text \<open>
  The invariant of the receive buffer: the window of slots, the counters, the payload pool, the
  two occupancy indexes and the rejected-message trie agree. It is stated over the components of
  the buffer, and each elementary change of a slot keeps it; the operations are compositions of
  these changes.
\<close>

section \<open>The invariant\<close>

text \<open>A slot at offset \<open>i\<close> of a window that starts at \<open>first\<close>.\<close>

definition slot_shape :: "SequenceNumber \<Rightarrow> nat \<Rightarrow> ReceiveSlot \<Rightarrow> bool" where
  "slot_shape first i s \<longleftrightarrow>
     (rs_occupied s \<longrightarrow> \<not> rs_dropped s \<and> dh_sequence (rs_header s) = seq_advanced first (of_nat i)
        \<and> rs_payload_offset s \<le> rs_payload_size s \<and> rs_payload_size s \<le> 1456)
     \<and> (rs_rejected_payload s \<longrightarrow> rs_occupied s)"

definition readable :: "ReceiveSlot \<Rightarrow> bool" where
  "readable s \<longleftrightarrow> rs_occupied s \<and> \<not> rs_rejected_payload s"

definition pending_bytes :: "ReceiveSlot \<Rightarrow> nat" where
  "pending_bytes s = (if rs_occupied s then rs_payload_size s - rs_payload_offset s else 0)"

definition marks :: "('a \<Rightarrow> bool) \<Rightarrow> 'a list \<Rightarrow> nat set" where
  "marks P xs = {p. p < length xs \<and> P (xs ! p)}"

definition rejected_bag :: "ReceiveSlot list \<Rightarrow> u32 multiset" where
  "rejected_bag slots = image_mset (\<lambda>s. dh_message_number (rs_header s)) (mset (filter rs_rejected_payload slots))"

text \<open>Every occupied slot owns its own body in the pool, and the pool holds nothing else.\<close>

definition owned :: "ReceiveSlot \<Rightarrow> nat option" where
  "owned s = (if rs_occupied s then Some (rs_payload_index s) else None)"

definition owns :: "PayloadPool \<Rightarrow> ReceiveSlot list \<Rightarrow> bool" where
  "owns pool slots \<longleftrightarrow>
     pool_ok pool \<and> pl_capacity pool = length slots \<and>
     (\<forall>k. k \<in> pl_live pool \<longleftrightarrow> Some k \<in> owned ` set slots) \<and>
     (\<forall>i < length slots. \<forall>j < length slots. owned (slots ! i) \<noteq> None \<longrightarrow> owned (slots ! i) = owned (slots ! j) \<longrightarrow> i = j) \<and>
     (\<forall>s \<in> set slots. rs_occupied s \<longrightarrow> length (pl_get pool (rs_payload_index s)) = rs_payload_size s)"

definition store_ok ::
    "nat \<Rightarrow> SequenceNumber \<Rightarrow> ReceiveSlot list \<Rightarrow> PayloadPool \<Rightarrow> nat list \<Rightarrow> u64 list \<Rightarrow> u64 list
     \<Rightarrow> RejectedMessages \<Rightarrow> nat \<Rightarrow> nat \<Rightarrow> bool" where
  "store_ok head first slots pool offsets readable_index storage_index rejected used bytes_used \<longleftrightarrow>
     0 < length slots \<and> length slots < 1073741824 \<and> head < length slots
     \<and> (\<forall>i < length slots. slot_shape first i (ring_at slots head i))
     \<and> owns pool slots
     \<and> index_shows (length slots) offsets readable_index (marks readable slots)
     \<and> index_shows (length slots) offsets storage_index (marks rs_occupied slots)
     \<and> trie_shows rejected (rejected_bag slots) \<and> length (rj_nodes rejected) = length slots * 2
     \<and> used = length (filter rs_occupied slots) \<and> bytes_used = sum_list (map pending_bytes slots)"

abbreviation recv_ok :: "ReceiveBuffer \<Rightarrow> bool" where
  "recv_ok b \<equiv> store_ok (rb_head b) (rb_first_stored_sequence b) (rb_slots b) (rb_payloads b) (rb_level_offsets b)
     (rb_occupied_index b) (rb_storage_index b) (rb_rejected b) (rb_occupied b) (rb_buffered_payload_bytes b)"

section \<open>Positions in the ring\<close>

lemma ring_pos: "i < length slots \<Longrightarrow> (head + j) mod length slots < length slots"
  by (cases slots) auto

text \<open>The position that enters the window when it moves by \<open>k\<close> was one of the first \<open>k\<close> before.\<close>

lemma ring_wrapped:
  fixes n :: nat
  assumes "i < n" "n \<le> k + i"
  shows "(k + i) mod n < k" "(k + i) mod n < n"
proof -
  show n: "(k + i) mod n < n" using assms(1) by (intro mod_less_divisor) simp
  show "(k + i) mod n < k"
  proof (cases "k \<le> n")
    case True
    then have "(k + i) mod n = k + i - n" using assms by (simp add: le_mod_geq)
    then show ?thesis using assms by simp
  qed (use n in simp)
qed

section \<open>Replacing one slot\<close>

lemma marks_update:
  "p < length xs \<Longrightarrow> marks P (xs[p := x]) = (if P x then insert p (marks P xs) else marks P xs - {p})"
  by (auto simp: marks_def nth_list_update)

lemma marks_bound: "marks P xs \<subseteq> {..<length xs}"
  by (auto simp: marks_def)

lemma rejected_bag_update:
  assumes "p < length xs"
  shows "rejected_bag (xs[p := x]) + (if rs_rejected_payload (xs ! p) then {#dh_message_number (rs_header (xs ! p))#} else {#}) =
    rejected_bag xs + (if rs_rejected_payload x then {#dh_message_number (rs_header x)#} else {#})"
proof -
  have "xs = take p xs @ xs ! p # drop (Suc p) xs" by (rule id_take_nth_drop [OF assms])
  then have "rejected_bag xs = rejected_bag (take p xs @ xs ! p # drop (Suc p) xs)" by simp
  then show ?thesis by (simp add: upd_conv_take_nth_drop [OF assms] rejected_bag_def)
qed

lemma rejected_bag_member:
  "p < length xs \<Longrightarrow> rs_rejected_payload (xs ! p) \<Longrightarrow> dh_message_number (rs_header (xs ! p)) \<in># rejected_bag xs"
  by (auto simp: rejected_bag_def intro!: imageI)

lemma sum_list_update_nat:
  assumes "p < length xs"
  shows "sum_list (map f (xs[p := x])) + f (xs ! p) = sum_list (map f xs) + (f x :: nat)"
proof -
  have "sum_list (map f xs) = sum_list (map f (take p xs)) + f (xs ! p) + sum_list (map f (drop (Suc p) xs))"
    by (subst id_take_nth_drop [OF assms]) simp
  then show ?thesis by (simp add: upd_conv_take_nth_drop [OF assms])
qed

lemma slot_shape_update:
  assumes "\<forall>i < length slots. slot_shape first i (ring_at slots head i)" "i < length slots" "slot_shape first i s"
  shows "\<forall>j < length slots. slot_shape first j (ring_at (slots[(head + i) mod length slots := s]) head j)"
  using assms ring_at_put [OF assms(2), of _ head s] by (simp add: ring_put_def)

lemma set_update_cases:
  assumes "s \<in> set (xs[p := x])" "p < length xs"
  obtains "s = x" | j where "j < length xs" "j \<noteq> p" "s = xs ! j"
proof -
  obtain j where j: "j < length xs" "s = xs[p := x] ! j"
    using assms(1) unfolding in_set_conv_nth by auto
  show thesis
  proof (cases "j = p")
    case True
    then show thesis using that(1) j assms(2) by simp
  next
    case False
    then show thesis using that(2) [OF j(1)] j(2) by simp
  qed
qed

lemma owned_image: "Some k \<in> owned ` set xs \<longleftrightarrow> (\<exists>j < length xs. owned (xs ! j) = Some k)"
  by (metis image_eqI imageE in_set_conv_nth)

lemma owned_update_image:
  assumes "p < length xs"
  shows "Some k \<in> owned ` set (xs[p := x]) \<longleftrightarrow>
    owned x = Some k \<or> (\<exists>j < length xs. j \<noteq> p \<and> owned (xs ! j) = Some k)"
  using assms unfolding owned_image by (auto simp: nth_list_update)

lemma ownsI:
  assumes "pool_ok pool" "pl_capacity pool = length slots"
    "\<And>k. k \<in> pl_live pool \<longleftrightarrow> Some k \<in> owned ` set slots"
    "\<And>i j. i < length slots \<Longrightarrow> j < length slots \<Longrightarrow> owned (slots ! i) \<noteq> None \<Longrightarrow> owned (slots ! i) = owned (slots ! j) \<Longrightarrow> i = j"
    "\<And>s. s \<in> set slots \<Longrightarrow> rs_occupied s \<Longrightarrow> length (pl_get pool (rs_payload_index s)) = rs_payload_size s"
  shows "owns pool slots"
  using assms unfolding owns_def by blast

lemma owns_inject:
  "owns pool xs \<Longrightarrow> i < length xs \<Longrightarrow> j < length xs \<Longrightarrow> owned (xs ! i) \<noteq> None \<Longrightarrow> owned (xs ! i) = owned (xs ! j) \<Longrightarrow> i = j"
  by (simp add: owns_def)

lemma owns_nth:
  assumes "owns pool xs" "p < length xs" "rs_occupied (xs ! p)"
  shows "rs_payload_index (xs ! p) \<in> pl_live pool" "length (pl_get pool (rs_payload_index (xs ! p))) = rs_payload_size (xs ! p)"
proof -
  have "Some (rs_payload_index (xs ! p)) \<in> owned ` set xs"
    using assms(2,3) by (intro image_eqI [of _ _ "xs ! p"]) (auto simp: owned_def)
  then show "rs_payload_index (xs ! p) \<in> pl_live pool" using assms(1) by (simp add: owns_def)
  show "length (pl_get pool (rs_payload_index (xs ! p))) = rs_payload_size (xs ! p)"
    using assms by (simp add: owns_def)
qed

lemma owns_other:
  assumes "owns pool xs" "p < length xs" "j < length xs" "j \<noteq> p" "rs_occupied (xs ! p)" "rs_occupied (xs ! j)"
  shows "rs_payload_index (xs ! j) \<noteq> rs_payload_index (xs ! p)"
  using assms by (auto simp: owns_def owned_def)

lemma owns_release:
  assumes own: "owns pool xs" and p: "p < length xs" and occ: "rs_occupied (xs ! p)" and x: "\<not> rs_occupied x"
  shows "owns (pl_release pool (rs_payload_index (xs ! p))) (xs[p := x])"
proof -
  let ?k = "rs_payload_index (xs ! p)"
  note live = owns_nth(1) [OF own p occ]
  have ok: "pool_ok pool" using own by (simp add: owns_def)
  note laws = pool.release_laws [OF ok live]
  have "k \<in> pl_live (pl_release pool ?k) \<longleftrightarrow> Some k \<in> owned ` set (xs[p := x])" for k
  proof -
    have "k \<in> pl_live pool \<longleftrightarrow> (\<exists>j < length xs. owned (xs ! j) = Some k)"
      using own unfolding owns_def owned_image by blast
    moreover have "owned (xs ! p) = Some ?k" "owned x = None" using occ x by (simp_all add: owned_def)
    moreover have "owned (xs ! j) = Some ?k \<Longrightarrow> j < length xs \<Longrightarrow> j = p" for j
      using own p calculation(2) unfolding owns_def by (metis option.distinct(1))
    ultimately show ?thesis using laws owned_update_image [OF p, of k x] p by auto
  qed
  moreover have "length (pl_get (pl_release pool ?k) (rs_payload_index s)) = rs_payload_size s"
    if "s \<in> set (xs[p := x])" "rs_occupied s" for s
    using that(1) p
  proof (cases rule: set_update_cases)
    case (2 j)
    then have "rs_payload_index s \<in> pl_live pool - {?k}" "length (pl_get pool (rs_payload_index s)) = rs_payload_size s"
      using owns_nth [OF own 2(1)] owns_other [OF own p 2(1,2) occ] that(2) by auto
    then show ?thesis using laws by auto
  qed (use that(2) x in simp)
  moreover have "i = j" if "i < length xs" "j < length xs" "owned (xs[p := x] ! i) \<noteq> None"
    "owned (xs[p := x] ! i) = owned (xs[p := x] ! j)" for i j
  proof -
    have "i \<noteq> p" "j \<noteq> p" using that(3,4) x p by (auto simp: owned_def)
    then show ?thesis using owns_inject [OF own that(1,2)] that(3,4) by simp
  qed
  ultimately show ?thesis using own laws by (intro ownsI) (simp_all add: owns_def)
qed

lemma owns_room:
  assumes "owns pool xs" "p < length xs" "\<not> rs_occupied (xs ! p)"
  shows "card (pl_live pool) < pl_capacity pool"
proof -
  have "pl_live pool \<subseteq> (\<lambda>j. rs_payload_index (xs ! j)) ` ({..<length xs} - {p})"
  proof
    fix k assume "k \<in> pl_live pool"
    then obtain j where "j < length xs" "owned (xs ! j) = Some k" using assms(1) unfolding owns_def owned_image by blast
    then show "k \<in> (\<lambda>j. rs_payload_index (xs ! j)) ` ({..<length xs} - {p})"
      using assms(3) by (intro image_eqI [of _ _ j]) (auto simp: owned_def split: if_splits)
  qed
  then have "card (pl_live pool) \<le> card ({..<length xs} - {p})" by (rule surj_card_le [rotated]) simp
  then show ?thesis using assms(1,2) by (simp add: owns_def)
qed

lemma owns_acquire:
  assumes own: "owns pool xs" and p: "p < length xs" and occ: "\<not> rs_occupied (xs ! p)"
    and body: "length body \<le> 1456" and acq: "pl_acquire pool body = (k, pool')"
    and x: "rs_occupied x" "rs_payload_index x = k" "rs_payload_size x = length body"
  shows "owns pool' (xs[p := x])"
proof -
  have ok: "pool_ok pool" using own by (simp add: owns_def)
  note laws = pool.acquire_laws [OF ok body owns_room [OF own p occ], unfolded acq fst_conv snd_conv]
  have new: "owned (xs ! j) \<noteq> Some k" if "j < length xs" for j
    using own laws that unfolding owns_def owned_image by blast
  have "m \<in> pl_live pool' \<longleftrightarrow> Some m \<in> owned ` set (xs[p := x])" for m
  proof -
    have "m \<in> pl_live pool \<longleftrightarrow> (\<exists>j < length xs. j \<noteq> p \<and> owned (xs ! j) = Some m)"
      using own occ unfolding owns_def owned_image by (metis owned_def option.distinct(1))
    then show ?thesis using laws owned_update_image [OF p, of m x] x by (auto simp: owned_def)
  qed
  moreover have "length (pl_get pool' (rs_payload_index s)) = rs_payload_size s" if "s \<in> set (xs[p := x])" "rs_occupied s" for s
    using that(1) p
  proof (cases rule: set_update_cases)
    case (2 j)
    then show ?thesis using owns_nth [OF own 2(1)] that(2) laws by auto
  qed (use x laws in simp)
  moreover have "i = j" if "i < length xs" "j < length xs" "owned (xs[p := x] ! i) \<noteq> None"
    "owned (xs[p := x] ! i) = owned (xs[p := x] ! j)" for i j
  proof -
    have x': "owned x = Some k" using x by (simp add: owned_def)
    show ?thesis
      using that new [OF that(1)] new [OF that(2)] owns_inject [OF own that(1,2)] p x'
      by (cases "i = p"; cases "j = p") simp_all
  qed
  ultimately show ?thesis using own laws by (intro ownsI) (simp_all add: owns_def)
qed

lemma owns_same:
  assumes own: "owns pool xs" and p: "p < length xs" and x: "rs_occupied x = rs_occupied (xs ! p)"
    "rs_occupied x \<Longrightarrow> rs_payload_index x = rs_payload_index (xs ! p) \<and> rs_payload_size x = rs_payload_size (xs ! p)"
  shows "owns pool (xs[p := x])"
proof -
  have same: "owned (xs[p := x] ! j) = owned (xs ! j)" for j using x p by (cases "j = p") (auto simp: owned_def)
  have "length (pl_get pool (rs_payload_index s)) = rs_payload_size s" if "s \<in> set (xs[p := x])" "rs_occupied s" for s
    using that(1) p
  proof (cases rule: set_update_cases)
    case 1
    then show ?thesis using owns_nth(2) [OF own p] x that(2) by simp
  next
    case (2 j)
    then show ?thesis using owns_nth(2) [OF own] that(2) by simp
  qed
  moreover have "Some k \<in> owned ` set (xs[p := x]) \<longleftrightarrow> Some k \<in> owned ` set xs" for k
    unfolding owned_image by (simp add: same)
  ultimately show ?thesis using own owns_inject [OF own] by (intro ownsI) (simp_all add: same owns_def)
qed

section \<open>Elementary changes\<close>

text \<open>The parts of the invariant, each under the replacement of one slot.\<close>

lemma store_okI:
  assumes "0 < length slots" "length slots < 1073741824" "head < length slots"
    "\<forall>i < length slots. slot_shape first i (ring_at slots head i)" "owns pool slots"
    "index_shows (length slots) offsets readable_index (marks readable slots)"
    "index_shows (length slots) offsets storage_index (marks rs_occupied slots)"
    "trie_shows rejected (rejected_bag slots)" "length (rj_nodes rejected) = length slots * 2"
    "used = length (filter rs_occupied slots)" "bytes_used = sum_list (map pending_bytes slots)"
  shows "store_ok head first slots pool offsets readable_index storage_index rejected used bytes_used"
  using assms unfolding store_ok_def by blast

lemma store_okD:
  assumes "store_ok head first slots pool offsets readable_index storage_index rejected used bytes_used"
  shows "0 < length slots" "length slots < 1073741824" "head < length slots"
    "\<forall>i < length slots. slot_shape first i (ring_at slots head i)" "owns pool slots"
    "index_shows (length slots) offsets readable_index (marks readable slots)"
    "index_shows (length slots) offsets storage_index (marks rs_occupied slots)"
    "trie_shows rejected (rejected_bag slots)" "length (rj_nodes rejected) = length slots * 2"
    "used = length (filter rs_occupied slots)" "bytes_used = sum_list (map pending_bytes slots)"
  using assms unfolding store_ok_def by blast+

lemma index_marks_update:
  assumes "index_shows (length xs) offsets index (marks P xs)" "p < length xs"
  shows "index_shows (length xs) offsets (index_loop offsets index 0 p (P x)) (marks P (xs[p := x]))"
  using index_loop_update [OF assms, of "P x"] assms(2) by (simp add: marks_update)

lemma index_marks_same:
  assumes "index_shows (length xs) offsets index (marks P xs)" "p < length xs" "P x = P (xs ! p)"
  shows "index_shows (length xs) offsets index (marks P (xs[p := x]))"
proof -
  have "marks P (xs[p := x]) = marks P xs" using assms(2,3) by (auto simp: marks_def nth_list_update)
  then show ?thesis using assms(1) by simp
qed

lemma count_update:
  assumes "p < length xs"
  shows "length (filter P (xs[p := x])) =
    (if P (xs ! p) then length (filter P xs) - 1 else length (filter P xs)) + (if P x then 1 else 0)"
proof -
  have "0 < length (filter P xs)" if "P (xs ! p)"
    using nth_mem [OF assms] that by (auto simp: filter_empty_conv)
  then show ?thesis using length_filter_update [OF assms, of P x] by (auto split: if_splits)
qed

lemma bytes_update:
  assumes "p < length xs"
  shows "sum_list (map pending_bytes (xs[p := x])) = sum_list (map pending_bytes xs) - pending_bytes (xs ! p) + pending_bytes x"
proof -
  have "pending_bytes (xs ! p) \<le> sum_list (map pending_bytes xs)"
    using assms by (intro member_le_sum_list) simp_all
  then show ?thesis using sum_list_update_nat [OF assms, of pending_bytes x] by simp
qed

text \<open>Emptying a slot, whatever it held.\<close>

lemma store_vacate:
  assumes ok: "store_ok head first slots pool offsets readable_index storage_index rejected used bytes_used"
    and i: "i < length slots" and s: "s = ring_at slots head i" "p = (head + i) mod length slots"
    and x: "\<not> rs_occupied x" "\<not> rs_rejected_payload x"
  shows "store_ok head first (slots[p := x]) (if rs_occupied s then pl_release pool (rs_payload_index s) else pool)
    offsets (index_loop offsets readable_index 0 p False) (index_loop offsets storage_index 0 p False)
    (if rs_rejected_payload s then remove_rejected_message rejected (dh_message_number (rs_header s)) else rejected)
    (if rs_occupied s then used - 1 else used) (bytes_used - pending_bytes s)"
proof -
  note o = store_okD [OF ok]
  have p: "p < length slots" "slots ! p = s" using o(1) s by (simp_all add: ring_at_def)
  have own: "owns (if rs_occupied s then pl_release pool (rs_payload_index s) else pool) (slots[p := x])"
    using owns_release [OF o(5) p(1), of x] owns_same [OF o(5) p(1), of x] p(2) x by auto
  have trie: "trie_shows (if rs_rejected_payload s then remove_rejected_message rejected (dh_message_number (rs_header s)) else rejected)
      (rejected_bag (slots[p := x]))"
  proof (cases "rs_rejected_payload s")
    case True
    then have "add_mset (dh_message_number (rs_header s)) (rejected_bag (slots[p := x])) = rejected_bag slots"
      using rejected_bag_update [OF p(1), of x] p(2) x(2) by simp
    then have "rejected_bag (slots[p := x]) = rejected_bag slots - {#dh_message_number (rs_header s)#}"
      by (metis add_mset_remove_trivial)
    then show ?thesis using rejected.remove_shows [OF o(8)] rejected_bag_member [OF p(1)] p(2) True by simp
  next
    case False
    then show ?thesis using rejected_bag_update [OF p(1), of x] p(2) x(2) o(8) by simp
  qed
  have "slot_shape first i x" using x by (simp add: slot_shape_def)
  note shape = slot_shape_update [OF o(4) i this, folded s(2)]
  show ?thesis
    using o(1-3,9) shape own trie index_marks_update [OF o(6) p(1), of x] index_marks_update [OF o(7) p(1), of x] x
      count_update [OF p(1), of rs_occupied x] bytes_update [OF p(1), of x] o(10,11) p(2)
    by (intro store_okI) (auto simp: readable_def pending_bytes_def)
qed

text \<open>Storing a packet in an empty slot.\<close>

lemma store_put:
  assumes ok: "store_ok head first slots pool offsets readable_index storage_index rejected used bytes_used"
    and i: "i < length slots" and s: "\<not> rs_occupied (ring_at slots head i)" "p = (head + i) mod length slots"
    and acq: "pl_acquire pool body = (k, pool')" and body: "length body \<le> 1456"
    and x: "rs_occupied x" "\<not> rs_rejected_payload x" "\<not> rs_dropped x" "rs_payload_index x = k"
      "rs_payload_size x = length body" "rs_payload_offset x = 0"
      "dh_sequence (rs_header x) = seq_advanced first (of_nat i)"
  shows "store_ok head first (slots[p := x]) pool' offsets (index_loop offsets readable_index 0 p True)
    (index_loop offsets storage_index 0 p True) rejected (used + 1) (bytes_used + length body)"
proof -
  note o = store_okD [OF ok]
  have p: "p < length slots" "\<not> rs_occupied (slots ! p)" using o(1) s by (simp_all add: ring_at_def)
  have "\<not> rs_rejected_payload (slots ! p)" using o(4) i s by (auto simp: ring_at_def slot_shape_def)
  then have bag: "rejected_bag (slots[p := x]) = rejected_bag slots" using rejected_bag_update [OF p(1), of x] x(2) by simp
  have own: "owns pool' (slots[p := x])" by (rule owns_acquire [OF o(5) p body acq x(1,4,5)])
  have "slot_shape first i x" using x body by (simp add: slot_shape_def)
  note shape = slot_shape_update [OF o(4) i this, folded s(2)]
  show ?thesis
    using o(1-3,8,9) shape own bag index_marks_update [OF o(6) p(1), of x] index_marks_update [OF o(7) p(1), of x] x
      count_update [OF p(1), of rs_occupied x] bytes_update [OF p(1), of x] o(10,11) p(2)
    by (intro store_okI) (auto simp: readable_def pending_bytes_def)
qed

text \<open>Rejecting the payload of a stored packet.\<close>

lemma store_reject:
  assumes ok: "store_ok head first slots pool offsets readable_index storage_index rejected used bytes_used"
    and i: "i < length slots" and s: "s = ring_at slots head i" "readable s" "p = (head + i) mod length slots"
  shows "store_ok head first (slots[p := s \<lparr>rs_rejected_payload := True\<rparr>]) pool offsets
    (index_loop offsets readable_index 0 p False) storage_index
    (add_rejected_message rejected (dh_message_number (rs_header s))) used bytes_used"
proof -
  let ?x = "s \<lparr>rs_rejected_payload := True\<rparr>"
  note o = store_okD [OF ok]
  have p: "p < length slots" "slots ! p = s" using o(1) s by (simp_all add: ring_at_def)
  have occ: "rs_occupied s" "\<not> rs_rejected_payload s" using s(2) by (simp_all add: readable_def)
  have bag: "rejected_bag (slots[p := ?x]) = add_mset (dh_message_number (rs_header s)) (rejected_bag slots)"
    using rejected_bag_update [OF p(1), of ?x] p(2) occ by simp
  have "size (rejected_bag slots) = length (filter rs_rejected_payload slots)"
    by (simp add: rejected_bag_def flip: mset_filter)
  also have "\<dots> < length slots" using p occ by (intro length_filter_less [of s]) auto
  finally have room: "size (rejected_bag slots) < length (rj_nodes rejected) div 2" using o(9) by simp
  have own: "owns pool (slots[p := ?x])" using owns_same [OF o(5) p(1), of ?x] p(2) by simp
  have "slot_shape first i ?x" using o(4) i s(1) occ by (auto simp: slot_shape_def)
  note shape = slot_shape_update [OF o(4) i this, folded s(3)]
  have trie: "trie_shows (add_rejected_message rejected (dh_message_number (rs_header s))) (rejected_bag (slots[p := ?x]))"
    "length (rj_nodes (add_rejected_message rejected (dh_message_number (rs_header s)))) = length (slots[p := ?x]) * 2"
    using rejected.add_shows [OF o(8) room] add_rejected_message_shows [OF o(8), of "dh_message_number (rs_header s)"] room o(9) bag
    by simp_all
  show ?thesis
    using o(1-3) shape own trie index_marks_update [OF o(6) p(1), of ?x] index_marks_same [OF o(7) p(1), of ?x] occ
      count_update [OF p(1), of rs_occupied ?x] bytes_update [OF p(1), of ?x] o(10,11) p(2)
      length_filter_update [OF p(1), of rs_occupied ?x] sum_list_update_nat [OF p(1), of pending_bytes ?x]
    by (intro store_okI) (simp_all add: readable_def pending_bytes_def)
qed

text \<open>A change that leaves what the indexes, the pool and the trie record of a slot.\<close>

lemma store_touch:
  assumes ok: "store_ok head first slots pool offsets readable_index storage_index rejected used bytes_used"
    and i: "i < length slots" and s: "s = ring_at slots head i" "p = (head + i) mod length slots"
    and x: "rs_occupied x = rs_occupied s" "rs_rejected_payload x = rs_rejected_payload s" "rs_header x = rs_header s"
      "rs_occupied s \<Longrightarrow> rs_payload_index x = rs_payload_index s \<and> rs_payload_size x = rs_payload_size s
         \<and> rs_payload_offset x \<le> rs_payload_size x \<and> \<not> rs_dropped x"
  shows "store_ok head first (slots[p := x]) pool offsets readable_index storage_index rejected used
    (bytes_used - pending_bytes s + pending_bytes x)"
proof -
  note o = store_okD [OF ok]
  have p: "p < length slots" "slots ! p = s" using o(1) s by (simp_all add: ring_at_def)
  have bag: "rejected_bag (slots[p := x]) = rejected_bag slots" using rejected_bag_update [OF p(1), of x] x p(2) by auto
  have own: "owns pool (slots[p := x])" using owns_same [OF o(5) p(1), of x] p(2) x by auto
  have "slot_shape first i x" using o(4) i s(1) x by (auto simp: slot_shape_def)
  note shape = slot_shape_update [OF o(4) i this, folded s(2)]
  show ?thesis
    using o(1-3,8,9) shape own bag index_marks_same [OF o(6) p(1), of x] index_marks_same [OF o(7) p(1), of x] x
      length_filter_update [OF p(1), of rs_occupied x] bytes_update [OF p(1), of x] o(10,11) p(2)
    by (intro store_okI) (auto simp: readable_def)
qed

text \<open>Moving the window over empty slots.\<close>

lemma store_rotate:
  assumes ok: "store_ok head first slots pool offsets readable_index storage_index rejected used bytes_used"
    and empty: "\<And>i. i < k \<Longrightarrow> i < length slots \<Longrightarrow> \<not> rs_occupied (ring_at slots head i)"
  shows "store_ok ((head + k) mod length slots) (seq_advanced first (of_nat k)) slots pool offsets readable_index
    storage_index rejected used bytes_used"
proof -
  note o = store_okD [OF ok]
  have "slot_shape (seq_advanced first (of_nat k)) i (ring_at slots ((head + k) mod length slots) i)" if i: "i < length slots" for i
  proof (cases "k + i < length slots")
    case True
    then show ?thesis using o(4) [rule_format, OF True]
      by (simp add: ring_at_advance slot_shape_def seq_advanced_advanced)
  next
    case False
    define j where "j = (k + i) mod length slots"
    have j: "j < length slots" "j < k" using ring_wrapped [OF i, of k] False by (simp_all add: j_def)
    have "ring_at slots ((head + k) mod length slots) i = ring_at slots head j"
      unfolding ring_at_advance by (simp add: ring_at_def j_def mod_add_right_eq)
    moreover have "\<not> rs_occupied (ring_at slots head j)" "\<not> rs_rejected_payload (ring_at slots head j)"
      using empty [OF j(2,1)] o(4) [rule_format, OF j(1)] by (auto simp: slot_shape_def)
    ultimately show ?thesis by (simp add: slot_shape_def)
  qed
  then show ?thesis using o by (intro store_okI) simp_all
qed

end
