(* ===== verification/Receive_Queue.thy ===== *)
theory Receive_Queue
  imports Receive_Buffer_Inv
begin

text \<open>
  The abstract contract of the receive buffer: a window of cells, each a gap, a resolved sequence
  number or a packet with its body, together with the first sequence number of the window, the
  cumulative acknowledgement and the message that is being discarded. The operations of the
  buffer refine operations on this queue that know nothing of the ring, the payload pool, the
  occupancy index, the trie and the counters.
\<close>

section \<open>The queue\<close>

datatype Cell = Gap | Dropped | Data DataHeader bytes nat bool

record ReceiveQueue =
  rq_cells :: "Cell list"
  rq_first :: SequenceNumber
  rq_ack :: SequenceNumber
  rq_discarding :: "u32 option"

fun settled :: "Cell \<Rightarrow> bool" where
  "settled Gap = False"
| "settled Dropped = True"
| "settled (Data h body read rejected) = True"

fun rejects :: "u32 \<Rightarrow> Cell \<Rightarrow> bool" where
  "rejects m (Data h body read rejected) = (rejected \<and> dh_message_number h = m)"
| "rejects m c = False"

definition rq_rejected :: "ReceiveQueue \<Rightarrow> u32 \<Rightarrow> bool" where
  "rq_rejected q m = list_ex (rejects m) (rq_cells q)"

text \<open>The window moves by \<open>k\<close> cells; gaps enter at its end.\<close>

definition rq_advance :: "nat \<Rightarrow> ReceiveQueue \<Rightarrow> ReceiveQueue" where
  "rq_advance k q =
     q \<lparr>rq_cells := drop k (rq_cells q) @ replicate (min k (length (rq_cells q))) Gap,
        rq_first := seq_advanced (rq_first q) (of_nat k)\<rparr>"

definition rq_advance_ack :: "ReceiveQueue \<Rightarrow> ReceiveQueue" where
  "rq_advance_ack q =
     (let offset = seq_distance (rq_ack q) (rq_first q)
      in if offset < 0 \<or> nat offset \<ge> length (rq_cells q) then q
         else q \<lparr>rq_ack := seq_advanced (rq_ack q)
                   (of_nat (length (takeWhile settled (drop (nat offset) (rq_cells q)))))\<rparr>)"

text \<open>
  Trimming: a resolved cell at the front leaves the window, and so does a packet of a rejected
  message, up to the last packet of that message.
\<close>

definition rq_trim_step :: "ReceiveQueue \<Rightarrow> ReceiveQueue + ReceiveQueue" where
  "rq_trim_step q =
     (case rq_cells q of
        [] \<Rightarrow> Inl q
      | Gap # _ \<Rightarrow> Inl q
      | Dropped # _ \<Rightarrow> Inr (rq_advance 1 q)
      | Data h body read rejected # _ \<Rightarrow>
          if rq_discarding q = Some (dh_message_number h) \<or> rq_rejected q (dh_message_number h)
          then Inr ((rq_advance 1 q) \<lparr>rq_discarding :=
                 if dh_boundary h = MessageBoundary_last \<or> dh_boundary h = MessageBoundary_solo then None
                 else Some (dh_message_number h)\<rparr>)
          else Inl (q \<lparr>rq_discarding := None\<rparr>))"

primrec rq_trim_loop :: "nat \<Rightarrow> ReceiveQueue \<Rightarrow> ReceiveQueue" where
  "rq_trim_loop 0 q = q"
| "rq_trim_loop (Suc n) q = (case rq_trim_step q of Inl q \<Rightarrow> q | Inr q \<Rightarrow> rq_trim_loop n q)"

definition rq_trim :: "ReceiveQueue \<Rightarrow> ReceiveQueue" where
  "rq_trim q = rq_trim_loop (length (rq_cells q) + 1) q"

section \<open>The abstraction of the buffer\<close>

definition slot_cell :: "PayloadPool \<Rightarrow> ReceiveSlot \<Rightarrow> Cell" where
  "slot_cell pool s =
     (if rs_occupied s then Data (rs_header s) (pl_get pool (rs_payload_index s)) (rs_payload_offset s) (rs_rejected_payload s)
      else if rs_dropped s then Dropped else Gap)"

definition store_cells :: "nat \<Rightarrow> ReceiveSlot list \<Rightarrow> PayloadPool \<Rightarrow> Cell list" where
  "store_cells head slots pool = map (\<lambda>i. slot_cell pool (ring_at slots head i)) [0..<length slots]"

definition rb_queue :: "ReceiveBuffer \<Rightarrow> ReceiveQueue" where
  "rb_queue b =
     \<lparr>rq_cells = store_cells (rb_head b) (rb_slots b) (rb_payloads b), rq_first = rb_first_stored_sequence b,
      rq_ack = rb_next_ack_sequence b, rq_discarding = rb_discarding_message b\<rparr>"

lemma length_store_cells [simp]: "length (store_cells head slots pool) = length slots"
  by (simp add: store_cells_def)

lemma nth_store_cells [simp]: "i < length slots \<Longrightarrow> store_cells head slots pool ! i = slot_cell pool (ring_at slots head i)"
  by (simp add: store_cells_def)

lemma store_cells_update:
  assumes "i < length slots" "p = (head + i) mod length slots"
    and same: "\<And>j. j < length slots \<Longrightarrow> j \<noteq> p \<Longrightarrow> slot_cell pool' (slots ! j) = slot_cell pool (slots ! j)"
  shows "store_cells head (slots[p := x]) pool' = (store_cells head slots pool)[i := slot_cell pool' x]"
proof (rule nth_equalityI)
  fix j assume "j < length (store_cells head (slots[p := x]) pool')"
  then have j: "j < length slots" by simp
  have at: "ring_at (slots[p := x]) head j = (if i = j then x else ring_at slots head j)"
    using ring_at_put [OF assms(1) j, of head x] assms(2) by (simp add: ring_put_def)
  have "(head + j) mod length slots \<noteq> p" if "i \<noteq> j" using ring_index_inject [OF assms(1) j, of head] that assms(2) by auto
  moreover have "(head + j) mod length slots < length slots" using assms(1) by (rule ring_pos)
  ultimately show "store_cells head (slots[p := x]) pool' ! j = (store_cells head slots pool)[i := slot_cell pool' x] ! j"
    using j assms(1) same [of "(head + j) mod length slots"] by (cases "i = j") (simp_all add: at, simp add: ring_at_def)
qed simp

lemma cells_vacate:
  assumes "owns pool slots" "i < length slots" "s = ring_at slots head i" "p = (head + i) mod length slots"
    "\<not> rs_occupied x"
  shows "store_cells head (slots[p := x]) (if rs_occupied s then pl_release pool (rs_payload_index s) else pool) =
    (store_cells head slots pool)[i := if rs_dropped x then Dropped else Gap]"
proof -
  have p: "p < length slots" "slots ! p = s" using assms(3,4) ring_pos [OF assms(2)] by (simp_all add: ring_at_def)
  have "slot_cell (if rs_occupied s then pl_release pool (rs_payload_index s) else pool) (slots ! j) = slot_cell pool (slots ! j)"
    if "j < length slots" "j \<noteq> p" for j
  proof (cases "rs_occupied s \<and> rs_occupied (slots ! j)")
    case True
    have "rs_payload_index (slots ! j) \<in> pl_live pool - {rs_payload_index s}"
      using owns_nth(1) [OF assms(1) that(1)] owns_other [OF assms(1) p(1) that] True p(2) by auto
    moreover have "pool_ok pool" "rs_payload_index s \<in> pl_live pool"
      using assms(1) owns_nth(1) [OF assms(1) p(1)] True p(2) by (auto simp: owns_def)
    ultimately show ?thesis using pool.release_laws True by (simp add: slot_cell_def)
  qed (auto simp: slot_cell_def)
  from store_cells_update [OF assms(2,4) this] show ?thesis using assms(5) by (simp add: slot_cell_def)
qed

lemma cells_put:
  assumes "owns pool slots" "i < length slots" "\<not> rs_occupied (ring_at slots head i)" "p = (head + i) mod length slots"
    "pl_acquire pool body = (k, pool')" "length body \<le> 1456" "rs_occupied x" "rs_payload_index x = k"
  shows "store_cells head (slots[p := x]) pool' =
    (store_cells head slots pool)[i := Data (rs_header x) body (rs_payload_offset x) (rs_rejected_payload x)]"
proof -
  have p: "p < length slots" "\<not> rs_occupied (slots ! p)" using assms(3,4) ring_pos [OF assms(2)] by (simp_all add: ring_at_def)
  have ok: "pool_ok pool" using assms(1) by (simp add: owns_def)
  note laws = pool.acquire_laws [OF ok assms(6) owns_room [OF assms(1) p], unfolded assms(5) fst_conv snd_conv]
  have "slot_cell pool' (slots ! j) = slot_cell pool (slots ! j)" if "j < length slots" for j
    using owns_nth(1) [OF assms(1) that] laws by (auto simp: slot_cell_def)
  from store_cells_update [OF assms(2,4) this] show ?thesis using assms(7,8) laws by (simp add: slot_cell_def)
qed

lemma cells_touch:
  assumes "i < length slots" "p = (head + i) mod length slots"
  shows "store_cells head (slots[p := x]) pool = (store_cells head slots pool)[i := slot_cell pool x]"
  by (rule store_cells_update [OF assms]) simp

lemma cells_rotate:
  assumes "0 < length slots" "\<And>i. i < k \<Longrightarrow> i < length slots \<Longrightarrow> slot_cell pool (ring_at slots head i) = Gap"
  shows "store_cells ((head + k) mod length slots) slots pool =
    drop k (store_cells head slots pool) @ replicate (min k (length slots)) Gap"
proof (rule nth_equalityI)
  fix i assume "i < length (store_cells ((head + k) mod length slots) slots pool)"
  then have i: "i < length slots" by simp
  show "store_cells ((head + k) mod length slots) slots pool ! i = (drop k (store_cells head slots pool) @ replicate (min k (length slots)) Gap) ! i"
  proof (cases "k + i < length slots")
    case True
    then show ?thesis using i by (simp add: ring_at_advance nth_append less_diff_conv add.commute)
  next
    case False
    define j where "j = (k + i) mod length slots"
    have "ring_at slots ((head + k) mod length slots) i = ring_at slots head j"
      unfolding ring_at_advance by (simp add: ring_at_def j_def mod_add_right_eq)
    moreover have "j < k" "j < length slots" using ring_wrapped [OF i, of k] False by (simp_all add: j_def)
    moreover have "\<not> i < length slots - k" "i - (length slots - k) < min k (length slots)"
      using i False by (auto simp: min_def)
    ultimately show ?thesis using i assms(2) [of j] by (simp add: nth_append)
  qed
qed simp

section \<open>Trimming\<close>

text \<open>The buffer in terms of its components, and the components under the elementary operations.\<close>

lemmas rb_elementary =
  rb_set_slot_def rb_index_occupied_def rb_invalidate_delivery_queries_def rb_advance_frontier_def rb_slot_def
  rb_index_def rb_capacity_def

lemma rb_slot_ring: "rb_slot b i = ring_at (rb_slots b) (rb_head b) i"
  by (simp add: rb_slot_def ring_at_def rb_index_def rb_capacity_def)

lemma rejected_bag_cells:
  assumes "store_ok head first slots pool offsets readable_index storage_index rejected used bytes_used"
  shows "m \<in># rejected_bag slots \<longleftrightarrow> list_ex (rejects m) (store_cells head slots pool)"
proof -
  note o = store_okD [OF assms]
  have "m \<in># rejected_bag slots \<longleftrightarrow> (\<exists>s \<in> set slots. rs_rejected_payload s \<and> dh_message_number (rs_header s) = m)"
    by (auto simp: rejected_bag_def)
  also have "\<dots> \<longleftrightarrow> (\<exists>i < length slots. rejects m (slot_cell pool (ring_at slots head i)))"
  proof
    assume "\<exists>s \<in> set slots. rs_rejected_payload s \<and> dh_message_number (rs_header s) = m"
    then obtain p where p: "p < length slots" "rs_rejected_payload (slots ! p)" "dh_message_number (rs_header (slots ! p)) = m"
      by (auto simp: in_set_conv_nth)
    define i where "i = (if head \<le> p then p - head else p + length slots - head)"
    have "i < length slots" "ring_at slots head i = slots ! p" using p(1) o(3) by (auto simp: i_def ring_at_def)
    then show "\<exists>i < length slots. rejects m (slot_cell pool (ring_at slots head i))"
      using p o(4) by (intro exI [of _ i]) (auto simp: slot_cell_def slot_shape_def)
  next
    assume "\<exists>i < length slots. rejects m (slot_cell pool (ring_at slots head i))"
    then obtain i where i: "i < length slots" "rejects m (slot_cell pool (ring_at slots head i))" by blast
    then have "rs_rejected_payload (ring_at slots head i)" "dh_message_number (rs_header (ring_at slots head i)) = m"
      by (auto simp: slot_cell_def split: if_splits)
    moreover have "ring_at slots head i \<in> set slots" using ring_pos [OF i(1)] by (simp add: ring_at_def)
    ultimately show "\<exists>s \<in> set slots. rs_rejected_payload s \<and> dh_message_number (rs_header s) = m" by blast
  qed
  also have "\<dots> \<longleftrightarrow> list_ex (rejects m) (store_cells head slots pool)"
    by (auto simp: store_cells_def list_ex_iff)
  finally show ?thesis .
qed

lemma rq_rejected_queue:
  assumes "recv_ok b"
  shows "rq_rejected (rb_queue b) m \<longleftrightarrow> message_rejected (rb_rejected b) m"
  using rejected_bag_cells [OF assms] rejected.member_iff [OF store_okD(8) [OF assms]]
  by (simp add: rq_rejected_def rb_queue_def)

lemma rq_cells_head:
  assumes "recv_ok b"
  shows "rq_cells (rb_queue b) = slot_cell (rb_payloads b) (rb_slot b 0) # drop 1 (rq_cells (rb_queue b))"
proof -
  have "0 < length (rq_cells (rb_queue b))" using store_okD(1) [OF assms] by (simp add: rb_queue_def)
  then show ?thesis using store_okD(1) [OF assms]
    by (metis Cons_nth_drop_Suc One_nat_def drop0 nth_store_cells rb_queue_def rb_slot_ring ReceiveQueue.select_convs(1))
qed

text \<open>Retiring the slot at the head: emptied, and the window moves over it.\<close>

lemma store_retire:
  assumes ok: "store_ok head first slots pool offsets readable_index storage_index rejected used bytes_used"
    and s: "s = ring_at slots head 0" and x: "\<not> rs_occupied x" "\<not> rs_rejected_payload x" "\<not> rs_dropped x"
  shows "store_ok ((head + 1) mod length slots) (seq_advanced first 1) (slots[head := x])
    (if rs_occupied s then pl_release pool (rs_payload_index s) else pool)
    offsets (index_loop offsets readable_index 0 head False) (index_loop offsets storage_index 0 head False)
    (if rs_rejected_payload s then remove_rejected_message rejected (dh_message_number (rs_header s)) else rejected)
    (if rs_occupied s then used - 1 else used) (bytes_used - pending_bytes s) \<and>
    store_cells ((head + 1) mod length slots) (slots[head := x]) (if rs_occupied s then pl_release pool (rs_payload_index s) else pool)
      = drop 1 (store_cells head slots pool) @ [Gap]"
proof -
  note o = store_okD [OF ok]
  have h: "head = (head + 0) mod length slots" using o(3) by simp
  have at: "ring_at (slots[head := x]) head 0 = x" using o(3) by (simp add: ring_at_def)
  note v = store_vacate [OF ok o(1) s h x(1,2)]
  have cells: "store_cells head (slots[head := x]) (if rs_occupied s then pl_release pool (rs_payload_index s) else pool)
      = (store_cells head slots pool)[0 := Gap]"
    using cells_vacate [OF o(5,1) s h x(1)] x(3) by simp
  show ?thesis
  proof
    show "store_ok ((head + 1) mod length slots) (seq_advanced first 1) (slots[head := x])
      (if rs_occupied s then pl_release pool (rs_payload_index s) else pool)
      offsets (index_loop offsets readable_index 0 head False) (index_loop offsets storage_index 0 head False)
      (if rs_rejected_payload s then remove_rejected_message rejected (dh_message_number (rs_header s)) else rejected)
      (if rs_occupied s then used - 1 else used) (bytes_used - pending_bytes s)"
      using store_rotate [OF v, of 1] at x(1) by simp
    show "store_cells ((head + 1) mod length slots) (slots[head := x]) (if rs_occupied s then pl_release pool (rs_payload_index s) else pool)
      = drop 1 (store_cells head slots pool) @ [Gap]"
      using cells_rotate [of "slots[head := x]" 1 "if rs_occupied s then pl_release pool (rs_payload_index s) else pool" head]
        cells o(1) at x by (cases "store_cells head slots pool") (auto simp: slot_cell_def min_def)
  qed
qed

definition unrejected :: "RejectedMessages \<Rightarrow> ReceiveSlot \<Rightarrow> RejectedMessages" where
  "unrejected r s = (if rs_rejected_payload s then remove_rejected_message r (dh_message_number (rs_header s)) else r)"

lemma rb_index_occupied_both:
  "rb_index_occupied b p occupied True = b
    \<lparr>rb_storage_index := index_loop (rb_level_offsets b) (rb_storage_index b) 0 p occupied,
     rb_occupied_index := index_loop (rb_level_offsets b) (rb_occupied_index b) 0 p occupied\<rparr>"
  by (simp add: rb_index_occupied_def Let_def)

lemma rb_remove_rejected_eq:
  "rb_remove_rejected b i = b
    \<lparr>rb_slots := (rb_slots b)[rb_index b i := (rb_slot b i) \<lparr>rs_rejected_payload := False\<rparr>],
     rb_rejected := unrejected (rb_rejected b) (rb_slot b i)\<rparr>"
proof (cases "rs_rejected_payload (rb_slot b i)")
  case False
  then have "(rb_slot b i) \<lparr>rs_rejected_payload := False\<rparr> = rb_slot b i" by simp
  then have "(rb_slots b)[rb_index b i := (rb_slot b i) \<lparr>rs_rejected_payload := False\<rparr>] = rb_slots b"
    by (simp add: rb_slot_def)
  then show ?thesis using False by (simp add: rb_remove_rejected_def unrejected_def Let_def)
qed (simp add: rb_remove_rejected_def unrejected_def rb_set_slot_def Let_def)

lemma rb_retire_head_eq:
  assumes "rb_head b < length (rb_slots b)" "s = rb_slots b ! rb_head b"
  shows "rb_retire_head b = b
    \<lparr>rb_storage_index := index_loop (rb_level_offsets b) (rb_storage_index b) 0 (rb_head b) False,
     rb_occupied_index := index_loop (rb_level_offsets b) (rb_occupied_index b) 0 (rb_head b) False,
     rb_message_query_valid := False, rb_packet_query_valid := False,
     rb_slots := (rb_slots b)[rb_head b := s \<lparr>rs_rejected_payload := False, rs_payload_size := 0, rs_payload_offset := 0,
                                              rs_gap_deadline_microseconds := 0\<rparr>],
     rb_rejected := unrejected (rb_rejected b) s, rb_head := (rb_head b + 1) mod length (rb_slots b),
     rb_first_stored_sequence := seq_advanced (rb_first_stored_sequence b) 1,
     rb_classified_loss_prefix := rb_classified_loss_prefix b - min 1 (rb_classified_loss_prefix b)\<rparr>"
  using assms
  by (simp add: rb_retire_head_def rb_index_occupied_both rb_remove_rejected_eq rb_invalidate_delivery_queries_def
      rb_advance_frontier_def rb_set_slot_def rb_slot_def rb_index_def rb_capacity_def)

lemma rq_advance_one:
  "rq_cells q \<noteq> [] \<Longrightarrow>
   rq_advance 1 q = q \<lparr>rq_cells := drop 1 (rq_cells q) @ [Gap], rq_first := seq_advanced (rq_first q) 1\<rparr>"
  by (cases "rq_cells q") (simp_all add: rq_advance_def)

text \<open>The two ways the head leaves the window.\<close>

lemma rb_trim_dropped:
  assumes ok: "recv_ok b" and d: "rs_dropped (rb_slot b 0)"
  shows "recv_ok (rb_retire_head (rb_set_slot b 0 ((rb_slot b 0) \<lparr>rs_dropped := False\<rparr>)))"
    "rb_queue (rb_retire_head (rb_set_slot b 0 ((rb_slot b 0) \<lparr>rs_dropped := False\<rparr>))) = rq_advance 1 (rb_queue b)"
proof -
  define s where "s = ring_at (rb_slots b) (rb_head b) 0"
  define x where "x = s \<lparr>rs_dropped := False, rs_rejected_payload := False, rs_payload_size := 0, rs_payload_offset := 0,
    rs_gap_deadline_microseconds := 0\<rparr>"
  note o = store_okD [OF ok]
  have s: "rb_slot b 0 = s" "rs_dropped s" using d by (simp_all add: s_def rb_slot_ring)
  have vacant: "\<not> rs_occupied s" "\<not> rs_rejected_payload s" using o(1,4) s(2) by (auto simp: s_def slot_shape_def)
  have set: "rb_set_slot b 0 (s \<lparr>rs_dropped := False\<rparr>) = b \<lparr>rb_slots := (rb_slots b)[rb_head b := s \<lparr>rs_dropped := False\<rparr>]\<rparr>"
    using o(3) by (simp add: rb_set_slot_def rb_index_def rb_capacity_def)
  have eq: "rb_retire_head (rb_set_slot b 0 (s \<lparr>rs_dropped := False\<rparr>)) = b
    \<lparr>rb_storage_index := index_loop (rb_level_offsets b) (rb_storage_index b) 0 (rb_head b) False,
     rb_occupied_index := index_loop (rb_level_offsets b) (rb_occupied_index b) 0 (rb_head b) False,
     rb_message_query_valid := False, rb_packet_query_valid := False,
     rb_slots := (rb_slots b)[rb_head b := x], rb_head := (rb_head b + 1) mod length (rb_slots b),
     rb_first_stored_sequence := seq_advanced (rb_first_stored_sequence b) 1,
     rb_classified_loss_prefix := rb_classified_loss_prefix b - min 1 (rb_classified_loss_prefix b)\<rparr>"
    unfolding set by (subst rb_retire_head_eq [OF _ refl]) (use o(3) vacant in \<open>simp_all add: x_def unrejected_def\<close>)
  note r = store_retire [OF ok s_def, of x]
  show "recv_ok (rb_retire_head (rb_set_slot b 0 ((rb_slot b 0) \<lparr>rs_dropped := False\<rparr>)))"
    unfolding s eq using r vacant by (simp add: x_def pending_bytes_def)
  show "rb_queue (rb_retire_head (rb_set_slot b 0 ((rb_slot b 0) \<lparr>rs_dropped := False\<rparr>))) = rq_advance 1 (rb_queue b)"
    unfolding s eq using r vacant rq_cells_head [OF ok] by (subst rq_advance_one) (auto simp: x_def rb_queue_def)
qed

lemma rb_trim_discarded:
  assumes ok: "recv_ok b" and d: "rs_occupied (rb_slot b 0)"
  shows "recv_ok (rb_retire_head ((rb_release_head b) \<lparr>rb_discarding_message := m\<rparr>))"
    "rb_queue (rb_retire_head ((rb_release_head b) \<lparr>rb_discarding_message := m\<rparr>)) =
      (rq_advance 1 (rb_queue b)) \<lparr>rq_discarding := m\<rparr>"
proof -
  define s where "s = ring_at (rb_slots b) (rb_head b) 0"
  define x where "x = s \<lparr>rs_occupied := False, rs_rejected_payload := False, rs_payload_size := 0, rs_payload_offset := 0,
    rs_gap_deadline_microseconds := 0\<rparr>"
  note o = store_okD [OF ok]
  have s: "rb_slot b 0 = s" "rs_occupied s" using d by (simp_all add: s_def rb_slot_ring)
  have nd: "\<not> rs_dropped s" using o(1,4) s(2) by (auto simp: s_def slot_shape_def)
  have rel: "(rb_release_head b) \<lparr>rb_discarding_message := m\<rparr> = b
    \<lparr>rb_buffered_payload_bytes := rb_buffered_payload_bytes b - pending_bytes s,
     rb_payloads := pl_release (rb_payloads b) (rs_payload_index s),
     rb_slots := (rb_slots b)[rb_head b := s \<lparr>rs_occupied := False\<rparr>], rb_occupied := rb_occupied b - 1,
     rb_discarding_message := m\<rparr>"
    using o(3) s(2) by (simp add: rb_release_head_def s(1) rb_set_slot_def rb_index_def rb_capacity_def pending_bytes_def Let_def)
  have eq: "rb_retire_head ((rb_release_head b) \<lparr>rb_discarding_message := m\<rparr>) = b
    \<lparr>rb_buffered_payload_bytes := rb_buffered_payload_bytes b - pending_bytes s,
     rb_payloads := pl_release (rb_payloads b) (rs_payload_index s), rb_occupied := rb_occupied b - 1,
     rb_discarding_message := m, rb_rejected := unrejected (rb_rejected b) s,
     rb_storage_index := index_loop (rb_level_offsets b) (rb_storage_index b) 0 (rb_head b) False,
     rb_occupied_index := index_loop (rb_level_offsets b) (rb_occupied_index b) 0 (rb_head b) False,
     rb_message_query_valid := False, rb_packet_query_valid := False,
     rb_slots := (rb_slots b)[rb_head b := x], rb_head := (rb_head b + 1) mod length (rb_slots b),
     rb_first_stored_sequence := seq_advanced (rb_first_stored_sequence b) 1,
     rb_classified_loss_prefix := rb_classified_loss_prefix b - min 1 (rb_classified_loss_prefix b)\<rparr>"
    unfolding rel by (subst rb_retire_head_eq [OF _ refl]) (use o(3) in \<open>simp_all add: x_def unrejected_def\<close>)
  note r = store_retire [OF ok s_def, of x]
  show "recv_ok (rb_retire_head ((rb_release_head b) \<lparr>rb_discarding_message := m\<rparr>))"
    unfolding eq using r s(2) nd by (simp add: x_def unrejected_def)
  show "rb_queue (rb_retire_head ((rb_release_head b) \<lparr>rb_discarding_message := m\<rparr>)) =
      (rq_advance 1 (rb_queue b)) \<lparr>rq_discarding := m\<rparr>"
    unfolding eq using r s(2) nd rq_cells_head [OF ok] by (subst rq_advance_one) (auto simp: x_def rb_queue_def)
qed

lemma rb_trim_step_occupied:
  fixes b :: ReceiveBuffer
  defines "h \<equiv> rs_header (rb_slot b 0)"
  assumes "\<not> rs_dropped (rb_slot b 0)" "rs_occupied (rb_slot b 0)"
  shows "rb_trim_step b =
    (if rb_discarding_message b = Some (dh_message_number h) \<or> message_rejected (rb_rejected b) (dh_message_number h)
     then Inr (rb_retire_head ((rb_release_head b) \<lparr>rb_discarding_message :=
            if dh_boundary h = MessageBoundary_last \<or> dh_boundary h = MessageBoundary_solo then None
            else Some (dh_message_number h)\<rparr>))
     else Inl (b \<lparr>rb_discarding_message := None\<rparr>))"
proof -
  have upd: "b \<lparr>rb_discarding_message := d\<rparr> = b" if "rb_discarding_message b = d" for d using that by simp
  have same: "(rb_release_head b) \<lparr>rb_discarding_message := d\<rparr> = rb_release_head b" if "rb_discarding_message b = d" for d
    using that by (simp add: rb_release_head_def rb_set_slot_def Let_def)
  have rel: "rb_release_head (b \<lparr>rb_discarding_message := d\<rparr>) = (rb_release_head b) \<lparr>rb_discarding_message := d\<rparr>" for d
    by (simp add: rb_release_head_def rb_set_slot_def rb_slot_def rb_index_def rb_capacity_def Let_def)
  let ?n = "dh_message_number h"
  consider "rb_discarding_message b = Some ?n"
    | "rb_discarding_message b \<noteq> Some ?n" "message_rejected (rb_rejected b) ?n"
    | "rb_discarding_message b \<noteq> Some ?n" "\<not> message_rejected (rb_rejected b) ?n" by blast
  then show ?thesis
  proof cases
    case 1
    then show ?thesis unfolding rb_trim_step_def Let_def h_def [symmetric] using assms(2,3) same [OF 1] by simp
  next
    case 2
    then show ?thesis unfolding rb_trim_step_def Let_def h_def [symmetric]
      using assms(2,3) by (cases "rb_discarding_message b") (simp_all add: rel)
  next
    case 3
    then show ?thesis unfolding rb_trim_step_def Let_def h_def [symmetric]
      using assms(2,3) upd by (cases "rb_discarding_message b") simp_all
  qed
qed

lemma rb_trim_step_refines:
  assumes ok: "recv_ok b"
  shows "case rb_trim_step b of
      Inl b' \<Rightarrow> recv_ok b' \<and> rq_trim_step (rb_queue b) = Inl (rb_queue b')
    | Inr b' \<Rightarrow> recv_ok b' \<and> rq_trim_step (rb_queue b) = Inr (rb_queue b')"
proof -
  let ?s = "rb_slot b 0"
  note cells = rq_cells_head [OF ok]
  consider "rs_dropped ?s" | "\<not> rs_dropped ?s" "\<not> rs_occupied ?s" | "\<not> rs_dropped ?s" "rs_occupied ?s" by blast
  then show ?thesis
  proof cases
    case 1
    then have "\<not> rs_occupied ?s" using store_okD(1,4) [OF ok] by (auto simp: slot_shape_def rb_slot_ring)
    then have "rq_trim_step (rb_queue b) = Inr (rq_advance 1 (rb_queue b))"
      unfolding rq_trim_step_def using 1 by (subst cells) (simp add: slot_cell_def)
    then show ?thesis using rb_trim_dropped [OF ok 1] 1 by (simp add: rb_trim_step_def Let_def)
  next
    case 2
    then have "rq_trim_step (rb_queue b) = Inl (rb_queue b)"
      unfolding rq_trim_step_def by (subst cells) (simp add: slot_cell_def)
    then show ?thesis using ok 2 by (simp add: rb_trim_step_def Let_def)
  next
    case 3
    have q: "rq_trim_step (rb_queue b) =
        (if rq_discarding (rb_queue b) = Some (dh_message_number (rs_header ?s)) \<or> rq_rejected (rb_queue b) (dh_message_number (rs_header ?s))
         then Inr ((rq_advance 1 (rb_queue b)) \<lparr>rq_discarding :=
                if dh_boundary (rs_header ?s) = MessageBoundary_last \<or> dh_boundary (rs_header ?s) = MessageBoundary_solo then None
                else Some (dh_message_number (rs_header ?s))\<rparr>)
         else Inl ((rb_queue b) \<lparr>rq_discarding := None\<rparr>))"
      unfolding rq_trim_step_def using 3 by (subst cells) (simp add: slot_cell_def)
    have disc: "rq_discarding (rb_queue b) = rb_discarding_message b" by (simp add: rb_queue_def)
    show ?thesis
      unfolding q disc rq_rejected_queue [OF ok] rb_trim_step_occupied [OF 3]
      using rb_trim_discarded [OF ok 3(2)] ok by (simp add: rb_queue_def)
  qed
qed

lemma rb_trim_loop_refines:
  "recv_ok b \<Longrightarrow> recv_ok (rb_trim_loop n b) \<and> rb_queue (rb_trim_loop n b) = rq_trim_loop n (rb_queue b)"
proof (induction n arbitrary: b)
  case (Suc n)
  show ?case using rb_trim_step_refines [OF Suc.prems] Suc.IH by (auto split: sum.splits)
qed simp

lemma rb_trim_refines:
  assumes "recv_ok b"
  shows "recv_ok (rb_trim_dropped_prefix b)" "rb_queue (rb_trim_dropped_prefix b) = rq_trim (rb_queue b)"
proof -
  have "rb_capacity b + 1 = length (rq_cells (rb_queue b)) + 1" by (simp add: rb_capacity_def rb_queue_def)
  then show "recv_ok (rb_trim_dropped_prefix b)" "rb_queue (rb_trim_dropped_prefix b) = rq_trim (rb_queue b)"
    unfolding rb_trim_dropped_prefix_def rq_trim_def using rb_trim_loop_refines [OF assms] by metis+
qed

text \<open>The loop ends because no cell is left to retire, never because its rounds are used up.\<close>

lemma rq_trim_step_measure:
  assumes "rq_trim_step q = Inr q'"
  shows "length (filter settled (rq_cells q')) < length (filter settled (rq_cells q))"
    "length (rq_cells q') = length (rq_cells q)"
proof -
  from assms obtain c cs where c: "rq_cells q = c # cs" "settled c" "rq_cells q' = cs @ [Gap]"
    by (auto simp: rq_trim_step_def rq_advance_def split: list.splits Cell.splits if_splits)
  then show "length (filter settled (rq_cells q')) < length (filter settled (rq_cells q))"
    "length (rq_cells q') = length (rq_cells q)" by simp_all
qed

lemma rq_trim_step_stop: "rq_trim_step q = Inl q' \<Longrightarrow> rq_trim_step q' = Inl q'"
  by (auto simp: rq_trim_step_def rq_rejected_def split: list.splits Cell.splits if_splits)

lemma rq_trim_loop_done:
  "length (filter settled (rq_cells q)) < n \<Longrightarrow> rq_trim_step (rq_trim_loop n q) = Inl (rq_trim_loop n q)"
proof (induction n arbitrary: q)
  case (Suc n)
  show ?case
  proof (cases "rq_trim_step q")
    case (Inl q')
    then show ?thesis using rq_trim_step_stop by simp
  next
    case (Inr q')
    then show ?thesis using Suc rq_trim_step_measure [OF Inr] by simp
  qed
qed simp

lemma rq_trim_done: "rq_trim_step (rq_trim q) = Inl (rq_trim q)"
  unfolding rq_trim_def by (rule rq_trim_loop_done) (simp add: le_imp_less_Suc)

section \<open>The cumulative acknowledgement\<close>

lemma cell_settled:
  assumes ok: "recv_ok b" and k: "k < rb_capacity b"
  shows "settled (rq_cells (rb_queue b) ! k) \<longleftrightarrow>
    rs_dropped (rb_slot b k) \<or> (rs_occupied (rb_slot b k) \<and>
      dh_sequence (rs_header (rb_slot b k)) = seq_advanced (rb_first_stored_sequence b) (of_nat k))"
proof -
  have "slot_shape (rb_first_stored_sequence b) k (rb_slot b k)"
    using store_okD(4) [OF ok] k by (simp add: rb_slot_ring rb_capacity_def)
  then show ?thesis using k by (auto simp: rb_queue_def rb_capacity_def rb_slot_ring slot_cell_def slot_shape_def)
qed

lemma rb_advance_ack_loop_eq:
  assumes "recv_ok b" "k \<le> rb_capacity b" "rb_next_ack_sequence b = seq_advanced (rb_first_stored_sequence b) (of_nat k)"
  shows "rb_advance_ack_loop n b = b \<lparr>rb_next_ack_sequence :=
    seq_advanced (rb_next_ack_sequence b) (of_nat (min n (length (takeWhile settled (drop k (rq_cells (rb_queue b)))))))\<rparr>"
  using assms
proof (induction n arbitrary: b k)
  case (Suc n)
  note ok = Suc.prems(1)
  let ?cells = "rq_cells (rb_queue b)"
  have len: "length ?cells = rb_capacity b" "rb_capacity b < 1073741824"
    using store_okD(2) [OF ok] by (simp_all add: rb_queue_def rb_capacity_def)
  have dist: "seq_distance (rb_next_ack_sequence b) (rb_first_stored_sequence b) = int k"
    using Suc.prems(2,3) len(2) by (simp add: seq_distance_advanced)
  consider "k = rb_capacity b" | "k < rb_capacity b" "\<not> settled (?cells ! k)" | "k < rb_capacity b" "settled (?cells ! k)"
    using Suc.prems(2) by linarith
  then show ?case
  proof cases
    case 1
    then show ?thesis using dist len(1) by (simp add: Let_def)
  next
    case 2
    then have "drop k ?cells = ?cells ! k # drop (Suc k) ?cells" using len(1) by (simp add: Cons_nth_drop_Suc)
    moreover have "rb_advance_ack_loop (Suc n) b = b" using 2 dist cell_settled [OF ok 2(1)] Suc.prems(3) by (auto simp: Let_def)
    ultimately show ?thesis using 2(2) by (simp del: rb_advance_ack_loop.simps)
  next
    case 3
    define b1 where "b1 = b \<lparr>rb_next_ack_sequence := seq_next (rb_next_ack_sequence b)\<rparr>"
    have step: "rb_advance_ack_loop (Suc n) b = rb_advance_ack_loop n b1"
      using 3 dist cell_settled [OF ok 3(1)] Suc.prems(3) by (auto simp: Let_def b1_def)
    have ack: "rb_next_ack_sequence b1 = seq_advanced (rb_first_stored_sequence b1) (of_nat (Suc k))"
      using Suc.prems(3) by (simp add: b1_def seq_next_advanced seq_advanced_advanced add.commute)
    have cells: "rq_cells (rb_queue b1) = ?cells" by (simp add: b1_def rb_queue_def)
    have "recv_ok b1" "Suc k \<le> rb_capacity b1" using ok 3(1) by (simp_all add: b1_def rb_capacity_def)
    from Suc.IH [OF this ack] have "rb_advance_ack_loop n b1 = b1 \<lparr>rb_next_ack_sequence :=
        seq_advanced (rb_next_ack_sequence b1) (of_nat (min n (length (takeWhile settled (drop (Suc k) ?cells)))))\<rparr>"
      by (simp only: cells)
    moreover have "drop k ?cells = ?cells ! k # drop (Suc k) ?cells" using len(1) 3(1) by (simp add: Cons_nth_drop_Suc)
    ultimately show ?thesis unfolding step using 3(2)
      by (simp add: b1_def seq_next_advanced seq_advanced_advanced add.commute)
  qed
qed simp

lemma rb_advance_ack_refines:
  assumes ok: "recv_ok b"
  shows "recv_ok (rb_advance_acknowledgement b)" "rb_queue (rb_advance_acknowledgement b) = rq_advance_ack (rb_queue b)"
    "\<exists>ack. rb_advance_acknowledgement b = b \<lparr>rb_next_ack_sequence := ack\<rparr>"
proof -
  define d where "d = seq_distance (rb_next_ack_sequence b) (rb_first_stored_sequence b)"
  obtain c where c: "rb_capacity b = Suc c" using store_okD(1) [OF ok] by (cases "rb_capacity b") (auto simp: rb_capacity_def)
  have "rb_queue (rb_advance_acknowledgement b) = rq_advance_ack (rb_queue b) \<and> (\<exists>ack. rb_advance_acknowledgement b = b \<lparr>rb_next_ack_sequence := ack\<rparr>)"
  proof (cases "d < 0 \<or> nat d \<ge> rb_capacity b")
    case True
    then have "rb_advance_acknowledgement b = b"
      by (auto simp: rb_advance_acknowledgement_def c Let_def d_def)
    moreover have "rq_advance_ack (rb_queue b) = rb_queue b"
      using True by (auto simp: rq_advance_ack_def rb_queue_def d_def rb_capacity_def Let_def)
    moreover have "b = b \<lparr>rb_next_ack_sequence := rb_next_ack_sequence b\<rparr>" by simp
    ultimately show ?thesis by metis
  next
    case False
    then have "rb_next_ack_sequence b = seq_advanced (rb_first_stored_sequence b) (of_nat (nat d))" "nat d \<le> rb_capacity b"
      using seq_advanced_distance [of "rb_next_ack_sequence b" "rb_first_stored_sequence b"] by (simp_all add: d_def)
    note eq = rb_advance_ack_loop_eq [OF ok this(2,1), of "rb_capacity b"]
    let ?run = "length (takeWhile settled (drop (nat d) (rq_cells (rb_queue b))))"
    have "?run \<le> length (drop (nat d) (rq_cells (rb_queue b)))" by (rule length_takeWhile_le)
    also have "\<dots> \<le> rb_capacity b" by (simp add: rb_queue_def rb_capacity_def)
    finally have "rb_advance_acknowledgement b = b \<lparr>rb_next_ack_sequence := seq_advanced (rb_next_ack_sequence b) (of_nat ?run)\<rparr>"
      using eq by (simp add: rb_advance_acknowledgement_def min_def)
    then show ?thesis using False by (auto simp: rq_advance_ack_def rb_queue_def Let_def d_def rb_capacity_def)
  qed
  then show "rb_queue (rb_advance_acknowledgement b) = rq_advance_ack (rb_queue b)"
    "\<exists>ack. rb_advance_acknowledgement b = b \<lparr>rb_next_ack_sequence := ack\<rparr>" by blast+
  then show "recv_ok (rb_advance_acknowledgement b)" using ok by auto
qed

end
