(* ===== verification/Receive_Queue_Ops.thy ===== *)
theory Receive_Queue_Ops
  imports Receive_Queue
begin

text \<open>
  The operations of the receive buffer refine operations of the abstract queue: insertion,
  rejection, delivery, drops and discards. Each lemma also keeps the invariant.
\<close>

section \<open>Insertion\<close>

definition rq_any_rejected :: "ReceiveQueue \<Rightarrow> bool" where
  "rq_any_rejected q = list_ex (\<lambda>c. case c of Data h body read rejected \<Rightarrow> rejected | _ \<Rightarrow> False) (rq_cells q)"

definition rq_insert :: "ReceiveQueue \<Rightarrow> PacketView \<Rightarrow> (Error + ReceiveInsert) \<times> ReceiveQueue" where
  "rq_insert q packet =
     (if pv_kind packet \<noteq> PacketKind_data \<or> length (pv_payload packet) > 1456 then (Inl invalid_packet_type, q)
      else
        let sequence = dh_sequence (pv_data packet); offset = seq_distance sequence (rq_first q)
        in if offset < 0 then (Inr (receive_insert_of ReceiveStatus_older_than_window), q)
           else if nat offset \<ge> length (rq_cells q) then (Inr (receive_insert_of ReceiveStatus_beyond_window), q)
           else if rq_cells q ! nat offset \<noteq> Gap then (Inr (receive_insert_of ReceiveStatus_duplicate), q)
           else
             let q = q \<lparr>rq_cells := (rq_cells q)[nat offset := Data (pv_data packet) (pv_payload packet) 0 False]\<rparr>;
                 ahead = seq_distance sequence (rq_ack q);
                 result = receive_insert_of (if ahead = 0 then ReceiveStatus_accepted_in_order else ReceiveStatus_accepted_out_of_order);
                 result = (if ahead > 0
                           then result \<lparr>ri_has_gap := True,
                                        ri_gap_before_packet := make_range (rq_ack q) (seq_advanced sequence seq_mask)\<rparr>
                           else result);
                 previous = rq_ack q;
                 q = rq_advance_ack q;
                 advance = seq_distance (rq_ack q) previous;
                 result = result \<lparr>ri_contiguous_advance := if advance > 0 then word_of_int advance else 0\<rparr>
             in (Inr result, if rq_any_rejected q \<or> rq_discarding q \<noteq> None then rq_trim q else q))"

lemma trie_root_none:
  assumes "trie_shows r M"
  shows "rj_root r = no_rejected_node \<longleftrightarrow> M = {#}"
proof -
  obtain t free where t: "trie_is r t free" "opt_bag t = M" using assms by (auto simp: trie_shows_def)
  show ?thesis
  proof (cases t)
    case (Some t')
    have h: "t_holds (rj_nodes r) t' (rj_root r)" "length (rj_nodes r) \<le> no_rejected_node"
      using t(1) Some by (auto simp: trie_is_def)
    have "rj_root r < length (rj_nodes r)" using t_holds_bound [OF h(1) t_holds_root [OF h(1)]] .
    moreover have "t_bag t' \<noteq> {#}" using t_bag_keys [OF h(1)] t_keys_nonempty [of t'] by (metis set_mset_empty)
    ultimately show ?thesis using h(2) t(2) Some by (auto simp: opt_bag_def)
  qed (use t in \<open>auto simp: trie_is_def opt_bag_def\<close>)
qed

lemma ex_in_conv_mset: "(\<exists>m. m \<in># M) \<longleftrightarrow> M \<noteq> {#}"
  by (metis empty_iff multiset_nonemptyE set_mset_empty)

lemma any_rejected_queue:
  assumes "recv_ok b"
  shows "rq_any_rejected (rb_queue b) \<longleftrightarrow> rj_root (rb_rejected b) \<noteq> no_rejected_node"
proof -
  have cell: "(case c of Data h body read rejected \<Rightarrow> rejected | _ \<Rightarrow> False) \<longleftrightarrow> (\<exists>m. rejects m c)" for c
    by (cases c) auto
  have "rq_any_rejected (rb_queue b) \<longleftrightarrow> (\<exists>m. list_ex (rejects m) (rq_cells (rb_queue b)))"
    by (auto simp: rq_any_rejected_def list_ex_iff cell)
  also have "\<dots> \<longleftrightarrow> rejected_bag (rb_slots b) \<noteq> {#}"
    using rejected_bag_cells [OF assms] by (simp add: rb_queue_def flip: ex_in_conv_mset)
  finally show ?thesis using trie_root_none [OF store_okD(8) [OF assms]] by simp
qed

lemma rb_store_packet_refines:
  assumes ok: "recv_ok b" and i: "i < rb_capacity b" and s: "\<not> rs_occupied (rb_slot b i)"
    and packet: "length (pv_payload packet) \<le> 1456"
    and sequence: "dh_sequence (pv_data packet) = seq_advanced (rb_first_stored_sequence b) (of_nat i)"
  shows "recv_ok (rb_store_packet b i packet)"
    "rb_queue (rb_store_packet b i packet) =
      (rb_queue b) \<lparr>rq_cells := (rq_cells (rb_queue b))[i := Data (pv_data packet) (pv_payload packet) 0 False]\<rparr>"
proof -
  define p where "p = (rb_head b + i) mod length (rb_slots b)"
  obtain k pool where acq: "pl_acquire (rb_payloads b) (pv_payload packet) = (k, pool)" by fastforce
  define x where "x = (rb_slot b i) \<lparr>rs_header := pv_data packet, rs_payload_index := k,
    rs_payload_size := length (pv_payload packet) mod 65536, rs_payload_offset := 0, rs_rejected_payload := False,
    rs_occupied := True, rs_dropped := False, rs_gap_deadline_microseconds := 0\<rparr>"
  have i': "i < length (rb_slots b)" "\<not> rs_occupied (ring_at (rb_slots b) (rb_head b) i)"
    using i s by (simp_all add: rb_capacity_def rb_slot_ring)
  define b1 where "b1 = b \<lparr>rb_message_query_valid := False, rb_packet_query_valid := False, rb_payloads := pool,
    rb_slots := (rb_slots b)[p := x],
    rb_storage_index := index_loop (rb_level_offsets b) (rb_storage_index b) 0 p True,
    rb_occupied_index := index_loop (rb_level_offsets b) (rb_occupied_index b) 0 p True,
    rb_occupied := rb_occupied b + 1,
    rb_buffered_payload_bytes := rb_buffered_payload_bytes b + length (pv_payload packet)\<rparr>"
  define c where "c = rb_store_packet b i packet"
  have eq: "rb_head c = rb_head b1" "rb_first_stored_sequence c = rb_first_stored_sequence b1" "rb_slots c = rb_slots b1"
    "rb_payloads c = rb_payloads b1" "rb_level_offsets c = rb_level_offsets b1" "rb_occupied_index c = rb_occupied_index b1"
    "rb_storage_index c = rb_storage_index b1" "rb_rejected c = rb_rejected b1" "rb_occupied c = rb_occupied b1"
    "rb_buffered_payload_bytes c = rb_buffered_payload_bytes b1" "rb_next_ack_sequence c = rb_next_ack_sequence b1"
    "rb_discarding_message c = rb_discarding_message b1"
    by (simp_all add: c_def rb_store_packet_def rb_invalidate_delivery_queries_def acq rb_set_slot_def rb_slot_def rb_index_def
      rb_capacity_def rb_index_occupied_both b1_def x_def p_def Let_def)
  have x: "rs_occupied x" "\<not> rs_rejected_payload x" "\<not> rs_dropped x" "rs_payload_index x = k"
      "rs_payload_size x = length (pv_payload packet)" "rs_payload_offset x = 0" "rs_header x = pv_data packet"
      "dh_sequence (rs_header x) = seq_advanced (rb_first_stored_sequence b) (of_nat i)"
    using packet sequence by (simp_all add: x_def)
  have "recv_ok b1" using store_put [OF ok i' p_def acq packet x(1-6,8)] by (simp add: b1_def)
  then show "recv_ok (rb_store_packet b i packet)" unfolding c_def [symmetric] eq .
  have "rb_queue b1 = (rb_queue b) \<lparr>rq_cells := (rq_cells (rb_queue b))[i := Data (pv_data packet) (pv_payload packet) 0 False]\<rparr>"
    using cells_put [OF store_okD(5) [OF ok] i' p_def acq packet x(1,4)] x by (simp add: b1_def rb_queue_def)
  then show "rb_queue (rb_store_packet b i packet) =
      (rb_queue b) \<lparr>rq_cells := (rq_cells (rb_queue b))[i := Data (pv_data packet) (pv_payload packet) 0 False]\<rparr>"
    unfolding c_def [symmetric] rb_queue_def eq .
qed

text \<open>The bounds of the buffered timestamps are apart from the store and the queue.\<close>

lemma rb_refresh_first_same:
  "recv_ok (rb_refresh_first_buffered_timestamp b) = recv_ok b"
  "rb_queue (rb_refresh_first_buffered_timestamp b) = rb_queue b"
  "rb_occupied (rb_refresh_first_buffered_timestamp b) = rb_occupied b"
  by (simp_all add: rb_refresh_first_buffered_timestamp_def rb_queue_def Let_def split: option.splits)

lemma rb_refresh_bounds_same:
  "recv_ok (rb_refresh_buffered_timestamp_bounds b) = recv_ok b"
  "rb_queue (rb_refresh_buffered_timestamp_bounds b) = rb_queue b"
proof -
  define c where "c = rb_refresh_first_buffered_timestamp b"
  have "recv_ok (rb_refresh_buffered_timestamp_bounds b) = recv_ok c" "rb_queue (rb_refresh_buffered_timestamp_bounds b) = rb_queue c"
    by (simp_all add: rb_refresh_buffered_timestamp_bounds_def c_def [symmetric] rb_queue_def Let_def split: option.splits)
  then show "recv_ok (rb_refresh_buffered_timestamp_bounds b) = recv_ok b"
    "rb_queue (rb_refresh_buffered_timestamp_bounds b) = rb_queue b" by (simp_all only: c_def rb_refresh_first_same(1,2))
qed

lemmas rb_refresh_same = rb_refresh_first_same rb_refresh_bounds_same

lemma rb_queue_fields [simp]:
  "rq_first (rb_queue b) = rb_first_stored_sequence b" "rq_ack (rb_queue b) = rb_next_ack_sequence b"
  "rq_discarding (rb_queue b) = rb_discarding_message b" "length (rq_cells (rb_queue b)) = rb_capacity b"
  by (simp_all add: rb_queue_def rb_capacity_def)

lemma rb_queue_cell:
  "i < rb_capacity b \<Longrightarrow> rq_cells (rb_queue b) ! i = slot_cell (rb_payloads b) (rb_slot b i)"
  by (simp add: rb_queue_def rb_capacity_def rb_slot_ring)

lemma rb_insert_refines:
  assumes ok: "recv_ok b"
  shows "recv_ok (snd (rb_insert b packet)) \<and>
    rq_insert (rb_queue b) packet = (fst (rb_insert b packet), rb_queue (snd (rb_insert b packet)))"
proof -
  define offset where "offset = seq_distance (dh_sequence (pv_data packet)) (rb_first_stored_sequence b)"
  show ?thesis
  proof (cases "pv_kind packet = PacketKind_data \<and> length (pv_payload packet) \<le> 1456 \<and> 0 \<le> offset \<and>
      nat offset < rb_capacity b \<and> rq_cells (rb_queue b) ! nat offset = Gap")
    case False
    then consider "pv_kind packet \<noteq> PacketKind_data \<or> length (pv_payload packet) > 1456"
      | "pv_kind packet = PacketKind_data" "length (pv_payload packet) \<le> 1456" "offset < 0"
      | "pv_kind packet = PacketKind_data" "length (pv_payload packet) \<le> 1456" "0 \<le> offset" "rb_capacity b \<le> nat offset"
      | "pv_kind packet = PacketKind_data" "length (pv_payload packet) \<le> 1456" "0 \<le> offset" "nat offset < rb_capacity b"
        "rq_cells (rb_queue b) ! nat offset \<noteq> Gap" by linarith
    then show ?thesis
    proof cases
      case 4
      then have "rs_occupied (rb_slot b (nat offset)) \<or> rs_dropped (rb_slot b (nat offset))"
        by (auto simp: rb_queue_cell slot_cell_def split: if_splits)
      then show ?thesis using 4 ok by (simp add: rb_insert_def rq_insert_def offset_def [symmetric] Let_def)
    qed (use ok in \<open>simp_all add: rb_insert_def rq_insert_def offset_def [symmetric] Let_def\<close>)
  next
    case True
    then have free: "\<not> rs_occupied (rb_slot b (nat offset))" "\<not> rs_dropped (rb_slot b (nat offset))"
      by (auto simp: rb_queue_cell slot_cell_def split: if_splits)
    have "dh_sequence (pv_data packet) = seq_advanced (rb_first_stored_sequence b) (of_nat (nat offset))"
      using seq_advanced_distance True by (simp add: offset_def)
    note st = rb_store_packet_refines [OF ok _ free(1) _ this]
    define c where "c = rb_store_packet b (nat offset) packet"
    have c: "recv_ok c" "rb_queue c = (rb_queue b) \<lparr>rq_cells := (rq_cells (rb_queue b))[nat offset :=
        Data (pv_data packet) (pv_payload packet) 0 False]\<rparr>" using st True by (simp_all add: c_def)
    have ack: "rb_next_ack_sequence c = rb_next_ack_sequence b" using arg_cong [OF c(2), of rq_ack] by simp
    define d where "d = rb_advance_acknowledgement c"
    have d: "recv_ok d" "rb_queue d = rq_advance_ack (rb_queue c)" using rb_advance_ack_refines [OF c(1)] by (simp_all add: d_def)
    define e where "e = rb_trim_dropped_prefix d"
    have e: "recv_ok e" "rb_queue e = rq_trim (rb_queue d)" using rb_trim_refines [OF d(1)] by (simp_all add: e_def)
    have "rq_any_rejected (rb_queue d) \<longleftrightarrow> rj_root (rb_rejected d) \<noteq> no_rejected_node" by (rule any_rejected_queue [OF d(1)])
    moreover have "rq_ack (rq_advance_ack (rb_queue c)) = rb_next_ack_sequence d" "rq_discarding (rq_advance_ack (rb_queue c)) = rb_discarding_message d"
      using d(2) [symmetric] by simp_all
    ultimately show ?thesis using True free d e
      by (simp add: rb_insert_def rq_insert_def offset_def [symmetric] Let_def c_def [symmetric]
          d_def [symmetric] e_def [symmetric] c(2) [symmetric] ack rb_refresh_same)
  qed
qed

section \<open>Lookup and rejection\<close>

definition rq_find :: "ReceiveQueue \<Rightarrow> SequenceNumber \<Rightarrow> nat option" where
  "rq_find q sequence =
     (let offset = seq_distance sequence (rq_first q)
      in if offset < 0 \<or> nat offset \<ge> length (rq_cells q) then None
         else case rq_cells q ! nat offset of
                Data h body read rejected \<Rightarrow> if rejected then None else Some (nat offset)
              | _ \<Rightarrow> None)"

fun reject_cell :: "Cell \<Rightarrow> Cell" where
  "reject_cell (Data h body read rejected) = Data h body read True"
| "reject_cell c = c"

definition rq_reject :: "ReceiveQueue \<Rightarrow> SequenceNumber \<Rightarrow> ReceiveQueue" where
  "rq_reject q sequence =
     (case rq_find q sequence of
        None \<Rightarrow> q
      | Some i \<Rightarrow> rq_trim (q \<lparr>rq_cells := (rq_cells q)[i := reject_cell (rq_cells q ! i)]\<rparr>))"

lemma rb_find_refines:
  assumes ok: "recv_ok b"
  shows "rb_find b sequence = rq_find (rb_queue b) sequence"
proof -
  define offset where "offset = seq_distance sequence (rb_first_stored_sequence b)"
  show ?thesis
  proof (cases "offset < 0 \<or> rb_capacity b \<le> nat offset")
    case False
    then have i: "nat offset < rb_capacity b" "sequence = seq_advanced (rb_first_stored_sequence b) (of_nat (nat offset))"
      using seq_advanced_distance by (simp_all add: offset_def)
    have "slot_shape (rb_first_stored_sequence b) (nat offset) (rb_slot b (nat offset))"
      using store_okD(4) [OF ok] i(1) by (simp add: rb_slot_ring rb_capacity_def)
    then have "rs_occupied (rb_slot b (nat offset)) \<Longrightarrow> dh_sequence (rs_header (rb_slot b (nat offset))) = sequence"
      using i(2) by (simp add: slot_shape_def)
    then show ?thesis using False i(1)
      by (simp add: rb_find_def rq_find_def offset_def [symmetric] Let_def rb_queue_cell slot_cell_def)
  qed (auto simp: rb_find_def rq_find_def offset_def [symmetric] Let_def)
qed

lemma rb_find_some:
  assumes "recv_ok b" "rb_find b sequence = Some i"
  shows "i < rb_capacity b" "readable (rb_slot b i)" "sequence = seq_advanced (rb_first_stored_sequence b) (of_nat i)"
    "rq_cells (rb_queue b) ! i = Data (rs_header (rb_slot b i)) (pl_get (rb_payloads b) (rs_payload_index (rb_slot b i)))
       (rs_payload_offset (rb_slot b i)) False"
proof -
  show i: "i < rb_capacity b" and r: "readable (rb_slot b i)"
    using assms(2) by (auto simp: rb_find_def Let_def readable_def split: if_splits)
  show "sequence = seq_advanced (rb_first_stored_sequence b) (of_nat i)"
  proof -
    have "dh_sequence (rs_header (rb_slot b i)) = sequence"
      using assms(2) by (auto simp: rb_find_def Let_def split: if_splits)
    then show ?thesis using store_okD(4) [OF assms(1)] i r
      by (auto simp: rb_slot_ring rb_capacity_def slot_shape_def readable_def)
  qed
  show "rq_cells (rb_queue b) ! i = Data (rs_header (rb_slot b i)) (pl_get (rb_payloads b) (rs_payload_index (rb_slot b i)))
       (rs_payload_offset (rb_slot b i)) False" using i r by (simp add: rb_queue_cell slot_cell_def readable_def)
qed

lemma rb_reject_refines:
  assumes ok: "recv_ok b"
  shows "recv_ok (rb_discard_message_payload b sequence) \<and>
    rb_queue (rb_discard_message_payload b sequence) = rq_reject (rb_queue b) sequence"
proof (cases "rb_find b sequence")
  case None
  then show ?thesis using ok by (simp add: rb_discard_message_payload_def rq_reject_def rb_find_refines [OF ok, symmetric])
next
  case (Some i)
  note f = rb_find_some [OF ok Some]
  define s where "s = ring_at (rb_slots b) (rb_head b) i"
  define p where "p = (rb_head b + i) mod length (rb_slots b)"
  have s: "rb_slot b i = s" "readable s" and i: "i < length (rb_slots b)"
    using f by (simp_all add: s_def rb_slot_ring rb_capacity_def)
  define c where "c = b \<lparr>rb_message_query_valid := False, rb_packet_query_valid := False,
    rb_occupied_index := index_loop (rb_level_offsets b) (rb_occupied_index b) 0 p False,
    rb_slots := (rb_slots b)[p := s \<lparr>rs_rejected_payload := True\<rparr>],
    rb_rejected := add_rejected_message (rb_rejected b) (dh_message_number (rs_header s))\<rparr>"
  have p: "p < length (rb_slots b)" using i by (simp add: p_def ring_pos)
  have at: "rb_slots b ! p = s" by (simp add: s_def p_def ring_at_def)
  have c: "recv_ok c" using store_reject [OF ok i s_def s(2) p_def] by (simp add: c_def)
  have "rb_discard_message_payload b sequence = rb_refresh_buffered_timestamp_bounds (rb_trim_dropped_prefix c)"
    using Some s(1) p at by (simp add: rb_discard_message_payload_def rb_elementary p_def [symmetric] c_def Let_def)
  moreover have "rb_queue c = (rb_queue b) \<lparr>rq_cells := (rq_cells (rb_queue b))[i := reject_cell (rq_cells (rb_queue b) ! i)]\<rparr>"
    using cells_touch [OF i p_def, of "s \<lparr>rs_rejected_payload := True\<rparr>" "rb_payloads b"] s i f(4)
    by (simp add: rb_queue_def c_def slot_cell_def readable_def)
  ultimately show ?thesis using rb_trim_refines [OF c] Some
    by (simp add: rq_reject_def rb_refresh_same rb_find_refines [OF ok, symmetric])
qed

end
