(* ===== verification/Receive_Delivery.thy ===== *)
theory Receive_Delivery
  imports Receive_Queue_Ops
begin

text \<open>
  Delivery from the receive buffer: the message at the front of the window, a complete message
  behind a gap, and the byte stream. The destination receives the bodies of the cells that leave.
\<close>

section \<open>The message at the front\<close>

text \<open>The bodies of the message that starts at the front cell; \<open>k\<close> counts its packets so far.\<close>

primrec rq_scan :: "Cell list \<Rightarrow> u32 \<Rightarrow> nat \<Rightarrow> Error + bytes list" where
  "rq_scan [] m k = Inl invalid_state"
| "rq_scan (c # cs) m k =
     (case c of
        Data h body read rejected \<Rightarrow>
          if rejected then Inl would_block
          else if dh_message_number h \<noteq> m \<or> read \<noteq> 0
             \<or> (k > 0 \<and> dh_boundary h \<noteq> MessageBoundary_subsequent \<and> dh_boundary h \<noteq> MessageBoundary_last)
          then Inl invalid_state
          else if dh_boundary h = MessageBoundary_solo \<or> dh_boundary h = MessageBoundary_last then Inr [body]
          else (case rq_scan cs m (k + 1) of Inl e \<Rightarrow> Inl e | Inr bodies \<Rightarrow> Inr (body # bodies))
      | _ \<Rightarrow> Inl would_block)"

definition received_of :: "DataHeader \<Rightarrow> SequenceNumber \<Rightarrow> nat \<Rightarrow> ReceivedMessage" where
  "received_of h first n =
     \<lparr>rm_bytes_written = n, rm_message_number = dh_message_number h, rm_first_sequence = first,
      rm_timestamp = dh_timestamp h, rm_delivery_time_microseconds = None\<rparr>"

definition rq_pop :: "ReceiveQueue \<Rightarrow> bytes \<Rightarrow> (Error + ReceivedMessage) \<times> bytes \<times> ReceiveQueue" where
  "rq_pop q dst =
     (case rq_cells q of
        Data h body read rejected # _ \<Rightarrow>
          if rejected then (Inl would_block, dst, q)
          else if dh_boundary h \<noteq> MessageBoundary_solo \<and> dh_boundary h \<noteq> MessageBoundary_first then (Inl invalid_state, dst, q)
          else if read \<noteq> 0 then (Inl invalid_state, dst, q)
          else (case rq_scan (rq_cells q) (dh_message_number h) 0 of
                  Inl e \<Rightarrow> (Inl e, dst, q)
                | Inr bodies \<Rightarrow>
                    if length dst < length (concat bodies) then (Inl buffer_too_small, dst, q)
                    else (Inr (received_of h (rq_first q) (length (concat bodies))), copy_to (concat bodies) dst 0,
                          rq_trim (rq_advance (length bodies) q)))
      | _ \<Rightarrow> (Inl would_block, dst, q))"

lemma copy_to_twice:
  "off + length xs + length ys \<le> length dst \<Longrightarrow> copy_to ys (copy_to xs dst off) (off + length xs) = copy_to (xs @ ys) dst off"
  by (cases xs) (auto simp: copy_to_def min_def ac_simps)

text \<open>What is left of the message when its packets from offset \<open>i\<close> on are scanned.\<close>

lemma rb_scan_refines:
  assumes ok: "recv_ok b"
  shows "i + n = rb_capacity b \<Longrightarrow>
    rb_scan_message n b m (seq_advanced (rb_first_stored_sequence b) (of_nat i)) i acc =
      (case rq_scan (drop i (rq_cells (rb_queue b))) m i of
         Inl e \<Rightarrow> Inl e | Inr bodies \<Rightarrow> Inr (i + length bodies, acc + length (concat bodies)))"
proof (induction n arbitrary: i acc)
  case (Suc n)
  then have i: "i < rb_capacity b" by simp
  let ?seq = "seq_advanced (rb_first_stored_sequence b) (of_nat i)" and ?s = "rb_slot b i"
  have i': "i < length (rb_slots b)" "i < 2 ^ 30" using i store_okD(2) [OF ok] by (simp_all add: rb_capacity_def)
  have find: "rb_find b ?seq = (if readable ?s then Some i else None)"
    using i' store_okD(4) [OF ok, rule_format, OF i'(1)]
    by (auto simp: rb_find_def Let_def seq_distance_advanced rb_capacity_def readable_def slot_shape_def rb_slot_ring)
  have cons: "drop i (rq_cells (rb_queue b)) = rq_cells (rb_queue b) ! i # drop (Suc i) (rq_cells (rb_queue b))"
    using i by (subst Cons_nth_drop_Suc) simp_all
  have cell: "rq_cells (rb_queue b) ! i = slot_cell (rb_payloads b) ?s" by (rule rb_queue_cell [OF i])
  have size: "rs_occupied ?s \<Longrightarrow> length (pl_get (rb_payloads b) (rs_payload_index ?s)) = rs_payload_size ?s"
    using owns_nth(2) [OF store_okD(5) [OF ok]] i' by (auto simp: rb_slot_def rb_index_def rb_capacity_def ring_pos)
  have next_seq: "seq_next ?seq = seq_advanced (rb_first_stored_sequence b) (of_nat (Suc i))"
    by (simp add: seq_next_advanced seq_advanced_advanced add.commute)
  show ?case
  proof (cases "readable ?s")
    case False
    then show ?thesis using find cons cell by (auto simp: slot_cell_def readable_def)
  next
    case True
    show ?thesis
    proof (cases "Suc i = rb_capacity b")
      case True
      then have "drop (Suc i) (rq_cells (rb_queue b)) = []" by simp
      then show ?thesis using True find cons cell size \<open>readable ?s\<close>
        by (auto simp: slot_cell_def readable_def Let_def)
    next
      case False
      then have "Suc i + n = rb_capacity b" using Suc.prems by simp
      note IH = Suc.IH [OF this]
      show ?thesis using False i find cons cell size \<open>readable ?s\<close> IH
        by (auto simp: slot_cell_def readable_def Let_def next_seq split: sum.splits)
    qed
  qed
qed simp

text \<open>The cells of a message that is complete.\<close>

definition holds_bodies :: "Cell list \<Rightarrow> nat \<Rightarrow> bytes list \<Rightarrow> bool" where
  "holds_bodies cells i bodies \<longleftrightarrow>
     i + length bodies \<le> length cells \<and> (\<forall>j < length bodies. \<exists>h. cells ! (i + j) = Data h (bodies ! j) 0 False)"

lemma holds_bodies_Cons:
  "holds_bodies cells i (body # bodies) \<longleftrightarrow>
    i < length cells \<and> (\<exists>h. cells ! i = Data h body 0 False) \<and> holds_bodies cells (Suc i) bodies"
  unfolding holds_bodies_def length_Cons All_less_Suc2 by auto

lemma holds_bodies_below:
  "i < k \<Longrightarrow> holds_bodies cells k bodies \<Longrightarrow> holds_bodies (cells[i := c]) k bodies"
  by (simp add: holds_bodies_def)

lemma rq_scan_bodies:
  "rq_scan cs m k = Inr bodies \<Longrightarrow> holds_bodies cs 0 bodies \<and> bodies \<noteq> []"
proof (induction cs arbitrary: k bodies)
  case (Cons c cs)
  then obtain h body where c: "c = Data h body 0 False"
    by (auto split: Cell.splits if_splits)
  show ?case
  proof (cases "dh_boundary h = MessageBoundary_solo \<or> dh_boundary h = MessageBoundary_last")
    case True
    then have "bodies = [body]" using Cons.prems c by (auto split: if_splits)
    then show ?thesis using c by (simp add: holds_bodies_def)
  next
    case False
    then obtain rest where rest: "rq_scan cs m (k + 1) = Inr rest" "bodies = body # rest"
      using Cons.prems c by (auto split: if_splits sum.splits)
    have "cells ! Suc j = cs ! j" if "cells = c # cs" for cells j using that by simp
    then show ?thesis using Cons.IH [OF rest(1)] rest(2) c
      by (auto simp: holds_bodies_Cons) (auto simp: holds_bodies_def)
  qed
qed simp

lemma rb_copy_out_refines:
  assumes "store_ok (rb_head b) (rb_first_stored_sequence b) (rb_slots b) (rb_payloads b) (rb_level_offsets b)
      (rb_occupied_index b) (rb_storage_index b) (rb_rejected b) used (rb_buffered_payload_bytes b)"
    and "holds_bodies (store_cells (rb_head b) (rb_slots b) (rb_payloads b)) i bodies"
    and "written + length (concat bodies) \<le> length dst"
  shows "\<exists>slots pool oi si n. rb_copy_out (length bodies) i b written dst =
      (written + length (concat bodies), copy_to (concat bodies) dst written,
       b \<lparr>rb_slots := slots, rb_payloads := pool, rb_occupied_index := oi, rb_storage_index := si, rb_buffered_payload_bytes := n\<rparr>)
    \<and> store_ok (rb_head b) (rb_first_stored_sequence b) slots pool (rb_level_offsets b) oi si (rb_rejected b) (used - length bodies) n
    \<and> store_cells (rb_head b) slots pool =
        take i (store_cells (rb_head b) (rb_slots b) (rb_payloads b)) @ replicate (length bodies) Gap
        @ drop (i + length bodies) (store_cells (rb_head b) (rb_slots b) (rb_payloads b))"
  using assms
proof (induction bodies arbitrary: b i written dst used)
  case Nil
  then show ?case
    by (intro exI [of _ "rb_slots b"] exI [of _ "rb_payloads b"] exI [of _ "rb_occupied_index b"]
        exI [of _ "rb_storage_index b"] exI [of _ "rb_buffered_payload_bytes b"]) (simp add: copy_to_def)
next
  case (Cons body bodies)
  define s where "s = ring_at (rb_slots b) (rb_head b) i"
  define p where "p = (rb_head b + i) mod length (rb_slots b)"
  have i: "i < length (rb_slots b)" using Cons.prems(2) by (simp add: holds_bodies_Cons)
  then obtain h where "slot_cell (rb_payloads b) s = Data h body 0 False" using Cons.prems(2) by (auto simp: holds_bodies_Cons s_def)
  then have s: "rs_occupied s" "\<not> rs_rejected_payload s" "rs_payload_offset s = 0" "pl_get (rb_payloads b) (rs_payload_index s) = body"
    by (auto simp: slot_cell_def split: if_splits)
  have p: "p < length (rb_slots b)" "rb_slots b ! p = s" using i by (simp_all add: p_def s_def ring_pos ring_at_def)
  have size: "rs_payload_size s = length body" using owns_nth(2) [OF store_okD(5) [OF Cons.prems(1)] p(1)] p(2) s by simp
  define c where "c = b \<lparr>rb_buffered_payload_bytes := rb_buffered_payload_bytes b - length body,
     rb_payloads := pl_release (rb_payloads b) (rs_payload_index s),
     rb_storage_index := index_loop (rb_level_offsets b) (rb_storage_index b) 0 p False,
     rb_occupied_index := index_loop (rb_level_offsets b) (rb_occupied_index b) 0 p False,
     rb_slots := (rb_slots b)[p := rb_empty_slot s]\<rparr>"
  have step: "rb_copy_out (length (body # bodies)) i b written dst =
      rb_copy_out (length bodies) (Suc i) c (written + length body) (copy_to body dst written)"
    using p s size by (simp add: rb_slot_ring s_def [symmetric] rb_index_occupied_both rb_set_slot_def rb_index_def
        rb_capacity_def p_def [symmetric] c_def Let_def ring_at_def)
  have x: "\<not> rs_occupied (rb_empty_slot s)" "\<not> rs_rejected_payload (rb_empty_slot s)" "\<not> rs_dropped (rb_empty_slot s)"
    using s by (simp_all add: rb_empty_slot_def)
  have "store_ok (rb_head c) (rb_first_stored_sequence c) (rb_slots c) (rb_payloads c) (rb_level_offsets c)
      (rb_occupied_index c) (rb_storage_index c) (rb_rejected c) (used - 1) (rb_buffered_payload_bytes c)"
    using store_vacate [OF Cons.prems(1) i s_def p_def x(1,2)] s size by (simp add: c_def pending_bytes_def)
  moreover have cells: "store_cells (rb_head c) (rb_slots c) (rb_payloads c) =
      (store_cells (rb_head b) (rb_slots b) (rb_payloads b))[i := Gap]"
    using cells_vacate [OF store_okD(5) [OF Cons.prems(1)] i s_def p_def x(1)] s x(3) by (simp add: c_def)
  moreover have "holds_bodies (store_cells (rb_head c) (rb_slots c) (rb_payloads c)) (Suc i) bodies"
    using Cons.prems(2) unfolding cells by (simp add: holds_bodies_Cons holds_bodies_below)
  moreover have dst: "length (copy_to body dst written) = length dst" using Cons.prems(3) by simp
  moreover have "written + length body + length (concat bodies) \<le> length (copy_to body dst written)"
    using Cons.prems(3) dst by simp
  ultimately obtain slots pool oi si n where r: "rb_copy_out (length bodies) (Suc i) c (written + length body) (copy_to body dst written) =
      (written + length body + length (concat bodies), copy_to (concat bodies) (copy_to body dst written) (written + length body),
       c \<lparr>rb_slots := slots, rb_payloads := pool, rb_occupied_index := oi, rb_storage_index := si, rb_buffered_payload_bytes := n\<rparr>)"
    and ok: "store_ok (rb_head c) (rb_first_stored_sequence c) slots pool (rb_level_offsets c) oi si (rb_rejected c) (used - 1 - length bodies) n"
    and out: "store_cells (rb_head c) slots pool =
        take (Suc i) (store_cells (rb_head c) (rb_slots c) (rb_payloads c)) @ replicate (length bodies) Gap
        @ drop (Suc i + length bodies) (store_cells (rb_head c) (rb_slots c) (rb_payloads c))"
    using Cons.IH by metis
  have "copy_to (concat bodies) (copy_to body dst written) (written + length body) = copy_to (concat (body # bodies)) dst written"
    using copy_to_twice [of written body "concat bodies" dst] Cons.prems(3) by simp
  moreover have "store_cells (rb_head b) slots pool =
        take i (store_cells (rb_head b) (rb_slots b) (rb_payloads b)) @ replicate (length (body # bodies)) Gap
        @ drop (i + length (body # bodies)) (store_cells (rb_head b) (rb_slots b) (rb_payloads b))"
    using out i unfolding cells by (simp add: c_def take_Suc_conv_app_nth)
  ultimately show ?case unfolding step r using ok
    by (intro exI [of _ slots] exI [of _ pool] exI [of _ oi] exI [of _ si] exI [of _ n]) (simp add: c_def)
qed

text \<open>The packets of a message leave the front of the window.\<close>

lemma rb_pop_front:
  assumes ok: "recv_ok b" and bodies: "holds_bodies (rq_cells (rb_queue b)) 0 bodies" "length (concat bodies) \<le> length dst"
  obtains c where "rb_copy_out (length bodies) 0 (rb_invalidate_delivery_queries b) 0 dst =
      (length (concat bodies), copy_to (concat bodies) dst 0, c)"
    "recv_ok ((rb_advance_frontier c (length bodies)) \<lparr>rb_occupied := rb_occupied (rb_advance_frontier c (length bodies)) - length bodies\<rparr>)"
    "rb_queue ((rb_advance_frontier c (length bodies)) \<lparr>rb_occupied := rb_occupied (rb_advance_frontier c (length bodies)) - length bodies\<rparr>)
      = rq_advance (length bodies) (rb_queue b)"
proof -
  define a where "a = rb_invalidate_delivery_queries b"
  have a: "recv_ok a" "rb_queue a = rb_queue b" using ok by (simp_all add: a_def rb_invalidate_delivery_queries_def rb_queue_def)
  have "holds_bodies (store_cells (rb_head a) (rb_slots a) (rb_payloads a)) 0 bodies"
    using bodies(1) a(2) by (simp add: rb_queue_def)
  from rb_copy_out_refines [OF a(1) this, of 0 dst] bodies(2)
  obtain slots pool oi si n where out: "rb_copy_out (length bodies) 0 a 0 dst = (length (concat bodies), copy_to (concat bodies) dst 0,
       a \<lparr>rb_slots := slots, rb_payloads := pool, rb_occupied_index := oi, rb_storage_index := si, rb_buffered_payload_bytes := n\<rparr>)"
    and st: "store_ok (rb_head a) (rb_first_stored_sequence a) slots pool (rb_level_offsets a) oi si (rb_rejected a)
      (rb_occupied a - length bodies) n"
    and cells: "store_cells (rb_head a) slots pool = replicate (length bodies) Gap @ drop (length bodies) (rq_cells (rb_queue a))"
    by (auto simp: rb_queue_def)
  have len: "length slots = length (rq_cells (rb_queue a))" "length bodies \<le> length slots"
    using arg_cong [OF cells, of length] bodies(1) a(2) by (auto simp: holds_bodies_def)
  have gap: "slot_cell pool (ring_at slots (rb_head a) j) = Gap" if "j < length bodies" for j
  proof -
    have "store_cells (rb_head a) slots pool ! j = Gap" unfolding cells using that by (simp add: nth_append)
    then show ?thesis using that len by simp
  qed
  then have "\<not> rs_occupied (ring_at slots (rb_head a) j)" if "j < length bodies" for j
    using that by (fastforce simp: slot_cell_def)
  then have rot: "store_ok ((rb_head a + length bodies) mod length slots) (seq_advanced (rb_first_stored_sequence a) (of_nat (length bodies)))
      slots pool (rb_level_offsets a) oi si (rb_rejected a) (rb_occupied a - length bodies) n"
    by (rule store_rotate [OF st])
  have "0 < length slots" using store_okD(1) [OF st] .
  then have cells': "store_cells ((rb_head a + length bodies) mod length slots) slots pool =
      drop (length bodies) (rq_cells (rb_queue a)) @ replicate (length bodies) Gap"
    using cells_rotate [of slots "length bodies" pool "rb_head a", OF _ gap] len cells by (simp add: min_def)
  define c where "c = a \<lparr>rb_slots := slots, rb_payloads := pool, rb_occupied_index := oi, rb_storage_index := si,
    rb_buffered_payload_bytes := n\<rparr>"
  have min: "min (length bodies) (length (rq_cells (rb_queue a))) = length bodies" using len by simp
  show ?thesis
  proof (rule that)
    show "rb_copy_out (length bodies) 0 (rb_invalidate_delivery_queries b) 0 dst =
      (length (concat bodies), copy_to (concat bodies) dst 0, c)" using out by (simp add: a_def c_def)
    show "recv_ok ((rb_advance_frontier c (length bodies))
        \<lparr>rb_occupied := rb_occupied (rb_advance_frontier c (length bodies)) - length bodies\<rparr>)"
      using rot by (simp add: c_def rb_advance_frontier_def rb_capacity_def)
    show "rb_queue ((rb_advance_frontier c (length bodies))
        \<lparr>rb_occupied := rb_occupied (rb_advance_frontier c (length bodies)) - length bodies\<rparr>) = rq_advance (length bodies) (rb_queue b)"
      unfolding a(2) [symmetric] rq_advance_def min using cells'
      by (simp add: c_def rb_advance_frontier_def rb_capacity_def rb_queue_def)
  qed
qed

lemma rb_pop_message_refines:
  assumes ok: "recv_ok b"
  shows "case rb_pop_message b dst of (r, dst', b') \<Rightarrow> recv_ok b' \<and> rq_pop (rb_queue b) dst = (r, dst', rb_queue b')"
proof -
  let ?s = "rb_slot b 0"
  have cap: "0 < rb_capacity b" using store_okD(1) [OF ok] by (simp add: rb_capacity_def)
  have self: "seq_distance (rb_first_stored_sequence b) (rb_first_stored_sequence b) = 0"
    using seq_distance_advanced [of 0 "rb_first_stored_sequence b"] by simp
  have find: "rb_find b (rb_first_stored_sequence b) = (if readable ?s then Some 0 else None)"
    using rb_find_refines [OF ok, of "rb_first_stored_sequence b"] cap
    by (auto simp: rq_find_def rb_queue_cell slot_cell_def readable_def self)
  obtain cs where cells: "rq_cells (rb_queue b) = slot_cell (rb_payloads b) ?s # cs"
    using rq_cells_head [OF ok] by blast
  have scan: "rb_scan_message (rb_capacity b) b m (rb_first_stored_sequence b) 0 0 =
      (case rq_scan (rq_cells (rb_queue b)) m 0 of Inl e \<Rightarrow> Inl e | Inr bodies \<Rightarrow> Inr (length bodies, length (concat bodies)))" for m
    using rb_scan_refines [OF ok, of 0 "rb_capacity b" m 0] by (simp split: sum.splits)
  show ?thesis
  proof (cases "readable ?s")
    case False
    then show ?thesis using ok find cells by (simp add: rb_pop_message_def rq_pop_def slot_cell_def readable_def)
  next
    case True
    let ?h = "rs_header ?s"
    have cell: "slot_cell (rb_payloads b) ?s = Data ?h (pl_get (rb_payloads b) (rs_payload_index ?s)) (rs_payload_offset ?s) False"
      using True by (simp add: slot_cell_def readable_def)
    show ?thesis
    proof (cases "(dh_boundary ?h \<noteq> MessageBoundary_solo \<and> dh_boundary ?h \<noteq> MessageBoundary_first) \<or> rs_payload_offset ?s \<noteq> 0")
      case True
      then show ?thesis using ok find cells cell \<open>readable ?s\<close> by (auto simp: rb_pop_message_def rq_pop_def Let_def)
    next
      case False
      have pop: "rb_pop_message b dst = (case rq_scan (rq_cells (rb_queue b)) (dh_message_number ?h) 0 of
          Inl e \<Rightarrow> (Inl e, dst, b)
        | Inr bodies \<Rightarrow>
            if length dst < length (concat bodies) then (Inl buffer_too_small, dst, b)
            else let (written, dst, c) = rb_copy_out (length bodies) 0 (rb_invalidate_delivery_queries b) 0 dst;
                     d = rb_advance_frontier c (length bodies)
                 in (Inr (received_of ?h (rb_first_stored_sequence b) written), dst,
                     rb_refresh_first_buffered_timestamp (rb_trim_dropped_prefix (d \<lparr>rb_occupied := rb_occupied d - length bodies\<rparr>))))"
        using False find \<open>readable ?s\<close> by (auto simp: rb_pop_message_def scan Let_def received_of_def split: sum.splits)
      have queue: "rq_pop (rb_queue b) dst = (case rq_scan (rq_cells (rb_queue b)) (dh_message_number ?h) 0 of
          Inl e \<Rightarrow> (Inl e, dst, rb_queue b)
        | Inr bodies \<Rightarrow>
            if length dst < length (concat bodies) then (Inl buffer_too_small, dst, rb_queue b)
            else (Inr (received_of ?h (rb_first_stored_sequence b) (length (concat bodies))), copy_to (concat bodies) dst 0,
                  rq_trim (rq_advance (length bodies) (rb_queue b))))"
        using False cells cell by (auto simp: rq_pop_def simp del: rq_scan.simps split: sum.splits)
      show ?thesis
      proof (cases "rq_scan (rq_cells (rb_queue b)) (dh_message_number ?h) 0")
        case (Inr bodies)
        show ?thesis
        proof (cases "length dst < length (concat bodies)")
          case False
          from rb_pop_front [OF ok conjunct1 [OF rq_scan_bodies [OF Inr]], of dst] False
          obtain c where c: "rb_copy_out (length bodies) 0 (rb_invalidate_delivery_queries b) 0 dst =
              (length (concat bodies), copy_to (concat bodies) dst 0, c)"
            and d: "recv_ok ((rb_advance_frontier c (length bodies)) \<lparr>rb_occupied := rb_occupied (rb_advance_frontier c (length bodies)) - length bodies\<rparr>)"
            and q: "rb_queue ((rb_advance_frontier c (length bodies)) \<lparr>rb_occupied := rb_occupied (rb_advance_frontier c (length bodies)) - length bodies\<rparr>)
              = rq_advance (length bodies) (rb_queue b)" by (metis not_less)
          show ?thesis using rb_trim_refines [OF d] False unfolding pop queue Inr q
            by (simp add: c Let_def rb_refresh_first_same(1,2))
        qed (use ok Inr in \<open>simp add: pop queue\<close>)
      qed (use ok in \<open>simp add: pop queue\<close>)
    qed
  qed
qed

end
