(* ===== verification/Group_Clock.thy ===== *)
theory Group_Clock
  imports Tsbpd
begin

text \<open>
  The clock that the members of a bonding group share (\<^verbatim>\<open>TsbpdClockState\<close> and
  \<^verbatim>\<open>TsbpdClock::share_group_clock\<close> of \<^verbatim>\<open>timing.cpp\<close>). The shared objects live in an explicit store:
  \<^verbatim>\<open>std::make_shared\<close> appends a copy of the whole clock object, its own \<^verbatim>\<open>shared_state_\<close> pointer
  included, and a pointer is the index of the object. Every operation follows the pointer first;
  following a pointer that dangles or a chain that never ends has no result. The mutex makes the
  calls sequential, which is how they are run here.
\<close>

section \<open>Clock objects and the store\<close>

record TsbpdMember =
  tm_clock :: TsbpdClock
  tm_shared_state :: "nat option"

type_synonym clock_store = "TsbpdMember list"

definition share_group_clock ::
    "clock_store \<Rightarrow> TsbpdMember \<Rightarrow> nat option \<Rightarrow> clock_store \<times> TsbpdMember \<times> nat option" where
  "share_group_clock store m state =
     (let (store, state) =
        (case state of
           None \<Rightarrow> (store @ [m], Some (length store))
         | Some a \<Rightarrow>
             (store [a := (store ! a) \<lparr>tm_clock := (tm_clock (store ! a)) \<lparr>tc_delay_microseconds :=
                max (tc_delay_microseconds (tm_clock (store ! a))) (tc_delay_microseconds (tm_clock m))\<rparr>\<rparr>],
              Some a))
      in (store, m \<lparr>tm_shared_state := state\<rparr>, state))"

text \<open>Every operation of a clock begins by forwarding the call to the shared clock, if there is one.\<close>

partial_function (option) forward ::
    "(TsbpdClock \<Rightarrow> 'a \<times> TsbpdClock) \<Rightarrow> clock_store \<Rightarrow> TsbpdMember \<Rightarrow> ('a \<times> clock_store \<times> TsbpdMember) option" where
  "forward operation store m =
     (case tm_shared_state m of
        None \<Rightarrow> Some (let (result, c) = operation (tm_clock m) in (result, store, m \<lparr>tm_clock := c\<rparr>))
      | Some a \<Rightarrow>
          if a < length store then
            Option.bind (forward operation store (store ! a))
              (\<lambda>(result, store, g). Some (result, store [a := g], m))
          else None)"

definition tm_delivery_time ::
    "clock_store \<Rightarrow> TsbpdMember \<Rightarrow> PacketTimestamp \<Rightarrow> (u64 \<times> clock_store \<times> TsbpdMember) option" where
  "tm_delivery_time store m timestamp = forward (\<lambda>c. tc_delivery_time c timestamp) store m"

definition tm_control_delivery_time ::
    "clock_store \<Rightarrow> TsbpdMember \<Rightarrow> PacketTimestamp \<Rightarrow> (u64 \<times> clock_store \<times> TsbpdMember) option" where
  "tm_control_delivery_time store m timestamp = forward (\<lambda>c. (tc_control_delivery_time c timestamp, c)) store m"

definition tm_ready ::
    "clock_store \<Rightarrow> TsbpdMember \<Rightarrow> PacketTimestamp \<Rightarrow> u64 \<Rightarrow> (bool \<times> clock_store \<times> TsbpdMember) option" where
  "tm_ready store m timestamp now =
     map_option (\<lambda>(time, store, m). (now \<ge> time, store, m)) (tm_delivery_time store m timestamp)"

definition tm_too_late ::
    "clock_store \<Rightarrow> TsbpdMember \<Rightarrow> PacketTimestamp \<Rightarrow> u64 \<Rightarrow> u32 \<Rightarrow> (bool \<times> clock_store \<times> TsbpdMember) option" where
  "tm_too_late store m timestamp now tolerance =
     map_option (\<lambda>(time, store, m). (now > time \<and> now - time > ucast tolerance, store, m))
       (tm_delivery_time store m timestamp)"

definition tm_observe_arrival ::
    "clock_store \<Rightarrow> TsbpdMember \<Rightarrow> PacketTimestamp \<Rightarrow> u64 \<Rightarrow> u32 option \<Rightarrow> bool
      \<Rightarrow> (DriftUpdate \<times> clock_store \<times> TsbpdMember) option" where
  "tm_observe_arrival store m timestamp arrival round_trip_time advance_epoch =
     forward (\<lambda>c. tc_observe_arrival c timestamp arrival round_trip_time advance_epoch) store m"

section \<open>Histories of a group\<close>

text \<open>
  The calls the members of one group make, each by the index of the member, and what they answer.
  A member that joins shares the group's clock; the first one founds it.
\<close>

datatype group_call =
    Join nat
  | Delivery nat PacketTimestamp
  | Control nat PacketTimestamp
  | Ready nat PacketTimestamp u64
  | Too_Late nat PacketTimestamp u64 u32
  | Observe nat PacketTimestamp u64 "u32 option" bool

datatype group_answer = Joined | Time u64 | Verdict bool | Update DriftUpdate

record clock_group =
  cg_store :: clock_store
  cg_members :: "TsbpdMember list"
  cg_state :: "nat option"

definition answer_call ::
    "clock_group \<Rightarrow> nat \<Rightarrow> ('a \<Rightarrow> group_answer) \<Rightarrow> ('a \<times> clock_store \<times> TsbpdMember) option
      \<Rightarrow> (group_answer \<times> clock_group) option" where
  "answer_call g i answer result =
     map_option (\<lambda>(x, store, m). (answer x, g \<lparr>cg_store := store, cg_members := (cg_members g) [i := m]\<rparr>)) result"

fun group_step :: "clock_group \<Rightarrow> group_call \<Rightarrow> (group_answer \<times> clock_group) option" where
  "group_step g (Join i) =
     (let (store, m, state) = share_group_clock (cg_store g) (cg_members g ! i) (cg_state g)
      in Some (Joined, \<lparr>cg_store = store, cg_members = (cg_members g) [i := m], cg_state = state\<rparr>))"
| "group_step g (Delivery i ts) = answer_call g i Time (tm_delivery_time (cg_store g) (cg_members g ! i) ts)"
| "group_step g (Control i ts) = answer_call g i Time (tm_control_delivery_time (cg_store g) (cg_members g ! i) ts)"
| "group_step g (Ready i ts now) = answer_call g i Verdict (tm_ready (cg_store g) (cg_members g ! i) ts now)"
| "group_step g (Too_Late i ts now tolerance) =
     answer_call g i Verdict (tm_too_late (cg_store g) (cg_members g ! i) ts now tolerance)"
| "group_step g (Observe i ts arrival rtt advance) =
     answer_call g i Update (tm_observe_arrival (cg_store g) (cg_members g ! i) ts arrival rtt advance)"

primrec group_run :: "clock_group \<Rightarrow> group_call list \<Rightarrow> (group_answer list \<times> clock_group) option" where
  "group_run g [] = Some ([], g)"
| "group_run g (call # calls) =
     Option.bind (group_step g call)
       (\<lambda>(answer, g). map_option (\<lambda>(answers, g). (answer # answers, g)) (group_run g calls))"

text \<open>The specification: one clock that answers all calls, and whose delay grows when a member joins.\<close>

fun single_step :: "(nat \<Rightarrow> u32) \<Rightarrow> TsbpdClock \<Rightarrow> group_call \<Rightarrow> group_answer \<times> TsbpdClock" where
  "single_step delay c (Join i) = (Joined, c \<lparr>tc_delay_microseconds := max (tc_delay_microseconds c) (delay i)\<rparr>)"
| "single_step delay c (Delivery i ts) = apfst Time (tc_delivery_time c ts)"
| "single_step delay c (Control i ts) = (Time (tc_control_delivery_time c ts), c)"
| "single_step delay c (Ready i ts now) = apfst (\<lambda>time. Verdict (time \<le> now)) (tc_delivery_time c ts)"
| "single_step delay c (Too_Late i ts now tolerance) =
     apfst (\<lambda>time. Verdict (time < now \<and> ucast tolerance < now - time)) (tc_delivery_time c ts)"
| "single_step delay c (Observe i ts arrival rtt advance) = apfst Update (tc_observe_arrival c ts arrival rtt advance)"

primrec single_run :: "(nat \<Rightarrow> u32) \<Rightarrow> TsbpdClock \<Rightarrow> group_call list \<Rightarrow> group_answer list \<times> TsbpdClock" where
  "single_run delay c [] = ([], c)"
| "single_run delay c (call # calls) =
     (let (answer, c) = single_step delay c call; (answers, c) = single_run delay c calls in (answer # answers, c))"

text \<open>Histories in which a member makes calls only after it has joined.\<close>

fun caller :: "group_call \<Rightarrow> nat" where
  "caller (Join i) = i"
| "caller (Delivery i _) = i"
| "caller (Control i _) = i"
| "caller (Ready i _ _) = i"
| "caller (Too_Late i _ _ _) = i"
| "caller (Observe i _ _ _ _) = i"

definition is_join :: "group_call \<Rightarrow> bool" where
  "is_join call \<longleftrightarrow> call = Join (caller call)"

primrec calls_after_join :: "nat \<Rightarrow> nat set \<Rightarrow> group_call list \<Rightarrow> bool" where
  "calls_after_join n joined [] \<longleftrightarrow> True"
| "calls_after_join n joined (call # calls) \<longleftrightarrow>
     caller call < n \<and> (is_join call \<or> caller call \<in> joined)
     \<and> calls_after_join n (insert (caller call) joined) calls"

section \<open>A group plays out on one clock\<close>

text \<open>
  The group's clock is the object at \<open>a\<close>, which shares no other; the members in \<open>joined\<close> point to
  it, and no member's own delay has changed.
\<close>

definition group_at :: "nat \<Rightarrow> nat set \<Rightarrow> (nat \<Rightarrow> u32) \<Rightarrow> clock_store \<Rightarrow> TsbpdClock \<Rightarrow> clock_group \<Rightarrow> bool" where
  "group_at n joined delay older c g \<longleftrightarrow>
     cg_store g = older @ [\<lparr>tm_clock = c, tm_shared_state = None\<rparr>]
     \<and> cg_state g = Some (length older) \<and> length (cg_members g) = n
     \<and> (\<forall>i < n. tc_delay_microseconds (tm_clock (cg_members g ! i)) = delay i)
     \<and> (\<forall>i \<in> joined. tm_shared_state (cg_members g ! i) = Some (length older))"

lemma forward_shared:
  assumes "tm_shared_state m = Some (length older)"
  shows "forward f (older @ [\<lparr>tm_clock = c, tm_shared_state = None\<rparr>]) m =
    Some (fst (f c), older @ [\<lparr>tm_clock = snd (f c), tm_shared_state = None\<rparr>], m)"
  using assms by (simp add: forward.simps [of _ _ m] forward.simps [of _ _ "\<lparr>tm_clock = c, tm_shared_state = None\<rparr>"]
      nth_append split_beta list_update_append)

lemma answer_call_shared:
  assumes "group_at n joined delay older c g" "i \<in> joined"
  shows "answer_call g i answer (forward f (cg_store g) (cg_members g ! i)) =
    Some (answer (fst (f c)), g \<lparr>cg_store := older @ [\<lparr>tm_clock = snd (f c), tm_shared_state = None\<rparr>]\<rparr>)"
  using assms forward_shared [of "cg_members g ! i" older f c] by (simp add: group_at_def answer_call_def)

lemma answer_call_map:
  "answer_call g i answer (map_option (\<lambda>(x, y). (h x, y)) result) = answer_call g i (answer \<circ> h) result"
  by (cases result) (auto simp: answer_call_def)

lemma group_at_store:
  "group_at n joined delay older c g \<Longrightarrow>
    group_at n joined delay older c' (g \<lparr>cg_store := older @ [\<lparr>tm_clock = c', tm_shared_state = None\<rparr>]\<rparr>)"
  by (simp add: group_at_def)

lemma group_step_single:
  assumes "group_at n joined delay older c g" "caller call < n" "is_join call \<or> caller call \<in> joined"
  shows "\<exists>g'. group_step g call = Some (fst (single_step delay c call), g')
    \<and> group_at n (insert (caller call) joined) delay older (snd (single_step delay c call)) g'"
proof (cases "is_join call")
  case True
  then obtain i where i: "call = Join i" by (simp add: is_join_def)
  with assms(1,2) show ?thesis
    by (auto simp: group_at_def share_group_clock_def nth_append list_update_append nth_list_update)
next
  case False
  then have "caller call \<in> joined" using assms(3) by simp
  then have "group_step g call = Some (fst (single_step delay c call),
      g \<lparr>cg_store := older @ [\<lparr>tm_clock = snd (single_step delay c call), tm_shared_state = None\<rparr>]\<rparr>)"
    using False
    by (cases call) (simp_all add: answer_call_shared [OF assms(1)] is_join_def tm_delivery_time_def tm_control_delivery_time_def
        tm_ready_def tm_too_late_def tm_observe_arrival_def answer_call_map split_beta)
  moreover have "insert (caller call) joined = joined" using \<open>caller call \<in> joined\<close> by auto
  ultimately show ?thesis using group_at_store [OF assms(1)] by simp
qed

lemma group_run_single:
  assumes "group_at n joined delay older c g" "calls_after_join n joined calls"
  shows "\<exists>g' joined'. group_run g calls = Some (fst (single_run delay c calls), g')
    \<and> group_at n joined' delay older (snd (single_run delay c calls)) g'"
  using assms
proof (induction calls arbitrary: g c joined)
  case Nil
  then show ?case by auto
next
  case (Cons call calls)
  obtain g1 where g1: "group_step g call = Some (fst (single_step delay c call), g1)"
    "group_at n (insert (caller call) joined) delay older (snd (single_step delay c call)) g1"
    using group_step_single [of n joined delay older c g call] Cons.prems by auto
  from Cons.IH [OF g1(2)] Cons.prems g1(1) show ?case by (auto simp: split_beta)
qed

lemma single_step_delay:
  "tc_delay_microseconds (snd (single_step delay c call))
    = (if is_join call then max (tc_delay_microseconds c) (delay (caller call)) else tc_delay_microseconds c)"
  by (cases call) (simp_all add: is_join_def tc_observe_keeps tc_delivery_time_eq tc_advance_keeps tc_unwrap_def Let_def)

lemma single_run_delay:
  "tc_delay_microseconds (snd (single_run delay c calls))
    = foldl max (tc_delay_microseconds c) (map (delay \<circ> caller) (filter is_join calls))"
  by (induction calls arbitrary: c) (simp_all add: split_beta single_step_delay)

text \<open>
  A founder that already shares another group's clock copies its pointer too: the new group then
  forwards to the older clock. The theorem below therefore asks for a founder that shares none, which is what a
  freshly configured connection has.
\<close>

lemma founder_already_shared:
  fixes f :: "TsbpdClock \<Rightarrow> 'a \<times> TsbpdClock"
  assumes "tm_shared_state m = Some b" "b < length store" "tm_shared_state (store ! b) = None"
  defines "m' \<equiv> m \<lparr>tm_shared_state := Some (length store)\<rparr>" and "r \<equiv> f (tm_clock (store ! b))"
  shows "share_group_clock store m None = (store @ [m], m', Some (length store))"
    and "forward f (store @ [m]) m' = Some (fst r, store [b := (store ! b) \<lparr>tm_clock := snd r\<rparr>] @ [m], m')"
proof -
  show "share_group_clock store m None = (store @ [m], m', Some (length store))"
    by (simp add: share_group_clock_def m'_def)
  have "forward f (store @ [m]) (store ! b) = Some (fst r, store @ [m], (store ! b) \<lparr>tm_clock := snd r\<rparr>)"
    using assms(3) by (simp add: forward.simps [of _ _ "store ! b"] split_beta r_def)
  then have "forward f (store @ [m]) m = Some (fst r, store [b := (store ! b) \<lparr>tm_clock := snd r\<rparr>] @ [m], m)"
    using assms(1,2) by (simp add: forward.simps [of _ _ m] nth_append list_update_append)
  moreover have "tm_shared_state m' = Some (length store)" by (simp add: m'_def)
  ultimately show "forward f (store @ [m]) m' = Some (fst r, store [b := (store ! b) \<lparr>tm_clock := snd r\<rparr>] @ [m], m')"
    by (simp add: forward.simps [of _ _ m'] nth_append list_update_append)
qed

text \<open>
  C33. The members of a group play out on one clock. A member that shares no clock founds the
  group's clock; then, for every interleaving of joins and calls in which a member calls only
  after it has joined, every call returns, and all answers (delivery times, readiness, lateness,
  drift updates) are those of a single clock to which all calls are made in that order, starting
  as the founder's. Objects of other groups are not touched. The delay of that clock never falls
  below the delay that the founder or any member that joined had negotiated.
\<close>

theorem group_clock_shared:
  fixes members :: "TsbpdMember list" and store :: clock_store and calls :: "group_call list"
  assumes "founder < length members" "tm_shared_state (members ! founder) = None"
    and "calls_after_join (length members) {founder} calls"
  defines "delay \<equiv> \<lambda>i. tc_delay_microseconds (tm_clock (members ! i))"
  defines "answers \<equiv> fst (single_run delay (tm_clock (members ! founder)) calls)"
    and "c \<equiv> snd (single_run delay (tm_clock (members ! founder)) calls)"
  shows "\<exists>g. group_run \<lparr>cg_store = store, cg_members = members, cg_state = None\<rparr> (Join founder # calls)
      = Some (Joined # answers, g)
    \<and> cg_store g = store @ [\<lparr>tm_clock = c, tm_shared_state = None\<rparr>]
    \<and> (\<forall>i. i = founder \<or> Join i \<in> set calls \<longrightarrow> delay i \<le> tc_delay_microseconds c)"
proof -
  let ?m = "members ! founder"
  let ?g = "\<lparr>cg_store = store @ [?m], cg_members = members [founder := ?m \<lparr>tm_shared_state := Some (length store)\<rparr>],
    cg_state = Some (length store)\<rparr>"
  have m: "?m = \<lparr>tm_clock = tm_clock ?m, tm_shared_state = None\<rparr>" using assms(2) by simp
  have "group_at (length members) {founder} delay store (tm_clock ?m) ?g"
    using assms(1) m by (auto simp: group_at_def delay_def nth_list_update)
  from group_run_single [OF this assms(3)] obtain g joined where
    g: "group_run ?g calls = Some (answers, g)" "group_at (length members) joined delay store c g"
    by (auto simp: answers_def c_def)
  have "delay i \<le> tc_delay_microseconds c" if i: "i = founder \<or> Join i \<in> set calls" for i
  proof -
    have "Join i \<in> set calls \<Longrightarrow> i \<in> caller ` (set calls \<inter> {x. is_join x})"
      by (force simp: is_join_def)
    then have "delay i \<in> set (delay founder # map (delay \<circ> caller) (filter is_join calls))" using i by auto
    then show ?thesis unfolding c_def single_run_delay by (intro foldl_max_upper) (simp add: delay_def)
  qed
  with g show ?thesis by (auto simp: share_group_clock_def group_at_def)
qed

theorem group_clock_shared_witness:
  "\<exists>g answers. group_run \<lparr>cg_store = [],
      cg_members = [\<lparr>tm_clock = make_TsbpdClock 1000 (stamp 0) 120000, tm_shared_state = None\<rparr>,
        \<lparr>tm_clock = make_TsbpdClock 1000 (stamp 0) 200000, tm_shared_state = None\<rparr>], cg_state = None\<rparr>
      [Join 0, Delivery 0 (stamp 10), Join 1, Ready 1 (stamp 5000) 206000, Delivery 0 (stamp 5000)]
    = Some (answers, g) \<and> length answers = 5"
  using group_clock_shared [of 0 "[\<lparr>tm_clock = make_TsbpdClock 1000 (stamp 0) 120000, tm_shared_state = None\<rparr>,
      \<lparr>tm_clock = make_TsbpdClock 1000 (stamp 0) 200000, tm_shared_state = None\<rparr>]"
      "[Delivery 0 (stamp 10), Join 1, Ready 1 (stamp 5000) 206000, Delivery 0 (stamp 5000)]" "[]"]
  by (auto simp del: group_run.simps simp add: is_join_def split_beta)

end
