(* ===== verification/Receive_Drops.thy ===== *)
theory Receive_Drops
  imports Receive_Delivery
begin

text \<open>
  Drops and discards refine changes of the abstract queue: dropped sequence numbers become
  resolved cells, a discarded prefix leaves the window, and the acknowledgement follows.
\<close>

section \<open>Vacating slots\<close>

text \<open>
  One round of the discard loop, and the drop of one slot, written as the elementary change of
  the store that vacates a slot.
\<close>

definition rb_vacated :: "ReceiveBuffer \<Rightarrow> nat \<Rightarrow> ReceiveSlot \<Rightarrow> ReceiveBuffer" where
  "rb_vacated b i x =
     (let s = rb_slot b i; p = rb_index b i
      in b \<lparr>rb_slots := (rb_slots b)[p := x],
            rb_payloads := if rs_occupied s then pl_release (rb_payloads b) (rs_payload_index s) else rb_payloads b,
            rb_occupied_index := index_loop (rb_level_offsets b) (rb_occupied_index b) 0 p False,
            rb_storage_index := index_loop (rb_level_offsets b) (rb_storage_index b) 0 p False,
            rb_rejected := unrejected (rb_rejected b) s,
            rb_occupied := if rs_occupied s then rb_occupied b - 1 else rb_occupied b,
            rb_buffered_payload_bytes := rb_buffered_payload_bytes b - pending_bytes s\<rparr>)"

lemma rb_vacated_refines:
  assumes ok: "recv_ok b" and i: "i < rb_capacity b" and x: "\<not> rs_occupied x" "\<not> rs_rejected_payload x"
  shows "recv_ok (rb_vacated b i x)"
    "rb_queue (rb_vacated b i x) = (rb_queue b) \<lparr>rq_cells := (rq_cells (rb_queue b))[i := if rs_dropped x then Dropped else Gap]\<rparr>"
proof -
  define s where "s = ring_at (rb_slots b) (rb_head b) i"
  define p where "p = (rb_head b + i) mod length (rb_slots b)"
  have s: "rb_slot b i = s" "rb_index b i = p" "i < length (rb_slots b)"
    using i by (simp_all add: s_def p_def rb_slot_ring rb_index_def rb_capacity_def)
  show "recv_ok (rb_vacated b i x)"
    using store_vacate [OF ok s(3) s_def p_def x] by (simp add: rb_vacated_def s Let_def unrejected_def)
  show "rb_queue (rb_vacated b i x) = (rb_queue b) \<lparr>rq_cells := (rq_cells (rb_queue b))[i := if rs_dropped x then Dropped else Gap]\<rparr>"
    using cells_vacate [OF store_okD(5) [OF ok] s(3) s_def p_def x(1)] by (simp add: rb_vacated_def s Let_def rb_queue_def)
qed

lemma rb_drop_slot_refines:
  assumes ok: "recv_ok b" and i: "i < rb_capacity b"
  shows "recv_ok (rb_drop_slot b i)"
    "rb_queue (rb_drop_slot b i) = (rb_queue b) \<lparr>rq_cells := (rq_cells (rb_queue b))[i := Dropped]\<rparr>"
proof -
  define s where "s = rb_slot b i"
  define c where "c = rb_drop_slot b i"
  have p: "rb_index b i < length (rb_slots b)" using store_okD(1) [OF ok] by (simp add: rb_index_def rb_capacity_def)
  have "recv_ok c \<and> rb_queue c = (rb_queue b) \<lparr>rq_cells := (rq_cells (rb_queue b))[i := Dropped]\<rparr>"
  proof (cases "rs_occupied s")
    case True
    define x where "x = s \<lparr>rs_rejected_payload := False, rs_occupied := False, rs_payload_size := 0, rs_payload_offset := 0,
      rs_dropped := True, rs_gap_deadline_microseconds := 0\<rparr>"
    have x: "\<not> rs_occupied x" "\<not> rs_rejected_payload x" "rs_dropped x" by (simp_all add: x_def)
    have c: "c = b \<lparr>rb_message_query_valid := False, rb_packet_query_valid := False,
        rb_buffered_payload_bytes := rb_buffered_payload_bytes b - pending_bytes s,
        rb_payloads := pl_release (rb_payloads b) (rs_payload_index s),
        rb_storage_index := index_loop (rb_level_offsets b) (rb_storage_index b) 0 (rb_index b i) False,
        rb_occupied_index := index_loop (rb_level_offsets b) (rb_occupied_index b) 0 (rb_index b i) False,
        rb_rejected := unrejected (rb_rejected b) s, rb_occupied := rb_occupied b - 1,
        rb_slots := (rb_slots b)[rb_index b i := x]\<rparr>"
      using True p by (simp add: c_def rb_drop_slot_def rb_invalidate_delivery_queries_def rb_index_occupied_both
          rb_remove_rejected_eq rb_set_slot_def pending_bytes_def x_def rb_slot_def s_def rb_index_def rb_capacity_def Let_def)
    have "c = (rb_vacated b i x) \<lparr>rb_message_query_valid := False, rb_packet_query_valid := False\<rparr>"
      unfolding c rb_vacated_def Let_def s_def [symmetric] using True by (intro ReceiveBuffer.equality) simp_all
    then show ?thesis using rb_vacated_refines [OF ok i x(1,2)] x(3) by (simp add: rb_queue_def)
  next
    case False
    define x where "x = s \<lparr>rs_dropped := True, rs_gap_deadline_microseconds := 0\<rparr>"
    have "s = ring_at (rb_slots b) (rb_head b) i" "i < length (rb_slots b)" using i by (simp_all add: s_def rb_slot_ring rb_capacity_def)
    note t = store_touch [OF ok this(2,1) refl, of x] cells_touch [OF this(2) refl, of "rb_head b" x "rb_payloads b"]
    have "c = b \<lparr>rb_slots := (rb_slots b)[(rb_head b + i) mod length (rb_slots b) := x]\<rparr>"
      using False by (simp add: c_def rb_drop_slot_def x_def s_def [symmetric] rb_set_slot_def rb_index_def rb_capacity_def Let_def)
    then show ?thesis using t False by (simp add: x_def rb_queue_def slot_cell_def pending_bytes_def)
  qed
  then show "recv_ok (rb_drop_slot b i)"
    "rb_queue (rb_drop_slot b i) = (rb_queue b) \<lparr>rq_cells := (rq_cells (rb_queue b))[i := Dropped]\<rparr>" by (simp_all add: c_def)
qed

section \<open>Discarding a prefix\<close>

lemma rb_discard_loop_refines:
  assumes "recv_ok b" "i + n \<le> rb_capacity b"
  shows "recv_ok (rb_discard_loop n i b) \<and> rb_queue (rb_discard_loop n i b) =
    (rb_queue b) \<lparr>rq_cells := take i (rq_cells (rb_queue b)) @ replicate n Gap @ drop (i + n) (rq_cells (rb_queue b))\<rparr>
    \<and> rb_head (rb_discard_loop n i b) = rb_head b
    \<and> (\<forall>j < rb_capacity b. i \<le> j \<and> j < i + n \<longrightarrow> rb_slot (rb_discard_loop n i b) j = default_ReceiveSlot)
    \<and> (\<forall>j < i. j < rb_capacity b \<longrightarrow> rb_slot (rb_discard_loop n i b) j = rb_slot b j)"
  using assms
proof (induction n arbitrary: i b)
  case (Suc n)
  let ?c = "rb_vacated b i default_ReceiveSlot"
  have p: "rb_index b i < length (rb_slots b)" using store_okD(1) [OF Suc.prems(1)] by (simp add: rb_index_def rb_capacity_def)
  have x: "\<not> rs_occupied default_ReceiveSlot" "\<not> rs_rejected_payload default_ReceiveSlot" "\<not> rs_dropped default_ReceiveSlot"
    by (simp_all add: default_ReceiveSlot_def)
  have step: "rb_discard_loop (Suc n) i b = rb_discard_loop n (i + 1) ?c"
  proof (cases "rs_occupied (rb_slot b i)")
    case True
    have "?c = b \<lparr>rb_buffered_payload_bytes := rb_buffered_payload_bytes b - pending_bytes (rb_slot b i),
        rb_payloads := pl_release (rb_payloads b) (rs_payload_index (rb_slot b i)), rb_occupied := rb_occupied b - 1,
        rb_storage_index := index_loop (rb_level_offsets b) (rb_storage_index b) 0 (rb_index b i) False,
        rb_occupied_index := index_loop (rb_level_offsets b) (rb_occupied_index b) 0 (rb_index b i) False,
        rb_rejected := unrejected (rb_rejected b) (rb_slot b i),
        rb_slots := (rb_slots b)[rb_index b i := default_ReceiveSlot]\<rparr>"
      unfolding rb_vacated_def Let_def using True by (intro ReceiveBuffer.equality) simp_all
    then show ?thesis using True p by (simp add: rb_index_occupied_both rb_remove_rejected_eq rb_set_slot_def Let_def
          rb_slot_def rb_index_def rb_capacity_def pending_bytes_def)
  next
    case False
    have "?c = b \<lparr>rb_storage_index := index_loop (rb_level_offsets b) (rb_storage_index b) 0 (rb_index b i) False,
        rb_occupied_index := index_loop (rb_level_offsets b) (rb_occupied_index b) 0 (rb_index b i) False,
        rb_rejected := unrejected (rb_rejected b) (rb_slot b i),
        rb_slots := (rb_slots b)[rb_index b i := default_ReceiveSlot]\<rparr>"
      unfolding rb_vacated_def Let_def using False by (intro ReceiveBuffer.equality) (simp_all add: pending_bytes_def)
    then show ?thesis using False p by (simp add: rb_index_occupied_both rb_remove_rejected_eq rb_set_slot_def Let_def
          rb_slot_def rb_index_def rb_capacity_def)
  qed
  have i: "i < rb_capacity b" using Suc.prems(2) by simp
  note c = rb_vacated_refines [OF Suc.prems(1) i x(1,2)]
  have cap: "rb_capacity ?c = rb_capacity b" "rb_head ?c = rb_head b" by (simp_all add: rb_vacated_def Let_def rb_capacity_def)
  have at: "rb_slot ?c j = (if i = j then default_ReceiveSlot else rb_slot b j)" if "j < rb_capacity b" for j
    using ring_at_put [of i "rb_slots b" j "rb_head b" default_ReceiveSlot] i that
    by (simp add: rb_vacated_def Let_def rb_slot_ring rb_capacity_def rb_index_def ring_put_def)
  note IH = Suc.IH [OF c(1), of "i + 1"]
  show ?case unfolding step
  proof (intro conjI allI impI)
    fix j assume j: "j < rb_capacity b" "i \<le> j \<and> j < i + Suc n"
    show "rb_slot (rb_discard_loop n (i + 1) ?c) j = default_ReceiveSlot"
      using IH Suc.prems(2) j at [OF j(1)] cap by (cases "j = i") auto
  qed (use IH Suc.prems(2) i c(2) x(3) cap at in \<open>auto simp: take_Suc_conv_app_nth\<close>)
qed auto

lemma rb_frontier_refines:
  assumes ok: "recv_ok b" and gaps: "\<And>j. j < n \<Longrightarrow> j < rb_capacity b \<Longrightarrow> rq_cells (rb_queue b) ! j = Gap"
  shows "recv_ok (rb_advance_frontier b n)" "rb_queue (rb_advance_frontier b n) = rq_advance n (rb_queue b)"
proof -
  have gap: "slot_cell (rb_payloads b) (ring_at (rb_slots b) (rb_head b) j) = Gap" if "j < n" "j < length (rb_slots b)" for j
    using gaps [OF that(1)] that by (simp add: rb_capacity_def rb_queue_def)
  then have "\<not> rs_occupied (ring_at (rb_slots b) (rb_head b) j)" if "j < n" "j < length (rb_slots b)" for j
    using that by (fastforce simp: slot_cell_def)
  from store_rotate [OF ok this] show "recv_ok (rb_advance_frontier b n)"
    by (simp add: rb_advance_frontier_def rb_capacity_def)
  show "rb_queue (rb_advance_frontier b n) = rq_advance n (rb_queue b)"
    using cells_rotate [OF store_okD(1) [OF ok] gap]
    by (simp add: rb_advance_frontier_def rb_capacity_def rb_queue_def rq_advance_def)
qed

lemma ring_covers:
  assumes "p < length slots" "head < length slots"
  obtains j where "j < length slots" "ring_at slots head j = slots ! p"
proof -
  define j where "j = (if head \<le> p then p - head else p + length slots - head)"
  have "j < length slots" "ring_at slots head j = slots ! p" using assms by (auto simp: j_def ring_at_def)
  then show ?thesis by (rule that)
qed

definition rq_discard_before :: "ReceiveQueue \<Rightarrow> SequenceNumber \<Rightarrow> Error \<times> ReceiveQueue" where
  "rq_discard_before q next_sequence =
     (let distance = seq_distance next_sequence (rq_first q)
      in if distance \<le> 0 then (Error_none, q)
         else if nat distance \<ge> 0x40000000 then (invalid_state, q)
         else let q = rq_advance (nat distance) q
              in (Error_none, if seq_distance (rq_ack q) next_sequence < 0 then q \<lparr>rq_ack := next_sequence\<rparr> else q))"

lemma rb_discard_before_refines:
  assumes ok: "recv_ok b"
  shows "case rb_discard_before b next_sequence of (e, b') \<Rightarrow> recv_ok b' \<and> rq_discard_before (rb_queue b) next_sequence = (e, rb_queue b')"
proof -
  define distance where "distance = seq_distance next_sequence (rb_first_stored_sequence b)"
  show ?thesis
  proof (cases "distance \<le> 0 \<or> nat distance \<ge> 0x40000000")
    case True
    then show ?thesis using ok unfolding rb_discard_before_def rq_discard_before_def rb_queue_fields distance_def [symmetric] Let_def
      by (cases "distance \<le> 0") simp_all
  next
    case False
    define n where "n = nat distance"
    define a where "a = rb_invalidate_delivery_queries b"
    have a: "recv_ok a" "rb_queue a = rb_queue b" "rb_capacity a = rb_capacity b" "length (rb_slots a) = rb_capacity b"
      using ok by (simp_all add: a_def rb_invalidate_delivery_queries_def rb_queue_def rb_capacity_def)
    define k where "k = min n (rb_capacity b)"
    define c where "c = rb_discard_loop k 0 a"
    have "0 + k \<le> rb_capacity a" using a(3) by (simp add: k_def)
    note loop = rb_discard_loop_refines [OF a(1) this, folded c_def]
    have c: "recv_ok c" "rb_head c = rb_head a" using loop by blast+
    have slot: "rb_slot c j = default_ReceiveSlot" if "j < k" for j using loop that a(3) by (simp add: k_def)
    have q: "rb_queue c = (rb_queue b) \<lparr>rq_cells := replicate k Gap @ drop k (rq_cells (rb_queue b))\<rparr>"
      using loop a(2) by simp
    have cap: "rb_capacity c = rb_capacity b" using arg_cong [OF q, of "\<lambda>q. length (rq_cells q)"] by (simp add: k_def)
    have blank: "c \<lparr>rb_slots := replicate (rb_capacity b) default_ReceiveSlot, rb_occupied := 0, rb_buffered_payload_bytes := 0\<rparr> = c"
      if "rb_capacity b \<le> n"
    proof -
      have "rb_slots c ! p = default_ReceiveSlot" if p: "p < rb_capacity b" for p
      proof -
        obtain j where "j < length (rb_slots c)" "ring_at (rb_slots c) (rb_head c) j = rb_slots c ! p"
          using ring_covers [of p "rb_slots c" "rb_head c"] p cap store_okD(3) [OF c(1)] by (auto simp: rb_capacity_def)
        then show ?thesis using slot [of j] \<open>rb_capacity b \<le> n\<close> cap by (simp add: rb_slot_ring k_def rb_capacity_def)
      qed
      then have slots: "rb_slots c = replicate (rb_capacity b) default_ReceiveSlot"
        using cap by (intro nth_equalityI) (simp_all add: rb_capacity_def)
      then have "rb_occupied c = 0" "rb_buffered_payload_bytes c = 0"
        using store_okD(10,11) [OF c(1)] by (simp_all add: default_ReceiveSlot_def pending_bytes_def filter_replicate)
      then show ?thesis using slots by simp
    qed
    have whole: "(if n \<ge> length (rb_slots c)
        then c \<lparr>rb_slots := replicate (length (rb_slots c)) default_ReceiveSlot, rb_occupied := 0, rb_buffered_payload_bytes := 0\<rparr>
        else c) = c" using blank cap by (simp add: rb_capacity_def)
    define d where "d = rb_advance_frontier c n"
    have "rq_cells (rb_queue c) ! j = Gap" if "j < n" "j < rb_capacity c" for j
      using that cap by (simp add: q nth_append k_def)
    then have d: "recv_ok d" "rb_queue d = rq_advance n (rb_queue c)"
      using rb_frontier_refines [OF c(1), of n] by (simp_all add: d_def)
    have "rb_discard_before b next_sequence = (Error_none, rb_refresh_first_buffered_timestamp
        (if seq_distance (rb_next_ack_sequence d) next_sequence < 0 then d \<lparr>rb_next_ack_sequence := next_sequence\<rparr> else d))"
      using False unfolding rb_discard_before_def Let_def distance_def [symmetric] n_def [symmetric] a_def [symmetric] a(4)
        k_def [symmetric] c_def [symmetric] whole d_def [symmetric] by (simp add: n_def)
    moreover have "rb_queue d = rq_advance n (rb_queue b)"
      unfolding d(2) q rq_advance_def by (simp add: k_def)
    moreover have "rq_discard_before (rb_queue b) next_sequence = (Error_none,
        if seq_distance (rq_ack (rq_advance n (rb_queue b))) next_sequence < 0
        then (rq_advance n (rb_queue b)) \<lparr>rq_ack := next_sequence\<rparr> else rq_advance n (rb_queue b))"
      using False by (simp add: rq_discard_before_def distance_def [symmetric] n_def Let_def)
    moreover have "rb_queue (d \<lparr>rb_next_ack_sequence := next_sequence\<rparr>) = (rb_queue d) \<lparr>rq_ack := next_sequence\<rparr>"
      by (simp add: rb_queue_def)
    moreover have "recv_ok (d \<lparr>rb_next_ack_sequence := next_sequence\<rparr>)" using d(1) by simp
    ultimately show ?thesis using d(1) rb_queue_fields(2) [of d]
      by (auto simp: rb_refresh_first_same(1,2))
  qed
qed

end
