(* ===== verification/Receive_Ranges.thy ===== *)
theory Receive_Ranges
  imports Receive_Drops
begin

text \<open>
  Dropping a range of sequence numbers. The loop resolves the cells of the range that are inside
  the window; what the range reaches beyond the window moves the frontier, which never passes a
  packet that is kept.
\<close>

section \<open>Trimming resolved cells\<close>

lemma rq_advance_Suc: "rq_advance k (rq_advance 1 q) = rq_advance (Suc k) q"
  by (cases "rq_cells q") (auto simp: rq_advance_def seq_advanced_advanced drop_append min_def replicate_append_same
      simp flip: replicate_Suc replicate_add)

lemma rq_trim_prefix:
  assumes "m \<le> n" "m \<le> length (rq_cells q)" "\<forall>j < m. rq_cells q ! j = Dropped"
  shows "rq_trim_loop n q = rq_trim_loop (n - m) (rq_advance m q)"
  using assms
proof (induction m arbitrary: n q)
  case 0
  then show ?case by (simp add: rq_advance_def)
next
  case (Suc m)
  obtain n' where n: "n = Suc n'" "m \<le> n'" using Suc.prems(1) by (cases n) auto
  obtain cs where cells: "rq_cells q = Dropped # cs" using Suc.prems(2,3) by (cases "rq_cells q") auto
  let ?q = "rq_advance 1 q"
  have "rq_cells ?q = cs @ [Gap]" using cells by (simp add: rq_advance_def)
  then have "\<forall>j < m. rq_cells ?q ! j = Dropped" "m \<le> length (rq_cells ?q)"
    using Suc.prems(2,3) cells by (auto simp: nth_append)
  then have "rq_trim_loop n' ?q = rq_trim_loop (n' - m) (rq_advance m ?q)" by (intro Suc.IH n)
  then show ?case using n cells by (simp add: rq_trim_step_def rq_advance_Suc [unfolded One_nat_def])
qed

lemma rq_trim_first:
  "\<exists>k \<le> n. rq_first (rq_trim_loop n q) = seq_advanced (rq_first q) (of_nat k) \<and> length (rq_cells (rq_trim_loop n q)) = length (rq_cells q)"
proof (induction n arbitrary: q)
  case 0
  show ?case using seq_advanced_of_nat [of "rq_first q" 0 0] by (intro exI [of _ 0]) simp
next
  case (Suc n)
  show ?case
  proof (cases "rq_trim_step q")
    case (Inl q')
    then have "rq_first q' = rq_first q" "length (rq_cells q') = length (rq_cells q)"
      by (auto simp: rq_trim_step_def split: list.splits Cell.splits if_splits)
    then show ?thesis using Inl by (intro exI [of _ 0]) simp
  next
    case (Inr q')
    then have q': "rq_first q' = seq_advanced (rq_first q) 1" "length (rq_cells q') = length (rq_cells q)"
      by (auto simp: rq_trim_step_def rq_advance_def split: list.splits Cell.splits if_splits)
    obtain k where "k \<le> n" "rq_first (rq_trim_loop n q') = seq_advanced (rq_first q') (of_nat k)"
      "length (rq_cells (rq_trim_loop n q')) = length (rq_cells q')" using Suc.IH by blast
    then show ?thesis using Inr q' by (intro exI [of _ "Suc k"]) (simp add: seq_advanced_advanced)
  qed
qed

text \<open>Without rejected messages the window stops at a packet.\<close>

lemma rq_trim_stops:
  assumes "rq_cells q = Data h body read rejected # cs" "\<not> rq_any_rejected q" "rq_discarding q = None"
  shows "rq_trim_loop n q = q"
proof (cases n)
  case (Suc n')
  have "\<not> rq_rejected q m" for m
    using assms(2) unfolding rq_rejected_def rq_any_rejected_def list_ex_iff by (force elim: rejects.elims)
  then show ?thesis using Suc assms(1,3) by (simp add: rq_trim_step_def)
qed simp

section \<open>The loop\<close>

definition drop_cells :: "nat \<Rightarrow> nat \<Rightarrow> Cell list \<Rightarrow> Cell list" where
  "drop_cells i n cells = take i cells @ replicate n Dropped @ drop (i + n) cells"

definition undropped :: "nat \<Rightarrow> nat \<Rightarrow> Cell list \<Rightarrow> nat" where
  "undropped i n cells = length (filter (\<lambda>c. c \<noteq> Dropped) (take n (drop i cells)))"

lemma rb_drop_loop_none:
  assumes "recv_ok (ds_buffer d)" "i + n \<le> rb_capacity (ds_buffer d)"
  shows "\<exists>c. rb_drop_loop n DropPreservation_none i d =
      d \<lparr>ds_buffer := c, ds_newly_dropped_packets := ds_newly_dropped_packets d + undropped i n (rq_cells (rb_queue (ds_buffer d)))\<rparr>
    \<and> recv_ok c \<and> rb_queue c = (rb_queue (ds_buffer d)) \<lparr>rq_cells := drop_cells i n (rq_cells (rb_queue (ds_buffer d)))\<rparr>
    \<and> rb_defer_drop_timestamp_refresh c = rb_defer_drop_timestamp_refresh (ds_buffer d)"
  using assms
proof (induction n arbitrary: i d)
  case 0
  then show ?case by (intro exI [of _ "ds_buffer d"]) (simp add: undropped_def drop_cells_def)
next
  case (Suc n)
  let ?b = "ds_buffer d"
  have i: "i < rb_capacity ?b" using Suc.prems(2) by simp
  define c where "c = rb_drop_slot ?b i"
  have c: "recv_ok c" "rb_queue c = (rb_queue ?b) \<lparr>rq_cells := (rq_cells (rb_queue ?b))[i := Dropped]\<rparr>"
    using rb_drop_slot_refines [OF Suc.prems(1) i] by (simp_all add: c_def)
  have flag: "rb_defer_drop_timestamp_refresh c = rb_defer_drop_timestamp_refresh ?b"
    by (simp add: c_def rb_drop_slot_def Let_def rb_set_slot_def rb_index_occupied_both rb_remove_rejected_eq rb_invalidate_delivery_queries_def)
  have cap: "rb_capacity c = rb_capacity ?b" using arg_cong [OF c(2), of "\<lambda>q. length (rq_cells q)"] by simp
  define d' where "d' = rb_drop_offset DropPreservation_none i d"
  have dropped: "rs_dropped (rb_slot ?b i) \<longleftrightarrow> rq_cells (rb_queue ?b) ! i = Dropped"
    using store_okD(4) [OF Suc.prems(1)] i by (auto simp: rb_queue_cell slot_cell_def slot_shape_def rb_slot_ring rb_capacity_def)
  have d': "d' = d \<lparr>ds_buffer := c, ds_newly_dropped_packets := ds_newly_dropped_packets d
      + (if rq_cells (rb_queue ?b) ! i = Dropped then 0 else 1)\<rparr>"
    by (intro DropState.equality) (simp_all add: d'_def rb_drop_offset_def Let_def c_def dropped)
  have b': "ds_buffer d' = c" by (simp add: d')
  obtain e where e: "rb_drop_loop n DropPreservation_none (i + 1) d' =
      d' \<lparr>ds_buffer := e, ds_newly_dropped_packets := ds_newly_dropped_packets d' + undropped (i + 1) n (rq_cells (rb_queue c))\<rparr>"
    "recv_ok e" "rb_queue e = (rb_queue c) \<lparr>rq_cells := drop_cells (i + 1) n (rq_cells (rb_queue c))\<rparr>"
    "rb_defer_drop_timestamp_refresh e = rb_defer_drop_timestamp_refresh c"
    using Suc.IH [of d' "i + 1"] c(1) cap Suc.prems(2) unfolding b' by auto
  have step: "drop i cells = cells ! i # drop (Suc i) cells" "undropped (Suc i) n (cells[i := Dropped]) = undropped (Suc i) n cells"
    "drop_cells (Suc i) n (cells[i := Dropped]) = drop_cells i (Suc n) cells"
    if "i < length cells" for cells :: "Cell list"
    using that by (simp_all add: Cons_nth_drop_Suc undropped_def drop_cells_def take_Suc_conv_app_nth)
  have count: "undropped i (Suc n) cells = (if cells ! i = Dropped then 0 else 1) + undropped (Suc i) n cells"
    if "i < length cells" for cells
    using step(1) [OF that] by (simp add: undropped_def)
  show ?case using e flag i unfolding rb_drop_loop.simps d'_def [symmetric]
    by (intro exI [of _ e] conjI) (simp_all add: c(2) step count d')
qed

section \<open>The frontier behind the loop\<close>

definition rq_drop_target :: "ReceiveQueue \<Rightarrow> SequenceRange \<Rightarrow> SequenceNumber option \<Rightarrow> SequenceNumber" where
  "rq_drop_target q interval preserved =
     (let target = seq_next (sr_last interval)
      in case preserved of
           None \<Rightarrow> target
         | Some kept \<Rightarrow> if seq_distance kept (rq_first q) \<ge> 0 \<and> seq_distance target kept > 0 then kept else target)"

text \<open>The number of sequence numbers the frontier still passes.\<close>

definition rq_drop_beyond :: "ReceiveQueue \<Rightarrow> SequenceRange \<Rightarrow> SequenceNumber option \<Rightarrow> nat" where
  "rq_drop_beyond q interval preserved = nat (seq_distance (rq_drop_target q interval preserved) (rq_first q) mod 2 ^ 64)"

definition rq_drop_tail ::
    "ReceiveQueue \<Rightarrow> int \<Rightarrow> SequenceRange \<Rightarrow> SequenceNumber option \<Rightarrow> nat \<Rightarrow> nat \<times> ReceiveQueue" where
  "rq_drop_tail q start_offset interval preserved newly =
     (let q = rq_trim (rq_advance_ack q);
          (newly, q) =
            (if start_offset \<le> 0 \<and> seq_distance (sr_last interval) (rq_first q) \<ge> 0
             then ((newly + rq_drop_beyond q interval preserved) mod 2 ^ 64, rq_advance (rq_drop_beyond q interval preserved) q)
             else (newly, q))
      in (newly, if seq_distance (rq_first q) (rq_ack q) > 0 then rq_advance_ack (q \<lparr>rq_ack := rq_first q\<rparr>) else q))"

definition rb_drop_tail ::
    "ReceiveBuffer \<Rightarrow> int \<Rightarrow> SequenceRange \<Rightarrow> SequenceNumber option \<Rightarrow> nat \<Rightarrow> nat \<Rightarrow> nat \<times> ReceiveBuffer" where
  "rb_drop_tail b start_offset interval preserved newly occupied_before =
     (let b = rb_trim_dropped_prefix (rb_advance_acknowledgement b);
          (newly, b) =
            (if start_offset \<le> 0 \<and> seq_distance (sr_last interval) (rb_first_stored_sequence b) \<ge> 0
             then
               let n = rq_drop_beyond (rb_queue b) interval preserved;
                   b = (if n \<noteq> 0 then rb_invalidate_delivery_queries b else b)
               in ((newly + n) mod 2 ^ 64, rb_advance_frontier b n)
             else (newly, b));
          b = (if seq_distance (rb_first_stored_sequence b) (rb_next_ack_sequence b) > 0
               then rb_advance_acknowledgement (b \<lparr>rb_next_ack_sequence := rb_first_stored_sequence b\<rparr>)
               else b);
          b = (if rb_occupied b \<noteq> occupied_before
               then if rb_defer_drop_timestamp_refresh b then b \<lparr>rb_drop_timestamp_refresh_pending := True\<rparr>
                    else rb_refresh_buffered_timestamp_bounds b
               else b)
      in (newly, b))"

lemma rb_drop_range_impl_tail:
  assumes "seq_distance (sr_last interval) (sr_first interval) \<ge> 0" "seq_distance (sr_last interval) (rb_first_stored_sequence b) \<ge> 0"
  shows "rb_drop_range_impl b interval preservation =
    (let start_offset = seq_distance (sr_first interval) (rb_first_stored_sequence b);
         i = (if start_offset > 0 then nat start_offset else 0);
         j = min (nat (seq_distance (sr_last interval) (rb_first_stored_sequence b))) (rb_capacity b - 1);
         d = rb_drop_loop (j + 1 - i) preservation i
               \<lparr>ds_buffer = b, ds_newly_dropped_packets = 0, ds_first_preserved_sequence = None, ds_preserve_through_offset = None\<rparr>
     in (Error_none, rb_drop_tail (ds_buffer d) start_offset interval (ds_first_preserved_sequence d)
           (ds_newly_dropped_packets d) (rb_occupied b)))"
proof -
  have beyond: "rq_drop_beyond (rb_queue b) interval preserved =
      nat (seq_distance (rb_drop_target b interval preserved) (rb_first_stored_sequence b) mod 2 ^ 64)" for b preserved
    unfolding rq_drop_beyond_def rq_drop_target_def rb_drop_target_def rb_queue_fields by (rule refl)
  show ?thesis using assms unfolding rb_drop_range_impl_def rb_drop_tail_def beyond Let_def
    by (simp add: case_prod_unfold)
qed

lemma rb_drop_tail_refines:
  assumes ok: "recv_ok b"
    and clear: "\<And>q j. q = rq_trim (rq_advance_ack (rb_queue b)) \<Longrightarrow> start_offset \<le> 0 \<Longrightarrow> seq_distance (sr_last interval) (rq_first q) \<ge> 0
      \<Longrightarrow> j < rq_drop_beyond q interval preserved \<Longrightarrow> j < length (rq_cells q) \<Longrightarrow> rq_cells q ! j = Gap"
  shows "case rb_drop_tail b start_offset interval preserved newly before of (n, b') \<Rightarrow>
    recv_ok b' \<and> rq_drop_tail (rb_queue b) start_offset interval preserved newly = (n, rb_queue b')"
proof -
  define c where "c = rb_trim_dropped_prefix (rb_advance_acknowledgement b)"
  have c: "recv_ok c" "rb_queue c = rq_trim (rq_advance_ack (rb_queue b))"
    using rb_advance_ack_refines [OF ok] rb_trim_refines [of "rb_advance_acknowledgement b"] by (simp_all add: c_def)
  define n where "n = rq_drop_beyond (rb_queue c) interval preserved"
  define beyond where "beyond \<longleftrightarrow> start_offset \<le> 0 \<and> seq_distance (sr_last interval) (rb_first_stored_sequence c) \<ge> 0"
  define a where "a = (if n \<noteq> 0 then rb_invalidate_delivery_queries c else c)"
  have a: "recv_ok a" "rb_queue a = rb_queue c" using c(1) by (simp_all add: a_def rb_invalidate_delivery_queries_def rb_queue_def)
  define d where "d = (if beyond then rb_advance_frontier a n else c)"
  define dq where "dq = (if beyond then rq_advance n (rb_queue c) else rb_queue c)"
  have d: "recv_ok d \<and> rb_queue d = dq"
  proof (cases beyond)
    case True
    have "rb_capacity a = rb_capacity c" using arg_cong [OF a(2), of "\<lambda>q. length (rq_cells q)"] by simp
    then have "rq_cells (rb_queue a) ! j = Gap" if "j < n" "j < rb_capacity a" for j
      using clear [OF c(2), of j] True that a(2) by (simp add: n_def beyond_def)
    from rb_frontier_refines [OF a(1) this] show ?thesis using True a(2) by (simp add: d_def dq_def)
  next
    case False
    then show ?thesis using c(1) by (simp add: d_def dq_def)
  qed
  define e where "e = (if seq_distance (rb_first_stored_sequence d) (rb_next_ack_sequence d) > 0
      then rb_advance_acknowledgement (d \<lparr>rb_next_ack_sequence := rb_first_stored_sequence d\<rparr>) else d)"
  have "recv_ok (d \<lparr>rb_next_ack_sequence := rb_first_stored_sequence d\<rparr>)" using d by simp
  note ack = rb_advance_ack_refines [OF this]
  have "rb_queue (d \<lparr>rb_next_ack_sequence := rb_first_stored_sequence d\<rparr>) = dq \<lparr>rq_ack := rq_first dq\<rparr>"
    using d by (auto simp: rb_queue_def)
  then have e: "recv_ok e" "rb_queue e = (if seq_distance (rq_first dq) (rq_ack dq) > 0 then rq_advance_ack (dq \<lparr>rq_ack := rq_first dq\<rparr>) else dq)"
    using ack d by (auto simp: e_def)
  have last: "recv_ok (if rb_occupied e \<noteq> before then if rb_defer_drop_timestamp_refresh e then e \<lparr>rb_drop_timestamp_refresh_pending := True\<rparr>
      else rb_refresh_buffered_timestamp_bounds e else e)"
    "rb_queue (if rb_occupied e \<noteq> before then if rb_defer_drop_timestamp_refresh e then e \<lparr>rb_drop_timestamp_refresh_pending := True\<rparr>
      else rb_refresh_buffered_timestamp_bounds e else e) = rb_queue e"
    using e(1) rb_refresh_bounds_same [of e] by (auto simp: rb_queue_def)
  have pair: "(if beyond then ((newly + n) mod 2 ^ 64, rb_advance_frontier a n) else (newly, c)) =
      (if beyond then (newly + n) mod 2 ^ 64 else newly, d)" by (cases beyond) (simp_all add: d_def)
  have "rb_drop_tail b start_offset interval preserved newly before =
      (if beyond then (newly + n) mod 2 ^ 64 else newly,
       if rb_occupied e \<noteq> before then if rb_defer_drop_timestamp_refresh e then e \<lparr>rb_drop_timestamp_refresh_pending := True\<rparr>
         else rb_refresh_buffered_timestamp_bounds e else e)"
    unfolding rb_drop_tail_def Let_def c_def [symmetric] n_def [symmetric] beyond_def [symmetric] a_def [symmetric] pair prod.case e_def ..
  moreover have "(if beyond then ((newly + n) mod 2 ^ 64, rq_advance n (rb_queue c)) else (newly, rb_queue c)) =
      (if beyond then (newly + n) mod 2 ^ 64 else newly, dq)" by (cases beyond) (simp_all add: dq_def)
  then have "rq_drop_tail (rb_queue b) start_offset interval preserved newly = (if beyond then (newly + n) mod 2 ^ 64 else newly, rb_queue e)"
    unfolding rq_drop_tail_def Let_def c(2) [symmetric] rb_queue_fields n_def [symmetric] beyond_def [symmetric] e(2) by simp
  ultimately show ?thesis using last by simp
qed

section \<open>What the frontier passes is empty\<close>

lemma seq_distance_offsets:
  assumes "- 1073741824 \<le> int m - int n" "int m - int n < 1073741824"
  shows "seq_distance (seq_advanced s (of_nat m)) (seq_advanced s (of_nat n)) = int m - int n"
proof (rule sn.dist_unique)
  have val: "seq_int (seq_advanced s (of_nat k)) = (seq_int s + int k) mod 2147483648" for k
    by (simp add: seq_int_advanced unsigned_of_nat take_bit_nat_def zmod_int mod_mod_cancel mod_add_right_eq
        mod_add_right_eq [of _ "int k mod 4294967296", symmetric])
  show "(int m - int n) mod (2 * 1073741824) =
      (seq_int (seq_advanced s (of_nat m)) - seq_int (seq_advanced s (of_nat n))) mod (2 * 1073741824)"
    unfolding val by (simp add: mod_diff_eq)
qed (use assms in auto)

lemma drop_clear_all:
  assumes len: "0 < length (rq_cells q)" "length (rq_cells q) < 1073741824"
    and eo: "0 \<le> seq_distance (sr_last interval) (rq_first q)"
    and cells: "\<forall>j < min (nat (seq_distance (sr_last interval) (rq_first q))) (length (rq_cells q) - 1) + 1. rq_cells q ! j = Dropped"
    and beyond: "0 \<le> seq_distance (sr_last interval) (rq_first (rq_trim q))"
  shows "j < length (rq_cells q) \<Longrightarrow> rq_cells (rq_trim q) ! j = Gap"
proof -
  let ?L = "length (rq_cells q)"
  define eo where "eo = nat (seq_distance (sr_last interval) (rq_first q))"
  define m where "m = min eo (?L - 1) + 1"
  have m: "m \<le> ?L" "\<forall>j < m. rq_cells q ! j = Dropped" using len(1) cells by (unfold m_def eo_def) linarith+
  have trim: "rq_trim q = rq_trim_loop (?L + 1 - m) (rq_advance m q)"
    unfolding rq_trim_def by (rule rq_trim_prefix) (use m in auto)
  have "?L \<le> eo"
  proof (rule ccontr)
    assume "\<not> ?L \<le> eo"
    then have eo_m: "m = eo + 1" by (simp add: m_def)
    obtain k where k: "k \<le> ?L + 1 - m" "rq_first (rq_trim q) = seq_advanced (rq_first (rq_advance m q)) (of_nat k)"
      using rq_trim_first [of "?L + 1 - m" "rq_advance m q"] trim by auto
    have "rq_first (rq_trim q) = seq_advanced (rq_first q) (of_nat (m + k))"
      unfolding k(2) seq_advanced_of_nat [symmetric] by (simp add: rq_advance_def)
    moreover have "sr_last interval = seq_advanced (rq_first q) (of_nat eo)"
      using seq_advanced_distance [OF eo] by (simp add: eo_def)
    ultimately have "seq_distance (sr_last interval) (rq_first (rq_trim q)) = int eo - int (m + k)"
      using k(1) m(1) len eo_m by (simp only:, intro seq_distance_offsets) auto
    then show False using beyond eo_m by simp
  qed
  then have mL: "m = ?L" using len(1) by (simp add: m_def)
  have gaps: "rq_cells (rq_advance m q) = replicate ?L Gap" using mL by (simp add: rq_advance_def)
  then have "rq_trim q = rq_advance m q" using trim mL len(1) by (cases ?L) (simp_all add: rq_trim_step_def)
  then show "j < ?L \<Longrightarrow> rq_cells (rq_trim q) ! j = Gap" using gaps by simp
qed

lemma drop_cells_prefix: "k < m \<Longrightarrow> drop_cells 0 m cells ! k = Dropped"
  by (simp add: drop_cells_def nth_append)

definition rq_drop_range :: "ReceiveQueue \<Rightarrow> SequenceRange \<Rightarrow> Error \<times> nat \<times> ReceiveQueue" where
  "rq_drop_range q interval =
     (let start_offset = seq_distance (sr_first interval) (rq_first q);
          end_offset = seq_distance (sr_last interval) (rq_first q)
      in if seq_distance (sr_last interval) (sr_first interval) < 0 then (invalid_control_payload, 0, q)
         else if end_offset < 0 then (Error_none, 0, q)
         else
           let i = (if start_offset > 0 then nat start_offset else 0);
               n = min (nat end_offset) (length (rq_cells q) - 1) + 1 - i
           in (Error_none, rq_drop_tail (q \<lparr>rq_cells := drop_cells i n (rq_cells q)\<rparr>) start_offset interval None
                 (undropped i n (rq_cells q))))"

lemma rq_advance_ack_same [simp]:
  "rq_cells (rq_advance_ack q) = rq_cells q" "rq_first (rq_advance_ack q) = rq_first q"
  "rq_discarding (rq_advance_ack q) = rq_discarding q"
  by (simp_all add: rq_advance_ack_def Let_def)

lemma rb_drop_range_refines:
  assumes ok: "recv_ok b"
  shows "case rb_drop_range b interval of (e, n, b') \<Rightarrow> recv_ok b' \<and> rq_drop_range (rb_queue b) interval = (e, n, rb_queue b')"
proof (cases "0 \<le> seq_distance (sr_last interval) (sr_first interval) \<and> 0 \<le> seq_distance (sr_last interval) (rb_first_stored_sequence b)")
  case False
  then show ?thesis using ok unfolding rb_drop_range_def rb_drop_range_impl_def rq_drop_range_def rb_queue_fields Let_def
    by (cases "0 \<le> seq_distance (sr_last interval) (sr_first interval)") simp_all
next
  case True
  define so where "so = seq_distance (sr_first interval) (rb_first_stored_sequence b)"
  define i where "i = (if so > 0 then nat so else 0)"
  define j where "j = min (nat (seq_distance (sr_last interval) (rb_first_stored_sequence b))) (rb_capacity b - 1)"
  have cap: "0 < rb_capacity b" "rb_capacity b < 1073741824" using store_okD(1,2) [OF ok] by (simp_all add: rb_capacity_def)
  have range_ok: "i + (j + 1 - i) \<le> rb_capacity b \<or> j + 1 - i = 0" using cap(1) unfolding j_def by linarith
  let ?d = "\<lparr>ds_buffer = b, ds_newly_dropped_packets = 0, ds_first_preserved_sequence = None, ds_preserve_through_offset = None\<rparr>"
  let ?n = "j + 1 - i"
  obtain c where c: "rb_drop_loop ?n DropPreservation_none i ?d = ?d \<lparr>ds_buffer := c,
        ds_newly_dropped_packets := undropped i ?n (rq_cells (rb_queue b))\<rparr>"
    "recv_ok c" "rb_queue c = (rb_queue b) \<lparr>rq_cells := drop_cells i ?n (rq_cells (rb_queue b))\<rparr>"
  proof (cases "i + ?n \<le> rb_capacity b")
    case True
    then show ?thesis using rb_drop_loop_none [of ?d i ?n] ok that by auto
  next
    case False
    then have "?n = 0" using range_ok by simp
    then show ?thesis using ok that [of b] by (simp add: undropped_def drop_cells_def)
  qed
  define m where "m = min (nat (seq_distance (sr_last interval) (rb_first_stored_sequence b))) (rb_capacity b - 1) + 1"
  have cells: "rq_cells (rb_queue c) ! k = Dropped" if "so \<le> 0" "k < m" for k
  proof -
    have "drop_cells i ?n (rq_cells (rb_queue b)) = drop_cells 0 m (rq_cells (rb_queue b))" using that by (simp add: i_def j_def m_def)
    then show ?thesis using that(2) by (simp add: c(3) drop_cells_prefix)
  qed
  have len: "rb_capacity c = rb_capacity b" using arg_cong [OF c(3), of "\<lambda>q. length (rq_cells q)"] range_ok
    by (auto simp: drop_cells_def min_def split: if_splits)
  have firsts: "rb_first_stored_sequence c = rb_first_stored_sequence b" using arg_cong [OF c(3), of rq_first] by simp
  have clear: "rq_cells q ! k = Gap" if q: "q = rq_trim (rq_advance_ack (rb_queue c))" and a: "so \<le> 0"
    "seq_distance (sr_last interval) (rq_first q) \<ge> 0" "k < length (rq_cells q)" for q k
  proof -
    have "length (rq_cells q) = rb_capacity b"
      using rq_trim_first [of "rb_capacity c + 1" "rq_advance_ack (rb_queue c)"] len by (auto simp: q rq_trim_def)
    then show ?thesis
      using drop_clear_all [of "rq_advance_ack (rb_queue c)" interval k] cap len firsts True cells a q by (auto simp: m_def)
  qed
  have "case rb_drop_tail c so interval None (undropped i ?n (rq_cells (rb_queue b))) (rb_occupied b) of (n, b') \<Rightarrow>
      recv_ok b' \<and> rq_drop_tail (rb_queue c) so interval None (undropped i ?n (rq_cells (rb_queue b))) = (n, rb_queue b')"
    by (rule rb_drop_tail_refines [OF c(2)]) (rule clear)
  moreover have "rb_drop_range b interval = (Error_none, rb_drop_tail c so interval None (undropped i ?n (rq_cells (rb_queue b))) (rb_occupied b))"
    unfolding rb_drop_range_def rb_drop_range_impl_tail [OF conjunct1 [OF True] conjunct2 [OF True]] Let_def so_def [symmetric]
      i_def [symmetric] j_def [symmetric] c(1) by simp
  moreover have "rq_drop_range (rb_queue b) interval = (Error_none, rq_drop_tail (rb_queue c) so interval None (undropped i ?n (rq_cells (rb_queue b))))"
    using True unfolding rq_drop_range_def rb_queue_fields so_def [symmetric] Let_def i_def [symmetric] j_def [symmetric] c(3) by simp
  ultimately show ?thesis by (auto simp: case_prod_unfold)
qed

section \<open>Ranges that keep packets\<close>

text \<open>
  The state of the loop at offset \<open>k\<close>: every cell is as before or resolved, and what is kept
  starts with a packet behind resolved cells only.
\<close>

definition drop_kept :: "SequenceNumber \<Rightarrow> Cell list \<Rightarrow> nat \<Rightarrow> nat \<Rightarrow> nat option \<Rightarrow> SequenceNumber option \<Rightarrow> bool" where
  "drop_kept first cells i k through preserved \<longleftrightarrow>
     (case preserved of
        None \<Rightarrow> through = None \<and> (\<forall>j. i \<le> j \<and> j < k \<longrightarrow> cells ! j = Dropped)
      | Some kept \<Rightarrow> \<exists>p. i \<le> p \<and> p < k \<and> kept = seq_advanced first (of_nat p)
          \<and> (\<exists>h body read rejected. cells ! p = Data h body read rejected) \<and> (\<forall>j. i \<le> j \<and> j < p \<longrightarrow> cells ! j = Dropped))"

lemma drop_kept_first:
  "drop_kept first cells i k through None \<Longrightarrow> i \<le> k \<Longrightarrow> cells ! k = Data h body read rejected
   \<Longrightarrow> drop_kept first cells i (Suc k) through' (Some (seq_advanced first (of_nat k)))"
  by (auto simp: drop_kept_def)

lemma drop_kept_more: "drop_kept first cells i k through (Some kept) \<Longrightarrow> drop_kept first cells i (Suc k) through' (Some kept)"
  by (auto simp: drop_kept_def)

lemma drop_kept_drop:
  assumes "drop_kept first cells i k through preserved" "k < length cells"
  shows "drop_kept first (cells[k := Dropped]) i (Suc k) through preserved"
proof (cases preserved)
  case None
  then show ?thesis using assms by (auto simp: drop_kept_def nth_list_update less_Suc_eq)
next
  case (Some kept)
  then obtain p where p: "i \<le> p" "p < k" "kept = seq_advanced first (of_nat p)"
    "\<exists>h body read rejected. cells ! p = Data h body read rejected" "\<forall>j. i \<le> j \<and> j < p \<longrightarrow> cells ! j = Dropped"
    using assms(1) by (auto simp: drop_kept_def)
  then show ?thesis using Some assms(2) by (auto simp: drop_kept_def nth_list_update intro!: exI [of _ p])
qed

definition drop_base :: "ReceiveQueue \<Rightarrow> ReceiveBuffer \<Rightarrow> bool" where
  "drop_base q b \<longleftrightarrow> recv_ok b \<and> rq_first (rb_queue b) = rq_first q \<and> rq_discarding (rb_queue b) = rq_discarding q
     \<and> length (rq_cells (rb_queue b)) = length (rq_cells q)
     \<and> (\<forall>j < length (rq_cells q). rq_cells (rb_queue b) ! j \<in> {rq_cells q ! j, Dropped})"

definition drop_state :: "ReceiveQueue \<Rightarrow> nat \<Rightarrow> nat \<Rightarrow> DropState \<Rightarrow> bool" where
  "drop_state q i k d \<longleftrightarrow> drop_base q (ds_buffer d)
     \<and> drop_kept (rq_first q) (rq_cells (rb_queue (ds_buffer d))) i k (ds_preserve_through_offset d) (ds_first_preserved_sequence d)"

lemma drop_state_keep:
  assumes d: "drop_state q i k d" "i \<le> k" "k < length (rq_cells q)" and s: "rs_occupied (rb_slot (ds_buffer d) k)"
    and d': "ds_buffer d' = ds_buffer d"
      "ds_first_preserved_sequence d' = (if ds_first_preserved_sequence d = None
         then Some (dh_sequence (rs_header (rb_slot (ds_buffer d) k))) else ds_first_preserved_sequence d)"
  shows "drop_state q i (Suc k) d'"
proof (cases "ds_first_preserved_sequence d")
  case None
  have base: "drop_base q (ds_buffer d)" using d(1) by (simp add: drop_state_def)
  have ok: "recv_ok (ds_buffer d)" using base unfolding drop_base_def by blast
  have k: "k < rb_capacity (ds_buffer d)" "rb_first_stored_sequence (ds_buffer d) = rq_first q"
    using base d(3) unfolding drop_base_def by simp_all
  have "dh_sequence (rs_header (rb_slot (ds_buffer d) k)) = seq_advanced (rq_first q) (of_nat k)"
    using store_okD(4) [OF ok] k s by (simp add: slot_shape_def rb_slot_ring rb_capacity_def)
  moreover have "rq_cells (rb_queue (ds_buffer d)) ! k = slot_cell (rb_payloads (ds_buffer d)) (rb_slot (ds_buffer d) k)"
    by (rule rb_queue_cell [OF k(1)])
  ultimately show ?thesis using None d d' base s drop_kept_first
    unfolding drop_state_def slot_cell_def by auto
next
  case (Some kept)
  then show ?thesis using d d' drop_kept_more unfolding drop_state_def by auto
qed

lemma drop_state_drop:
  assumes d: "drop_state q i k d" "k < length (rq_cells q)"
  shows "drop_state q i (Suc k) (d \<lparr>ds_newly_dropped_packets := n, ds_buffer := rb_drop_slot (ds_buffer d) k\<rparr>)"
proof -
  have base: "drop_base q (ds_buffer d)" using d(1) by (simp add: drop_state_def)
  have ok: "recv_ok (ds_buffer d)" using base unfolding drop_base_def by blast
  have k: "k < rb_capacity (ds_buffer d)" using base d(2) unfolding drop_base_def by simp
  note c = rb_drop_slot_refines [OF ok k]
  have "drop_base q (rb_drop_slot (ds_buffer d) k)"
    using base c(1) k unfolding drop_base_def c(2) by (auto simp: nth_list_update split: if_splits)
  moreover have "drop_kept (rq_first q) (rq_cells (rb_queue (rb_drop_slot (ds_buffer d) k))) i (Suc k)
      (ds_preserve_through_offset d) (ds_first_preserved_sequence d)"
    unfolding c(2) using drop_kept_drop d(1) k by (simp add: drop_state_def)
  ultimately show ?thesis by (simp add: drop_state_def)
qed

lemma rb_slot_at_occupied: "rb_slot_at b i = Some s \<Longrightarrow> rs_occupied (rb_slot b i)"
  by (auto simp: rb_slot_at_def Let_def split: if_splits)

lemma drop_state_offset:
  assumes d: "drop_state q i k d" "i \<le> k" "k < length (rq_cells q)"
  shows "drop_state q i (Suc k) (rb_drop_offset preservation k d)"
proof -
  let ?b = "ds_buffer d" let ?s = "rb_slot ?b k"
  have complete: "rs_occupied ?s" if "rb_complete_message_last_offset ?b k = Some final" for final
    using that rb_slot_at_occupied by (auto simp: rb_complete_message_last_offset_def split: option.splits)
  have skip: "drop_state q i (Suc k) d" if "ds_preserve_through_offset d \<noteq> None"
    using d(1) that drop_kept_more unfolding drop_state_def by (cases "ds_first_preserved_sequence d") (auto simp: drop_kept_def)
  show ?thesis
  proof (cases "preservation = DropPreservation_received_packets \<and> rs_occupied ?s \<and> \<not> rs_rejected_payload ?s
      \<and> dh_sequence (rs_header ?s) = seq_advanced (rb_first_stored_sequence ?b) (of_nat k)")
    case True
    then show ?thesis by (intro drop_state_keep [OF d]) (simp_all add: rb_drop_offset_def Let_def)
  next
    case received: False
    show ?thesis
    proof (cases "preservation = DropPreservation_complete_messages
        \<and> (case ds_preserve_through_offset d of None \<Rightarrow> False | Some through \<Rightarrow> k \<le> through)")
      case True
      then have "ds_preserve_through_offset d \<noteq> None" by (auto split: option.splits)
      then show ?thesis using received True skip by (simp add: rb_drop_offset_def Let_def)
    next
      case through: False
      define comp where "comp = (if preservation = DropPreservation_complete_messages then rb_complete_message_last_offset ?b k else None)"
      show ?thesis
      proof (cases comp)
        case None
        then show ?thesis using drop_state_drop [OF d(1,3)]
          unfolding rb_drop_offset_def Let_def comp_def [symmetric] if_not_P [OF received] if_not_P [OF through] by simp
      next
        case (Some final)
        then have occ: "rs_occupied ?s" using complete by (auto simp: comp_def split: if_splits)
        show ?thesis using Some
          unfolding rb_drop_offset_def Let_def comp_def [symmetric] if_not_P [OF received] if_not_P [OF through]
          by (intro drop_state_keep [OF d occ]) simp_all
      qed
    qed
  qed
qed

lemma drop_state_loop:
  "drop_state q i k d \<Longrightarrow> i \<le> k \<Longrightarrow> k + n \<le> length (rq_cells q) \<Longrightarrow> drop_state q i (k + n) (rb_drop_loop n preservation k d)"
proof (induction n arbitrary: k d)
  case (Suc n)
  then have "drop_state q i (Suc k) (rb_drop_offset preservation k d)" by (intro drop_state_offset) simp_all
  from Suc.IH [OF this] show ?case using Suc.prems by simp
qed simp

end
