(* ===== verification/Receive_Keeps.thy ===== *)
theory Receive_Keeps
  imports Receive_Ranges
begin

text \<open>
  A drop requested by the peer keeps what is already received: in message mode every complete
  message, in stream mode every packet. The window and its bookkeeping stay consistent as long as
  no message was rejected.
\<close>

section \<open>Stored packets\<close>

fun is_data :: "Cell \<Rightarrow> bool" where
  "is_data (Data h body read rejected) = True"
| "is_data c = False"

definition rq_stored :: "ReceiveQueue \<Rightarrow> Cell list" where
  "rq_stored q = filter is_data (rq_cells q)"

lemma rq_advance_stored:
  assumes "\<forall>j < length (rq_cells q). j < k \<longrightarrow> \<not> is_data (rq_cells q ! j)"
  shows "rq_stored (rq_advance k q) = rq_stored q"
proof -
  have "filter is_data (take k (rq_cells q)) = []" using assms by (auto simp: filter_empty_conv in_set_conv_nth)
  then have "filter is_data (rq_cells q) = filter is_data (drop k (rq_cells q))"
    by (metis append_Nil append_take_drop_id filter_append)
  then show ?thesis by (simp add: rq_stored_def rq_advance_def filter_replicate)
qed

lemma not_any_rejected:
  "\<not> rq_any_rejected q \<longleftrightarrow> (\<forall>c \<in> set (rq_cells q). \<forall>h body read. c \<noteq> Data h body read True)"
  unfolding rq_any_rejected_def list_ex_iff by (auto split: Cell.splits) (metis (full_types) Cell.exhaust)

lemma rq_advance_unrejected: "\<not> rq_any_rejected q \<Longrightarrow> \<not> rq_any_rejected (rq_advance k q)"
  unfolding not_any_rejected by (auto simp: rq_advance_def dest: in_set_dropD)

lemma rq_trim_loop_stored:
  "\<not> rq_any_rejected q \<Longrightarrow> rq_discarding q = None \<Longrightarrow>
   rq_stored (rq_trim_loop n q) = rq_stored q \<and> \<not> rq_any_rejected (rq_trim_loop n q) \<and> rq_discarding (rq_trim_loop n q) = None"
proof (induction n arbitrary: q)
  case (Suc n)
  show ?case
  proof (cases "rq_cells q")
    case (Cons c cs)
    show ?thesis
    proof (cases c)
      case Dropped
      have "rq_stored (rq_advance 1 q) = rq_stored q" by (rule rq_advance_stored) (use Cons Dropped in auto)
      then show ?thesis using Suc Cons Dropped rq_advance_unrejected [of q 1] by (simp add: rq_trim_step_def rq_advance_def)
    next
      case (Data h body read rejected)
      then show ?thesis using rq_trim_stops [of q h body read rejected cs "Suc n"] Suc.prems Cons by simp
    qed (use Suc.prems Cons in \<open>simp add: rq_trim_step_def\<close>)
  qed (use Suc.prems in \<open>simp add: rq_trim_step_def\<close>)
qed simp

section \<open>The frontier stops at what is kept\<close>

lemma drop_clear_kept:
  assumes len: "p < length (rq_cells q)" "length (rq_cells q) < 1073741824"
    and cells: "\<forall>j < p. rq_cells q ! j = Dropped" "rq_cells q ! p = Data h body read rejected"
    and rej: "\<not> rq_any_rejected q" "rq_discarding q = None"
    and eo: "int p \<le> seq_distance (sr_last interval) (rq_first q)" "seq_distance (sr_last interval) (rq_first q) < 1073741823"
  shows "rq_drop_beyond (rq_trim q) interval (Some (seq_advanced (rq_first q) (of_nat p))) = 0"
proof -
  let ?q = "rq_advance p q" and ?kept = "seq_advanced (rq_first q) (of_nat p)"
  have "rq_trim q = rq_trim_loop (length (rq_cells q) + 1 - p) ?q"
    unfolding rq_trim_def by (rule rq_trim_prefix) (use len cells in auto)
  moreover have "rq_cells ?q = Data h body read rejected # drop (Suc p) (rq_cells q) @ replicate (min p (length (rq_cells q))) Gap"
    using len cells(2) by (simp add: rq_advance_def Cons_nth_drop_Suc [symmetric])
  moreover have "rq_discarding ?q = None" using rej by (simp add: rq_advance_def)
  ultimately have trim: "rq_trim q = ?q" using rq_trim_stops rq_advance_unrejected [OF rej(1)] by simp
  define e where "e = nat (seq_distance (sr_last interval) (rq_first q))"
  have last: "sr_last interval = seq_advanced (rq_first q) (of_nat e)"
    using seq_advanced_distance [of "sr_last interval" "rq_first q"] eo by (simp add: e_def)
  then have "seq_next (sr_last interval) = seq_advanced (rq_first q) (of_nat (e + 1))"
    by (simp add: seq_next_advanced seq_advanced_advanced add.commute)
  then have "seq_distance (seq_next (sr_last interval)) ?kept = int (e + 1) - int p"
    by (simp only:, intro seq_distance_offsets) (use eo in \<open>auto simp: e_def\<close>)
  then have "seq_distance (seq_next (sr_last interval)) ?kept > 0" using eo(1) by (simp add: e_def)
  moreover have "rq_first (rq_trim q) = ?kept" unfolding trim by (simp add: rq_advance_def)
  ultimately show ?thesis by (simp add: rq_drop_beyond_def rq_drop_target_def)
qed

text \<open>The buffer behind the loop of a drop.\<close>

definition rb_drop_swept :: "ReceiveBuffer \<Rightarrow> SequenceRange \<Rightarrow> DropPreservation \<Rightarrow> DropState" where
  "rb_drop_swept b interval preservation =
     (let start_offset = seq_distance (sr_first interval) (rb_first_stored_sequence b);
          i = (if start_offset > 0 then nat start_offset else 0);
          j = min (nat (seq_distance (sr_last interval) (rb_first_stored_sequence b))) (rb_capacity b - 1)
      in rb_drop_loop (j + 1 - i) preservation i
           \<lparr>ds_buffer = b, ds_newly_dropped_packets = 0, ds_first_preserved_sequence = None, ds_preserve_through_offset = None\<rparr>)"

lemma drop_start:
  "recv_ok b \<Longrightarrow> drop_state (rb_queue b) i i
     \<lparr>ds_buffer = b, ds_newly_dropped_packets = 0, ds_first_preserved_sequence = None, ds_preserve_through_offset = None\<rparr>"
  by (auto simp: drop_state_def drop_base_def drop_kept_def)

lemma rq_drop_tail_stored:
  assumes rej: "\<not> rq_any_rejected q" "rq_discarding q = None"
    and clear: "\<And>q' j. q' = rq_trim (rq_advance_ack q) \<Longrightarrow> start_offset \<le> 0 \<Longrightarrow> seq_distance (sr_last interval) (rq_first q') \<ge> 0
      \<Longrightarrow> j < rq_drop_beyond q' interval preserved \<Longrightarrow> j < length (rq_cells q') \<Longrightarrow> rq_cells q' ! j = Gap"
  shows "rq_stored (snd (rq_drop_tail q start_offset interval preserved newly)) = rq_stored q"
    "\<not> rq_any_rejected (snd (rq_drop_tail q start_offset interval preserved newly))"
    "rq_discarding (snd (rq_drop_tail q start_offset interval preserved newly)) = None"
proof -
  define q' where "q' = rq_trim (rq_advance_ack q)"
  have ack: "rq_stored (rq_advance_ack p) = rq_stored p" "rq_any_rejected (rq_advance_ack p) = rq_any_rejected p" for p
    by (simp_all add: rq_stored_def rq_any_rejected_def)
  have q': "rq_stored q' = rq_stored q" "\<not> rq_any_rejected q'" "rq_discarding q' = None"
    using rq_trim_loop_stored [of "rq_advance_ack q"] rej ack by (simp_all add: q'_def rq_trim_def del: rq_trim_loop.simps)
  define p where "p = (if start_offset \<le> 0 \<and> seq_distance (sr_last interval) (rq_first q') \<ge> 0
      then rq_advance (rq_drop_beyond q' interval preserved) q' else q')"
  have "rq_stored p = rq_stored q"
    unfolding p_def using clear [OF q'_def] rq_advance_stored [of q' "rq_drop_beyond q' interval preserved"] q'(1) by simp
  moreover have "\<not> rq_any_rejected p" "rq_discarding p = None"
    using q' rq_advance_unrejected by (simp_all add: p_def rq_advance_def)
  moreover have upd: "rq_stored (p \<lparr>rq_ack := a\<rparr>) = rq_stored p" "rq_any_rejected (p \<lparr>rq_ack := a\<rparr>) = rq_any_rejected p" for a
    by (simp_all add: rq_stored_def rq_any_rejected_def)
  moreover have "snd (rq_drop_tail q start_offset interval preserved newly) =
      (if seq_distance (rq_first p) (rq_ack p) > 0 then rq_advance_ack (p \<lparr>rq_ack := rq_first p\<rparr>) else p)"
    unfolding rq_drop_tail_def q'_def [symmetric] Let_def p_def by (simp add: case_prod_unfold)
  ultimately show "rq_stored (snd (rq_drop_tail q start_offset interval preserved newly)) = rq_stored q"
    "\<not> rq_any_rejected (snd (rq_drop_tail q start_offset interval preserved newly))"
    "rq_discarding (snd (rq_drop_tail q start_offset interval preserved newly)) = None" using ack by (simp_all split: if_split)
qed

lemma rb_drop_keeps:
  assumes ok: "recv_ok b" and rej: "\<not> rq_any_rejected (rb_queue b)" "rb_discarding_message b = None"
    and eo: "0 \<le> seq_distance (sr_last interval) (sr_first interval)" "0 \<le> seq_distance (sr_last interval) (rb_first_stored_sequence b)"
      "seq_distance (sr_last interval) (rb_first_stored_sequence b) < 1073741823"
  shows "case rb_drop_range_impl b interval preservation of (e, n, b') \<Rightarrow>
    e = Error_none \<and> recv_ok b' \<and> \<not> rq_any_rejected (rb_queue b') \<and> rb_discarding_message b' = None
    \<and> rq_stored (rb_queue b') = rq_stored (rb_queue (ds_buffer (rb_drop_swept b interval preservation)))"
proof -
  define so where "so = seq_distance (sr_first interval) (rb_first_stored_sequence b)"
  define i where "i = (if so > 0 then nat so else 0)"
  define j where "j = min (nat (seq_distance (sr_last interval) (rb_first_stored_sequence b))) (rb_capacity b - 1)"
  define d where "d = rb_drop_swept b interval preservation"
  define c where "c = ds_buffer d"
  let ?q = "rb_queue b" and ?qc = "rq_advance_ack (rb_queue c)"
  have cap: "0 < rb_capacity b" "rb_capacity b < 1073741824" using store_okD(1,2) [OF ok] by (simp_all add: rb_capacity_def)
  have d: "d = rb_drop_loop (j + 1 - i) preservation i
      \<lparr>ds_buffer = b, ds_newly_dropped_packets = 0, ds_first_preserved_sequence = None, ds_preserve_through_offset = None\<rparr>"
    by (simp add: d_def rb_drop_swept_def Let_def so_def i_def j_def)
  have "i + (j + 1 - i) \<le> rb_capacity b \<or> j + 1 - i = 0" using cap(1) unfolding j_def by linarith
  then have st: "drop_state ?q i (i + (j + 1 - i)) d"
    using drop_state_loop [OF drop_start [OF ok, of i], of "j + 1 - i" preservation] drop_start [OF ok, of i] by (auto simp: d)
  have base: "drop_base ?q c" using st by (simp add: drop_state_def c_def)
  have c: "recv_ok c" using base unfolding drop_base_def by blast
  have same: "rb_first_stored_sequence c = rb_first_stored_sequence b" "rb_capacity c = rb_capacity b" "rb_discarding_message c = None"
    "\<And>j. j < rb_capacity b \<Longrightarrow> rq_cells (rb_queue c) ! j \<in> {rq_cells ?q ! j, Dropped}"
    using base rej(2) unfolding drop_base_def by simp_all
  have rejc: "\<not> rq_any_rejected (rb_queue c)"
    using rej(1) same(2,4) unfolding not_any_rejected by (fastforce simp: in_set_conv_nth)
  have clear: "rq_cells q' ! k = Gap" if q': "q' = rq_trim ?qc" and a: "so \<le> 0" "seq_distance (sr_last interval) (rq_first q') \<ge> 0"
    "k < rq_drop_beyond q' interval (ds_first_preserved_sequence d)" "k < length (rq_cells q')" for q' k
  proof -
    have i0: "i = 0" using a(1) by (simp add: i_def)
    have kept: "drop_kept (rb_first_stored_sequence b) (rq_cells (rb_queue c)) 0 (j + 1) (ds_preserve_through_offset d)
        (ds_first_preserved_sequence d)" using st i0 by (simp add: drop_state_def c_def)
    have len: "length (rq_cells q') = rb_capacity b"
      using rq_trim_first [of "rb_capacity c + 1" ?qc] same(2) by (auto simp: q' rq_trim_def simp del: rq_trim_loop.simps)
    show ?thesis
    proof (cases "ds_first_preserved_sequence d")
      case None
      then have "\<forall>k < j + 1. rq_cells (rb_queue c) ! k = Dropped" using kept by (simp add: drop_kept_def)
      then show ?thesis using drop_clear_all [of ?qc interval k] cap same eo(2) a len by (simp add: q' j_def)
    next
      case (Some kept)
      then obtain p h body read rejected where p: "p < j + 1" "kept = seq_advanced (rb_first_stored_sequence b) (of_nat p)"
        "rq_cells (rb_queue c) ! p = Data h body read rejected" "\<forall>k < p. rq_cells (rb_queue c) ! k = Dropped"
        using \<open>drop_kept _ _ _ _ _ _\<close> by (auto simp: drop_kept_def)
      have le: "p < rb_capacity b" "int p \<le> seq_distance (sr_last interval) (rb_first_stored_sequence b)"
        using p(1) cap(1) eo(2) unfolding j_def by linarith+
      have "\<not> rq_any_rejected ?qc" using rejc by (simp add: rq_any_rejected_def)
      then have "rq_drop_beyond (rq_trim ?qc) interval (Some (seq_advanced (rq_first ?qc) (of_nat p))) = 0"
        by (intro drop_clear_kept) (use cap same p le eo in auto)
      then show ?thesis using a(3) Some p(2) same(1) by (simp add: q')
    qed
  qed
  define tail where "tail = rq_drop_tail (rb_queue c) so interval (ds_first_preserved_sequence d) (ds_newly_dropped_packets d)"
  obtain n b' where b': "rb_drop_tail c so interval (ds_first_preserved_sequence d) (ds_newly_dropped_packets d) (rb_occupied b) = (n, b')"
    by fastforce
  have "case rb_drop_tail c so interval (ds_first_preserved_sequence d) (ds_newly_dropped_packets d) (rb_occupied b) of (n, b') \<Rightarrow>
      recv_ok b' \<and> tail = (n, rb_queue b')"
    unfolding tail_def by (rule rb_drop_tail_refines [OF c]) (rule clear)
  then have r: "recv_ok b'" "snd tail = rb_queue b'" unfolding b' by simp_all
  have disc: "rq_discarding (rb_queue c) = None" using same(3) by simp
  have "rq_stored (snd tail) = rq_stored (rb_queue c)" "\<not> rq_any_rejected (snd tail)" "rq_discarding (snd tail) = None"
    unfolding tail_def by (rule rq_drop_tail_stored [OF rejc disc], rule clear, assumption+)+
  then have "\<not> rq_any_rejected (rb_queue b') \<and> rb_discarding_message b' = None \<and> rq_stored (rb_queue b') = rq_stored (rb_queue c)"
    using r(2) by simp
  moreover have "rb_drop_range_impl b interval preservation = (Error_none, n, b')"
    unfolding rb_drop_range_impl_tail [OF eo(1,2)] Let_def so_def [symmetric] i_def [symmetric] j_def [symmetric] d [symmetric]
      c_def [symmetric] b' ..
  ultimately show ?thesis using r(1) by (simp add: d_def [symmetric] c_def [symmetric])
qed

section \<open>What the loop keeps\<close>

text \<open>The loop leaves the cells of a set alone if each of its rounds does.\<close>

lemma drop_loop_keeps:
  assumes "drop_state q i k d" "i \<le> k" "k + n \<le> length (rq_cells q)"
    and "\<forall>j \<in> A. rq_cells (rb_queue (ds_buffer d)) ! j = rq_cells q ! j"
    and step: "\<And>k d. drop_state q i k d \<Longrightarrow> i \<le> k \<Longrightarrow> k < length (rq_cells q) \<Longrightarrow> k \<in> A
      \<Longrightarrow> \<forall>j \<in> A. rq_cells (rb_queue (ds_buffer d)) ! j = rq_cells q ! j
      \<Longrightarrow> ds_buffer (rb_drop_offset preservation k d) = ds_buffer d"
  shows "\<forall>j \<in> A. rq_cells (rb_queue (ds_buffer (rb_drop_loop n preservation k d))) ! j = rq_cells q ! j"
  using assms(1-4)
proof (induction n arbitrary: k d)
  case (Suc n)
  have k: "k < length (rq_cells q)" using Suc.prems(3) by simp
  have base: "drop_base q (ds_buffer d)" using Suc.prems(1) by (simp add: drop_state_def)
  have ok: "recv_ok (ds_buffer d)" using base unfolding drop_base_def by blast
  have cap: "k < rb_capacity (ds_buffer d)" using base k unfolding drop_base_def by simp
  let ?d = "rb_drop_offset preservation k d"
  have "ds_buffer ?d = ds_buffer d \<or> ds_buffer ?d = rb_drop_slot (ds_buffer d) k"
    by (simp add: rb_drop_offset_def Let_def split: option.splits)
  moreover have "xs[k := x] ! j = xs ! j" if "k \<notin> A" "j \<in> A" for xs :: "Cell list" and x j
    using that by (metis nth_list_update_neq)
  ultimately have "\<forall>j \<in> A. rq_cells (rb_queue (ds_buffer ?d)) ! j = rq_cells q ! j"
    using step [OF Suc.prems(1,2) k] Suc.prems(4) rb_drop_slot_refines(2) [OF ok cap] by (cases "k \<in> A") auto
  moreover have "drop_state q i (Suc k) ?d" by (rule drop_state_offset [OF Suc.prems(1,2) k])
  ultimately show ?case using Suc.IH [of "Suc k" ?d] Suc.prems(2,3) by simp
qed simp

lemma rb_drop_swept_keeps:
  assumes ok: "recv_ok b"
    and step: "\<And>i k d. drop_state (rb_queue b) i k d \<Longrightarrow> k < rb_capacity b \<Longrightarrow> k \<in> A
      \<Longrightarrow> \<forall>j \<in> A. rq_cells (rb_queue (ds_buffer d)) ! j = rq_cells (rb_queue b) ! j
      \<Longrightarrow> ds_buffer (rb_drop_offset preservation k d) = ds_buffer d"
  shows "\<forall>j \<in> A. rq_cells (rb_queue (ds_buffer (rb_drop_swept b interval preservation))) ! j = rq_cells (rb_queue b) ! j"
    "drop_base (rb_queue b) (ds_buffer (rb_drop_swept b interval preservation))"
proof -
  define i where "i = (if seq_distance (sr_first interval) (rb_first_stored_sequence b) > 0
    then nat (seq_distance (sr_first interval) (rb_first_stored_sequence b)) else 0)"
  define n where "n = min (nat (seq_distance (sr_last interval) (rb_first_stored_sequence b))) (rb_capacity b - 1) + 1 - i"
  let ?d = "\<lparr>ds_buffer = b, ds_newly_dropped_packets = 0, ds_first_preserved_sequence = None, ds_preserve_through_offset = None\<rparr>"
  have eq: "rb_drop_swept b interval preservation = rb_drop_loop n preservation i ?d"
    by (simp add: rb_drop_swept_def Let_def i_def n_def)
  have "0 < rb_capacity b" using store_okD(1) [OF ok] by (simp add: rb_capacity_def)
  then have "i + n \<le> rb_capacity b \<or> n = 0" unfolding n_def by linarith
  then have "(\<forall>j \<in> A. rq_cells (rb_queue (ds_buffer (rb_drop_loop n preservation i ?d))) ! j = rq_cells (rb_queue b) ! j)
      \<and> drop_base (rb_queue b) (ds_buffer (rb_drop_loop n preservation i ?d))"
  proof
    assume fits: "i + n \<le> rb_capacity b"
    have "\<forall>j \<in> A. rq_cells (rb_queue (ds_buffer (rb_drop_loop n preservation i ?d))) ! j = rq_cells (rb_queue b) ! j"
      by (rule drop_loop_keeps [OF drop_start [OF ok]]) (use fits step in auto)
    then show ?thesis using drop_state_loop [OF drop_start [OF ok], of i n preservation] fits by (auto simp: drop_state_def)
  next
    assume "n = 0"
    then show ?thesis using drop_start [OF ok, of i] by (simp add: drop_state_def)
  qed
  then show "\<forall>j \<in> A. rq_cells (rb_queue (ds_buffer (rb_drop_swept b interval preservation))) ! j = rq_cells (rb_queue b) ! j"
    "drop_base (rb_queue b) (ds_buffer (rb_drop_swept b interval preservation))" unfolding eq by auto
qed

text \<open>Stream mode: every packet stays.\<close>

lemma rb_drop_stream_step:
  assumes "drop_state q i k d" "k < length (rq_cells q)" "is_data (rq_cells (rb_queue (ds_buffer d)) ! k)"
    "\<not> rq_any_rejected (rb_queue (ds_buffer d))"
  shows "ds_buffer (rb_drop_offset DropPreservation_received_packets k d) = ds_buffer d"
proof -
  let ?b = "ds_buffer d"
  have base: "drop_base q ?b" using assms(1) by (simp add: drop_state_def)
  have ok: "recv_ok ?b" using base unfolding drop_base_def by blast
  have cap: "k < rb_capacity ?b" using base assms(2) unfolding drop_base_def by simp
  have cell: "rq_cells (rb_queue ?b) ! k = slot_cell (rb_payloads ?b) (rb_slot ?b k)" by (rule rb_queue_cell [OF cap])
  then have occ: "rs_occupied (rb_slot ?b k)" using assms(3) by (auto simp: slot_cell_def split: if_splits)
  then have "dh_sequence (rs_header (rb_slot ?b k)) = seq_advanced (rb_first_stored_sequence ?b) (of_nat k)"
    using store_okD(4) [OF ok] cap by (simp add: slot_shape_def rb_slot_ring rb_capacity_def)
  moreover have "\<not> rs_rejected_payload (rb_slot ?b k)"
  proof -
    have "rq_cells (rb_queue ?b) ! k \<in> set (rq_cells (rb_queue ?b))" using cap by simp
    then show ?thesis using assms(4) cell occ unfolding not_any_rejected by (auto simp: slot_cell_def)
  qed
  ultimately show ?thesis using occ by (simp add: rb_drop_offset_def Let_def)
qed

lemma filter_kept:
  "length xs = length ys \<Longrightarrow> (\<forall>j < length xs. ys ! j \<in> {xs ! j, Dropped}) \<Longrightarrow> (\<forall>j < length xs. is_data (xs ! j) \<longrightarrow> ys ! j = xs ! j)
   \<Longrightarrow> filter is_data ys = filter is_data xs"
proof (induction xs ys rule: list_induct2)
  case (Cons x xs y ys)
  from Cons.prems have "\<forall>j < length xs. ys ! j \<in> {xs ! j, Dropped}" "\<forall>j < length xs. is_data (xs ! j) \<longrightarrow> ys ! j = xs ! j"
    "y \<in> {x, Dropped}" "is_data x \<longrightarrow> y = x" by force+
  then show ?case using Cons.IH by auto
qed simp

lemma rb_drop_stream_stored:
  assumes ok: "recv_ok b" and rej: "\<not> rq_any_rejected (rb_queue b)"
  shows "rq_stored (rb_queue (ds_buffer (rb_drop_swept b interval DropPreservation_received_packets))) = rq_stored (rb_queue b)"
proof -
  let ?c = "ds_buffer (rb_drop_swept b interval DropPreservation_received_packets)"
  define A where "A = {j. j < rb_capacity b \<and> is_data (rq_cells (rb_queue b) ! j)}"
  have unrejected: "\<not> rq_any_rejected (rb_queue (ds_buffer d))" if "drop_state (rb_queue b) i k d" for i k d
    using that rej unfolding drop_state_def drop_base_def not_any_rejected by (fastforce simp: in_set_conv_nth)
  have kept: "\<forall>j \<in> A. rq_cells (rb_queue ?c) ! j = rq_cells (rb_queue b) ! j" and base: "drop_base (rb_queue b) ?c"
    by (rule rb_drop_swept_keeps [OF ok]; use rb_drop_stream_step unrejected in \<open>auto simp: A_def\<close>)+
  show ?thesis unfolding rq_stored_def
    by (rule filter_kept) (use base kept in \<open>auto simp: drop_base_def A_def\<close>)
qed

text \<open>Message mode: the packets of a complete message, none of it read.\<close>

definition fragment :: "Cell list \<Rightarrow> nat \<Rightarrow> MessageBoundary \<Rightarrow> u32 \<Rightarrow> bool" where
  "fragment cells j boundary m \<longleftrightarrow>
     (case cells ! j of Data h body read rejected \<Rightarrow> dh_boundary h = boundary \<and> dh_message_number h = m \<and> read = 0 | _ \<Rightarrow> False)"

definition complete_cells :: "Cell list \<Rightarrow> nat \<Rightarrow> nat \<Rightarrow> u32 \<Rightarrow> bool" where
  "complete_cells cells a c m \<longleftrightarrow> c < length cells \<and>
     (if a = c then fragment cells a MessageBoundary_solo m
      else a < c \<and> fragment cells a MessageBoundary_first m \<and> fragment cells c MessageBoundary_last m
        \<and> (\<forall>j \<in> {a<..<c}. fragment cells j MessageBoundary_subsequent m))"

lemma complete_cells_same:
  assumes "complete_cells cells a c m" "length cells' = length cells" "\<forall>j \<in> {a..c}. cells' ! j = cells ! j"
  shows "complete_cells cells' a c m"
  using assms unfolding complete_cells_def fragment_def by (auto split: if_splits)

lemma fragment_slot:
  assumes ok: "recv_ok b" and j: "j < rb_capacity b" "fragment (rq_cells (rb_queue b)) j boundary m"
  shows "rb_slot_at b j = Some (rb_slot b j)" "dh_boundary (rs_header (rb_slot b j)) = boundary"
    "dh_message_number (rs_header (rb_slot b j)) = m" "rs_payload_offset (rb_slot b j) = 0"
proof -
  have s: "rs_occupied (rb_slot b j)" "dh_boundary (rs_header (rb_slot b j)) = boundary"
    "dh_message_number (rs_header (rb_slot b j)) = m" "rs_payload_offset (rb_slot b j) = 0"
    using j by (auto simp: fragment_def rb_queue_cell slot_cell_def split: if_splits)
  then show "dh_boundary (rs_header (rb_slot b j)) = boundary" "dh_message_number (rs_header (rb_slot b j)) = m"
    "rs_payload_offset (rb_slot b j) = 0" by simp_all
  show "rb_slot_at b j = Some (rb_slot b j)"
    using s(1) store_okD(4) [OF ok] j(1) by (simp add: rb_slot_at_def slot_shape_def rb_slot_ring rb_capacity_def)
qed

lemma rb_message_start_finds:
  assumes ok: "recv_ok b" and a: "a \<le> n" "n \<le> k" "k < rb_capacity b" "fragment (rq_cells (rb_queue b)) a MessageBoundary_first m"
    and mid: "\<And>j. a < j \<Longrightarrow> j < k \<Longrightarrow> fragment (rq_cells (rb_queue b)) j MessageBoundary_subsequent m"
    and top: "a < k \<Longrightarrow> fragment (rq_cells (rb_queue b)) k MessageBoundary_subsequent m \<or> fragment (rq_cells (rb_queue b)) k MessageBoundary_last m"
  shows "rb_message_start n b k m = Some a"
  using a(1,2)
proof (induction n)
  case (Suc n)
  show ?case
  proof (cases "Suc n = a")
    case True
    show ?thesis using fragment_slot [OF ok _ a(4)] a(3) Suc.prems unfolding True [symmetric] by (simp add: Let_def)
  next
    case False
    then have n: "a < Suc n" "Suc n < rb_capacity b" using Suc.prems a(3) by simp_all
    show ?thesis
    proof (cases "Suc n = k")
      case True
      from top n True have "fragment (rq_cells (rb_queue b)) (Suc n) MessageBoundary_subsequent m \<or>
        fragment (rq_cells (rb_queue b)) (Suc n) MessageBoundary_last m" by simp
      then show ?thesis
        using fragment_slot [OF ok n(2), of MessageBoundary_subsequent m] fragment_slot [OF ok n(2), of MessageBoundary_last m]
          Suc n(1) True by (auto simp: Let_def)
    next
      case False
      then have "fragment (rq_cells (rb_queue b)) (Suc n) MessageBoundary_subsequent m" using mid [of "Suc n"] n Suc.prems by simp
      then show ?thesis using fragment_slot [OF ok n(2)] Suc n(1) False by (simp add: Let_def)
    qed
  qed
qed simp

lemma rb_message_last_finds:
  assumes ok: "recv_ok b" and c: "c < rb_capacity b" "fragment (rq_cells (rb_queue b)) c MessageBoundary_last m"
    and mid: "\<And>j. a < j \<Longrightarrow> j < c \<Longrightarrow> fragment (rq_cells (rb_queue b)) j MessageBoundary_subsequent m"
  shows "a < i \<Longrightarrow> i \<le> c \<Longrightarrow> c - i < n \<Longrightarrow> rb_message_last n b i m = Some c"
proof (induction n arbitrary: i)
  case (Suc n)
  show ?case
  proof (cases "i = c")
    case True
    then show ?thesis using fragment_slot [OF ok c] by (simp add: Let_def)
  next
    case False
    then have i: "i < c" "i < rb_capacity b" using Suc.prems c(1) by simp_all
    from fragment_slot [OF ok i(2) mid [OF Suc.prems(1) i(1)]] Suc.IH [of "i + 1"] i(1) Suc.prems
    show ?thesis by (simp add: Let_def)
  qed
qed simp

lemma rb_complete_found:
  assumes ok: "recv_ok b" and whole: "complete_cells (rq_cells (rb_queue b)) a c m" and k: "a \<le> k" "k \<le> c"
  shows "rb_complete_message_last_offset b k = Some c"
proof (cases "a = c")
  case True
  then show ?thesis using whole k fragment_slot [OF ok, of k MessageBoundary_solo m]
    by (simp add: complete_cells_def rb_complete_message_last_offset_def)
next
  case False
  have w: "c < rb_capacity b" "a < c" "fragment (rq_cells (rb_queue b)) a MessageBoundary_first m"
    "fragment (rq_cells (rb_queue b)) c MessageBoundary_last m"
    "\<And>j. a < j \<Longrightarrow> j < c \<Longrightarrow> fragment (rq_cells (rb_queue b)) j MessageBoundary_subsequent m"
    using whole False by (auto simp: complete_cells_def)
  consider "k = a" | "k = c" | "a < k" "k < c" using k by linarith
  then obtain boundary where bd: "fragment (rq_cells (rb_queue b)) k boundary m" "boundary \<noteq> MessageBoundary_solo"
    using w by cases auto
  have "rb_message_start k b k m = Some a"
    by (rule rb_message_start_finds [OF ok k(1) order_refl _ w(3)]) (use w k in \<open>auto simp: le_less\<close>)
  moreover have "rb_message_last (rb_capacity b - (a + 1)) b (a + 1) m = Some c"
    by (rule rb_message_last_finds [OF ok w(1,4,5)]) (use w in auto)
  ultimately show ?thesis using fragment_slot [OF ok _ bd(1)] fragment_slot [OF ok _ w(3)] bd(2) w k
    by (simp add: rb_complete_message_last_offset_def Let_def)
qed

lemma rb_drop_message_kept:
  assumes ok: "recv_ok b" and whole: "complete_cells (rq_cells (rb_queue b)) a c m"
  shows "\<forall>j \<in> {a..c}. rq_cells (rb_queue (ds_buffer (rb_drop_swept b interval DropPreservation_complete_messages))) ! j = rq_cells (rb_queue b) ! j"
proof (rule rb_drop_swept_keeps(1) [OF ok])
  fix i k d
  assume d: "drop_state (rb_queue b) i k d" "k < rb_capacity b" "k \<in> {a..c}"
    "\<forall>j \<in> {a..c}. rq_cells (rb_queue (ds_buffer d)) ! j = rq_cells (rb_queue b) ! j"
  have base: "drop_base (rb_queue b) (ds_buffer d)" using d(1) by (simp add: drop_state_def)
  have ok': "recv_ok (ds_buffer d)" using base unfolding drop_base_def by blast
  have "complete_cells (rq_cells (rb_queue (ds_buffer d))) a c m"
    by (rule complete_cells_same [OF whole _ d(4)]) (use base in \<open>simp add: drop_base_def\<close>)
  from rb_complete_found [OF ok' this] d(3) have "rb_complete_message_last_offset (ds_buffer d) k = Some c" by simp
  then show "ds_buffer (rb_drop_offset DropPreservation_complete_messages k d) = ds_buffer d"
    by (simp add: rb_drop_offset_def Let_def)
qed

end
