(* ===== verification/Receive_Stream.thy ===== *)
theory Receive_Stream
  imports Receive_Keeps
begin

text \<open>
  Delivery as a byte stream, and delivery of a complete message from behind a gap.
\<close>

section \<open>The byte stream\<close>

text \<open>
  The bytes that fit into \<open>room\<close>, taken from the front of the window; whether a packet left, and
  the queue behind. \<open>due\<close> is the optional predicate on the timestamp of a packet.
\<close>

primrec rq_stream :: "nat \<Rightarrow> (PacketTimestamp \<Rightarrow> bool) option \<Rightarrow> ReceiveQueue \<Rightarrow> nat \<Rightarrow> bytes \<times> bool \<times> ReceiveQueue" where
  "rq_stream 0 due q room = ([], False, q)"
| "rq_stream (Suc n) due q room =
     (case rq_cells q of
        Data h body read rejected # cs \<Rightarrow>
          if room = 0 \<or> rejected \<or> (case due of None \<Rightarrow> False | Some due \<Rightarrow> \<not> due (dh_timestamp h)) then ([], False, q)
          else
            let chunk = take room (drop read body)
            in if read + length chunk \<noteq> length body
               then (chunk, False, q \<lparr>rq_cells := Data h body (read + length chunk) False # cs\<rparr>)
               else let (rest, _, q) = rq_stream n due (rq_trim (rq_advance 1 q)) (room - length chunk)
                    in (chunk @ rest, True, q)
      | _ \<Rightarrow> ([], False, q))"

lemma find_front:
  assumes ok: "recv_ok b"
  shows "rb_find b (rb_first_stored_sequence b) = (if readable (rb_slot b 0) then Some 0 else None)"
proof -
  have cap: "0 < rb_capacity b" using store_okD(1) [OF ok] by (simp add: rb_capacity_def)
  have "seq_distance (rb_first_stored_sequence b) (rb_first_stored_sequence b) = 0"
    using seq_distance_advanced [of 0 "rb_first_stored_sequence b"] by simp
  then show ?thesis using rb_find_refines [OF ok, of "rb_first_stored_sequence b"] cap
    by (auto simp: rq_find_def rb_queue_cell slot_cell_def readable_def)
qed

lemma pending_le:
  assumes "store_ok head first slots pool offsets readable_index storage_index rejected used bytes_used" "p < length slots"
  shows "pending_bytes (slots ! p) \<le> bytes_used"
  unfolding store_okD(11) [OF assms(1)] by (rule member_le_sum_list) (use assms(2) in auto)

text \<open>A part of the packet at the front is read.\<close>

lemma rb_read_front:
  assumes ok: "recv_ok b" and s: "s = rb_slot b 0" "readable s" and k: "rs_payload_offset s + k \<le> rs_payload_size s"
    and c: "c = rb_set_slot (b \<lparr>rb_buffered_payload_bytes := rb_buffered_payload_bytes b - k\<rparr>) 0
      (s \<lparr>rs_payload_offset := rs_payload_offset s + k\<rparr>)"
  shows "recv_ok c" "rb_queue c = (rb_queue b) \<lparr>rq_cells := (rq_cells (rb_queue b))
      [0 := Data (rs_header s) (pl_get (rb_payloads b) (rs_payload_index s)) (rs_payload_offset s + k) False]\<rparr>"
proof -
  note o = store_okD [OF ok]
  define x where "x = s \<lparr>rs_payload_offset := rs_payload_offset s + k\<rparr>"
  have at: "s = ring_at (rb_slots b) (rb_head b) 0" using s(1) by (simp add: rb_slot_ring)
  then have shape: "slot_shape (rb_first_stored_sequence b) 0 s" using o(1,4) by simp
  have p: "rb_slots b ! rb_head b = s" using at o(3) by (simp add: ring_at_def)
  have eq: "c = b \<lparr>rb_buffered_payload_bytes := rb_buffered_payload_bytes b - k,
      rb_slots := (rb_slots b)[(rb_head b + 0) mod length (rb_slots b) := x]\<rparr>"
    unfolding c by (simp add: rb_set_slot_def x_def rb_index_def rb_capacity_def)
  have "rb_buffered_payload_bytes b - pending_bytes s + pending_bytes x = rb_buffered_payload_bytes b - k"
    using pending_le [OF ok o(3)] p k s(2) by (simp add: pending_bytes_def x_def readable_def)
  then show "recv_ok c" using store_touch [OF ok o(1) at refl, of x] k s(2) shape unfolding eq
    by (simp add: x_def readable_def slot_shape_def)
  show "rb_queue c = (rb_queue b) \<lparr>rq_cells := (rq_cells (rb_queue b))
      [0 := Data (rs_header s) (pl_get (rb_payloads b) (rs_payload_index s)) (rs_payload_offset s + k) False]\<rparr>"
    using cells_touch [OF o(1) refl, of "rb_head b" x "rb_payloads b"] s(2) unfolding eq
    by (simp add: rb_queue_def slot_cell_def readable_def x_def)
qed

text \<open>The packet at the front is read to its end and leaves.\<close>

definition rb_finish_front :: "ReceiveBuffer \<Rightarrow> ReceiveSlot \<Rightarrow> ReceiveBuffer" where
  "rb_finish_front b slot =
     (let b = rb_invalidate_delivery_queries b;
          b = b \<lparr>rb_payloads := pl_release (rb_payloads b) (rs_payload_index slot)\<rparr>;
          b = rb_index_occupied b (rb_head b) False True;
          b = rb_set_slot b 0 (rb_empty_slot slot);
          b = rb_advance_frontier b 1
      in b \<lparr>rb_occupied := rb_occupied b - 1\<rparr>)"

lemma rb_finish_front_refines:
  assumes ok: "recv_ok b" and s: "s = rb_slot b 0" "readable s"
    and c: "c = rb_set_slot (b \<lparr>rb_buffered_payload_bytes := rb_buffered_payload_bytes b - pending_bytes s\<rparr>) 0 y"
    and y: "y = s \<lparr>rs_payload_offset := rs_payload_size s\<rparr>"
  shows "recv_ok (rb_finish_front c y)" "rb_queue (rb_finish_front c y) = rq_advance 1 (rb_queue b)"
proof -
  note o = store_okD [OF ok]
  define x where "x = rb_empty_slot y"
  have x: "\<not> rs_occupied x" "\<not> rs_rejected_payload x" "\<not> rs_dropped x" "rb_empty_slot y = x"
    using s(2) by (simp_all add: x_def y rb_empty_slot_def readable_def)
  have cap: "0 < rb_capacity b" using o(1) by (simp add: rb_capacity_def)
  define v where "v = rb_vacated b 0 x"
  have v: "recv_ok v" "rb_queue v = (rb_queue b) \<lparr>rq_cells := (rq_cells (rb_queue b))[0 := Gap]\<rparr>"
    using rb_vacated_refines [OF ok cap x(1,2)] x(3) by (simp_all add: v_def)
  have idx: "rb_index b 0 = rb_head b" using o(3) by (simp add: rb_index_def rb_capacity_def)
  have v_eq: "v = b \<lparr>rb_slots := (rb_slots b)[rb_head b := x], rb_payloads := pl_release (rb_payloads b) (rs_payload_index s),
      rb_occupied_index := index_loop (rb_level_offsets b) (rb_occupied_index b) 0 (rb_head b) False,
      rb_storage_index := index_loop (rb_level_offsets b) (rb_storage_index b) 0 (rb_head b) False,
      rb_rejected := rb_rejected b, rb_occupied := rb_occupied b - 1,
      rb_buffered_payload_bytes := rb_buffered_payload_bytes b - pending_bytes s\<rparr>"
    using s unfolding v_def rb_vacated_def Let_def idx by (simp add: unrejected_def readable_def)
  have f_eq: "rb_finish_front c y = b \<lparr>rb_buffered_payload_bytes := rb_buffered_payload_bytes b - pending_bytes s,
      rb_message_query_valid := False, rb_packet_query_valid := False,
      rb_payloads := pl_release (rb_payloads b) (rs_payload_index s),
      rb_storage_index := index_loop (rb_level_offsets b) (rb_storage_index b) 0 (rb_head b) False,
      rb_occupied_index := index_loop (rb_level_offsets b) (rb_occupied_index b) 0 (rb_head b) False,
      rb_slots := (rb_slots b)[rb_head b := x],
      rb_head := (rb_head b + 1) mod length (rb_slots b),
      rb_first_stored_sequence := seq_advanced (rb_first_stored_sequence b) 1,
      rb_classified_loss_prefix := rb_classified_loss_prefix b - min 1 (rb_classified_loss_prefix b),
      rb_occupied := rb_occupied b - 1\<rparr>"
    unfolding rb_finish_front_def Let_def x(4) c using o(3)
    by (simp add: rb_invalidate_delivery_queries_def rb_index_occupied_both rb_set_slot_def rb_advance_frontier_def
        rb_index_def rb_capacity_def y)
  have "rb_finish_front c y = (rb_advance_frontier v 1) \<lparr>rb_message_query_valid := False, rb_packet_query_valid := False\<rparr>"
    unfolding f_eq v_eq by (intro ReceiveBuffer.equality) (simp_all add: rb_advance_frontier_def rb_capacity_def)
  moreover have "rq_cells (rb_queue v) ! j = Gap" if "j < 1" "j < rb_capacity v" for j
    using that cap by (simp add: v(2))
  note rb_frontier_refines [OF v(1) this]
  moreover have "rq_advance 1 (rb_queue v) = rq_advance 1 (rb_queue b)"
    unfolding v(2) by (cases "rq_cells (rb_queue b)") (simp_all add: rq_advance_def)
  ultimately show "recv_ok (rb_finish_front c y)" "rb_queue (rb_finish_front c y) = rq_advance 1 (rb_queue b)"
    by (simp_all add: rb_queue_def)
qed

text \<open>One round of the loop of \<open>pop_stream\<close> at a readable packet.\<close>

lemma rb_stream_loop_step:
  assumes ok: "recv_ok b" and s: "s = rb_slot b 0" "readable s" and room: "written < length dst"
    and due: "\<not> (case due of None \<Rightarrow> False | Some due \<Rightarrow> \<not> due (dh_timestamp (rs_header s)))"
    and chunk: "chunk = take (length dst - written) (drop (rs_payload_offset s) (pl_get (rb_payloads b) (rs_payload_index s)))"
    and y: "y = s \<lparr>rs_payload_offset := rs_payload_offset s + length chunk\<rparr>"
    and c: "c = rb_set_slot (b \<lparr>rb_buffered_payload_bytes := rb_buffered_payload_bytes b - length chunk\<rparr>) 0 y"
  shows "rb_stream_loop (Suc n) due b written dst removed =
      (if rs_payload_offset s + length chunk \<noteq> rs_payload_size s then (written + length chunk, copy_to chunk dst written, removed, c)
       else rb_stream_loop n due (rb_trim_dropped_prefix (rb_finish_front c y)) (written + length chunk) (copy_to chunk dst written) True)"
    "rs_payload_offset s + length chunk \<le> rs_payload_size s"
    "length (pl_get (rb_payloads b) (rs_payload_index s)) = rs_payload_size s"
proof -
  note o = store_okD [OF ok]
  have p: "rb_slots b ! rb_head b = s" "rs_occupied s" using s o(3) by (simp_all add: rb_slot_def rb_index_def rb_capacity_def readable_def)
  show size: "length (pl_get (rb_payloads b) (rs_payload_index s)) = rs_payload_size s" using owns_nth(2) [OF o(5) o(3)] p by simp
  have shape: "rs_payload_offset s \<le> rs_payload_size s" "rs_payload_size s \<le> 1456"
    using o(1,4) s by (auto simp: slot_shape_def rb_slot_ring readable_def)
  have len: "length chunk = min (rs_payload_size s - rs_payload_offset s) (length dst - written)" using size by (simp add: chunk)
  then show le: "rs_payload_offset s + length chunk \<le> rs_payload_size s" using shape by simp
  have chunk': "take (length chunk) (drop (rs_payload_offset s) (pl_get (rb_payloads b) (rs_payload_index s))) = chunk"
    by (simp add: chunk min_def)
  have small: "(rs_payload_offset s + length chunk) mod 65536 = rs_payload_offset s + length chunk" using le shape by simp
  show "rb_stream_loop (Suc n) due b written dst removed =
      (if rs_payload_offset s + length chunk \<noteq> rs_payload_size s then (written + length chunk, copy_to chunk dst written, removed, c)
       else rb_stream_loop n due (rb_trim_dropped_prefix (rb_finish_front c y)) (written + length chunk) (copy_to chunk dst written) True)"
    using room due unfolding rb_stream_loop.simps find_front [OF ok] s(1) [symmetric] if_P [OF s(2)] Let_def option.case
      len [symmetric] chunk' small y [symmetric] c [symmetric] by (simp add: rb_finish_front_def Let_def y)
qed

lemma rb_stream_loop_refines:
  assumes "recv_ok b" "written \<le> length dst"
  shows "\<exists>c. rb_stream_loop n due b written dst removed =
      (written + length (fst (rq_stream n due (rb_queue b) (length dst - written))),
       copy_to (fst (rq_stream n due (rb_queue b) (length dst - written))) dst written,
       removed \<or> fst (snd (rq_stream n due (rb_queue b) (length dst - written))), c)
    \<and> recv_ok c \<and> rb_queue c = snd (snd (rq_stream n due (rb_queue b) (length dst - written)))
    \<and> length (fst (rq_stream n due (rb_queue b) (length dst - written))) \<le> length dst - written"
  using assms
proof (induction n arbitrary: b written dst removed)
  case 0
  then show ?case by (simp add: copy_to_def)
next
  case (Suc n)
  note ok = Suc.prems(1)
  define s where "s = rb_slot b 0"
  obtain cs where cells: "rq_cells (rb_queue b) = slot_cell (rb_payloads b) s # cs"
    using rq_cells_head [OF ok] by (auto simp: s_def)
  show ?case
  proof (cases "written < length dst \<and> readable s \<and> \<not> (case due of None \<Rightarrow> False | Some due \<Rightarrow> \<not> due (dh_timestamp (rs_header s)))")
    case False
    then have "rb_stream_loop (Suc n) due b written dst removed = (written, dst, removed, b)"
      unfolding rb_stream_loop.simps find_front [OF ok] s_def [symmetric]
      by (cases "written < length dst"; cases "readable s") (simp_all add: s_def [symmetric])
    moreover have "rq_stream (Suc n) due (rb_queue b) (length dst - written) = ([], False, rb_queue b)"
      using False cells by (auto simp: slot_cell_def readable_def)
    ultimately show ?thesis using ok by (simp add: copy_to_def)
  next
    case True
    let ?body = "pl_get (rb_payloads b) (rs_payload_index s)"
    define chunk where "chunk = take (length dst - written) (drop (rs_payload_offset s) ?body)"
    define y where "y = s \<lparr>rs_payload_offset := rs_payload_offset s + length chunk\<rparr>"
    define c where "c = rb_set_slot (b \<lparr>rb_buffered_payload_bytes := rb_buffered_payload_bytes b - length chunk\<rparr>) 0 y"
    have r: "readable s" "\<not> (case due of None \<Rightarrow> False | Some due \<Rightarrow> \<not> due (dh_timestamp (rs_header s)))" "written < length dst"
      using True by auto
    note step = rb_stream_loop_step [OF ok s_def r(1,3,2) chunk_def y_def c_def]
    have cell: "slot_cell (rb_payloads b) s = Data (rs_header s) ?body (rs_payload_offset s) False"
      using r(1) by (simp add: slot_cell_def readable_def)
    have room: "length chunk \<le> length dst - written" by (simp add: chunk_def)
    have queue: "rq_stream (Suc n) due (rb_queue b) (length dst - written) =
        (if rs_payload_offset s + length chunk \<noteq> rs_payload_size s
         then (chunk, False, (rb_queue b) \<lparr>rq_cells := Data (rs_header s) ?body (rs_payload_offset s + length chunk) False # cs\<rparr>)
         else let (rest, _, q) = rq_stream n due (rq_trim (rq_advance 1 (rb_queue b))) (length dst - written - length chunk)
              in (chunk @ rest, True, q))"
      using r(2,3) step(3) unfolding rq_stream.simps cells cell by (simp add: chunk_def Let_def)
    show ?thesis
    proof (cases "rs_payload_offset s + length chunk = rs_payload_size s")
      case False
      note c' = rb_read_front [OF ok s_def r(1) step(2) c_def [unfolded y_def]]
      show ?thesis using step(1) False c' cells room unfolding queue by (intro exI [of _ c]) simp
    next
      case end_reached: True
      have "length chunk = pending_bytes s" using end_reached r(1) by (simp add: pending_bytes_def readable_def)
      then have "c = rb_set_slot (b \<lparr>rb_buffered_payload_bytes := rb_buffered_payload_bytes b - pending_bytes s\<rparr>) 0 y"
        "y = s \<lparr>rs_payload_offset := rs_payload_size s\<rparr>" using end_reached by (simp_all add: c_def y_def)
      note f = rb_finish_front_refines [OF ok s_def r(1) this]
      define e where "e = rb_trim_dropped_prefix (rb_finish_front c y)"
      have e: "recv_ok e" "rb_queue e = rq_trim (rq_advance 1 (rb_queue b))" using rb_trim_refines [OF f(1)] f(2) by (simp_all add: e_def)
      have dst: "length (copy_to chunk dst written) = length dst" using room r(3) by simp
      define out where "out = rq_stream n due (rb_queue e) (length dst - (written + length chunk))"
      have fits: "written + length chunk \<le> length dst" using room r(3) by simp
      obtain g where g: "rb_stream_loop n due e (written + length chunk) (copy_to chunk dst written) True =
          (written + length chunk + length (fst out), copy_to (fst out) (copy_to chunk dst written) (written + length chunk), True, g)"
        "recv_ok g" "rb_queue g = snd (snd out)" "length (fst out) \<le> length dst - (written + length chunk)"
        using Suc.IH [OF e(1), of "written + length chunk" "copy_to chunk dst written" True] fits
        unfolding dst out_def [symmetric] by auto
      have "copy_to (fst out) (copy_to chunk dst written) (written + length chunk) = copy_to (chunk @ fst out) dst written"
        using g(4) fits by (intro copy_to_twice) linarith
      moreover have "rq_stream (Suc n) due (rb_queue b) (length dst - written) = (chunk @ fst out, True, snd (snd out))"
        unfolding queue using end_reached by (simp add: out_def e(2) case_prod_unfold Let_def)
      ultimately show ?thesis using step(1) end_reached g fits by (intro exI [of _ g]) (simp add: e_def [symmetric])
    qed
  qed
qed

text \<open>Each full round removes a packet, so one more round than there are packets is enough.\<close>

lemma rq_stored_advance:
  "rq_cells q = c # cs \<Longrightarrow> length (rq_stored (rq_advance 1 q)) + (if is_data c then 1 else 0) = length (rq_stored q)"
  by (simp add: rq_stored_def rq_advance_def filter_replicate)

lemma rq_trim_stored_le: "length (rq_stored (rq_trim_loop n q)) \<le> length (rq_stored q)"
proof (induction n arbitrary: q)
  case (Suc n)
  show ?case
  proof (cases "rq_trim_step q")
    case (Inl q')
    then have "rq_stored q' = rq_stored q" by (auto simp: rq_trim_step_def rq_stored_def split: list.splits Cell.splits if_splits)
    then show ?thesis using Inl by simp
  next
    case (Inr q')
    then obtain c cs where cells: "rq_cells q = c # cs" and q': "rq_cells q' = rq_cells (rq_advance 1 q)"
      by (cases "rq_cells q") (auto simp: rq_trim_step_def split: Cell.splits if_splits)
    have "length (rq_stored q') \<le> length (rq_stored q)"
      using rq_stored_advance [OF cells] q' by (simp add: rq_stored_def split: if_splits)
    then show ?thesis using Inr order_trans [OF Suc.IH [of q']] by simp
  qed
qed simp

lemma rq_stream_fuel: "length (rq_stored q) < n \<Longrightarrow> rq_stream (n + k) due q room = rq_stream n due q room"
proof (induction n arbitrary: q room)
  case (Suc n)
  show ?case
  proof (cases "rq_cells q")
    case (Cons c cs)
    show ?thesis
    proof (cases c)
      case (Data h body read rejected)
      have "length (rq_stored (rq_trim (rq_advance 1 q))) < n"
        using Suc.prems rq_stored_advance [OF Cons] Data
          order_trans [OF rq_trim_stored_le [of "length (rq_cells (rq_advance 1 q)) + 1" "rq_advance 1 q"] order_refl]
        by (simp add: rq_trim_def del: rq_trim_loop.simps)
      from Suc.IH [OF this] show ?thesis using Cons Data by (simp add: Let_def case_prod_unfold)
    qed (use Cons in simp_all)
  qed simp
qed simp

definition rq_pop_stream ::
    "ReceiveQueue \<Rightarrow> bytes \<Rightarrow> (PacketTimestamp \<Rightarrow> bool) option \<Rightarrow> (Error + ReceivedMessage) \<times> bytes \<times> ReceiveQueue" where
  "rq_pop_stream q dst due =
     (if dst = [] then (Inl invalid_state, dst, q)
      else case rq_cells q of
             Data h body read rejected # cs \<Rightarrow>
               if rejected \<or> (case due of None \<Rightarrow> False | Some due \<Rightarrow> \<not> due (dh_timestamp h)) then (Inl would_block, dst, q)
               else let (out, _, q') = rq_stream (length (rq_cells q) + 1) due q (length dst)
                    in (Inr (received_of h (rq_first q) (length out)), copy_to out dst 0, q')
           | _ \<Rightarrow> (Inl would_block, dst, q))"

lemma rb_pop_stream_refines:
  assumes ok: "recv_ok b"
  shows "case rb_pop_stream b dst due of (r, dst', b') \<Rightarrow> recv_ok b' \<and> rq_pop_stream (rb_queue b) dst due = (r, dst', rb_queue b')"
proof -
  define s where "s = rb_slot b 0"
  obtain cs where cells: "rq_cells (rb_queue b) = slot_cell (rb_payloads b) s # cs"
    using rq_cells_head [OF ok] by (auto simp: s_def)
  show ?thesis
  proof (cases "dst \<noteq> [] \<and> readable s \<and> \<not> (case due of None \<Rightarrow> False | Some due \<Rightarrow> \<not> due (dh_timestamp (rs_header s)))")
    case False
    have "rb_pop_stream b dst due = (if dst = [] then Inl invalid_state else Inl would_block, dst, b)"
      using False unfolding rb_pop_stream_def find_front [OF ok] s_def [symmetric]
      by (cases "dst = []"; cases "readable s") (simp_all add: s_def [symmetric])
    moreover have "rq_pop_stream (rb_queue b) dst due = (if dst = [] then Inl invalid_state else Inl would_block, dst, rb_queue b)"
      using False cells by (auto simp: rq_pop_stream_def slot_cell_def readable_def)
    ultimately show ?thesis using ok by simp
  next
    case True
    define out where "out = rq_stream (rb_capacity b + 1) due (rb_queue b) (length dst)"
    obtain c where c: "rb_stream_loop (rb_capacity b + 1) due b 0 dst False = (length (fst out), copy_to (fst out) dst 0, fst (snd out), c)"
      "recv_ok c" "rb_queue c = snd (snd out)"
      using rb_stream_loop_refines [OF ok, of 0 dst "rb_capacity b + 1" due False] unfolding out_def by auto
    have "rb_pop_stream b dst due = (Inr (received_of (rs_header s) (rb_first_stored_sequence b) (length (fst out))),
        copy_to (fst out) dst 0, if fst (snd out) then rb_refresh_first_buffered_timestamp c else c)"
      using True unfolding rb_pop_stream_def find_front [OF ok] s_def [symmetric]
      by (simp add: c(1) [unfolded add_Suc_right One_nat_def add_0_right] s_def [symmetric] received_of_def del: rb_stream_loop.simps)
    moreover have "rq_pop_stream (rb_queue b) dst due =
        (Inr (received_of (rs_header s) (rb_first_stored_sequence b) (length (fst out))), copy_to (fst out) dst 0, snd (snd out))"
      using True cells unfolding rq_pop_stream_def rb_queue_fields out_def [symmetric]
      by (simp add: slot_cell_def readable_def case_prod_unfold Let_def)
    ultimately show ?thesis using c(2,3) rb_refresh_first_same(1,2) [of c] by simp
  qed
qed

section \<open>A message behind a gap\<close>

text \<open>
  \<open>message\<close> is the complete message that the query found; the packet of a message of one packet
  leaves a resolved cell behind.
\<close>

definition rq_pop_unordered ::
    "ReceiveQueue \<Rightarrow> BufferedMessageInfo option \<Rightarrow> bytes \<Rightarrow> (Error + ReceivedMessage) \<times> bytes \<times> ReceiveQueue" where
  "rq_pop_unordered q message dst =
     (case message of
        None \<Rightarrow> (Inl would_block, dst, q)
      | Some message \<Rightarrow>
          if bi_first_sequence message = rq_first q then rq_pop q dst
          else if bi_first_sequence message \<noteq> bi_last_sequence message then (Inl invalid_state, dst, q)
          else (case rq_find q (bi_first_sequence message) of
                  None \<Rightarrow> (Inl invalid_state, dst, q)
                | Some i \<Rightarrow>
                    (case rq_cells q ! i of
                       Data h body read rejected \<Rightarrow>
                         if dh_boundary h \<noteq> MessageBoundary_solo \<or> read \<noteq> 0 then (Inl invalid_state, dst, q)
                         else if length dst < length body then (Inl buffer_too_small, dst, q)
                         else (Inr (received_of h (bi_first_sequence message) (length body)), copy_to body dst 0,
                               rq_trim (rq_advance_ack (q \<lparr>rq_cells := (rq_cells q)[i := Dropped]\<rparr>)))
                     | _ \<Rightarrow> (Inl invalid_state, dst, q))))"

lemma rb_first_complete_same:
  "recv_ok (snd (rb_first_complete_message b)) = recv_ok b" "rb_queue (snd (rb_first_complete_message b)) = rb_queue b"
  by (simp_all add: rb_first_complete_message_def Let_def rb_queue_def del: rb_message_loop.simps)

text \<open>The state changes of the delivery of the packet at offset \<open>i\<close>.\<close>

definition rb_take_slot :: "ReceiveBuffer \<Rightarrow> nat \<Rightarrow> ReceiveBuffer" where
  "rb_take_slot b i =
     (let slot = rb_slot b i;
          b = rb_invalidate_delivery_queries b;
          b = b \<lparr>rb_payloads := pl_release (rb_payloads b) (rs_payload_index slot),
                 rb_buffered_payload_bytes := rb_buffered_payload_bytes b - rs_payload_size slot,
                 rb_occupied := rb_occupied b - 1\<rparr>;
          b = rb_index_occupied b (rb_index b i) False True
      in rb_set_slot b i ((rb_empty_slot (rb_slot b i)) \<lparr>rs_dropped := True\<rparr>))"

lemma rb_take_slot_refines:
  assumes ok: "recv_ok b" and i: "i < rb_capacity b" "readable (rb_slot b i)" "rs_payload_offset (rb_slot b i) = 0"
  shows "recv_ok (rb_take_slot b i)"
    "rb_queue (rb_take_slot b i) = (rb_queue b) \<lparr>rq_cells := (rq_cells (rb_queue b))[i := Dropped]\<rparr>"
proof -
  define s where "s = rb_slot b i"
  define x where "x = (rb_empty_slot s) \<lparr>rs_dropped := True\<rparr>"
  have s: "rs_occupied s" "\<not> rs_rejected_payload s" "rs_payload_offset s = 0" using i by (simp_all add: s_def readable_def)
  have x: "\<not> rs_occupied x" "\<not> rs_rejected_payload x" "rs_dropped x" using s by (simp_all add: x_def rb_empty_slot_def)
  have t_eq: "rb_take_slot b i = b \<lparr>rb_message_query_valid := False, rb_packet_query_valid := False,
      rb_payloads := pl_release (rb_payloads b) (rs_payload_index s),
      rb_buffered_payload_bytes := rb_buffered_payload_bytes b - rs_payload_size s, rb_occupied := rb_occupied b - 1,
      rb_storage_index := index_loop (rb_level_offsets b) (rb_storage_index b) 0 (rb_index b i) False,
      rb_occupied_index := index_loop (rb_level_offsets b) (rb_occupied_index b) 0 (rb_index b i) False,
      rb_slots := (rb_slots b)[rb_index b i := x]\<rparr>"
    by (simp add: rb_take_slot_def rb_invalidate_delivery_queries_def rb_index_occupied_both rb_set_slot_def x_def s_def
        rb_slot_def rb_index_def rb_capacity_def Let_def)
  have "rb_take_slot b i = (rb_vacated b i x) \<lparr>rb_message_query_valid := False, rb_packet_query_valid := False\<rparr>"
    unfolding t_eq rb_vacated_def Let_def s_def [symmetric] using s
    by (intro ReceiveBuffer.equality) (simp_all add: unrejected_def pending_bytes_def)
  then show "recv_ok (rb_take_slot b i)"
    "rb_queue (rb_take_slot b i) = (rb_queue b) \<lparr>rq_cells := (rq_cells (rb_queue b))[i := Dropped]\<rparr>"
    using rb_vacated_refines [OF ok i(1) x(1,2)] x(3) by (simp_all add: rb_queue_def)
qed

lemma rb_pop_unordered_refines:
  assumes ok: "recv_ok b"
  shows "case rb_pop_message_unordered b dst of (r, dst', b') \<Rightarrow>
    recv_ok b' \<and> rq_pop_unordered (rb_queue b) (fst (rb_first_complete_message b)) dst = (r, dst', rb_queue b')"
proof -
  obtain message a where query: "rb_first_complete_message b = (message, a)" by fastforce
  have a: "recv_ok a" "rb_queue a = rb_queue b" using ok rb_first_complete_same [of b] query by simp_all
  show ?thesis
  proof (cases message)
    case None
    then show ?thesis using a by (simp add: rb_pop_message_unordered_def query rq_pop_unordered_def)
  next
    case (Some info)
    have unordered: "rb_pop_message_unordered b dst =
      (if bi_first_sequence info = rb_first_stored_sequence a then rb_pop_message a dst
       else if bi_first_sequence info \<noteq> bi_last_sequence info then (Inl invalid_state, dst, a)
       else (case rb_find a (bi_first_sequence info) of
           None \<Rightarrow> (Inl invalid_state, dst, a)
         | Some i \<Rightarrow>
             if dh_boundary (rs_header (rb_slot a i)) \<noteq> MessageBoundary_solo \<or> rs_payload_offset (rb_slot a i) \<noteq> 0
             then (Inl invalid_state, dst, a)
             else if length dst < rs_payload_size (rb_slot a i) then (Inl buffer_too_small, dst, a)
             else (Inr (received_of (rs_header (rb_slot a i)) (bi_first_sequence info) (rs_payload_size (rb_slot a i))),
                   copy_to (take (rs_payload_size (rb_slot a i)) (pl_get (rb_payloads a) (rs_payload_index (rb_slot a i)))) dst 0,
                   rb_refresh_buffered_timestamp_bounds (rb_trim_dropped_prefix (rb_advance_acknowledgement (rb_take_slot a i))))))"
    proof (cases "rb_find a (bi_first_sequence info)")
      case (Some i)
      then have "nat (seq_distance (bi_first_sequence info) (rb_first_stored_sequence a)) = i"
        by (auto simp: rb_find_def Let_def split: if_splits)
      then have i: "nat (seq_distance (bi_first_sequence info) (rb_first_stored_sequence (rb_invalidate_delivery_queries a))) = i"
        by (simp add: rb_invalidate_delivery_queries_def)
      have pool: "rb_payloads (rb_invalidate_delivery_queries a) = rb_payloads a" by (simp add: rb_invalidate_delivery_queries_def)
      have fs: "rb_first_stored_sequence (b \<lparr>rb_payloads := x, rb_buffered_payload_bytes := y, rb_occupied := z\<rparr>) = rb_first_stored_sequence b"
        for b x y z by simp
      show ?thesis unfolding rb_pop_message_unordered_def query \<open>message = Some info\<close> Let_def prod.case option.case Some
        rb_take_slot_def fs i pool received_of_def ..
    next
      case None
      show ?thesis unfolding rb_pop_message_unordered_def query \<open>message = Some info\<close> Let_def prod.case option.case None ..
    qed
    have queue: "rq_pop_unordered (rb_queue b) (fst (rb_first_complete_message b)) dst = rq_pop_unordered (rb_queue a) (Some info) dst"
      by (simp add: query Some a(2))
    show ?thesis
    proof (cases "bi_first_sequence info \<noteq> rb_first_stored_sequence a \<and> bi_first_sequence info = bi_last_sequence info")
      case False
      then show ?thesis using rb_pop_message_refines [OF a(1), of dst] a(1)
        unfolding queue unordered unfolding rq_pop_unordered_def option.case rb_queue_fields by (cases "bi_first_sequence info = rb_first_stored_sequence a") simp_all
    next
      case True
      show ?thesis
      proof (cases "rb_find a (bi_first_sequence info)")
        case None
        then show ?thesis using True a(1) unfolding queue unordered unfolding rq_pop_unordered_def option.case rb_find_refines [OF a(1)] by auto
      next
        case (Some i)
        note f = rb_find_some [OF a(1) Some]
        let ?s = "rb_slot a i"
        have size: "length (pl_get (rb_payloads a) (rs_payload_index ?s)) = rs_payload_size ?s"
          using owns_nth(2) [OF store_okD(5) [OF a(1)], of "rb_index a i"] f(1,2)
          by (auto simp: rb_slot_def rb_index_def rb_capacity_def readable_def ring_pos)
        let ?t = "rb_advance_acknowledgement (rb_take_slot a i)"
        have t: "recv_ok ?t \<and> rb_queue ?t = rq_advance_ack ((rb_queue a) \<lparr>rq_cells := (rq_cells (rb_queue a))[i := Dropped]\<rparr>)"
          if "rs_payload_offset ?s = 0"
          using rb_advance_ack_refines [OF rb_take_slot_refines(1) [OF a(1) f(1,2) that]] rb_take_slot_refines(2) [OF a(1) f(1,2) that]
          by simp
        show ?thesis using True Some f(4) size a(1) t rb_trim_refines [of ?t] rb_refresh_bounds_same [of "rb_trim_dropped_prefix ?t"]
          unfolding queue unordered unfolding rq_pop_unordered_def option.case rb_find_refines [OF a(1), symmetric] by auto
      qed
    qed
  qed
qed

end
