(* ===== verification/Receive_Properties.thy ===== *)
theory Receive_Properties
  imports Receive_Stream
begin

text \<open>
  The receive buffer as a whole: from its construction on, every sequence of its operations gives
  the answers of the abstract queue, and its counters are what the queue holds.
\<close>

section \<open>Construction and gap deadlines\<close>

lemma make_ReceiveBuffer_refines:
  assumes "0 < capacity" "capacity < 1073741824" "length storage = capacity * 1456"
  shows "\<exists>b. make_ReceiveBuffer storage initial capacity = Some b \<and> recv_ok b
    \<and> rb_queue b = \<lparr>rq_cells = replicate capacity Gap, rq_first = initial, rq_ack = initial, rq_discarding = None\<rparr>"
proof -
  obtain pool where pool: "make_PayloadPool storage capacity = Some pool"
    using assms by (auto simp: make_PayloadPool_def pl_checked_bytes_def)
  note p = make_PayloadPool_ok [OF pool]
  obtain offsets used where used: "level_offsets ((capacity + 63) div 64) 0 = (offsets, used)" by fastforce
  have index: "index_shows capacity offsets (replicate used 0) {}"
    by (rule index_shows_empty [OF level_offsets_layout [OF assms(1) used]])
  have trie: "trie_shows (make_RejectedMessages (capacity * 2)) {#}"
    using assms(1,2) by (intro make_RejectedMessages_shows) (simp_all add: no_rejected_node_def)
  have owns: "owns pool (replicate capacity default_ReceiveSlot)"
    using p assms(3) by (auto simp: owns_def owned_def default_ReceiveSlot_def)
  have empty: "\<not> rs_occupied default_ReceiveSlot" "\<not> rs_rejected_payload default_ReceiveSlot" "\<not> rs_dropped default_ReceiveSlot"
    by (simp_all add: default_ReceiveSlot_def)
  then have marks: "marks readable (replicate capacity default_ReceiveSlot) = {}"
    "marks rs_occupied (replicate capacity default_ReceiveSlot) = {}"
    by (auto simp: marks_def readable_def)
  have "store_ok 0 initial (replicate capacity default_ReceiveSlot) pool offsets (replicate used 0) (replicate used 0)
    (make_RejectedMessages (capacity * 2)) 0 0"
    by (rule store_okI)
      (use assms owns index trie in \<open>simp_all add: marks empty slot_shape_def ring_at_def
         rejected_bag_def make_RejectedMessages_def pending_bytes_def\<close>)
  moreover have "store_cells 0 (replicate capacity default_ReceiveSlot) pool = replicate capacity Gap"
    by (rule nth_equalityI) (use assms(1) in \<open>simp_all add: ring_at_def slot_cell_def empty\<close>)
  ultimately show ?thesis
    using assms pool used by (simp add: make_ReceiveBuffer_def rb_queue_def)
qed

lemma rb_mark_slot_refines:
  fixes deadline :: u64
  assumes ok: "recv_ok b" and i: "i < rb_capacity b" "\<not> rs_occupied (rb_slot b i)"
  defines "b' \<equiv> rb_set_slot b i ((rb_slot b i) \<lparr>rs_gap_deadline_microseconds := deadline\<rparr>)"
  shows "recv_ok b'" "rb_queue b' = rb_queue b"
proof -
  define s where "s = ring_at (rb_slots b) (rb_head b) i"
  define p where "p = (rb_head b + i) mod length (rb_slots b)"
  let ?x = "s \<lparr>rs_gap_deadline_microseconds := deadline\<rparr>"
  have s: "rb_slot b i = s" "rb_index b i = p" "i < length (rb_slots b)" "\<not> rs_occupied s"
    using i by (simp_all add: s_def p_def rb_slot_ring rb_index_def rb_capacity_def)
  have b': "b' = b \<lparr>rb_slots := (rb_slots b)[p := ?x]\<rparr>" by (simp add: b'_def rb_set_slot_def s)
  show "recv_ok b'"
    using store_touch [OF ok s(3) s_def p_def, of ?x] s(4) by (simp add: b' pending_bytes_def)
  have "slot_cell (rb_payloads b) ?x = store_cells (rb_head b) (rb_slots b) (rb_payloads b) ! i"
    using s(3) by (simp add: slot_cell_def s_def)
  then show "rb_queue b' = rb_queue b"
    using cells_touch [OF s(3) p_def, of ?x "rb_payloads b"] by (simp add: b' rb_queue_def)
qed

lemma rb_mark_gap_loop_refines:
  "recv_ok b \<Longrightarrow> recv_ok (rb_mark_gap_loop n b sequence final deadline)
    \<and> rb_queue (rb_mark_gap_loop n b sequence final deadline) = rb_queue b"
proof (induction n arbitrary: b sequence)
  case (Suc n)
  define offset where "offset = seq_distance sequence (rb_first_stored_sequence b)"
  define hit where "hit \<longleftrightarrow> offset \<ge> 0 \<and> nat offset < rb_capacity b \<and> \<not> rs_occupied (rb_slot b (nat offset))
    \<and> \<not> rs_dropped (rb_slot b (nat offset)) \<and> rs_gap_deadline_microseconds (rb_slot b (nat offset)) = 0"
  define c where "c = (if hit then rb_set_slot b (nat offset) ((rb_slot b (nat offset)) \<lparr>rs_gap_deadline_microseconds := deadline\<rparr>) else b)"
  have c: "recv_ok c" "rb_queue c = rb_queue b"
    using rb_mark_slot_refines [OF Suc.prems, of "nat offset" deadline] Suc.prems by (cases hit; simp add: c_def; simp add: hit_def)+
  have "rb_mark_gap_loop (Suc n) b sequence final deadline =
      (if sequence = final then c else rb_mark_gap_loop n c (seq_next sequence) final deadline)"
    by (simp add: Let_def c_def hit_def offset_def)
  then show ?case using c Suc.IH [OF c(1)] by simp
qed simp

lemma rb_mark_gap_refines:
  "recv_ok b \<Longrightarrow> recv_ok (rb_mark_gap b interval deadline) \<and> rb_queue (rb_mark_gap b interval deadline) = rb_queue b"
  using rb_mark_gap_loop_refines by (simp add: rb_mark_gap_def Let_def del: rb_mark_gap_loop.simps)

section \<open>Runs of the buffer\<close>

datatype receive_call =
    Insert PacketView
  | Find SequenceNumber
  | Reject SequenceNumber
  | Pop bytes
  | Pop_Stream bytes "(PacketTimestamp \<Rightarrow> bool) option"
  | Mark_Gap SequenceRange u64
  | Discard_Before SequenceNumber
  | Drop_Range SequenceRange

datatype receive_answer =
    Inserted "Error + ReceiveInsert"
  | Found "nat option"
  | Popped "Error + ReceivedMessage" bytes
  | Status Error
  | Count Error nat
  | Nothing

fun rb_step :: "ReceiveBuffer \<Rightarrow> receive_call \<Rightarrow> receive_answer \<times> ReceiveBuffer" where
  "rb_step b (Insert packet) = (let (r, b) = rb_insert b packet in (Inserted r, b))"
| "rb_step b (Find sequence) = (Found (rb_find b sequence), b)"
| "rb_step b (Reject sequence) = (Nothing, rb_discard_message_payload b sequence)"
| "rb_step b (Pop dst) = (let (r, dst, b) = rb_pop_message b dst in (Popped r dst, b))"
| "rb_step b (Pop_Stream dst due) = (let (r, dst, b) = rb_pop_stream b dst due in (Popped r dst, b))"
| "rb_step b (Mark_Gap interval deadline) = (Nothing, rb_mark_gap b interval deadline)"
| "rb_step b (Discard_Before sequence) = (let (e, b) = rb_discard_before b sequence in (Status e, b))"
| "rb_step b (Drop_Range interval) = (let (e, n, b) = rb_drop_range b interval in (Count e n, b))"

fun rq_step :: "ReceiveQueue \<Rightarrow> receive_call \<Rightarrow> receive_answer \<times> ReceiveQueue" where
  "rq_step q (Insert packet) = (let (r, q) = rq_insert q packet in (Inserted r, q))"
| "rq_step q (Find sequence) = (Found (rq_find q sequence), q)"
| "rq_step q (Reject sequence) = (Nothing, rq_reject q sequence)"
| "rq_step q (Pop dst) = (let (r, dst, q) = rq_pop q dst in (Popped r dst, q))"
| "rq_step q (Pop_Stream dst due) = (let (r, dst, q) = rq_pop_stream q dst due in (Popped r dst, q))"
| "rq_step q (Mark_Gap interval deadline) = (Nothing, q)"
| "rq_step q (Discard_Before sequence) = (let (e, q) = rq_discard_before q sequence in (Status e, q))"
| "rq_step q (Drop_Range interval) = (let (e, n, q) = rq_drop_range q interval in (Count e n, q))"

primrec run_calls :: "('s \<Rightarrow> receive_call \<Rightarrow> receive_answer \<times> 's) \<Rightarrow> 's \<Rightarrow> receive_call list \<Rightarrow> receive_answer list \<times> 's" where
  "run_calls step s [] = ([], s)"
| "run_calls step s (call # calls) =
     (let (answer, s) = step s call; (answers, s) = run_calls step s calls in (answer # answers, s))"

lemma rb_step_refines:
  assumes "recv_ok b"
  shows "case rb_step b call of (answer, b') \<Rightarrow> recv_ok b' \<and> rq_step (rb_queue b) call = (answer, rb_queue b')"
proof (cases call)
  case (Insert packet)
  then show ?thesis using rb_insert_refines [OF assms, of packet] by (simp add: split_beta)
next
  case (Find sequence)
  then show ?thesis using assms by (simp add: rb_find_refines)
next
  case (Reject sequence)
  then show ?thesis using rb_reject_refines [OF assms, of sequence] by simp
next
  case (Pop dst)
  then show ?thesis using rb_pop_message_refines [OF assms, of dst] by (auto simp: split_beta)
next
  case (Pop_Stream dst due)
  then show ?thesis using rb_pop_stream_refines [OF assms, of dst due] by (auto simp: split_beta)
next
  case (Mark_Gap interval deadline)
  then show ?thesis using rb_mark_gap_refines [OF assms, of interval deadline] by simp
next
  case (Discard_Before sequence)
  then show ?thesis using rb_discard_before_refines [OF assms, of sequence] by (auto simp: split_beta)
next
  case (Drop_Range interval)
  then show ?thesis using rb_drop_range_refines [OF assms, of interval] by (auto simp: split_beta)
qed

lemma rb_run_refines:
  "recv_ok b \<Longrightarrow> recv_ok (snd (run_calls rb_step b calls))
    \<and> run_calls rq_step (rb_queue b) calls = (fst (run_calls rb_step b calls), rb_queue (snd (run_calls rb_step b calls)))"
proof (induction calls arbitrary: b)
  case (Cons call calls)
  obtain answer c where c: "rb_step b call = (answer, c)" by fastforce
  with rb_step_refines [OF Cons.prems, of call] have "recv_ok c" "rq_step (rb_queue b) call = (answer, rb_queue c)" by simp_all
  then show ?case using Cons.IH [of c] c by (simp add: split_beta)
qed simp

text \<open>What the counters count.\<close>

fun unread :: "Cell \<Rightarrow> nat" where
  "unread (Data h body read rejected) = length body - read"
| "unread c = 0"

lemma ring_positions:
  assumes "head < length xs"
  shows "mset (map (ring_at xs head) [0..<length xs]) = mset xs"
proof -
  have "map (ring_at xs head) [0..<length xs] = rotate head xs"
    by (rule nth_equalityI) (simp_all add: ring_at_def nth_rotate add.commute)
  moreover have "mset (rotate head xs) = mset (take (head mod length xs) xs @ drop (head mod length xs) xs)"
    by (simp only: rotate_drop_take mset_append add.commute)
  ultimately show ?thesis by simp
qed

lemma recv_ok_counters:
  assumes ok: "recv_ok b"
  shows "rb_occupied b = length (filter is_data (rq_cells (rb_queue b)))"
    and "rb_buffered_payload_bytes b = sum_list (map unread (rq_cells (rb_queue b)))"
proof -
  let ?ring = "map (ring_at (rb_slots b) (rb_head b)) [0..<length (rb_slots b)]"
  note o = store_okD [OF ok]
  have cells: "rq_cells (rb_queue b) = map (slot_cell (rb_payloads b)) ?ring" by (simp add: rb_queue_def store_cells_def)
  have ring: "mset ?ring = mset (rb_slots b)" by (rule ring_positions [OF o(3)])
  have "is_data (slot_cell (rb_payloads b) s) = rs_occupied s" for s by (simp add: slot_cell_def)
  then have "length (filter is_data (rq_cells (rb_queue b))) = length (filter rs_occupied ?ring)"
    by (simp add: cells filter_map comp_def del: map_map)
  also have "\<dots> = size (filter_mset rs_occupied (mset ?ring))" by (simp add: size_mset [symmetric] del: size_mset)
  also have "\<dots> = length (filter rs_occupied (rb_slots b))" unfolding ring by (metis mset_filter size_mset)
  finally show "rb_occupied b = length (filter is_data (rq_cells (rb_queue b)))" using o(10) by simp
  have "length (pl_get (rb_payloads b) (rs_payload_index s)) = rs_payload_size s" if "s \<in> set (rb_slots b)" "rs_occupied s" for s
    using o(5) that by (simp add: owns_def)
  then have "unread (slot_cell (rb_payloads b) s) = pending_bytes s" if "s \<in> set (rb_slots b)" for s
    using that by (simp add: slot_cell_def pending_bytes_def)
  then have "map unread (rq_cells (rb_queue b)) = map pending_bytes ?ring"
    unfolding cells map_map by (auto simp: ring_at_def ring_pos)
  then show "rb_buffered_payload_bytes b = sum_list (map unread (rq_cells (rb_queue b)))"
    using o(11) ring by (metis mset_map sum_mset_sum_list)
qed

text \<open>
  C4. The receive buffer is a queue of packets. A buffer of fewer than \<open>2 ^ 30\<close> packets can be
  constructed and starts empty. After any sequence of insertions, searches, rejections of
  messages, ordered message deliveries, stream deliveries, gap marks, discards and drops, the
  answers (statuses, delivered bytes and headers, counts, errors) are those of the abstract queue,
  which knows only the cells of the window, the acknowledgement and the message being discarded.
  The ring, the payload pool, the occupancy indices and the trie of rejected messages still agree
  with it, and the buffer's counters are the number of packets and of unread bytes it holds.
\<close>

theorem receive_buffer_refines_queue:
  fixes storage :: bytes and initial :: SequenceNumber and calls :: "receive_call list"
  assumes "0 < capacity" "capacity < 1073741824" "length storage = capacity * 1456"
  defines "q \<equiv> \<lparr>rq_cells = replicate capacity Gap, rq_first = initial, rq_ack = initial, rq_discarding = None\<rparr>"
  shows "\<exists>b0 answers b. make_ReceiveBuffer storage initial capacity = Some b0
    \<and> run_calls rb_step b0 calls = (answers, b) \<and> run_calls rq_step q calls = (answers, rb_queue b) \<and> recv_ok b
    \<and> rb_occupied b = length (filter is_data (rq_cells (rb_queue b)))
    \<and> rb_buffered_payload_bytes b = sum_list (map unread (rq_cells (rb_queue b)))"
proof -
  obtain b0 where b0: "make_ReceiveBuffer storage initial capacity = Some b0" "recv_ok b0" "rb_queue b0 = q"
    using make_ReceiveBuffer_refines [OF assms(1-3), of initial] unfolding q_def by blast
  have run: "recv_ok (snd (run_calls rb_step b0 calls))"
    "run_calls rq_step q calls = (fst (run_calls rb_step b0 calls), rb_queue (snd (run_calls rb_step b0 calls)))"
    using rb_run_refines [OF b0(2), of calls] unfolding b0(3) by blast+
  from b0(1) run(2) run(1) recv_ok_counters [OF run(1)] show ?thesis
    by (intro exI [of _ b0] exI [of _ "fst (run_calls rb_step b0 calls)"] exI [of _ "snd (run_calls rb_step b0 calls)"] conjI)
      (simp_all only: prod.collapse)
qed

definition solo_packet :: "u32 \<Rightarrow> bytes \<Rightarrow> PacketView" where
  "solo_packet n body =
     \<lparr>pv_kind = PacketKind_data,
      pv_data = default_DataHeader \<lparr>dh_sequence := SequenceNumber n, dh_message_number := n, dh_boundary := MessageBoundary_solo\<rparr>,
      pv_control = default_ControlHeader, pv_payload = body\<rparr>"

theorem receive_buffer_refines_queue_witness:
  "\<exists>b0 answers b. make_ReceiveBuffer (replicate 2912 0) (SequenceNumber 5) 2 = Some b0
    \<and> run_calls rb_step b0 [Insert (solo_packet 6 [66]), Pop [0, 0], Insert (solo_packet 5 [55]), Pop [0, 0], Pop [0, 0]] = (answers, b)
    \<and> answers ! 1 = Popped (Inl would_block) [0, 0]
    \<and> (\<exists>m5 m6. answers ! 3 = Popped (Inr m5) [55, 0] \<and> answers ! 4 = Popped (Inr m6) [66, 0])"
proof -
  let ?calls = "[Insert (solo_packet 6 [66]), Pop [0, 0], Insert (solo_packet 5 [55]), Pop [0, 0], Pop [0, 0]]"
  let ?q = "\<lparr>rq_cells = replicate 2 Gap, rq_first = SequenceNumber 5, rq_ack = SequenceNumber 5, rq_discarding = None\<rparr>"
  let ?m = "\<lambda>n. \<lparr>rm_bytes_written = 1, rm_message_number = n, rm_first_sequence = SequenceNumber n,
    rm_timestamp = PacketTimestamp 0, rm_delivery_time_microseconds = None\<rparr>"
  have "let answers = fst (run_calls rq_step ?q ?calls)
    in answers ! 1 = Popped (Inl would_block) [0, 0] \<and> answers ! 3 = Popped (Inr (?m 5)) [55, 0]
      \<and> answers ! 4 = Popped (Inr (?m 6)) [66, 0]" by code_simp
  then show ?thesis
    using receive_buffer_refines_queue [of 2 "replicate 2912 0" "SequenceNumber 5" ?calls]
    by (simp only: Let_def) (fastforce simp del: run_calls.simps rb_step.simps rq_step.simps)
qed

end
