(* ===== verification/Receive_Counterexample.thy ===== *)
theory Receive_Counterexample
  imports Receive_Properties "HOL-Library.Code_Target_Nat"
begin

text \<open>
  A defect that the model shows. \<^verbatim>\<open>drop_peer_requested_range\<close> must not erase a complete message
  that arrived before the request (\<^verbatim>\<open>receive_buffer.hpp\<close>). \<^verbatim>\<open>drop_range_impl\<close> remembers only the
  first message it preserves. When that one is a rejected message, trimming removes it, the
  remembered sequence number falls behind the window, and the frontier moves past every later
  preserved message: here the complete message 3 can no longer be delivered, while its slot stays
  occupied. The storage of the buffer may have any content.
\<close>

lemma peer_drop_passes_kept_message:
  "let b = the (make_ReceiveBuffer storage (SequenceNumber 0) 4);
       b = snd (rb_insert b (solo_packet 1 [11]));
       b = snd (rb_insert b (solo_packet 3 [33]));
       b = rb_discard_message_payload b (SequenceNumber 1);
       b = snd (snd (rb_drop_peer_requested_range b (make_range (SequenceNumber 0) (SequenceNumber 3))))
   in rb_first_stored_sequence b = SequenceNumber 4 \<and> rb_occupied b = 1 \<and> fst (rb_pop_message b [0]) = Inl would_block"
  by code_simp

end
