(* ===== verification/Spec2Isabelle.thy ===== *)
theory Spec2Isabelle
  imports SRT_Prelude Sequence Wire Packet_Codec Control_Codec Receive_Window Array_Loops Loss_List Loss_List_Correct Loss_List_Reports Loss_List_Properties Rtt Live_Rate Timers Tsbpd Payload_Pool Range_Drop_Queue Fenwick Send_Buffer Send_Buffer_Inv Send_Buffer_Ops Send_Buffer_Queues Send_Buffer_Retire Send_Buffer_Drops Send_Buffer_Properties Bit_Index Rejected_Messages Receive_Buffer Receive_Buffer_Inv Receive_Queue Receive_Queue_Ops Receive_Delivery Group_Clock Receive_Drops Receive_Ranges Receive_Keeps Receive_Stream Receive_Properties Receive_Counterexample
begin

text \<open>
  A verification development for the data path of an SRT transport: the code under
  \<^verbatim>\<open>src/include/robotweax/srt\<close> and \<^verbatim>\<open>src/src\<close> that numbers, encodes, buffers, retransmits, orders,
  times and delivers packets.

  \<^bold>\<open>The program and its parts.\<close> A sender splits messages into packets and keeps them in a send
  buffer until they are acknowledged; a pacer and a rate controller say when to send. A receiver
  decodes datagrams, puts the packets into a receive buffer, keeps a list of the missing ones for
  its loss reports, and delivers messages at the time its playout clock gives. Control packets
  carry acknowledgements, loss reports and drop requests; timers and round-trip estimates decide
  when they are due. Here is which theory models which part.

  \<^item> \<open>SRT_Prelude\<close>: types and generic facts (errors as a sum type, rings over lists, serial number
    arithmetic as the locale \<open>serial_arith\<close>). \<open>Sequence\<close> (\<^verbatim>\<open>sequence.hpp\<close>) has the 31-bit sequence
    numbers and 32-bit timestamps and interprets that locale for both; within half the range the
    wrapped comparison is a linear order.
  \<^item> \<open>Wire\<close>, \<open>Packet_Codec\<close> (\<^verbatim>\<open>codec.cpp\<close>, \<^verbatim>\<open>packet.hpp\<close>, payload budgets of \<^verbatim>\<open>crypto.hpp\<close>) and
    \<open>Control_Codec\<close> (\<^verbatim>\<open>control.cpp\<close>): encoders and decoders over byte lists. Both directions of the
    round trips, with every refusal; the loss report normaliser keeps the set of sequence numbers.
  \<^item> \<open>Receive_Window\<close> (\<^verbatim>\<open>reliability.cpp\<close>): the window of received flags refines the set of packets
    computed from the arrivals alone. \<open>Array_Loops\<close>, \<open>Loss_List\<close>, \<open>Loss_List_Correct\<close>,
    \<open>Loss_List_Reports\<close>, \<open>Loss_List_Properties\<close> (\<^verbatim>\<open>reliability.cpp\<close>): the loss list with its
    element-moving loops refines the set of missing packets through arrivals, removals, range
    removals, batches and reports, and its counters are exact (locale \<open>loss_ledger\<close>).
  \<^item> \<open>Rtt\<close> (\<^verbatim>\<open>rtt.cpp\<close>): smoothed round-trip time and variance stay within the bounds of the samples;
    the table of sent acknowledgements (locale \<open>sent_table\<close>) gives exact samples.
  \<^item> \<open>Live_Rate\<close> (\<^verbatim>\<open>live.cpp\<close>): arrival-rate rings against the full history, pacing rate and packet
    interval, and the drift sampler with its 64-bit sums.
  \<^item> \<open>Timers\<close> (\<^verbatim>\<open>timing.cpp\<close>): control timers, retransmission timer, pacer on both platform schedules,
    wake-up monitor. \<open>Tsbpd\<close> (\<^verbatim>\<open>timing.cpp\<close>): the playout clock; \<open>Group_Clock\<close>: the clock that the
    members of a bonding group share, with the shared objects in an explicit store.
  \<^item> \<open>Payload_Pool\<close> (\<^verbatim>\<open>payload_pool.cpp\<close>, locale \<open>slab_pool\<close>), \<open>Range_Drop_Queue\<close>
    (\<^verbatim>\<open>range_drop_queue.hpp\<close>) and \<open>Fenwick\<close> serve the buffers. \<open>Send_Buffer\<close> (\<^verbatim>\<open>send_buffer.cpp\<close>) has
    every member function; \<open>Send_Buffer_Inv\<close>, \<open>Send_Buffer_Ops\<close>, \<open>Send_Buffer_Queues\<close>,
    \<open>Send_Buffer_Retire\<close> and \<open>Send_Buffer_Drops\<close> prove that each operation keeps the invariant, and
    \<open>Send_Buffer_Properties\<close> states what that gives: exact counters, fragmentation round trip,
    acknowledgement, validation of reported ranges, expiry.
  \<^item> \<open>Bit_Index\<close> (occupancy index), \<open>Rejected_Messages\<close> (trie of rejected messages, locale
    \<open>message_bag\<close>) and \<open>Receive_Buffer\<close> (\<^verbatim>\<open>receive_buffer.cpp\<close>, every member function).
    \<open>Receive_Buffer_Inv\<close> has the invariant, \<open>Receive_Queue\<close> the abstract queue of cells, and
    \<open>Receive_Queue_Ops\<close>, \<open>Receive_Delivery\<close>, \<open>Receive_Drops\<close>, \<open>Receive_Ranges\<close>, \<open>Receive_Keeps\<close> and
    \<open>Receive_Stream\<close> prove operation by operation that the buffer refines it;
    \<open>Receive_Properties\<close> composes them over arbitrary runs. \<open>Receive_Counterexample\<close> evaluates a
    run in which a peer's drop request loses a message that it had to keep.

  \<^bold>\<open>How the code is read.\<close> A class is a record whose field names carry the initials of the class
  (\<open>rb_\<close> for \<^verbatim>\<open>ReceiveBuffer\<close>), a member function is a function from the record to its result and
  the new record, an \<^verbatim>\<open>Error\<close> result is the left side of a sum. Unsigned integers of a fixed width
  are words and wrap; \<^verbatim>\<open>std::size_t\<close> is \<open>nat\<close>, reduced where the source can exceed its width. Signed
  integers are \<open>int\<close>: the drift sampler reduces every 64-bit result, elsewhere the statements carry
  the bounds (\<open>clock_bounds\<close> and the like) under which signed arithmetic is exact. Spans are byte
  lists; an output span is returned updated.

  \<^bold>\<open>Loops.\<close> Loops over an index are structural recursions or functions with a termination proof. The
  trimming loop and the stream delivery of the receive buffer get one round per slot and one more;
  every round but the last removes a slot from the window, and lemmas on the abstract queue
  (\<open>rq_trim_stops\<close>, \<open>rq_stream_fuel\<close>) show that the rounds suffice. Gap marking gets one round per sequence number of its range. The
  forwarding of a shared clock is a partial function, whose result is proved to exist for every
  history of a group.

  \<^bold>\<open>What the theorems span.\<close> Statements about containers quantify over all reachable states or all
  sequences of operations, not over single steps: the loss list, the send buffer, the payload
  pool, the receive window, the receive buffer and the group clock. The run theorem of the receive
  buffer covers insertion, search, rejection, ordered and stream delivery, gap marks, discards and
  drops; unordered delivery is refined given the message that the delivery query names, and peer
  drops are shown to keep complete messages when no message is being rejected.

  \<^bold>\<open>Not modelled.\<close> The session that composes these parts with cryptography and callbacks, connection
  set-up and rendezvous, forward error correction, bonding group membership, the file mode, the
  C interface, sockets, threads and the compatibility runtime. They are I/O, concurrent, rest on
  third-party cryptography, or lie outside the data path. Allocation failure, diagnostic traces
  and the work counters that only tests read are left out of the modelled classes.
\<close>

end
